(* ===== verification/Prelude.thy ===== *)
theory Prelude
  imports "HOL-Library.Word" "HOL-Library.Monad_Syntax"
begin

text \<open>
  Shared notation and automation of the shecc development: the C integer type, its
  signed comparisons and shifts, the little-endian bytes of an integer, and generic
  lemmas on words, lists and the option monad.

  A C \<open>int\<close> of the compiler is a 32-bit word read in two's complement; \<open>+\<close>, \<open>-\<close>,
  \<open>*\<close> and \<open><<\<close> wrap as the hosts the project builds with do. A call to
  \<open>fatal()\<close> or \<open>abort()\<close> ends the compiler: it is the value \<open>None\<close> of an
  \<open>option\<close> result.
\<close>

unbundle bit_operations_syntax

named_theorems encode_defs "definitions of the instruction encoders"
named_theorems ph2_simps "evaluation rules of the phase-2 IR semantics"

section \<open>C integers\<close>

type_synonym cint = "32 word"

text \<open>Signed comparisons, \<open>a < b\<close> and \<open>a <= b\<close> of C on \<open>int\<close>.\<close>

abbreviation lt_s :: "cint \<Rightarrow> cint \<Rightarrow> bool" where
  "lt_s a b \<equiv> word_sless a b"

abbreviation le_s :: "cint \<Rightarrow> cint \<Rightarrow> bool" where
  "le_s a b \<equiv> word_sle a b"

text \<open>\<open>a << n\<close>, and the arithmetic \<open>a >> n\<close> of a signed operand.\<close>

abbreviation shl :: "cint \<Rightarrow> nat \<Rightarrow> cint" where
  "shl a n \<equiv> push_bit n a"

abbreviation sar :: "cint \<Rightarrow> nat \<Rightarrow> cint" where
  "sar a n \<equiv> signed_drop_bit n a"

text \<open>The value 1 or 0 of a C comparison.\<close>

definition of_bool_c :: "bool \<Rightarrow> cint" where
  "of_bool_c b = (if b then 1 else 0)"

lemma of_bool_c_simps [simp]: "of_bool_c True = 1" "of_bool_c False = 0"
  by (simp_all add: of_bool_c_def)

text \<open>\<open>if (!c) fatal(...)\<close>.\<close>

definition require :: "bool \<Rightarrow> unit option" where
  "require c = (if c then Some () else None)"

lemma require_simps [simp]: "require True = Some ()" "require False = None"
  by (simp_all add: require_def)

lemma require_bind_Some [simp]:
  "require c \<bind> f = Some x \<longleftrightarrow> c \<and> f () = Some x"
  by (simp add: require_def)

lemma lt_s_sint: "lt_s a b \<longleftrightarrow> sint a < sint b"
  by (simp add: word_sless_alt)

lemma le_s_sint: "le_s a b \<longleftrightarrow> sint a \<le> sint b"
  by (simp add: word_sle_eq)

lemma sint_range: "- (2 ^ 31) \<le> sint (a::cint)" "sint (a::cint) < 2 ^ 31"
  using sint_greater_eq [of a] sint_less [of a] by simp_all

text \<open>The signed value through the unsigned one.\<close>

lemma sint_uint_if:
  "sint (a::cint) = (if uint a < 2 ^ 31 then uint a else uint a - 2 ^ 32)"
proof -
  have u: "0 \<le> uint a" "uint a < 2 ^ 32"
    using uint_lt2p [of a] by simp_all
  have "sint a = (uint a + 2 ^ 31) mod 2 ^ 32 - 2 ^ 31"
    by (simp add: sint_uint signed_take_bit_eq_take_bit_shift take_bit_eq_mod)
  moreover have "(uint a + 2 ^ 31) mod 2 ^ 32 = uint a + 2 ^ 31" if "uint a < 2 ^ 31"
    using u that by (simp add: mod_pos_pos_trivial)
  moreover have "(uint a + 2 ^ 31) mod 2 ^ 32 = uint a - 2 ^ 31" if "\<not> uint a < 2 ^ 31"
  proof -
    have "(uint a + 2 ^ 31) mod 2 ^ 32 = (uint a - 2 ^ 31 + 2 ^ 32) mod 2 ^ 32"
      by (simp add: add.commute)
    also have "\<dots> = (uint a - 2 ^ 31) mod 2 ^ 32"
      by (rule mod_add_self2)
    also have "\<dots> = uint a - 2 ^ 31"
      using u that by (simp add: mod_pos_pos_trivial)
    finally show ?thesis .
  qed
  ultimately show ?thesis by simp
qed

lemma sint_nonneg_uint: "0 \<le> sint (a::cint) \<Longrightarrow> sint a = uint a"
  using uint_lt2p [of a] by (simp add: sint_uint_if split: if_splits)

lemma sint_power: "n < 31 \<Longrightarrow> sint (2 ^ n :: cint) = 2 ^ n"
proof -
  assume n: "n < 31"
  have "(2::int) ^ n < 2 ^ 31"
    using n by (intro power_strict_increasing) simp_all
  moreover have "uint (of_int (2 ^ n) :: cint) = take_bit 32 (2 ^ n)"
    by (simp add: unsigned_of_int del: of_int_power)
  then have "uint (2 ^ n :: cint) = 2 ^ n"
    using n by (simp add: take_bit_int_eq_self_iff less_imp_le)
  ultimately show ?thesis
    by (simp add: sint_uint_if)
qed

lemma sint_small: "j < 2 ^ 31 \<Longrightarrow> sint (of_nat j :: cint) = int j"
  by (simp add: sint_uint_if unsigned_of_nat take_bit_nat_eq_self_iff) (simp add: take_bit_eq_mod)

lemma of_nat_less_s:
  assumes "i < 2 ^ 31" "j < 2 ^ 31"
  shows "lt_s (of_nat i) (of_nat j) \<longleftrightarrow> i < j" "le_s (of_nat i) (of_nat j) \<longleftrightarrow> i \<le> j"
  using assms by (simp_all add: lt_s_sint le_s_sint sint_small)

lemma uint_eq_unat: "uint (a::cint) = int (unat a)"
  by simp

end
