(* ===== verification/Machine.thy ===== *)
theory Machine
  imports Prelude
begin

text \<open>
  Values and memory as every semantics of the development uses them: sign extension, byte
  memory with little-endian access, and truncating signed division.
\<close>

definition sext :: "nat \<Rightarrow> nat \<Rightarrow> cint" where
  "sext n k = (if k < 2 ^ (n - 1) then of_nat k else of_nat k - of_nat (2 ^ n))"

text \<open>Little-endian access to byte memory, 1, 2 or 4 bytes at a time.\<close>

fun mem_bytes :: "(cint \<Rightarrow> 8 word) \<Rightarrow> cint \<Rightarrow> nat \<Rightarrow> nat" where
  "mem_bytes m a 0 = 0"
| "mem_bytes m a (Suc n) = unat (m a) + 256 * mem_bytes m (a + 1) n"

fun mem_write :: "(cint \<Rightarrow> 8 word) \<Rightarrow> cint \<Rightarrow> nat \<Rightarrow> nat \<Rightarrow> (cint \<Rightarrow> 8 word)" where
  "mem_write m a 0 v = m"
| "mem_write m a (Suc n) v = mem_write (m(a := of_nat v)) (a + 1) n (v div 256)"

definition load_val :: "(cint \<Rightarrow> 8 word) \<Rightarrow> nat \<Rightarrow> bool \<Rightarrow> cint \<Rightarrow> cint" where
  "load_val m n sg a = (if sg then sext (8 * n) (mem_bytes m a n) else of_nat (mem_bytes m a n))"

definition store_val :: "(cint \<Rightarrow> 8 word) \<Rightarrow> nat \<Rightarrow> cint \<Rightarrow> cint \<Rightarrow> (cint \<Rightarrow> 8 word)" where
  "store_val m n a v = mem_write m a n (unat v)"

text \<open>Signed division truncates; the corner cases are those of the M extension.\<close>

definition sdiv_trunc :: "int \<Rightarrow> int \<Rightarrow> int" where
  "sdiv_trunc a b = sgn a * sgn b * (\<bar>a\<bar> div \<bar>b\<bar>)"

definition srem_trunc :: "int \<Rightarrow> int \<Rightarrow> int" where
  "srem_trunc a b = sgn a * (\<bar>a\<bar> mod \<bar>b\<bar>)"

text \<open>What is stored is what is loaded.\<close>

lemma mem_write_other:
  "(\<And>i. i < n \<Longrightarrow> x \<noteq> a + of_nat i) \<Longrightarrow> mem_write m a n v x = m x"
proof (induction n arbitrary: m a v)
  case (Suc n)
  have "x \<noteq> a"
    using Suc.prems [of 0] by simp
  moreover have "mem_write (m(a := of_nat v)) (a + 1) n (v div 256) x = (m(a := of_nat v)) x"
    using Suc.prems [of "Suc _"] by (intro Suc.IH) (simp add: add.assoc)
  ultimately show ?case by simp
qed simp

lemma word_ne_offset: "Suc i < 2 ^ 32 \<Longrightarrow> (a :: cint) \<noteq> a + 1 + of_nat i"
proof
  assume i: "Suc i < 2 ^ 32" and "a = a + 1 + of_nat i"
  then have "(of_nat (Suc i) :: cint) = 0"
    by (simp add: add.assoc)
  then have "unat (of_nat (Suc i) :: cint) = 0"
    by simp
  with i show False
    by (simp only: unat_of_nat) simp
qed

lemma mem_bytes_write:
  "n < 2 ^ 32 \<Longrightarrow> mem_bytes (mem_write m a n v) a n = v mod 256 ^ n"
proof (induction n arbitrary: m a v)
  case (Suc n)
  have "mem_write (m(a := of_nat v)) (a + 1) n (v div 256) a = (m(a := of_nat v)) a"
    using Suc.prems by (intro mem_write_other word_ne_offset) simp
  moreover have "unat (of_nat v :: 8 word) = v mod 256"
    by (simp add: unat_of_nat)
  moreover have "mem_bytes (mem_write (m(a := of_nat v)) (a + 1) n (v div 256)) (a + 1) n = v div 256 mod 256 ^ n"
    using Suc by simp
  ultimately show ?case
    by (simp add: mod_mult2_eq add.commute)
qed simp

lemma load_store_same: "load_val (store_val m 4 a v) 4 True a = v"
proof -
  have "unat v < 2 ^ 32" using unsigned_less [of v] by simp
  then have "mem_bytes (store_val m 4 a v) a 4 = unat v"
    by (simp add: store_val_def mem_bytes_write)
  then show ?thesis
    by (simp add: load_val_def sext_def)
qed

text \<open>A second store to the same place hides the first; storing what is there changes nothing.\<close>

lemma mem_write_upd_other:
  "(\<And>i. i < n \<Longrightarrow> x \<noteq> a + of_nat i) \<Longrightarrow> mem_write (m(x := v)) a n k = (mem_write m a n k)(x := v)"
proof (induction n arbitrary: m a k)
  case (Suc n)
  have "x \<noteq> a"
    using Suc.prems [of 0] by simp
  then have tw: "(m(x := v))(a := of_nat k) = (m(a := of_nat k))(x := v)"
    by (rule fun_upd_twist)
  have "x \<noteq> a + 1 + of_nat i" if "i < n" for i
    using Suc.prems [of "Suc i"] that by (simp add: add.assoc)
  from Suc.IH [of "a + 1" "m(a := of_nat k)", OF this] show ?case
    unfolding mem_write.simps tw .
qed simp

lemma mem_write_again:
  "n < 2 ^ 32 \<Longrightarrow> mem_write (mem_write m a n v) a n w = mem_write m a n w"
proof (induction n arbitrary: m a v w)
  case (Suc n)
  have ne: "i < n \<Longrightarrow> a \<noteq> a + 1 + of_nat i" for i
    using Suc.prems by (intro word_ne_offset) simp
  have "mem_write ((mem_write (m(a := of_nat v)) (a + 1) n (v div 256))(a := of_nat w)) (a + 1) n (w div 256)
      = (mem_write (mem_write (m(a := of_nat v)) (a + 1) n (v div 256)) (a + 1) n (w div 256))(a := of_nat w)"
    using ne by (rule mem_write_upd_other)
  also have "\<dots> = (mem_write (m(a := of_nat v)) (a + 1) n (w div 256))(a := of_nat w)"
    using Suc by simp
  also have "\<dots> = mem_write ((m(a := of_nat v))(a := of_nat w)) (a + 1) n (w div 256)"
    using ne by (rule mem_write_upd_other [symmetric])
  finally show ?case by simp
qed simp

lemma store_again: "store_val (store_val m 4 a v) 4 a w = store_val m 4 a w"
  by (simp add: store_val_def mem_write_again)

lemma mem_write_bytes: "mem_write m a n (mem_bytes m a n) = m"
proof (induction n arbitrary: a)
  case (Suc n)
  have "unat (m a) < 256"
    using unsigned_less [of "m a"] by simp
  then have "(unat (m a) + 256 * mem_bytes m (a + 1) n) div 256 = mem_bytes m (a + 1) n"
    by simp
  moreover have z: "(256 :: 8 word) = 0"
    using unat_of_nat [of 256, where 'a = 8] by (simp add: unsigned_eq_0_iff)
  have "256 * x = (0 :: 8 word)" for x
    by (simp only: z mult_zero_left)
  then have "m(a := of_nat (unat (m a) + 256 * mem_bytes m (a + 1) n)) = m"
    by (simp add: fun_upd_idem)
  ultimately show ?case
    using Suc by simp
qed simp

lemma mem_bytes_less: "mem_bytes m a n < 256 ^ n"
proof (induction n arbitrary: a)
  case (Suc n)
  have "unat (m a) < 256"
    using unsigned_less [of "m a"] by simp
  then show ?case
    using Suc [of "a + 1"] by simp
qed simp

lemma store_load_same: "store_val m 4 a (load_val m 4 True a) = m"
proof -
  have "unat (of_nat (mem_bytes m a 4) :: cint) = mem_bytes m a 4"
    using mem_bytes_less [of m a 4] by (simp add: unat_of_nat)
  moreover have "load_val m 4 True a = of_nat (mem_bytes m a 4)"
    by (simp add: load_val_def sext_def)
  ultimately show ?thesis
    by (simp add: store_val_def mem_write_bytes)
qed

end
