(* ===== verification/RiscvIsa.thy ===== *)
theory RiscvIsa
  imports Machine
begin

text \<open>
  The part of the RV32IM instruction set the compiler emits, as the abstract
  specification the encoder and the code generator are compared with: the instruction
  fields of a 32-bit word, a decoder, the effect of one instruction on a machine state,
  and execution of a list of instruction words from its first word on. Nothing in this
  theory models code of the repository; it states the published instruction set for
  the words that \<^verbatim>\<open>src/riscv.c\<close> produces.
\<close>

section \<open>Fields\<close>

definition fld :: "cint \<Rightarrow> nat \<Rightarrow> nat \<Rightarrow> nat" where
  "fld w lo len = (unat w div 2 ^ lo) mod 2 ^ len"

definition imm_I :: "cint \<Rightarrow> cint" where
  "imm_I w = sext 12 (fld w 20 12)"

definition imm_S :: "cint \<Rightarrow> cint" where
  "imm_S w = sext 12 (fld w 7 5 + 32 * fld w 25 7)"

definition imm_B :: "cint \<Rightarrow> cint" where
  "imm_B w = sext 13 (2 * fld w 8 4 + 2 ^ 5 * fld w 25 6 + 2 ^ 11 * fld w 7 1 + 2 ^ 12 * fld w 31 1)"

definition imm_J :: "cint \<Rightarrow> cint" where
  "imm_J w = sext 21 (2 * fld w 21 10 + 2 ^ 11 * fld w 20 1 + 2 ^ 12 * fld w 12 8 + 2 ^ 20 * fld w 31 1)"

definition imm_U :: "cint \<Rightarrow> cint" where
  "imm_U w = of_nat (2 ^ 12 * fld w 12 20)"

section \<open>Instructions\<close>

datatype (plugins only: code size) rv_alu =
    A_add | A_sub | A_sll | A_slt | A_sltu | A_xor | A_srl | A_sra | A_or | A_and
  | A_mul | A_div | A_rem

datatype rv_cmp = C_eq | C_ne | C_lt | C_ge | C_ltu | C_geu

datatype (plugins only: code size) rv_insn =
    I_alu rv_alu nat nat nat
  | I_alui rv_alu nat nat cint
  | I_load nat bool nat nat cint
  | I_store nat nat nat cint
  | I_branch rv_cmp nat nat cint
  | I_jal nat cint
  | I_jalr nat nat cint
  | I_lui nat cint
  | I_auipc nat cint
  | I_ecall

definition alu_of :: "nat \<Rightarrow> nat \<Rightarrow> rv_alu option" where
  "alu_of f7 f3 =
     (if f7 = 0 then
        Some (if f3 = 0 then A_add else if f3 = 1 then A_sll else if f3 = 2 then A_slt
              else if f3 = 3 then A_sltu else if f3 = 4 then A_xor else if f3 = 5 then A_srl
              else if f3 = 6 then A_or else A_and)
      else if f7 = 32 \<and> f3 = 0 then Some A_sub
      else if f7 = 32 \<and> f3 = 5 then Some A_sra
      else if f7 = 1 \<and> f3 = 0 then Some A_mul
      else if f7 = 1 \<and> f3 = 4 then Some A_div
      else if f7 = 1 \<and> f3 = 6 then Some A_rem
      else None)"

definition cmp_of :: "nat \<Rightarrow> rv_cmp option" where
  "cmp_of f3 =
     (if f3 = 0 then Some C_eq else if f3 = 1 then Some C_ne else if f3 = 4 then Some C_lt
      else if f3 = 5 then Some C_ge else if f3 = 6 then Some C_ltu
      else if f3 = 7 then Some C_geu else None)"

definition decode_alui :: "cint \<Rightarrow> rv_insn option" where
  "decode_alui w =
     (let rd = fld w 7 5; f3 = fld w 12 3; rs1 = fld w 15 5; f7 = fld w 25 7;
          shamt = of_nat (fld w 20 5)
      in if f3 = 1 then (if f7 = 0 then Some (I_alui A_sll rd rs1 shamt) else None)
         else if f3 = 5 then
           (if f7 = 0 then Some (I_alui A_srl rd rs1 shamt)
            else if f7 = 32 then Some (I_alui A_sra rd rs1 shamt) else None)
         else map_option (\<lambda>a. I_alui a rd rs1 (imm_I w)) (alu_of 0 f3))"

definition decode_load :: "cint \<Rightarrow> rv_insn option" where
  "decode_load w =
     (let rd = fld w 7 5; f3 = fld w 12 3; rs1 = fld w 15 5
      in if f3 = 0 then Some (I_load 1 True rd rs1 (imm_I w))
         else if f3 = 1 then Some (I_load 2 True rd rs1 (imm_I w))
         else if f3 = 2 then Some (I_load 4 True rd rs1 (imm_I w))
         else if f3 = 4 then Some (I_load 1 False rd rs1 (imm_I w))
         else if f3 = 5 then Some (I_load 2 False rd rs1 (imm_I w))
         else None)"

definition decode_store :: "cint \<Rightarrow> rv_insn option" where
  "decode_store w =
     (let f3 = fld w 12 3; rs1 = fld w 15 5; rs2 = fld w 20 5
      in if f3 = 0 then Some (I_store 1 rs2 rs1 (imm_S w))
         else if f3 = 1 then Some (I_store 2 rs2 rs1 (imm_S w))
         else if f3 = 2 then Some (I_store 4 rs2 rs1 (imm_S w))
         else None)"

definition rv_decode :: "cint \<Rightarrow> rv_insn option" where
  "rv_decode w =
     (let opc = fld w 0 7; rd = fld w 7 5; f3 = fld w 12 3; rs1 = fld w 15 5;
          rs2 = fld w 20 5; f7 = fld w 25 7
      in if opc = 51 then map_option (\<lambda>a. I_alu a rd rs1 rs2) (alu_of f7 f3)
         else if opc = 19 then decode_alui w
         else if opc = 3 then decode_load w
         else if opc = 35 then decode_store w
         else if opc = 99 then map_option (\<lambda>c. I_branch c rs1 rs2 (imm_B w)) (cmp_of f3)
         else if opc = 111 then Some (I_jal rd (imm_J w))
         else if opc = 103 \<and> f3 = 0 then Some (I_jalr rd rs1 (imm_I w))
         else if opc = 55 then Some (I_lui rd (imm_U w))
         else if opc = 23 then Some (I_auipc rd (imm_U w))
         else if w = 115 then Some I_ecall
         else None)"

section \<open>Machine state and execution\<close>

record rv_state =
  xreg :: "nat \<Rightarrow> cint"
  rmem :: "cint \<Rightarrow> 8 word"
  rpc :: cint

definition getx :: "rv_state \<Rightarrow> nat \<Rightarrow> cint" where
  "getx s r = (if r = 0 then 0 else xreg s r)"

definition setx :: "rv_state \<Rightarrow> nat \<Rightarrow> cint \<Rightarrow> rv_state" where
  "setx s r v = (if r = 0 then s else s\<lparr>xreg := (xreg s)(r := v)\<rparr>)"

definition nextpc :: "rv_state \<Rightarrow> rv_state" where
  "nextpc s = s\<lparr>rpc := rpc s + 4\<rparr>"

fun alu_fun :: "rv_alu \<Rightarrow> cint \<Rightarrow> cint \<Rightarrow> cint" where
  "alu_fun A_add a b = a + b"
| "alu_fun A_sub a b = a - b"
| "alu_fun A_sll a b = push_bit (unat b mod 32) a"
| "alu_fun A_slt a b = of_bool_c (lt_s a b)"
| "alu_fun A_sltu a b = of_bool_c (a < b)"
| "alu_fun A_xor a b = a XOR b"
| "alu_fun A_srl a b = drop_bit (unat b mod 32) a"
| "alu_fun A_sra a b = signed_drop_bit (unat b mod 32) a"
| "alu_fun A_or a b = a OR b"
| "alu_fun A_and a b = a AND b"
| "alu_fun A_mul a b = a * b"
| "alu_fun A_div a b = (if b = 0 then -1 else of_int (sdiv_trunc (sint a) (sint b)))"
| "alu_fun A_rem a b = (if b = 0 then a else of_int (srem_trunc (sint a) (sint b)))"

fun cmp_fun :: "rv_cmp \<Rightarrow> cint \<Rightarrow> cint \<Rightarrow> bool" where
  "cmp_fun C_eq a b \<longleftrightarrow> a = b"
| "cmp_fun C_ne a b \<longleftrightarrow> a \<noteq> b"
| "cmp_fun C_lt a b \<longleftrightarrow> lt_s a b"
| "cmp_fun C_ge a b \<longleftrightarrow> \<not> lt_s a b"
| "cmp_fun C_ltu a b \<longleftrightarrow> a < b"
| "cmp_fun C_geu a b \<longleftrightarrow> \<not> a < b"

fun rv_exec :: "rv_insn \<Rightarrow> rv_state \<Rightarrow> rv_state option" where
  "rv_exec (I_alu f rd rs1 rs2) s =
     Some (nextpc (setx s rd (alu_fun f (getx s rs1) (getx s rs2))))"
| "rv_exec (I_alui f rd rs1 i) s = Some (nextpc (setx s rd (alu_fun f (getx s rs1) i)))"
| "rv_exec (I_load n sg rd rs1 i) s =
     Some (nextpc (setx s rd (load_val (rmem s) n sg (getx s rs1 + i))))"
| "rv_exec (I_store n rs2 rs1 i) s =
     Some (nextpc (s\<lparr>rmem := store_val (rmem s) n (getx s rs1 + i) (getx s rs2)\<rparr>))"
| "rv_exec (I_branch c rs1 rs2 i) s =
     Some (if cmp_fun c (getx s rs1) (getx s rs2) then s\<lparr>rpc := rpc s + i\<rparr> else nextpc s)"
| "rv_exec (I_jal rd i) s = Some ((setx s rd (rpc s + 4))\<lparr>rpc := rpc s + i\<rparr>)"
| "rv_exec (I_jalr rd rs1 i) s =
     Some ((setx s rd (rpc s + 4))\<lparr>rpc := (getx s rs1 + i) AND NOT 1\<rparr>)"
| "rv_exec (I_lui rd i) s = Some (nextpc (setx s rd i))"
| "rv_exec (I_auipc rd i) s = Some (nextpc (setx s rd (rpc s + i)))"
| "rv_exec I_ecall s = None"

text \<open>
  Execution of a code sequence placed at address \<open>base\<close>: the program counter is
  \<open>base + 4 * i\<close> for the \<open>i\<close>-th word. The run stops when control reaches the word
  just after the sequence; \<open>None\<close> is an undecodable word, a system call, a jump
  outside the sequence or no fuel left.
\<close>

definition pc_index :: "cint \<Rightarrow> cint \<Rightarrow> nat option" where
  "pc_index base pc = (if unat (pc - base) mod 4 = 0 then Some (unat (pc - base) div 4) else None)"

fun rv_run :: "nat \<Rightarrow> cint \<Rightarrow> cint list \<Rightarrow> rv_state \<Rightarrow> rv_state option" where
  "rv_run 0 base ws s = None"
| "rv_run (Suc n) base ws s =
     (case pc_index base (rpc s) of
        None \<Rightarrow> None
      | Some i \<Rightarrow>
          if i = length ws then Some s
          else if i < length ws then
            (case rv_decode (ws ! i) of
               None \<Rightarrow> None
             | Some ins \<Rightarrow> (case rv_exec ins s of None \<Rightarrow> None | Some t \<Rightarrow> rv_run n base ws t))
          else None)"

end
