(* ===== verification/RiscvRun.thy ===== *)
theory RiscvRun
  imports RiscvIsa
begin

text \<open>
  Symbolic execution of short instruction sequences: the step relation over a decoded
  sequence placed at \<open>base\<close>, runs of straight-line segments, single branches, and the
  link to \<open>rv_run\<close>, which fetches and decodes words.
\<close>

definition at_insn :: "cint \<Rightarrow> nat \<Rightarrow> rv_state \<Rightarrow> bool" where
  "at_insn base k t \<longleftrightarrow> rpc t = base + of_nat (4 * k)"

inductive istep :: "cint \<Rightarrow> rv_insn list \<Rightarrow> rv_state \<Rightarrow> rv_state \<Rightarrow> bool"
  for base :: cint and prog :: "rv_insn list"
where
  step: "pc_index base (rpc t) = Some i \<Longrightarrow> i < length prog \<Longrightarrow> rv_exec (prog ! i) t = Some t'
    \<Longrightarrow> istep base prog t t'"

inductive_cases istepE: "istep base prog t t'"

abbreviation reach :: "cint \<Rightarrow> rv_insn list \<Rightarrow> rv_state \<Rightarrow> rv_state \<Rightarrow> bool" where
  "reach base prog \<equiv> (istep base prog)\<^sup>*\<^sup>*"

lemma pc_index_at:
  assumes "at_insn base k t" "k < 1000"
  shows "pc_index base (rpc t) = Some k"
proof -
  have "unat (rpc t - base) = 4 * k"
    using assms by (simp add: at_insn_def unat_of_nat unat_word_ariths)
  then show ?thesis
    by (simp add: pc_index_def)
qed

lemma istep_at:
  "at_insn base k t \<Longrightarrow> k < length prog \<Longrightarrow> length prog < 1000 \<Longrightarrow> rv_exec (prog ! k) t = Some t'
    \<Longrightarrow> istep base prog t t'"
  by (rule istep.step [where i = k]) (simp_all add: pc_index_at)

text \<open>From the step relation to the fuelled run over words.\<close>

lemma istep_run:
  assumes "map rv_decode ws = map Some prog" "istep base prog t t'" "rv_run n base ws t' = Some u"
  shows "rv_run (Suc n) base ws t = Some u"
proof -
  from assms(2) obtain i where i: "pc_index base (rpc t) = Some i" "i < length prog"
    "rv_exec (prog ! i) t = Some t'"
    by (auto elim: istepE)
  have len: "length ws = length prog"
    using map_eq_imp_length_eq [OF assms(1)] .
  have "rv_decode (ws ! i) = Some (prog ! i)"
    using arg_cong [OF assms(1), of "\<lambda>xs. xs ! i"] i(2) len by simp
  with i len assms(3) show ?thesis by simp
qed

lemma reach_run:
  assumes "reach base prog t t'" "map rv_decode ws = map Some prog" "length prog < 1000"
    and "at_insn base (length prog) t'"
  shows "\<exists>n. rv_run n base ws t = Some t'"
  using assms(1)
proof (induction rule: converse_rtranclp_induct)
  case base
  have "length ws = length prog"
    using map_eq_imp_length_eq [OF assms(2)] .
  then have "rv_run (Suc 0) base ws t' = Some t'"
    using pc_index_at [OF assms(4,3)] by simp
  then show ?case by blast
next
  case (step y z)
  then show ?case
    using istep_run [OF assms(2)] by blast
qed

section \<open>Straight-line segments\<close>

fun straight :: "rv_insn \<Rightarrow> bool" where
  "straight (I_branch c r1 r2 i) = False"
| "straight (I_jal rd i) = False"
| "straight (I_jalr rd r1 i) = False"
| "straight (I_auipc rd i) = False"
| "straight I_ecall = False"
| "straight _ = True"

fun exec_seq :: "rv_insn list \<Rightarrow> rv_state \<Rightarrow> rv_state option" where
  "exec_seq [] t = Some t"
| "exec_seq (i # is) t = (case rv_exec i t of None \<Rightarrow> None | Some t1 \<Rightarrow> exec_seq is t1)"

lemma rpc_setx [simp]: "rpc (setx t r v) = rpc t"
  by (simp add: setx_def)

lemma straight_next: "straight i \<Longrightarrow> rv_exec i t = Some t' \<Longrightarrow> rpc t' = rpc t + 4"
  by (cases i) (auto simp: nextpc_def)

lemma at_next: "at_insn base k t \<Longrightarrow> rpc t' = rpc t + 4 \<Longrightarrow> at_insn base (Suc k) t'"
  by (simp add: at_insn_def)

lemma reach_seq:
  assumes "at_insn base k t" "list_all straight is" "take (length is) (drop k prog) = is"
    and "length prog < 1000" "exec_seq is t = Some t'"
  shows "reach base prog t t' \<and> at_insn base (k + length is) t'"
  using assms
proof (induction "is" arbitrary: k t)
  case Nil
  then show ?case by simp
next
  case (Cons i "is")
  then obtain t1 where t1: "rv_exec i t = Some t1" "exec_seq is t1 = Some t'"
    by (auto split: option.splits)
  have k: "k < length prog"
    using Cons.prems(3) by (cases "k < length prog") auto
  then have dr: "drop k prog = prog ! k # drop (Suc k) prog"
    by (rule Cons_nth_drop_Suc [symmetric])
  with Cons.prems(3) have i: "prog ! k = i" and tk: "take (length is) (drop (Suc k) prog) = is"
    by auto
  have "istep base prog t t1"
    using istep_at [OF Cons.prems(1) k Cons.prems(4)] i t1 by simp
  moreover have "at_insn base (Suc k) t1"
    using at_next [OF Cons.prems(1)] straight_next [OF _ t1(1)] Cons.prems(2) by simp
  then have "reach base prog t1 t' \<and> at_insn base (Suc k + length is) t'"
    using Cons.IH [of "Suc k" t1] Cons.prems t1 tk by simp
  ultimately show ?case
    by (simp add: converse_rtranclp_into_rtranclp)
qed

section \<open>Control transfer\<close>

lemma reach_branch:
  assumes "at_insn base k t" "k < length prog" "length prog < 1000"
    and "prog ! k = I_branch c r1 r2 i"
  shows "reach base prog t (if cmp_fun c (getx t r1) (getx t r2) then t\<lparr>rpc := rpc t + i\<rparr> else nextpc t)"
  by (rule r_into_rtranclp, rule istep_at [OF assms(1-3)]) (simp add: assms(4))

lemma at_branch:
  assumes "at_insn base k t" "i = of_int (4 * d)" "int k + d = int j"
  shows "at_insn base j (t\<lparr>rpc := rpc t + i\<rparr>)"
proof -
  have "(of_nat j :: cint) = of_int (int k + d)"
    using assms(3) by simp
  then have "of_nat (4 * j) = (of_nat (4 * k) + of_int (4 * d) :: cint)"
    by simp
  then show ?thesis
    using assms(1,2) by (simp add: at_insn_def)
qed

lemma at_nextpc: "at_insn base k t \<Longrightarrow> at_insn base (Suc k) (nextpc t)"
  by (rule at_next) (simp_all add: nextpc_def)

lemma xreg_nextpc [simp]: "xreg (nextpc t) = xreg t" "rmem (nextpc t) = rmem t"
  "rpc (nextpc t) = rpc t + 4"
  by (simp_all add: nextpc_def)

lemma getx_nextpc [simp]: "getx (nextpc t) r = getx t r"
  by (simp add: getx_def)

lemma getx_rpc [simp]: "getx (t\<lparr>rpc := v\<rparr>) r = getx t r"
  by (simp add: getx_def)

lemma getx_rmem [simp]: "getx (t\<lparr>rmem := v\<rparr>) r = getx t r"
  by (simp add: getx_def)

lemma getx_setx [simp]: "getx (setx t r v) q = (if q = r \<and> r \<noteq> 0 then v else getx t q)"
  by (auto simp: getx_def setx_def)

lemma rmem_setx [simp]: "rmem (setx t r v) = rmem t"
  by (simp add: setx_def)

end
