(* ===== verification/RiscvIndex.thy ===== *)
theory RiscvIndex
  imports RiscvRun
begin

text \<open>
  Execution of a short loop by instruction index: \<open>xrun\<close> runs a given number of
  instructions of a sequence and keeps the index of the next one, so that a pass through a
  loop body is evaluated by the simplifier. \<open>xrun_reach\<close> turns such a run into a run of
  the machine.
\<close>

definition xjump :: "rv_insn list \<Rightarrow> nat \<Rightarrow> cint \<Rightarrow> nat option" where
  "xjump prog k i =
     (let j = int k + sint i div 4
      in if sint i mod 4 = 0 \<and> 0 \<le> j \<and> j \<le> int (length prog) then Some (nat j) else None)"

fun xstep :: "rv_insn list \<Rightarrow> nat \<Rightarrow> rv_insn \<Rightarrow> rv_state \<Rightarrow> (nat \<times> rv_state) option" where
  "xstep prog k (I_branch c r1 r2 i) t =
     (if cmp_fun c (getx t r1) (getx t r2) then map_option (\<lambda>j. (j, t)) (xjump prog k i)
      else Some (Suc k, t))"
| "xstep prog k (I_jal rd i) t =
     (if rd = 0 then map_option (\<lambda>j. (j, t)) (xjump prog k i) else None)"
| "xstep prog k (I_alu f rd rs1 rs2) t = Some (Suc k, setx t rd (alu_fun f (getx t rs1) (getx t rs2)))"
| "xstep prog k (I_alui f rd rs1 i) t = Some (Suc k, setx t rd (alu_fun f (getx t rs1) i))"
| "xstep prog k _ t = None"

fun xrun :: "rv_insn list \<Rightarrow> nat \<Rightarrow> nat \<Rightarrow> rv_state \<Rightarrow> (nat \<times> rv_state) option" where
  "xrun prog 0 k t = Some (k, t)"
| "xrun prog (Suc n) k t =
     (if k < length prog
      then (case xstep prog k (prog ! k) t of None \<Rightarrow> None | Some (k1, t1) \<Rightarrow> xrun prog n k1 t1)
      else None)"

lemma xrun_numeral [simp]:
  "xrun prog (numeral n) k t =
     (if k < length prog
      then (case xstep prog k (prog ! k) t of None \<Rightarrow> None
        | Some (k1, t1) \<Rightarrow> xrun prog (pred_numeral n) k1 t1)
      else None)"
  by (simp add: numeral_eq_Suc)

definition xreach :: "rv_insn list \<Rightarrow> nat \<Rightarrow> rv_state \<Rightarrow> nat \<Rightarrow> rv_state \<Rightarrow> bool" where
  "xreach prog k t k' t' \<longleftrightarrow> (\<exists>n. xrun prog n k t = Some (k', t'))"

lemma xrun_add: "xrun prog (m + n) k t =
    (case xrun prog m k t of None \<Rightarrow> None | Some (k1, t1) \<Rightarrow> xrun prog n k1 t1)"
  by (induction m arbitrary: k t) (auto split: option.split)

lemma xreach_refl: "xreach prog k t k t"
  unfolding xreach_def by (rule exI [of _ 0]) simp

lemma xreach_trans: "xreach prog k t k1 t1 \<Longrightarrow> xreach prog k1 t1 k' t' \<Longrightarrow> xreach prog k t k' t'"
proof -
  assume "xreach prog k t k1 t1" "xreach prog k1 t1 k' t'"
  then obtain m n where "xrun prog m k t = Some (k1, t1)" "xrun prog n k1 t1 = Some (k', t')"
    unfolding xreach_def by blast
  then have "xrun prog (m + n) k t = Some (k', t')"
    by (simp add: xrun_add)
  then show ?thesis
    unfolding xreach_def by blast
qed

lemma xreachI: "xrun prog n k t = Some (k', t') \<Longrightarrow> xreach prog k t k' t'"
  unfolding xreach_def by blast

lemma getx_zero [simp]: "getx t 0 = 0"
  by (simp add: getx_def)

text \<open>States that differ in the program counter only.\<close>

definition pc_eq :: "rv_state \<Rightarrow> rv_state \<Rightarrow> bool" where
  "pc_eq T t \<longleftrightarrow> xreg T = xreg t \<and> rmem T = rmem t"

lemma pc_eq_getx: "pc_eq T t \<Longrightarrow> getx T r = getx t r"
  by (simp add: pc_eq_def getx_def)

lemma pc_eq_simps [simp]: "pc_eq t t" "pc_eq (T\<lparr>rpc := v\<rparr>) t = pc_eq T t" "pc_eq (nextpc T) t = pc_eq T t"
  by (simp_all add: pc_eq_def nextpc_def)

lemma pc_eq_setx: "pc_eq T t \<Longrightarrow> pc_eq (setx T r v) (setx t r v)"
  by (simp add: pc_eq_def setx_def)

lemma xjump_at:
  assumes "at_insn base k T" "xjump prog k i = Some j"
  shows "at_insn base j (T\<lparr>rpc := rpc T + i\<rparr>)"
proof -
  from assms(2) have j: "int k + sint i div 4 = int j" "sint i mod 4 = 0"
    by (auto simp: xjump_def Let_def split: if_splits)
  have "sint i = 4 * (sint i div 4)"
    using j(2) by presburger
  then have "(of_int (sint i) :: cint) = of_int (4 * (sint i div 4))"
    by (rule arg_cong)
  then have "i = of_int (4 * (sint i div 4))"
    by simp
  from at_branch [OF assms(1) this j(1)] show ?thesis .
qed

lemma xstep_istep:
  assumes "xstep prog k (prog ! k) t = Some (k1, t1)" "at_insn base k T" "pc_eq T t"
    and "k < length prog" "length prog < 1000"
  shows "\<exists>T1. istep base prog T T1 \<and> at_insn base k1 T1 \<and> pc_eq T1 t1"
proof -
  note at = istep_at [OF assms(2,4,5)]
  show ?thesis
  proof (cases "prog ! k")
    case (I_alu f rd rs1 rs2)
    with assms at show ?thesis
      by (intro exI [of _ "nextpc (setx T rd (alu_fun f (getx T rs1) (getx T rs2)))"])
        (auto simp: pc_eq_getx intro!: pc_eq_setx at_next)
  next
    case (I_alui f rd rs1 i)
    with assms at show ?thesis
      by (intro exI [of _ "nextpc (setx T rd (alu_fun f (getx T rs1) i))"])
        (auto simp: pc_eq_getx intro!: pc_eq_setx at_next)
  next
    case (I_branch c r1 r2 i)
    with assms at at_nextpc [OF assms(2)] xjump_at [OF assms(2)] show ?thesis
      by (intro exI [of _ "if cmp_fun c (getx T r1) (getx T r2) then T\<lparr>rpc := rpc T + i\<rparr> else nextpc T"])
        (auto simp: pc_eq_getx split: if_split_asm)
  next
    case (I_jal rd i)
    with assms at xjump_at [OF assms(2)] show ?thesis
      by (intro exI [of _ "T\<lparr>rpc := rpc T + i\<rparr>"]) (auto simp: setx_def split: if_split_asm)
  qed (use assms(1) in simp_all)
qed

lemma xrun_reach:
  assumes "xrun prog n k t = Some (k', t')" "at_insn base k T" "pc_eq T t" "length prog < 1000"
  shows "\<exists>T'. reach base prog T T' \<and> at_insn base k' T' \<and> pc_eq T' t'"
  using assms
proof (induction n arbitrary: k t T)
  case 0
  then show ?case by auto
next
  case (Suc n)
  from Suc.prems(1) obtain k1 t1 where x: "xstep prog k (prog ! k) t = Some (k1, t1)"
    "xrun prog n k1 t1 = Some (k', t')" "k < length prog"
    by (auto split: if_split_asm option.split_asm)
  from xstep_istep [OF x(1) Suc.prems(2,3) x(3) Suc.prems(4)] obtain T1 where
    T1: "istep base prog T T1" "at_insn base k1 T1" "pc_eq T1 t1" by blast
  from Suc.IH [OF x(2) T1(2,3) Suc.prems(4)] T1(1) show ?case
    by (blast intro: converse_rtranclp_into_rtranclp)
qed

end
