(* ===== verification/Ir.thy ===== *)
theory Ir
  imports Prelude
begin

text \<open>
  The phase-2 intermediate representation of \<^verbatim>\<open>src/defs.h\<close>: the opcodes, the
  \<open>ph2_ir_t\<close> instruction, basic blocks and functions as the back end sees them.

  Pointers to basic blocks are the block's identity, a \<open>nat\<close>, and \<open>NULL\<close> is
  \<open>None\<close>. The \<open>next\<close> chain of a block's instructions is the list
  \<open>ph2_ir_list\<close>, and the \<open>rpo_next\<close> chain that starts at \<open>func->bbs\<close> is the
  list \<open>bbs\<close>, empty for a declaration without a body.
\<close>

datatype (plugins only: code size) opcode =
    OP_generic | OP_phi | OP_unwound_phi
  | OP_define | OP_push | OP_call | OP_indirect | OP_return
  | OP_allocat | OP_assign | OP_load_constant | OP_load_data_address
  | OP_load_rodata_address
  | OP_branch | OP_jump | OP_func_ret | OP_label
  | OP_address_of_func | OP_load_func | OP_global_load_func
  | OP_address_of | OP_global_address_of | OP_load | OP_global_load
  | OP_store | OP_global_store | OP_read | OP_write
  | OP_add | OP_sub | OP_mul | OP_div | OP_mod | OP_ternary
  | OP_lshift | OP_rshift | OP_log_and | OP_log_or | OP_log_not
  | OP_eq | OP_neq | OP_lt | OP_leq | OP_gt | OP_geq
  | OP_bit_or | OP_bit_and | OP_bit_xor | OP_bit_not | OP_negate
  | OP_trunc | OP_sign_ext | OP_cast
  | OP_start

type_synonym bb_ref = nat

record ph2_ir =
  op :: opcode
  src0 :: cint
  src1 :: cint
  dest :: cint
  func_name :: string
  next_bb :: "bb_ref option"
  then_bb :: "bb_ref option"
  else_bb :: "bb_ref option"
  is_branch_detached :: bool
  ofs_based_on_stack_top :: bool

text \<open>\<open>add_ph2_ir\<close>: a fresh instruction with every other field cleared.\<close>

definition new_ph2_ir :: "opcode \<Rightarrow> ph2_ir" where
  "new_ph2_ir oc =
     \<lparr>op = oc, src0 = 0, src1 = 0, dest = 0, func_name = [],
      next_bb = None, then_bb = None, else_bb = None,
      is_branch_detached = False, ofs_based_on_stack_top = False\<rparr>"

record basic_block =
  bb_id :: bb_ref
  ph2_ir_list :: "ph2_ir list"

record func =
  fname :: string
  stack_size :: cint
  bbs :: "basic_block list"
  plt_offset :: cint

text \<open>
  \<open>FUNC_MAP\<close> as the back end reads it: \<open>find_func\<close> returns \<open>NULL\<close> for an
  unknown name. \<open>func_entry\<close> is the dereference \<open>func->bbs->...\<close>, a crash of
  the compiler when either pointer is \<open>NULL\<close>.
\<close>

type_synonym func_map = "string \<Rightarrow> func option"

definition func_entry :: "func_map \<Rightarrow> string \<Rightarrow> bb_ref option" where
  "func_entry fm nm =
     (case fm nm of
        None \<Rightarrow> None
      | Some f \<Rightarrow> (case bbs f of [] \<Rightarrow> None | b # _ \<Rightarrow> Some (bb_id b)))"

end
