(* ===== verification/Codegen.thy ===== *)
theory Codegen
  imports Ir
begin

text \<open>
  What the two code generators share: the byte buffer \<open>elf_code\<close> and
  \<open>elf_write_int\<close> of \<^verbatim>\<open>src/elf.c\<close>, the globals a generator reads, and the
  sequencing of \<open>emit(...)\<close> calls.

  \<open>elf_code\<close> is the list of bytes written so far. An \<open>emit\<close> call is a function of
  \<open>elf_code->size\<close> at the time of the call, because branch and call offsets are
  computed from it; its value \<open>None\<close> is a call of \<open>fatal()\<close> inside the encoder.
\<close>

type_synonym bytes = "8 word list"

definition e_extract_byte :: "cint \<Rightarrow> nat \<Rightarrow> 8 word" where
  "e_extract_byte v b = ucast (sar v (b * 8) AND 0xFF)"

definition elf_write_int :: "bytes \<Rightarrow> cint \<Rightarrow> bytes" where
  "elf_write_int buf val =
     buf @ [e_extract_byte val 0, e_extract_byte val 1, e_extract_byte val 2, e_extract_byte val 3]"

definition code_size :: "bytes \<Rightarrow> cint" where
  "code_size code = of_nat (length code)"

record cg_env =
  hard_mul_div :: bool
  dynlink :: bool
  find_func :: func_map
  bb_offset :: "bb_ref \<Rightarrow> cint"
  elf_code_start :: cint
  elf_data_start :: cint
  elf_rodata_start :: cint
  elf_plt_start :: cint
  elf_got_start :: cint
  plt_size :: cint

text \<open>\<open>ptr->elf_offset\<close>, a crash when the pointer is \<open>NULL\<close>.\<close>

definition bb_ofs :: "cg_env \<Rightarrow> bb_ref option \<Rightarrow> cint option" where
  "bb_ofs env r = map_option (bb_offset env) r"

definition func_ofs :: "cg_env \<Rightarrow> string \<Rightarrow> cint option" where
  "func_ofs env nm = map_option (bb_offset env) (func_entry (find_func env) nm)"

section \<open>Emission\<close>

type_synonym emitter = "cint \<Rightarrow> cint option"

abbreviation (input) now :: "cint option \<Rightarrow> emitter" where
  "now w \<equiv> (\<lambda>_. w)"

abbreviation (input) word :: "cint \<Rightarrow> emitter" where
  "word w \<equiv> (\<lambda>_. Some w)"

definition emit :: "cint \<Rightarrow> bytes \<Rightarrow> bytes" where
  "emit w code = elf_write_int code w"

fun emits :: "emitter list \<Rightarrow> bytes \<Rightarrow> bytes option" where
  "emits [] code = Some code"
| "emits (e # es) code =
     (case e (code_size code) of None \<Rightarrow> None | Some w \<Rightarrow> emits es (emit w code))"

text \<open>The words an emission sequence writes when it starts at a given size.\<close>

fun emit_words :: "emitter list \<Rightarrow> cint \<Rightarrow> cint list option" where
  "emit_words [] sz = Some []"
| "emit_words (e # es) sz =
     (case e sz of
        None \<Rightarrow> None
      | Some w \<Rightarrow> map_option (\<lambda>ws. w # ws) (emit_words es (sz + 4)))"

definition word_bytes :: "cint \<Rightarrow> bytes" where
  "word_bytes w = elf_write_int [] w"

lemma elf_write_int_append: "elf_write_int buf v = buf @ word_bytes v"
  by (simp add: elf_write_int_def word_bytes_def)

lemma length_word_bytes [simp]: "length (word_bytes w) = 4"
  by (simp add: elf_write_int_def word_bytes_def)

lemma length_emit [simp]: "length (emit w code) = length code + 4"
  by (simp add: emit_def elf_write_int_append)

lemma code_size_emit [simp]: "code_size (emit w code) = code_size code + 4"
  by (simp add: code_size_def)

lemma code_size_bytes [simp]: "code_size (code @ word_bytes w) = code_size code + 4"
  by (simp add: code_size_def)

lemma emits_eq_words:
  "emits es code = map_option (\<lambda>ws. code @ concat (map word_bytes ws)) (emit_words es (code_size code))"
proof (induction es arbitrary: code)
  case Nil
  then show ?case by simp
next
  case (Cons e es)
  show ?case
    by (simp add: Cons.IH option.map_comp o_def emit_def elf_write_int_append split: option.split)
qed

lemma emit_words_length: "emit_words es sz = Some ws \<Longrightarrow> length ws = length es"
  by (induction es arbitrary: sz ws) (auto split: option.splits)

lemma length_concat_word_bytes [simp]: "length (concat (map word_bytes ws)) = 4 * length ws"
  by (induction ws) simp_all

lemma emits_length: "emits es code = Some code' \<Longrightarrow> length code' = length code + 4 * length es"
  by (auto simp: emits_eq_words dest: emit_words_length)

lemma emits_append:
  "emits (es @ fs) code = (case emits es code of None \<Rightarrow> None | Some c \<Rightarrow> emits fs c)"
  by (induction es arbitrary: code) (auto split: option.split)

lemma emits_prefix: "emits es code = Some code' \<Longrightarrow> take (length code) code' = code"
  by (auto simp: emits_eq_words)

text \<open>The four bytes of an integer determine it: \<open>elf_write_int\<close> is little-endian.\<close>

definition read_int :: "bytes \<Rightarrow> nat \<Rightarrow> cint" where
  "read_int b i = ucast (b ! i) OR push_bit 8 (ucast (b ! (i + 1)))
     OR push_bit 16 (ucast (b ! (i + 2))) OR push_bit 24 (ucast (b ! (i + 3)))"

lemma bit_e_extract_byte:
  "b < 4 \<Longrightarrow> bit (e_extract_byte v b) n \<longleftrightarrow> n < 8 \<and> bit v (b * 8 + n)"
proof -
  assume "b < 4"
  have m: "(0xFF :: cint) = mask 8"
    by (simp add: mask_eq_decr_exp)
  show ?thesis
    using \<open>b < 4\<close> unfolding e_extract_byte_def m
    by (auto simp: bit_simps split: if_splits)
qed

lemma read_int_write:
  "read_int (elf_write_int buf v @ rest) (length buf) = v"
proof -
  have "read_int (elf_write_int buf v @ rest) (length buf)
    = ucast (e_extract_byte v 0) OR push_bit 8 (ucast (e_extract_byte v 1))
      OR push_bit 16 (ucast (e_extract_byte v 2)) OR push_bit 24 (ucast (e_extract_byte v 3))"
    by (simp add: read_int_def elf_write_int_def nth_append)
  also have "\<dots> = v"
  proof (rule bit_word_eqI)
    fix n :: nat
    assume "n < LENGTH(32)"
    then consider "n < 8" | "8 \<le> n" "n < 16" | "16 \<le> n" "n < 24" | "24 \<le> n" "n < 32"
      by force
    then show "bit (ucast (e_extract_byte v 0) OR push_bit 8 (ucast (e_extract_byte v 1))
      OR push_bit 16 (ucast (e_extract_byte v 2)) OR push_bit 24 (ucast (e_extract_byte v 3)) :: cint) n
      = bit v n"
      by cases (auto simp: bit_simps bit_e_extract_byte)
  qed
  finally show ?thesis .
qed

lemma word_bytes_inj: "word_bytes v = word_bytes w \<Longrightarrow> v = w"
  using read_int_write [of "[]" v "[]"] read_int_write [of "[]" w "[]"]
  by (simp add: word_bytes_def)

lemma concat_word_bytes_inj:
  "concat (map word_bytes vs) = concat (map word_bytes ws) \<longleftrightarrow> vs = ws"
proof
  assume "concat (map word_bytes vs) = concat (map word_bytes ws)"
  then show "vs = ws"
  proof (induction vs arbitrary: ws)
    case Nil
    then show ?case
      by (cases ws) (auto dest: arg_cong [of _ _ length])
  next
    case (Cons v vs)
    then obtain w ws' where "ws = w # ws'"
      by (cases ws) (auto dest: arg_cong [of _ _ length])
    with Cons show ?case
      by (auto dest: word_bytes_inj)
  qed
qed simp

end
