(* ===== verification/Layout.thy ===== *)
theory Layout
  imports Codegen
begin

text \<open>
  The layout pass \<open>cfg_flatten\<close>, which has the same loops in
  \<^verbatim>\<open>src/riscv-codegen.c\<close> and \<^verbatim>\<open>src/arm-codegen.c\<close>: every block gets the
  offset its first instruction will have in the text section, computed from the sizes
  \<open>update_elf_offset\<close> gives the instructions. The loops are written once, over the
  back end's \<open>update_elf_offset\<close> (\<open>upd\<close>), its change to an instruction that is
  flattened (\<open>fi\<close>, given the stack size of the function) and the size of its function
  prologue (\<open>entry\<close>).

  The contract between the two passes of a back end is the locale \<open>code_layout\<close>: the
  size an instruction is given is the size of what is emitted for it. Inside it, every
  block's offset is proved to be the number of bytes emitted before the block.
\<close>

section \<open>The loops\<close>

text \<open>
  The globals \<open>cfg_flatten\<close> reads: \<open>GLOBAL_FUNC\<close> with its first block, the function
  list and \<open>MAIN_BB\<close>. \<open>lay\<close> is what it changes: the \<open>elf_offset\<close> fields of the
  blocks, the running \<open>elf_offset\<close> and \<open>PH2_IR_FLATTEN\<close>.
\<close>

record cg_prog =
  global_bb :: basic_block
  global_stack_size :: cint
  func_list :: "func list"
  main_bb :: "bb_ref option"

record lay =
  offs :: "bb_ref \<Rightarrow> cint"
  elf_off :: cint
  flat :: "ph2_ir list"

fun emit_list :: "(ph2_ir \<Rightarrow> bytes \<Rightarrow> bytes option) \<Rightarrow> ph2_ir list \<Rightarrow> bytes \<Rightarrow> bytes option" where
  "emit_list emit1 [] code = Some code"
| "emit_list emit1 (ir # irs) code =
     (case emit1 ir code of None \<Rightarrow> None | Some c \<Rightarrow> emit_list emit1 irs c)"

fun sum_offsets :: "(ph2_ir \<Rightarrow> cint \<Rightarrow> cint option) \<Rightarrow> ph2_ir list \<Rightarrow> cint \<Rightarrow> cint option" where
  "sum_offsets upd [] o1 = Some o1"
| "sum_offsets upd (ir # irs) o1 =
     (case upd ir o1 of None \<Rightarrow> None | Some o2 \<Rightarrow> sum_offsets upd irs o2)"

fun flat_insns ::
  "(ph2_ir \<Rightarrow> cint \<Rightarrow> cint option) \<Rightarrow> (ph2_ir \<Rightarrow> ph2_ir) \<Rightarrow> ph2_ir list \<Rightarrow> lay \<Rightarrow> lay option"
where
  "flat_insns upd fi [] l = Some l"
| "flat_insns upd fi (ir # irs) l =
     (case upd (fi ir) (elf_off l) of
        None \<Rightarrow> None
      | Some o1 \<Rightarrow> flat_insns upd fi irs (l\<lparr>elf_off := o1, flat := flat l @ [fi ir]\<rparr>))"

definition set_bb_offset :: "bb_ref \<Rightarrow> lay \<Rightarrow> lay" where
  "set_bb_offset b l = l\<lparr>offs := (offs l)(b := elf_off l)\<rparr>"

fun flat_bbs ::
  "(ph2_ir \<Rightarrow> cint \<Rightarrow> cint option) \<Rightarrow> (ph2_ir \<Rightarrow> ph2_ir) \<Rightarrow> cint \<Rightarrow> basic_block list \<Rightarrow> lay
   \<Rightarrow> lay option"
where
  "flat_bbs upd fi entry [] l = Some l"
| "flat_bbs upd fi entry (b # bs) l =
     (let l1 = set_bb_offset (bb_id b) l
      in case flat_insns upd fi (ph2_ir_list b) (l1\<lparr>elf_off := elf_off l1 + entry\<rparr>) of
           None \<Rightarrow> None
         | Some l2 \<Rightarrow> flat_bbs upd fi 0 bs l2)"

definition define_ir :: "func \<Rightarrow> ph2_ir" where
  "define_ir f = (new_ph2_ir OP_define)\<lparr>src0 := stack_size f, func_name := fname f\<rparr>"

fun flat_funcs ::
  "(ph2_ir \<Rightarrow> cint \<Rightarrow> cint option) \<Rightarrow> (cint \<Rightarrow> ph2_ir \<Rightarrow> ph2_ir) \<Rightarrow> cint \<Rightarrow> func list \<Rightarrow> lay
   \<Rightarrow> lay option"
where
  "flat_funcs upd fi entry [] l = Some l"
| "flat_funcs upd fi entry (f # fs) l =
     (if bbs f = [] then flat_funcs upd fi entry fs l
      else case flat_bbs upd (fi (stack_size f)) entry (bbs f) (l\<lparr>flat := flat l @ [define_ir f]\<rparr>) of
             None \<Rightarrow> None
           | Some l1 \<Rightarrow> flat_funcs upd fi entry fs l1)"

section \<open>Facts about the loops\<close>

lemma emit_list_append:
  "emit_list e (xs @ ys) c = (case emit_list e xs c of None \<Rightarrow> None | Some c1 \<Rightarrow> emit_list e ys c1)"
  by (induction xs arbitrary: c) (auto split: option.split)

lemma flat_insns_flat:
  "flat_insns upd fi irs l = Some l' \<Longrightarrow>
     flat l' = flat l @ map fi irs \<and> offs l' = offs l
     \<and> sum_offsets upd (map fi irs) (elf_off l) = Some (elf_off l')"
proof (induction irs arbitrary: l)
  case (Cons ir irs)
  then show ?case by (fastforce split: option.splits)
qed simp

lemma flat_bbs_append:
  "flat_bbs upd fi entry (xs @ ys) l =
     (case flat_bbs upd fi entry xs l of None \<Rightarrow> None
      | Some l1 \<Rightarrow> flat_bbs upd fi (if xs = [] then entry else 0) ys l1)"
  by (induction xs arbitrary: l entry) (auto simp: Let_def split: option.split)

lemma flat_funcs_append:
  "flat_funcs upd fi entry (xs @ ys) l =
     (case flat_funcs upd fi entry xs l of None \<Rightarrow> None
      | Some l1 \<Rightarrow> flat_funcs upd fi entry ys l1)"
  by (induction xs arbitrary: l) (auto split: option.split)

lemma flat_bbs_frame:
  "flat_bbs upd fi entry bs l = Some l' \<Longrightarrow>
     (\<exists>post. flat l' = flat l @ post) \<and> (\<forall>x. x \<notin> bb_id ` set bs \<longrightarrow> offs l' x = offs l x)"
proof (induction bs arbitrary: l entry)
  case (Cons b bs)
  then show ?case
    by (fastforce simp: Let_def set_bb_offset_def split: option.splits dest!: flat_insns_flat)
qed simp

definition func_bb_ids :: "func \<Rightarrow> bb_ref list" where
  "func_bb_ids f = map bb_id (bbs f)"

lemma flat_funcs_frame:
  "flat_funcs upd fi entry fs l = Some l' \<Longrightarrow>
     (\<exists>post. flat l' = flat l @ post)
     \<and> (\<forall>x. x \<notin> set (concat (map func_bb_ids fs)) \<longrightarrow> offs l' x = offs l x)"
proof (induction fs arbitrary: l)
  case (Cons f fs)
  show ?case
  proof (cases "bbs f = []")
    case False
    with Cons.prems obtain l1 where
      1: "flat_bbs upd (fi (stack_size f)) entry (bbs f) (l\<lparr>flat := flat l @ [define_ir f]\<rparr>) = Some l1"
      and 2: "flat_funcs upd fi entry fs l1 = Some l'"
      by (auto split: option.splits)
    from flat_bbs_frame [OF 1] Cons.IH [OF 2] show ?thesis
      by (auto simp: func_bb_ids_def)
  qed (use Cons in \<open>auto simp: func_bb_ids_def\<close>)
qed simp

section \<open>The contract of a back end\<close>

locale code_layout =
  fixes upd :: "ph2_ir \<Rightarrow> cint \<Rightarrow> cint option"
    and emit1 :: "ph2_ir \<Rightarrow> bytes \<Rightarrow> bytes option"
    and fi :: "cint \<Rightarrow> ph2_ir \<Rightarrow> ph2_ir"
    and entry :: cint
    and ok :: "ph2_ir \<Rightarrow> bool"
  assumes size_agrees:
      "ok ir \<Longrightarrow> upd ir o1 = Some o2 \<Longrightarrow> emit1 ir c = Some c' \<Longrightarrow>
       code_size c' = code_size c + (o2 - o1)"
    and entry_size:
      "op ir = OP_define \<Longrightarrow> emit1 ir c = Some c' \<Longrightarrow> code_size c' = code_size c + entry"
begin

lemma sum_offsets_emit:
  "\<forall>ir\<in>set irs. ok ir \<Longrightarrow> sum_offsets upd irs o1 = Some o2 \<Longrightarrow> emit_list emit1 irs c = Some c' \<Longrightarrow>
     code_size c' = code_size c + (o2 - o1)"
proof (induction irs arbitrary: o1 c)
  case (Cons ir irs)
  then obtain o3 c3 where u: "upd ir o1 = Some o3" "emit1 ir c = Some c3"
    and r: "sum_offsets upd irs o3 = Some o2" "emit_list emit1 irs c3 = Some c'"
    by (auto split: option.splits)
  have "code_size c3 = code_size c + (o3 - o1)"
    using size_agrees [OF _ u] Cons.prems(1) by simp
  moreover have "code_size c' = code_size c3 + (o2 - o3)"
    using Cons.IH r Cons.prems(1) by simp
  ultimately show ?case by simp
qed simp

text \<open>
  \<open>tracks c0 k l\<close>: whatever code the instructions flattened so far emit after \<open>c0\<close>,
  it ends \<open>k\<close> bytes after the running offset.
\<close>

definition tracks :: "bytes \<Rightarrow> cint \<Rightarrow> lay \<Rightarrow> bool" where
  "tracks c0 k l \<longleftrightarrow> (\<forall>c. emit_list emit1 (flat l) c0 = Some c \<longrightarrow> code_size c = elf_off l + k)"

lemma tracks_insns:
  assumes "tracks c0 k l" "flat_insns upd f irs (l\<lparr>elf_off := elf_off l + k\<rparr>) = Some l'"
    and "\<forall>ir\<in>set irs. ok (f ir)"
  shows "tracks c0 0 l'"
proof -
  note f = flat_insns_flat [OF assms(2)]
  show ?thesis
    unfolding tracks_def
  proof (intro allI impI)
    fix c
    assume "emit_list emit1 (flat l') c0 = Some c"
    then obtain c1 where c1: "emit_list emit1 (flat l) c0 = Some c1"
      and c: "emit_list emit1 (map f irs) c1 = Some c"
      using f by (auto simp: emit_list_append split: option.splits)
    have "code_size c = code_size c1 + (elf_off l' - (elf_off l + k))"
      using sum_offsets_emit [OF _ _ c] f assms(3) by simp
    with assms(1) c1 show "code_size c = elf_off l' + 0"
      by (simp add: tracks_def)
  qed
qed

lemma tracks_bbs:
  assumes "tracks c0 k l" "flat_bbs upd f k bs l = Some l'" "bs = [] \<longrightarrow> k = 0"
    and "\<forall>b\<in>set bs. \<forall>ir\<in>set (ph2_ir_list b). ok (f ir)"
  shows "tracks c0 0 l'"
  using assms
proof (induction bs arbitrary: l k)
  case (Cons b bs)
  let ?l1 = "set_bb_offset (bb_id b) l"
  from Cons.prems obtain l2 where
    1: "flat_insns upd f (ph2_ir_list b) (?l1\<lparr>elf_off := elf_off ?l1 + k\<rparr>) = Some l2"
    and 2: "flat_bbs upd f 0 bs l2 = Some l'"
    by (auto simp: Let_def split: option.splits)
  have "tracks c0 k ?l1"
    using Cons.prems(1) by (simp add: tracks_def set_bb_offset_def)
  from tracks_insns [OF this 1] have "tracks c0 0 l2"
    using Cons.prems(4) by simp
  from Cons.IH [OF this 2] show ?case
    using Cons.prems(4) by simp
qed simp

lemma tracks_define:
  assumes "tracks c0 0 l"
  shows "tracks c0 entry (l\<lparr>flat := flat l @ [define_ir f]\<rparr>)"
  unfolding tracks_def
proof (intro allI impI)
  fix c
  assume "emit_list emit1 (flat (l\<lparr>flat := flat l @ [define_ir f]\<rparr>)) c0 = Some c"
  then obtain c1 where "emit_list emit1 (flat l) c0 = Some c1" "emit1 (define_ir f) c1 = Some c"
    by (auto simp: emit_list_append split: option.splits)
  moreover have "op (define_ir f) = OP_define"
    by (simp add: define_ir_def new_ph2_ir_def)
  ultimately show "code_size c = elf_off (l\<lparr>flat := flat l @ [define_ir f]\<rparr>) + entry"
    using assms entry_size by (simp add: tracks_def)
qed

lemma tracks_funcs:
  assumes "tracks c0 0 l" "flat_funcs upd fi entry fs l = Some l'"
    and "\<forall>f\<in>set fs. \<forall>b\<in>set (bbs f). \<forall>ir\<in>set (ph2_ir_list b). ok (fi (stack_size f) ir)"
  shows "tracks c0 0 l'"
  using assms
proof (induction fs arbitrary: l)
  case (Cons f fs)
  show ?case
  proof (cases "bbs f = []")
    case False
    with Cons.prems obtain l1 where
      1: "flat_bbs upd (fi (stack_size f)) entry (bbs f) (l\<lparr>flat := flat l @ [define_ir f]\<rparr>) = Some l1"
      and 2: "flat_funcs upd fi entry fs l1 = Some l'"
      by (auto split: option.splits)
    have "tracks c0 0 l1"
      using tracks_bbs [OF tracks_define [OF Cons.prems(1)] 1] False Cons.prems(3) by simp
    from Cons.IH [OF this 2] Cons.prems(3) show ?thesis by simp
  qed (use Cons in auto)
qed simp

text \<open>
  The block \<open>b\<close> of \<open>f\<close>: the flattened program splits before its code, and what is
  emitted before it is as long as the offset it was given.
\<close>

lemma block_offset:
  assumes flat: "flat_funcs upd fi entry (fs1 @ f # fs2) l0 = Some l"
    and split: "bbs f = bs1 @ b # bs2"
    and t: "tracks c0 0 l0"
    and oks: "\<forall>g\<in>set (fs1 @ f # fs2). \<forall>b\<in>set (bbs g). \<forall>ir\<in>set (ph2_ir_list b). ok (fi (stack_size g) ir)"
    and dist: "distinct (concat (map func_bb_ids (fs1 @ f # fs2)))"
    and emitted: "emit_list emit1 (flat l) c0 = Some code"
  shows "\<exists>pre post c.
      flat l = pre @ (if bs1 = [] then [define_ir f] else [])
        @ map (fi (stack_size f)) (ph2_ir_list b) @ post
      \<and> emit_list emit1 pre c0 = Some c \<and> code_size c = offs l (bb_id b)"
proof -
  let ?fi = "fi (stack_size f)"
  obtain l1 where l1: "flat_funcs upd fi entry fs1 l0 = Some l1"
    and rest: "flat_funcs upd fi entry (f # fs2) l1 = Some l"
    using flat by (auto simp: flat_funcs_append split: option.splits)
  let ?ld = "l1\<lparr>flat := flat l1 @ [define_ir f]\<rparr>"
  obtain l4 where l4: "flat_bbs upd ?fi entry (bs1 @ b # bs2) ?ld = Some l4"
    and l: "flat_funcs upd fi entry fs2 l4 = Some l"
    using rest split by (auto split: option.splits)
  let ?k = "if bs1 = [] then entry else 0"
  obtain l2 where l2: "flat_bbs upd ?fi entry bs1 ?ld = Some l2"
    and l4': "flat_bbs upd ?fi ?k (b # bs2) l2 = Some l4"
    using l4 by (auto simp: flat_bbs_append split: option.splits)
  let ?ls = "set_bb_offset (bb_id b) l2"
  obtain l3 where l3: "flat_insns upd ?fi (ph2_ir_list b) (?ls\<lparr>elf_off := elf_off ?ls + ?k\<rparr>) = Some l3"
    and l4'': "flat_bbs upd ?fi 0 bs2 l3 = Some l4"
    using l4' by (auto simp: Let_def split: option.splits)
  have t1: "tracks c0 0 l1"
    using tracks_funcs [OF t l1] oks by simp
  have t2: "tracks c0 ?k l2"
  proof (cases "bs1 = []")
    case True
    then show ?thesis using l2 tracks_define [OF t1, of f] by auto
  next
    case False
    then show ?thesis
      using tracks_bbs [OF tracks_define [OF t1] l2] oks split by auto
  qed
  from flat_insns_flat [OF l3] have f3: "flat l3 = flat l2 @ map ?fi (ph2_ir_list b)"
    "offs l3 = (offs l2)(bb_id b := elf_off l2)"
    by (auto simp: set_bb_offset_def)
  from flat_bbs_frame [OF l4''] obtain p4 where f4: "flat l4 = flat l3 @ p4"
    and o4: "\<forall>x. x \<notin> bb_id ` set bs2 \<longrightarrow> offs l4 x = offs l3 x" by blast
  from flat_funcs_frame [OF l] obtain p5 where f5: "flat l = flat l4 @ p5"
    and o5: "\<forall>x. x \<notin> set (concat (map func_bb_ids fs2)) \<longrightarrow> offs l x = offs l4 x" by blast
  have "bb_id b \<notin> bb_id ` set bs2" "bb_id b \<notin> set (concat (map func_bb_ids fs2))"
    using dist split by (auto simp: func_bb_ids_def)
  then have off: "offs l (bb_id b) = elf_off l2"
    using o4 o5 f3 by simp
  let ?pre = "if bs1 = [] then flat l1 else flat l2"
  have fl: "flat l = ?pre @ (if bs1 = [] then [define_ir f] else []) @ map ?fi (ph2_ir_list b) @ p4 @ p5"
    using f3 f4 f5 l2 by auto
  obtain c where c: "emit_list emit1 ?pre c0 = Some c"
    using emitted by (subst (asm) fl) (auto simp: emit_list_append split: option.splits)
  have "code_size c = elf_off l2"
  proof (cases "bs1 = []")
    case True
    then show ?thesis using t1 c l2 by (auto simp: tracks_def)
  next
    case False
    then show ?thesis using t2 c by (simp add: tracks_def)
  qed
  then show ?thesis
    using off fl c by (intro exI [of _ ?pre] exI [of _ "p4 @ p5"] exI [of _ c] conjI) simp_all
qed

end

end
