(* ===== verification/RiscvEncode.thy ===== *)
theory RiscvEncode
  imports Prelude
begin

text \<open>
  The RISC-V instruction encoder, \<^verbatim>\<open>src/riscv.c\<close>: the opcode constants
  \<open>rv_op\<close>, the registers \<open>rv_reg\<close>, the six instruction formats and one function per
  mnemonic. Names that start with two underscores in C start with \<open>rvi_\<close>
  (instructions) or \<open>x_\<close> (registers) here. A format function that may call
  \<open>fatal()\<close> returns an option.
\<close>

section \<open>Opcodes and registers\<close>

datatype (plugins only: code size) rv_op =
    rv_add | rv_sub | rv_xor | rv_or | rv_and | rv_sll | rv_srl | rv_sra | rv_slt | rv_sltu
  | rv_addi | rv_xori | rv_ori | rv_andi | rv_slli | rv_srli | rv_srai | rv_slti | rv_sltiu
  | rv_sext_b
  | rv_lb | rv_lh | rv_lw | rv_lbu | rv_lhu | rv_sb | rv_sh | rv_sw
  | rv_beq | rv_bne | rv_blt | rv_bge | rv_bltu | rv_bgeu
  | rv_jal | rv_jalr
  | rv_lui | rv_auipc | rv_ecall | rv_ebreak
  | rv_mul | rv_div | rv_mod

fun rv_op_val :: "rv_op \<Rightarrow> cint" where
  "rv_op_val rv_add = 51"
| "rv_op_val rv_sub = 1073741875"
| "rv_op_val rv_xor = 16435"
| "rv_op_val rv_or = 24627"
| "rv_op_val rv_and = 28723"
| "rv_op_val rv_sll = 4147"
| "rv_op_val rv_srl = 20531"
| "rv_op_val rv_sra = 1073762355"
| "rv_op_val rv_slt = 8243"
| "rv_op_val rv_sltu = 12339"
| "rv_op_val rv_addi = 19"
| "rv_op_val rv_xori = 16403"
| "rv_op_val rv_ori = 24595"
| "rv_op_val rv_andi = 28691"
| "rv_op_val rv_slli = 4115"
| "rv_op_val rv_srli = 20499"
| "rv_op_val rv_srai = 1073762323"
| "rv_op_val rv_slti = 8211"
| "rv_op_val rv_sltiu = 12307"
| "rv_op_val rv_sext_b = 1614811155"
| "rv_op_val rv_lb = 3"
| "rv_op_val rv_lh = 4099"
| "rv_op_val rv_lw = 8195"
| "rv_op_val rv_lbu = 16387"
| "rv_op_val rv_lhu = 20483"
| "rv_op_val rv_sb = 35"
| "rv_op_val rv_sh = 4131"
| "rv_op_val rv_sw = 8227"
| "rv_op_val rv_beq = 99"
| "rv_op_val rv_bne = 4195"
| "rv_op_val rv_blt = 16483"
| "rv_op_val rv_bge = 20579"
| "rv_op_val rv_bltu = 24675"
| "rv_op_val rv_bgeu = 28771"
| "rv_op_val rv_jal = 111"
| "rv_op_val rv_jalr = 103"
| "rv_op_val rv_lui = 55"
| "rv_op_val rv_auipc = 23"
| "rv_op_val rv_ecall = 115"
| "rv_op_val rv_ebreak = 1048691"
| "rv_op_val rv_mul = 33554483"
| "rv_op_val rv_div = 33570867"
| "rv_op_val rv_mod = 33579059"

abbreviation (input) x_zero :: cint where "x_zero \<equiv> 0"
abbreviation (input) x_ra :: cint where "x_ra \<equiv> 1"
abbreviation (input) x_sp :: cint where "x_sp \<equiv> 2"
abbreviation (input) x_gp :: cint where "x_gp \<equiv> 3"
abbreviation (input) x_tp :: cint where "x_tp \<equiv> 4"
abbreviation (input) x_t0 :: cint where "x_t0 \<equiv> 5"
abbreviation (input) x_t1 :: cint where "x_t1 \<equiv> 6"
abbreviation (input) x_t2 :: cint where "x_t2 \<equiv> 7"
abbreviation (input) x_s0 :: cint where "x_s0 \<equiv> 8"
abbreviation (input) x_s1 :: cint where "x_s1 \<equiv> 9"
abbreviation (input) x_a0 :: cint where "x_a0 \<equiv> 10"
abbreviation (input) x_a1 :: cint where "x_a1 \<equiv> 11"
abbreviation (input) x_a2 :: cint where "x_a2 \<equiv> 12"
abbreviation (input) x_a3 :: cint where "x_a3 \<equiv> 13"
abbreviation (input) x_a4 :: cint where "x_a4 \<equiv> 14"
abbreviation (input) x_a5 :: cint where "x_a5 \<equiv> 15"
abbreviation (input) x_a6 :: cint where "x_a6 \<equiv> 16"
abbreviation (input) x_a7 :: cint where "x_a7 \<equiv> 17"
abbreviation (input) x_t3 :: cint where "x_t3 \<equiv> 28"
abbreviation (input) x_t4 :: cint where "x_t4 \<equiv> 29"
abbreviation (input) x_t5 :: cint where "x_t5 \<equiv> 30"

section \<open>Formats\<close>

definition rv_extract_bits :: "cint \<Rightarrow> nat \<Rightarrow> nat \<Rightarrow> nat \<Rightarrow> nat \<Rightarrow> cint option" where
  "rv_extract_bits imm i_start i_end d_start d_end =
     (if int d_end - int d_start \<noteq> int i_end - int i_start \<or> i_end < i_start \<or> d_end < d_start
      then None
      else Some (shl (sar imm i_start AND (shl 2 (i_end - i_start) - 1)) d_start))"

definition rv_hi :: "cint \<Rightarrow> cint" where
  "rv_hi val = val + shl (val AND shl 1 11) 1"

definition rv_lo :: "cint \<Rightarrow> cint" where
  "rv_lo val = (val AND 0xFFF) - shl (val AND shl 1 11) 1"

definition rv_encode_R :: "rv_op \<Rightarrow> cint \<Rightarrow> cint \<Rightarrow> cint \<Rightarrow> cint" where
  "rv_encode_R opc rd rs1 rs2 = rv_op_val opc + shl rd 7 + shl rs1 15 + shl rs2 20"

definition rv_encode_I :: "rv_op \<Rightarrow> cint \<Rightarrow> cint \<Rightarrow> cint \<Rightarrow> cint option" where
  "rv_encode_I opc rd rs1 imm =
     (if lt_s 2047 imm \<or> lt_s imm (-2048) then None
      else let imm' = (if lt_s imm 0 then (imm + 4096) AND (shl 1 13 - 1) else imm)
           in Some (rv_op_val opc + shl rd 7 + shl rs1 15 + shl imm' 20))"

definition rv_encode_S :: "rv_op \<Rightarrow> cint \<Rightarrow> cint \<Rightarrow> cint \<Rightarrow> cint option" where
  "rv_encode_S opc rs1 rs2 imm =
     (if lt_s 2047 imm \<or> lt_s imm (-2048) then None
      else let imm' = (if lt_s imm 0 then (imm + 4096) AND (shl 1 13 - 1) else imm)
           in do { lo \<leftarrow> rv_extract_bits imm' 0 4 7 11;
                   hi \<leftarrow> rv_extract_bits imm' 5 11 25 31;
                   Some (rv_op_val opc + shl rs1 15 + shl rs2 20 + lo + hi) })"

definition rv_encode_B :: "rv_op \<Rightarrow> cint \<Rightarrow> cint \<Rightarrow> cint \<Rightarrow> cint option" where
  "rv_encode_B opc rs1 rs2 imm =
     (if lt_s 4095 imm \<or> lt_s imm (-4096) then None
      else let sign = lt_s imm 0
           in do { b11 \<leftarrow> rv_extract_bits imm 11 11 7 7;
                   lo \<leftarrow> rv_extract_bits imm 1 4 8 11;
                   hi \<leftarrow> rv_extract_bits imm 5 10 25 30;
                   Some (rv_op_val opc + shl rs1 15 + shl rs2 20 + b11 + lo + hi
                         + shl (of_bool_c sign) 31) })"

definition rv_encode_J :: "rv_op \<Rightarrow> cint \<Rightarrow> cint \<Rightarrow> cint option" where
  "rv_encode_J opc rd imm =
     (let sign = lt_s imm 0;
          imm' = (if sign then shl 1 21 - (- imm) else imm)
      in do { lo \<leftarrow> rv_extract_bits imm' 1 10 21 30;
              b11 \<leftarrow> rv_extract_bits imm' 11 11 20 20;
              hi \<leftarrow> rv_extract_bits imm' 12 19 12 19;
              Some (rv_op_val opc + shl rd 7 + lo + b11 + hi + shl (of_bool_c sign) 31) })"

definition rv_encode_U :: "rv_op \<Rightarrow> cint \<Rightarrow> cint \<Rightarrow> cint option" where
  "rv_encode_U opc rd imm =
     do { hi \<leftarrow> rv_extract_bits imm 12 31 12 31;
          Some (rv_op_val opc + shl rd 7 + hi) }"

section \<open>Mnemonics\<close>

definition rvi_add :: "cint \<Rightarrow> cint \<Rightarrow> cint \<Rightarrow> cint" where
  "rvi_add rd rs1 rs2 = rv_encode_R rv_add rd rs1 rs2"

definition rvi_sub :: "cint \<Rightarrow> cint \<Rightarrow> cint \<Rightarrow> cint" where
  "rvi_sub rd rs1 rs2 = rv_encode_R rv_sub rd rs1 rs2"

definition rvi_xor :: "cint \<Rightarrow> cint \<Rightarrow> cint \<Rightarrow> cint" where
  "rvi_xor rd rs1 rs2 = rv_encode_R rv_xor rd rs1 rs2"

definition rvi_or :: "cint \<Rightarrow> cint \<Rightarrow> cint \<Rightarrow> cint" where
  "rvi_or rd rs1 rs2 = rv_encode_R rv_or rd rs1 rs2"

definition rvi_and :: "cint \<Rightarrow> cint \<Rightarrow> cint \<Rightarrow> cint" where
  "rvi_and rd rs1 rs2 = rv_encode_R rv_and rd rs1 rs2"

definition rvi_sll :: "cint \<Rightarrow> cint \<Rightarrow> cint \<Rightarrow> cint" where
  "rvi_sll rd rs1 rs2 = rv_encode_R rv_sll rd rs1 rs2"

definition rvi_srl :: "cint \<Rightarrow> cint \<Rightarrow> cint \<Rightarrow> cint" where
  "rvi_srl rd rs1 rs2 = rv_encode_R rv_srl rd rs1 rs2"

definition rvi_sra :: "cint \<Rightarrow> cint \<Rightarrow> cint \<Rightarrow> cint" where
  "rvi_sra rd rs1 rs2 = rv_encode_R rv_sra rd rs1 rs2"

definition rvi_slt :: "cint \<Rightarrow> cint \<Rightarrow> cint \<Rightarrow> cint" where
  "rvi_slt rd rs1 rs2 = rv_encode_R rv_slt rd rs1 rs2"

definition rvi_sltu :: "cint \<Rightarrow> cint \<Rightarrow> cint \<Rightarrow> cint" where
  "rvi_sltu rd rs1 rs2 = rv_encode_R rv_sltu rd rs1 rs2"

definition rvi_mul :: "cint \<Rightarrow> cint \<Rightarrow> cint \<Rightarrow> cint" where
  "rvi_mul rd rs1 rs2 = rv_encode_R rv_mul rd rs1 rs2"

definition rvi_div :: "cint \<Rightarrow> cint \<Rightarrow> cint \<Rightarrow> cint" where
  "rvi_div rd rs1 rs2 = rv_encode_R rv_div rd rs1 rs2"

definition rvi_mod :: "cint \<Rightarrow> cint \<Rightarrow> cint \<Rightarrow> cint" where
  "rvi_mod rd rs1 rs2 = rv_encode_R rv_mod rd rs1 rs2"

definition rvi_addi :: "cint \<Rightarrow> cint \<Rightarrow> cint \<Rightarrow> cint option" where
  "rvi_addi rd rs1 imm = rv_encode_I rv_addi rd rs1 imm"

definition rvi_xori :: "cint \<Rightarrow> cint \<Rightarrow> cint \<Rightarrow> cint option" where
  "rvi_xori rd rs1 imm = rv_encode_I rv_xori rd rs1 imm"

definition rvi_ori :: "cint \<Rightarrow> cint \<Rightarrow> cint \<Rightarrow> cint option" where
  "rvi_ori rd rs1 imm = rv_encode_I rv_ori rd rs1 imm"

definition rvi_andi :: "cint \<Rightarrow> cint \<Rightarrow> cint \<Rightarrow> cint option" where
  "rvi_andi rd rs1 imm = rv_encode_I rv_andi rd rs1 imm"

definition rvi_slli :: "cint \<Rightarrow> cint \<Rightarrow> cint \<Rightarrow> cint option" where
  "rvi_slli rd rs1 imm = rv_encode_I rv_slli rd rs1 imm"

definition rvi_srli :: "cint \<Rightarrow> cint \<Rightarrow> cint \<Rightarrow> cint option" where
  "rvi_srli rd rs1 imm = rv_encode_I rv_srli rd rs1 imm"

definition rvi_srai :: "cint \<Rightarrow> cint \<Rightarrow> cint \<Rightarrow> cint option" where
  "rvi_srai rd rs1 imm = rv_encode_I rv_srai rd rs1 imm"

definition rvi_slti :: "cint \<Rightarrow> cint \<Rightarrow> cint \<Rightarrow> cint option" where
  "rvi_slti rd rs1 imm = rv_encode_I rv_slti rd rs1 imm"

definition rvi_sltiu :: "cint \<Rightarrow> cint \<Rightarrow> cint \<Rightarrow> cint option" where
  "rvi_sltiu rd rs1 imm = rv_encode_I rv_sltiu rd rs1 imm"

definition rvi_lb :: "cint \<Rightarrow> cint \<Rightarrow> cint \<Rightarrow> cint option" where
  "rvi_lb rd rs1 imm = rv_encode_I rv_lb rd rs1 imm"

definition rvi_lh :: "cint \<Rightarrow> cint \<Rightarrow> cint \<Rightarrow> cint option" where
  "rvi_lh rd rs1 imm = rv_encode_I rv_lh rd rs1 imm"

definition rvi_lw :: "cint \<Rightarrow> cint \<Rightarrow> cint \<Rightarrow> cint option" where
  "rvi_lw rd rs1 imm = rv_encode_I rv_lw rd rs1 imm"

definition rvi_lbu :: "cint \<Rightarrow> cint \<Rightarrow> cint \<Rightarrow> cint option" where
  "rvi_lbu rd rs1 imm = rv_encode_I rv_lbu rd rs1 imm"

definition rvi_lhu :: "cint \<Rightarrow> cint \<Rightarrow> cint \<Rightarrow> cint option" where
  "rvi_lhu rd rs1 imm = rv_encode_I rv_lhu rd rs1 imm"

definition rvi_jalr :: "cint \<Rightarrow> cint \<Rightarrow> cint \<Rightarrow> cint option" where
  "rvi_jalr rd rs1 imm = rv_encode_I rv_jalr rd rs1 imm"

definition rvi_sb :: "cint \<Rightarrow> cint \<Rightarrow> cint \<Rightarrow> cint option" where
  "rvi_sb rd rs1 imm = rv_encode_S rv_sb rs1 rd imm"

definition rvi_sh :: "cint \<Rightarrow> cint \<Rightarrow> cint \<Rightarrow> cint option" where
  "rvi_sh rd rs1 imm = rv_encode_S rv_sh rs1 rd imm"

definition rvi_sw :: "cint \<Rightarrow> cint \<Rightarrow> cint \<Rightarrow> cint option" where
  "rvi_sw rd rs1 imm = rv_encode_S rv_sw rs1 rd imm"

definition rvi_beq :: "cint \<Rightarrow> cint \<Rightarrow> cint \<Rightarrow> cint option" where
  "rvi_beq rs1 rs2 imm = rv_encode_B rv_beq rs1 rs2 imm"

definition rvi_bne :: "cint \<Rightarrow> cint \<Rightarrow> cint \<Rightarrow> cint option" where
  "rvi_bne rs1 rs2 imm = rv_encode_B rv_bne rs1 rs2 imm"

definition rvi_blt :: "cint \<Rightarrow> cint \<Rightarrow> cint \<Rightarrow> cint option" where
  "rvi_blt rs1 rs2 imm = rv_encode_B rv_blt rs1 rs2 imm"

definition rvi_bge :: "cint \<Rightarrow> cint \<Rightarrow> cint \<Rightarrow> cint option" where
  "rvi_bge rs1 rs2 imm = rv_encode_B rv_bge rs1 rs2 imm"

definition rvi_bltu :: "cint \<Rightarrow> cint \<Rightarrow> cint \<Rightarrow> cint option" where
  "rvi_bltu rs1 rs2 imm = rv_encode_B rv_bltu rs1 rs2 imm"

definition rvi_bgeu :: "cint \<Rightarrow> cint \<Rightarrow> cint \<Rightarrow> cint option" where
  "rvi_bgeu rs1 rs2 imm = rv_encode_B rv_bgeu rs1 rs2 imm"

definition rvi_jal :: "cint \<Rightarrow> cint \<Rightarrow> cint option" where
  "rvi_jal rd imm = rv_encode_J rv_jal rd imm"

definition rvi_lui :: "cint \<Rightarrow> cint \<Rightarrow> cint option" where
  "rvi_lui rd imm = rv_encode_U rv_lui rd imm"

definition rvi_auipc :: "cint \<Rightarrow> cint \<Rightarrow> cint option" where
  "rvi_auipc rd imm = rv_encode_U rv_auipc rd imm"

definition rvi_ecall :: "cint option" where
  "rvi_ecall = rv_encode_I rv_ecall x_zero x_zero 0"

definition rvi_sext_b :: "cint \<Rightarrow> cint \<Rightarrow> cint option" where
  "rvi_sext_b rd rs = rv_encode_I rv_sext_b rd rs 0"

lemmas rvi_defs [encode_defs] =
  rvi_add_def rvi_sub_def rvi_xor_def rvi_or_def rvi_and_def rvi_sll_def rvi_srl_def
  rvi_sra_def rvi_slt_def rvi_sltu_def rvi_mul_def rvi_div_def rvi_mod_def rvi_addi_def
  rvi_xori_def rvi_ori_def rvi_andi_def rvi_slli_def rvi_srli_def rvi_srai_def
  rvi_slti_def rvi_sltiu_def rvi_lb_def rvi_lh_def rvi_lw_def rvi_lbu_def rvi_lhu_def
  rvi_jalr_def rvi_sb_def rvi_sh_def rvi_sw_def rvi_beq_def rvi_bne_def rvi_blt_def
  rvi_bge_def rvi_bltu_def rvi_bgeu_def rvi_jal_def rvi_lui_def rvi_auipc_def
  rvi_ecall_def rvi_sext_b_def

end
