(* ===== verification/RiscvCodegen.thy ===== *)
theory RiscvCodegen
  imports Layout RiscvEncode
begin

text \<open>
  The RISC-V code generator, \<^verbatim>\<open>src/riscv-codegen.c\<close>: the size each phase-2
  instruction is given when the blocks are laid out (\<open>update_elf_offset\<close>), the
  instruction words it is translated to (\<open>emit_ph2_ir\<close>), the layout pass
  (\<open>cfg_flatten\<close>) and the emission of the whole text section (\<open>code_generate\<close>).
\<close>

section \<open>Sizes\<close>

definition imm12_ok :: "cint \<Rightarrow> bool" where
  "imm12_ok v \<longleftrightarrow> \<not> (lt_s v (-2048) \<or> lt_s 2047 v)"

definition rv_update_elf_offset :: "cg_env \<Rightarrow> ph2_ir \<Rightarrow> cint \<Rightarrow> cint option" where
  "rv_update_elf_offset env ir elf_offset =
     (case op ir of
        OP_load_constant \<Rightarrow> Some (if \<not> imm12_ok (src0 ir) then elf_offset + 8 else elf_offset + 4)
      | OP_address_of \<Rightarrow> Some (if \<not> imm12_ok (src0 ir) then elf_offset + 12 else elf_offset + 4)
      | OP_global_address_of \<Rightarrow> Some (if \<not> imm12_ok (src0 ir) then elf_offset + 12 else elf_offset + 4)
      | OP_assign \<Rightarrow> Some (elf_offset + 4)
      | OP_load \<Rightarrow> Some (if \<not> imm12_ok (src0 ir) then elf_offset + 16 else elf_offset + 4)
      | OP_global_load \<Rightarrow> Some (if \<not> imm12_ok (src0 ir) then elf_offset + 16 else elf_offset + 4)
      | OP_store \<Rightarrow> Some (if \<not> imm12_ok (src1 ir) then elf_offset + 16 else elf_offset + 4)
      | OP_global_store \<Rightarrow> Some (if \<not> imm12_ok (src1 ir) then elf_offset + 16 else elf_offset + 4)
      | OP_read \<Rightarrow> Some (elf_offset + 4)
      | OP_write \<Rightarrow> Some (elf_offset + 4)
      | OP_jump \<Rightarrow> Some (elf_offset + 4)
      | OP_call \<Rightarrow> Some (elf_offset + 4)
      | OP_load_func \<Rightarrow> Some (elf_offset + 4)
      | OP_indirect \<Rightarrow> Some (elf_offset + 4)
      | OP_add \<Rightarrow> Some (elf_offset + 4)
      | OP_sub \<Rightarrow> Some (elf_offset + 4)
      | OP_lshift \<Rightarrow> Some (elf_offset + 4)
      | OP_rshift \<Rightarrow> Some (elf_offset + 4)
      | OP_gt \<Rightarrow> Some (elf_offset + 4)
      | OP_lt \<Rightarrow> Some (elf_offset + 4)
      | OP_bit_and \<Rightarrow> Some (elf_offset + 4)
      | OP_bit_or \<Rightarrow> Some (elf_offset + 4)
      | OP_bit_xor \<Rightarrow> Some (elf_offset + 4)
      | OP_negate \<Rightarrow> Some (elf_offset + 4)
      | OP_bit_not \<Rightarrow> Some (elf_offset + 4)
      | OP_mul \<Rightarrow> Some (if hard_mul_div env then elf_offset + 4 else elf_offset + 52)
      | OP_div \<Rightarrow> Some (if hard_mul_div env then elf_offset + 4 else elf_offset + 108)
      | OP_mod \<Rightarrow> Some (if hard_mul_div env then elf_offset + 4 else elf_offset + 108)
      | OP_load_data_address \<Rightarrow> Some (elf_offset + 8)
      | OP_load_rodata_address \<Rightarrow> Some (elf_offset + 8)
      | OP_neq \<Rightarrow> Some (elf_offset + 8)
      | OP_geq \<Rightarrow> Some (elf_offset + 8)
      | OP_leq \<Rightarrow> Some (elf_offset + 8)
      | OP_log_not \<Rightarrow> Some (elf_offset + 8)
      | OP_address_of_func \<Rightarrow> Some (elf_offset + 12)
      | OP_eq \<Rightarrow> Some (elf_offset + 12)
      | OP_branch \<Rightarrow> Some (elf_offset + 20)
      | OP_return \<Rightarrow> Some (elf_offset + 24)
      | OP_trunc \<Rightarrow> Some (if src1 ir = 2 then elf_offset + 8 else elf_offset + 4)
      | OP_sign_ext \<Rightarrow>
          (let source_size = sar (src1 ir) 16 AND 0xFFFF
           in Some (if source_size = 2 then elf_offset + 8 else elf_offset + 12))
      | OP_cast \<Rightarrow> Some (elf_offset + 4)
      | _ \<Rightarrow> None)"

section \<open>Instruction words\<close>

text \<open>Multiplication without the M extension: shift and add over the bits of \<open>rs2\<close>.\<close>

definition rv_mul_seq :: "cint \<Rightarrow> cint \<Rightarrow> cint \<Rightarrow> emitter list" where
  "rv_mul_seq rd rs1 rs2 =
     [now (rvi_addi x_t0 x_zero 0),
      now (rvi_addi x_t1 x_zero 0),
      now (rvi_addi x_t3 rs1 0),
      now (rvi_addi x_t4 rs2 0),
      now (rvi_beq x_t3 x_zero 32),
      now (rvi_beq x_t4 x_zero 28),
      now (rvi_andi x_t1 x_t4 1),
      now (rvi_beq x_t1 x_zero 8),
      word (rvi_add x_t0 x_t0 x_t3),
      now (rvi_slli x_t3 x_t3 1),
      now (rvi_srli x_t4 x_t4 1),
      now (rvi_jal x_zero (-28)),
      now (rvi_addi rd x_t0 0)]"

text \<open>Division and remainder without the M extension: shift and subtract on absolute values.\<close>

definition rv_divmod_seq :: "bool \<Rightarrow> cint \<Rightarrow> cint \<Rightarrow> cint \<Rightarrow> emitter list" where
  "rv_divmod_seq is_mod rd rs1 rs2 =
     (let interm = (if is_mod then x_t2 else x_t0);
          divisor_mask = (if is_mod then x_zero else x_t1)
      in [now (rvi_addi x_t2 rs1 0),
          now (rvi_addi x_t3 rs2 0),
          now (rvi_srai x_t0 x_t2 31),
          word (rvi_add x_t2 x_t2 x_t0),
          word (rvi_xor x_t2 x_t2 x_t0),
          now (rvi_srai x_t1 x_t3 31),
          word (rvi_add x_t3 x_t3 x_t1),
          word (rvi_xor x_t3 x_t3 x_t1),
          word (rvi_xor x_t5 x_t0 divisor_mask),
          now (rvi_addi x_t0 x_zero 0),
          now (rvi_addi x_t1 x_zero 1),
          now (rvi_beq x_t3 x_zero 52),
          now (rvi_beq x_t2 x_zero 48),
          now (rvi_beq x_t2 x_t3 20),
          now (rvi_bltu x_t2 x_t3 16),
          now (rvi_slli x_t3 x_t3 1),
          now (rvi_slli x_t1 x_t1 1),
          now (rvi_jal x_zero (-16)),
          now (rvi_bltu x_t2 x_t3 12),
          word (rvi_sub x_t2 x_t2 x_t3),
          word (rvi_add x_t0 x_t0 x_t1),
          now (rvi_srli x_t1 x_t1 1),
          now (rvi_srli x_t3 x_t3 1),
          now (rvi_bne x_t1 x_zero (-20)),
          now (rvi_addi rd interm 0),
          now (rvi_beq x_t5 x_zero 8),
          word (rvi_sub rd x_zero rd)])"

text \<open>The two instructions that put a 32-bit constant into a register.\<close>

definition rv_li :: "cint \<Rightarrow> cint \<Rightarrow> emitter list" where
  "rv_li r v = [now (rvi_lui r (rv_hi v)), now (rvi_addi r r (rv_lo v))]"

text \<open>
  The cases of the \<open>switch\<close> in \<open>emit_ph2_ir\<close>, from \<open>OP_add\<close> on. \<open>None\<close> is
  \<open>fatal()\<close> or \<open>abort()\<close> before anything is emitted.
\<close>

definition rv_seq_alu :: "cg_env \<Rightarrow> ph2_ir \<Rightarrow> emitter list option" where
  "rv_seq_alu env ir =
     (let rd = dest ir + 10; rs1 = src0 ir + 10; rs2 = src1 ir + 10
      in case op ir of
        OP_add \<Rightarrow> Some [word (rvi_add rd rs1 rs2)]
      | OP_sub \<Rightarrow> Some [word (rvi_sub rd rs1 rs2)]
      | OP_mul \<Rightarrow> Some (if hard_mul_div env then [word (rvi_mul rd rs1 rs2)]
                        else rv_mul_seq rd rs1 rs2)
      | OP_div \<Rightarrow> Some (if hard_mul_div env then [word (rvi_div rd rs1 rs2)]
                        else rv_divmod_seq False rd rs1 rs2)
      | OP_mod \<Rightarrow> Some (if hard_mul_div env then [word (rvi_mod rd rs1 rs2)]
                        else rv_divmod_seq True rd rs1 rs2)
      | OP_lshift \<Rightarrow> Some [word (rvi_sll rd rs1 rs2)]
      | OP_rshift \<Rightarrow> Some [word (rvi_sra rd rs1 rs2)]
      | OP_eq \<Rightarrow> Some [word (rvi_sub rd rs1 rs2), word (rvi_sltu rd x_zero rd), now (rvi_xori rd rd 1)]
      | OP_neq \<Rightarrow> Some [word (rvi_sub rd rs1 rs2), word (rvi_sltu rd x_zero rd)]
      | OP_gt \<Rightarrow> Some [word (rvi_slt rd rs2 rs1)]
      | OP_geq \<Rightarrow> Some [word (rvi_slt rd rs1 rs2), now (rvi_xori rd rd 1)]
      | OP_lt \<Rightarrow> Some [word (rvi_slt rd rs1 rs2)]
      | OP_leq \<Rightarrow> Some [word (rvi_slt rd rs2 rs1), now (rvi_xori rd rd 1)]
      | OP_negate \<Rightarrow> Some [word (rvi_sub rd x_zero rs1)]
      | OP_bit_not \<Rightarrow> Some [now (rvi_xori rd rs1 (-1))]
      | OP_bit_and \<Rightarrow> Some [word (rvi_and rd rs1 rs2)]
      | OP_bit_or \<Rightarrow> Some [word (rvi_or rd rs1 rs2)]
      | OP_bit_xor \<Rightarrow> Some [word (rvi_xor rd rs1 rs2)]
      | OP_log_not \<Rightarrow> Some [word (rvi_sltu rd x_zero rs1), now (rvi_xori rd rd 1)]
      | OP_trunc \<Rightarrow>
          (if src1 ir = 1 then Some [now (rvi_andi rd rs1 0xFF)]
           else if src1 ir = 2 then Some [now (rvi_slli rd rs1 16), now (rvi_srli rd rd 16)]
           else if src1 ir = 4 then Some [word (rvi_add rd rs1 x_zero)]
           else None)
      | OP_sign_ext \<Rightarrow>
          (let target_size = src1 ir AND 0xFFFF;
               source_size = sar (src1 ir) 16 AND 0xFFFF;
               shift_amount = (target_size - source_size) * 8
           in if source_size = 2
              then Some [now (rvi_slli rd rs1 shift_amount), now (rvi_srai rd rd shift_amount)]
              else Some [now (rvi_andi rd rs1 0xFF), now (rvi_slli rd rd shift_amount),
                         now (rvi_srai rd rd shift_amount)])
      | OP_cast \<Rightarrow> Some [now (rvi_addi rd rs1 0)]
      | _ \<Rightarrow> None)"

text \<open>The cases from \<open>OP_define\<close> to \<open>OP_return\<close>; the others continue in \<open>rv_seq_alu\<close>.\<close>

definition rv_seq :: "cg_env \<Rightarrow> ph2_ir \<Rightarrow> emitter list option" where
  "rv_seq env ir =
     (let rd = dest ir + 10; rs1 = src0 ir + 10; rs2 = src1 ir + 10
      in case op ir of
        OP_define \<Rightarrow>
          Some ([now (rvi_sw x_ra x_sp (-4))] @ rv_li x_t0 (src0 ir + 4)
                @ [word (rvi_sub x_sp x_sp x_t0)])
      | OP_load_constant \<Rightarrow>
          Some (if \<not> imm12_ok (src0 ir) then rv_li rd (src0 ir)
                else [now (rvi_addi rd x_zero (src0 ir))])
      | OP_address_of \<Rightarrow>
          Some (if \<not> imm12_ok (src0 ir) then rv_li x_t0 (src0 ir) @ [word (rvi_add rd x_sp x_t0)]
                else [now (rvi_addi rd x_sp (src0 ir))])
      | OP_global_address_of \<Rightarrow>
          Some (if \<not> imm12_ok (src0 ir) then rv_li x_t0 (src0 ir) @ [word (rvi_add rd x_gp x_t0)]
                else [now (rvi_addi rd x_gp (src0 ir))])
      | OP_assign \<Rightarrow> Some [now (rvi_addi rd rs1 0)]
      | OP_load \<Rightarrow>
          Some (if \<not> imm12_ok (src0 ir)
                then rv_li x_t0 (src0 ir) @ [word (rvi_add x_t0 x_sp x_t0), now (rvi_lw rd x_t0 0)]
                else [now (rvi_lw rd x_sp (src0 ir))])
      | OP_global_load \<Rightarrow>
          Some (if \<not> imm12_ok (src0 ir)
                then rv_li x_t0 (src0 ir) @ [word (rvi_add x_t0 x_gp x_t0), now (rvi_lw rd x_t0 0)]
                else [now (rvi_lw rd x_gp (src0 ir))])
      | OP_store \<Rightarrow>
          Some (if \<not> imm12_ok (src1 ir)
                then rv_li x_t0 (src1 ir) @ [word (rvi_add x_t0 x_sp x_t0), now (rvi_sw rs1 x_t0 0)]
                else [now (rvi_sw rs1 x_sp (src1 ir))])
      | OP_global_store \<Rightarrow>
          Some (if \<not> imm12_ok (src1 ir)
                then rv_li x_t0 (src1 ir) @ [word (rvi_add x_t0 x_gp x_t0), now (rvi_sw rs1 x_t0 0)]
                else [now (rvi_sw rs1 x_gp (src1 ir))])
      | OP_read \<Rightarrow>
          (if src1 ir = 1 then Some [now (rvi_lb rd rs1 0)]
           else if src1 ir = 2 then Some [now (rvi_lh rd rs1 0)]
           else if src1 ir = 4 then Some [now (rvi_lw rd rs1 0)]
           else None)
      | OP_write \<Rightarrow>
          (if dest ir = 1 then Some [now (rvi_sb rs2 rs1 0)]
           else if dest ir = 2 then Some [now (rvi_sh rs2 rs1 0)]
           else if dest ir = 4 then Some [now (rvi_sw rs2 rs1 0)]
           else None)
      | OP_branch \<Rightarrow>
          do { t \<leftarrow> bb_ofs env (then_bb ir);
               Some (rv_li x_t0 (elf_code_start env + t)
                     @ [now (rvi_beq rs1 x_zero 8),
                        now (rvi_jalr x_zero x_t0 0),
                        (\<lambda>sz. do { e \<leftarrow> bb_ofs env (else_bb ir); rvi_jal x_zero (e - sz) })]) }
      | OP_jump \<Rightarrow> Some [(\<lambda>sz. do { e \<leftarrow> bb_ofs env (next_bb ir); rvi_jal x_zero (e - sz) })]
      | OP_call \<Rightarrow> Some [(\<lambda>sz. do { e \<leftarrow> func_ofs env (func_name ir); rvi_jal x_ra (e - sz) })]
      | OP_load_data_address \<Rightarrow> Some (rv_li rd (elf_data_start env + src0 ir))
      | OP_load_rodata_address \<Rightarrow> Some (rv_li rd (elf_rodata_start env + src0 ir))
      | OP_address_of_func \<Rightarrow>
          do { e \<leftarrow> func_ofs env (func_name ir);
               Some (rv_li x_t0 (elf_code_start env + e) @ [now (rvi_sw x_t0 rs1 0)]) }
      | OP_load_func \<Rightarrow> Some [now (rvi_addi x_t0 rs1 0)]
      | OP_indirect \<Rightarrow> Some [now (rvi_jalr x_ra x_t0 0)]
      | OP_return \<Rightarrow>
          Some ([now (if src0 ir = -1 then rvi_addi x_zero x_zero 0 else rvi_addi x_a0 rs1 0)]
                @ rv_li x_t0 (src1 ir + 4)
                @ [word (rvi_add x_sp x_sp x_t0), now (rvi_lw x_ra x_sp (-4)),
                   now (rvi_jalr x_zero x_ra 0)])
      | _ \<Rightarrow> rv_seq_alu env ir)"

definition rv_emit_ph2_ir :: "cg_env \<Rightarrow> ph2_ir \<Rightarrow> bytes \<Rightarrow> bytes option" where
  "rv_emit_ph2_ir env ir code =
     (case rv_seq env ir of None \<Rightarrow> None | Some es \<Rightarrow> emits es code)"

section \<open>Layout\<close>

text \<open>An \<open>OP_return\<close> learns the stack size of its function when it is flattened.\<close>

definition rv_flat_insn :: "cint \<Rightarrow> ph2_ir \<Rightarrow> ph2_ir" where
  "rv_flat_insn ss ir = (if op ir = OP_return then ir\<lparr>src1 := ss\<rparr> else ir)"

definition rv_cfg_flatten :: "cg_env \<Rightarrow> cg_prog \<Rightarrow> lay option" where
  "rv_cfg_flatten env p =
     do { sys \<leftarrow> func_entry (find_func env) ''__syscall'';
          let l0 = \<lparr>offs = (\<lambda>_. 0)(sys := 24, bb_id (global_bb p) := 60), elf_off = 60, flat = []\<rparr>;
          o' \<leftarrow> sum_offsets (rv_update_elf_offset env) (ph2_ir_list (global_bb p)) 60;
          flat_funcs (rv_update_elf_offset env) rv_flat_insn 16 (func_list p)
            (l0\<lparr>elf_off := o' + 24\<rparr>) }"

section \<open>The text section\<close>

text \<open>Start code and the \<open>__syscall\<close> trampoline.\<close>

definition rv_start_seq :: "cg_env \<Rightarrow> cg_prog \<Rightarrow> emitter list" where
  "rv_start_seq env p =
     [now (rvi_addi x_s0 x_sp 0)] @ rv_li x_t0 (global_stack_size p)
     @ [word (rvi_sub x_sp x_sp x_t0),
        now (rvi_addi x_gp x_sp 0),
        (\<lambda>sz. rvi_jal x_ra (bb_offset env (bb_id (global_bb p)) - sz)),
        now (rvi_addi x_a7 x_a0 0),
        now (rvi_addi x_a0 x_a1 0),
        now (rvi_addi x_a1 x_a2 0),
        now (rvi_addi x_a2 x_a3 0),
        now (rvi_addi x_a3 x_a4 0),
        now (rvi_addi x_a4 x_a5 0),
        now (rvi_addi x_a5 x_a6 0),
        now rvi_ecall,
        now (rvi_jalr x_zero x_ra 0)]"

definition rv_main_seq :: "cg_env \<Rightarrow> bb_ref \<Rightarrow> emitter list" where
  "rv_main_seq env m =
     [now (rvi_addi x_t0 x_s0 0),
      now (rvi_lw x_a0 x_t0 0),
      now (rvi_addi x_a1 x_t0 4),
      (\<lambda>sz. rvi_jal x_ra (bb_offset env m - sz)),
      now (rvi_addi x_a7 x_zero 93),
      now rvi_ecall]"

definition rv_code_prefix :: "cg_env \<Rightarrow> cg_prog \<Rightarrow> bytes option" where
  "rv_code_prefix env p =
     do { c1 \<leftarrow> emits (rv_start_seq env p) [];
          c2 \<leftarrow> emit_list (rv_emit_ph2_ir env) (ph2_ir_list (global_bb p)) c1;
          (case main_bb p of None \<Rightarrow> Some c2 | Some m \<Rightarrow> emits (rv_main_seq env m) c2) }"

definition rv_code_generate :: "cg_env \<Rightarrow> cg_prog \<Rightarrow> ph2_ir list \<Rightarrow> bytes option" where
  "rv_code_generate env p fl = do { c \<leftarrow> rv_code_prefix env p; emit_list (rv_emit_ph2_ir env) fl c }"

end
