(* ===== verification/RiscvDecode.thy ===== *)
theory RiscvDecode
  imports RiscvEncode RiscvIsa
begin

text \<open>
  The encoder against the instruction set: every mnemonic of \<^verbatim>\<open>src/riscv.c\<close>
  encodes the instruction it is named after, with its operands, wherever the registers
  are numbers below 32 and the immediate is in the range of the format.
\<close>

section \<open>Fields of an encoded word\<close>

lemma fld_eqI:
  assumes "unat w = a + 2 ^ lo * (b + 2 ^ len * c)" "a < 2 ^ lo" "b < 2 ^ len"
  shows "fld w lo len = b"
proof -
  have "unat w div 2 ^ lo = b + 2 ^ len * c"
    using assms(1,2) by simp
  then show ?thesis using assms(3) by (simp add: fld_def)
qed

lemma unat_add_less: "unat (a::cint) + unat b < 2 ^ 32 \<Longrightarrow> unat (a + b) = unat a + unat b"
  by (simp add: unat_word_ariths)

lemma unat_of_sum:
  assumes "(w::cint) = of_nat n" "n < 2 ^ 32"
  shows "unat w = n"
  using assms by (simp add: unat_of_nat)

lemma shl_of_nat: "shl a n = of_nat (unat (a::cint) * 2 ^ n)"
  by (simp add: push_bit_eq_mult)

lemma unat_shl: "unat (a::cint) * 2 ^ n < 2 ^ 32 \<Longrightarrow> unat (shl a n) = unat a * 2 ^ n"
  by (rule unat_of_sum [OF shl_of_nat])

lemma extract_take_bit:
  assumes "i + len \<le> 32" "0 < len"
  shows "sar (imm::cint) i AND (shl 2 (len - 1) - 1) = take_bit len (drop_bit i imm)"
proof -
  have "shl (2::cint) (len - 1) - 1 = mask len"
    using assms(2) by (cases len) (simp_all add: mask_eq_decr_exp push_bit_eq_mult)
  moreover have "take_bit len (sar imm i) = take_bit len (drop_bit i imm)"
    using assms by (auto intro!: bit_word_eqI simp: bit_simps split: if_splits)
  ultimately show ?thesis by (simp add: take_bit_eq_mask)
qed

lemma fld_unat: "fld w lo len = unat (take_bit len (drop_bit lo w))"
  by (simp add: fld_def unsigned_take_bit_eq unat_drop_bit_eq
      flip: take_bit_eq_mod drop_bit_eq_div)

lemma rv_extract_bits_fld:
  assumes "i_start \<le> i_end" "i_end < 32" "d_start + i_end = d_end + i_start"
  shows "rv_extract_bits imm i_start i_end d_start d_end
    = Some (of_nat (fld imm i_start (i_end + 1 - i_start) * 2 ^ d_start))"
proof -
  let ?len = "i_end + 1 - i_start"
  have "sar imm i_start AND (shl 2 (?len - 1) - 1) = take_bit ?len (drop_bit i_start imm)"
    using assms by (intro extract_take_bit) auto
  moreover have "?len - 1 = i_end - i_start"
    using assms by simp
  moreover have "take_bit ?len (drop_bit i_start imm) = of_nat (fld imm i_start ?len)"
    by (simp add: fld_unat)
  ultimately show ?thesis
    using assms by (simp add: rv_extract_bits_def push_bit_eq_mult)
qed

lemma fld_less [simp]: "fld w lo len < 2 ^ len"
  by (simp add: fld_def)

text \<open>All the fields of a word at once, from its value as a sum of the six R-format fields.\<close>

lemma rv_fields:
  assumes w: "unat w = c + 2 ^ 7 * rd + 2 ^ 12 * f3 + 2 ^ 15 * rs1 + 2 ^ 20 * rs2 + 2 ^ 25 * f7"
    and b: "c < 128" "rd < 32" "f3 < 8" "rs1 < 32" "rs2 < 32" "f7 < 128"
  shows "fld w 0 7 = c" "fld w 7 5 = rd" "fld w 12 3 = f3" "fld w 15 5 = rs1"
    "fld w 20 5 = rs2" "fld w 25 7 = f7"
    "fld w 20 12 = rs2 + 32 * f7"
    "fld w 12 20 = f3 + 8 * rs1 + 256 * rs2 + 8192 * f7"
    "fld w 12 8 = f3 + 8 * rs1"
proof -
  show "fld w 0 7 = c"
    by (rule fld_eqI [where a = 0 and c = "rd + 32 * f3 + 256 * rs1 + 8192 * rs2 + 262144 * f7"])
      (use w b in simp_all)
  show "fld w 7 5 = rd"
    by (rule fld_eqI [where a = c and c = "f3 + 8 * rs1 + 256 * rs2 + 8192 * f7"])
      (use w b in simp_all)
  show "fld w 12 3 = f3"
    by (rule fld_eqI [where a = "c + 128 * rd" and c = "rs1 + 32 * rs2 + 1024 * f7"])
      (use w b in simp_all)
  show "fld w 15 5 = rs1"
    by (rule fld_eqI [where a = "c + 128 * rd + 4096 * f3" and c = "rs2 + 32 * f7"])
      (use w b in simp_all)
  show "fld w 20 5 = rs2"
    by (rule fld_eqI [where a = "c + 128 * rd + 4096 * f3 + 32768 * rs1" and c = f7])
      (use w b in simp_all)
  show "fld w 25 7 = f7"
    by (rule fld_eqI [where a = "c + 128 * rd + 4096 * f3 + 32768 * rs1 + 1048576 * rs2" and c = 0])
      (use w b in simp_all)
  show "fld w 20 12 = rs2 + 32 * f7"
    by (rule fld_eqI [where a = "c + 128 * rd + 4096 * f3 + 32768 * rs1" and c = 0])
      (use w b in simp_all)
  show "fld w 12 20 = f3 + 8 * rs1 + 256 * rs2 + 8192 * f7"
    by (rule fld_eqI [where a = "c + 128 * rd" and c = 0]) (use w b in simp_all)
  show "fld w 12 8 = f3 + 8 * rs1"
    by (rule fld_eqI [where a = "c + 128 * rd" and c = "rs2 + 32 * f7"]) (use w b in simp_all)
qed

text \<open>A field inside a field.\<close>

lemma fld_sub: "a + n \<le> len \<Longrightarrow> fld w (lo + a) n = (fld w lo len div 2 ^ a) mod 2 ^ n"
proof -
  assume le: "a + n \<le> len"
  have "fld w (lo + a) n = unat (take_bit n (drop_bit a (drop_bit lo w)))"
    by (simp add: fld_unat add.commute)
  also have "take_bit n (drop_bit a (drop_bit lo w))
      = take_bit n (drop_bit a (take_bit len (drop_bit lo w)))"
    using le by (simp add: drop_bit_take_bit)
  also have "unat \<dots> = (fld w lo len div 2 ^ a) mod 2 ^ n"
    by (simp add: fld_unat unsigned_take_bit_eq unat_drop_bit_eq
        flip: take_bit_eq_mod drop_bit_eq_div)
  finally show ?thesis .
qed

section \<open>Immediates\<close>

lemma of_int_sint_eq: "(a::cint) = of_int (sint a)"
  by simp

lemma unat_of_int_range: "0 \<le> i \<Longrightarrow> i < 2 ^ 32 \<Longrightarrow> unat (of_int i :: cint) = nat i"
  by (simp add: unsigned_of_int take_bit_int_eq_self)

text \<open>Sign extension of the low \<open>n\<close> bits gives back a value that fits them.\<close>

lemma sext_of_int:
  assumes "0 < n" "n \<le> 32" "- (2 ^ (n - 1)) \<le> i" "i < 2 ^ (n - 1)"
  shows "sext n (nat (i mod 2 ^ n)) = of_int i"
proof -
  have two: "(2::int) ^ n = 2 * 2 ^ (n - 1)"
    using assms(1) by (cases n) auto
  show ?thesis
  proof (cases "0 \<le> i")
    case True
    then have "i mod 2 ^ n = i"
      using assms two by simp
    with True assms show ?thesis
      by (simp add: sext_def nat_less_iff)
  next
    case False
    have "i mod 2 ^ n = (i + 2 ^ n) mod 2 ^ n"
      by simp
    also have "\<dots> = i + 2 ^ n"
      using False assms two by (intro mod_pos_pos_trivial) auto
    finally have eq: "i mod 2 ^ n = i + 2 ^ n" .
    have "\<not> nat (i + 2 ^ n) < 2 ^ (n - 1)"
      using False assms two by (simp add: nat_less_iff)
    moreover have "(of_nat (nat (i + 2 ^ n)) :: cint) = of_int (i + 2 ^ n)"
      using False assms two by (simp add: of_nat_nat)
    ultimately show ?thesis
      by (simp add: sext_def eq)
  qed
qed

lemma sext_sint:
  assumes "0 < n" "n \<le> 32" "- (2 ^ (n - 1)) \<le> sint a" "sint a < 2 ^ (n - 1)"
  shows "sext n (nat (sint a mod 2 ^ n)) = a"
  using sext_of_int [OF assms] by simp

lemma fld_sint: "lo + len \<le> 32 \<Longrightarrow> fld a lo len = nat (sint a div 2 ^ lo mod 2 ^ len)"
proof -
  assume le: "lo + len \<le> 32"
  have "int (fld a lo len) = take_bit len (drop_bit lo (uint a))"
    by (simp add: fld_def zdiv_int zmod_int take_bit_eq_mod drop_bit_eq_div)
  also have "\<dots> = take_bit len (drop_bit lo (sint a))"
    using le by (auto intro!: bit_eqI simp: bit_simps sint_uint)
  also have "\<dots> = sint a div 2 ^ lo mod 2 ^ len"
    by (simp add: take_bit_eq_mod drop_bit_eq_div)
  finally show ?thesis by simp
qed

section \<open>The six formats\<close>

text \<open>The value of a word through its R-format fields.\<close>

definition enc_fields :: "cint \<Rightarrow> nat \<Rightarrow> nat \<Rightarrow> nat \<Rightarrow> nat \<Rightarrow> nat \<Rightarrow> nat \<Rightarrow> bool" where
  "enc_fields w c rd f3 rs1 rs2 f7 \<longleftrightarrow>
     unat w = c + 2 ^ 7 * rd + 2 ^ 12 * f3 + 2 ^ 15 * rs1 + 2 ^ 20 * rs2 + 2 ^ 25 * f7 \<and>
     c < 128 \<and> rd < 32 \<and> f3 < 8 \<and> rs1 < 32 \<and> rs2 < 32 \<and> f7 < 128"

lemma enc_fieldsI:
  assumes "w = of_nat (c + 2 ^ 7 * rd + 2 ^ 12 * f3 + 2 ^ 15 * rs1 + 2 ^ 20 * rs2 + 2 ^ 25 * f7)"
    and "c < 128" "rd < 32" "f3 < 8" "rs1 < 32" "rs2 < 32" "f7 < 128"
  shows "enc_fields w c rd f3 rs1 rs2 f7"
  using assms unfolding enc_fields_def by (intro conjI unat_of_sum) simp_all

lemma enc_fields_fld:
  assumes "enc_fields w c rd f3 rs1 rs2 f7"
  shows "fld w 0 7 = c" "fld w 7 5 = rd" "fld w 12 3 = f3" "fld w 15 5 = rs1"
    "fld w 20 5 = rs2" "fld w 25 7 = f7" "fld w 20 12 = rs2 + 32 * f7"
    "fld w 12 20 = f3 + 8 * rs1 + 256 * rs2 + 8192 * f7"
    "fld w 12 8 = f3 + 8 * rs1"
    "fld w 8 4 = rd div 2" "fld w 7 1 = rd mod 2"
    "fld w 25 6 = f7 mod 64" "fld w 31 1 = f7 div 64"
    "fld w 20 1 = rs2 mod 2" "fld w 21 10 = (rs2 + 32 * f7) div 2 mod 1024"
proof -
  have b: "rd < 32" "f7 < 128"
    using assms by (auto simp: enc_fields_def)
  from assms show f: "fld w 0 7 = c" "fld w 7 5 = rd" "fld w 12 3 = f3" "fld w 15 5 = rs1"
    "fld w 20 5 = rs2" "fld w 25 7 = f7" "fld w 20 12 = rs2 + 32 * f7"
    "fld w 12 20 = f3 + 8 * rs1 + 256 * rs2 + 8192 * f7" "fld w 12 8 = f3 + 8 * rs1"
    by (auto simp: enc_fields_def intro: rv_fields)
  show "fld w 8 4 = rd div 2"
    using fld_sub [of 1 4 5 w 7] f b by simp
  show "fld w 7 1 = rd mod 2"
    using fld_sub [of 0 1 5 w 7] f by simp
  show "fld w 25 6 = f7 mod 64"
    using fld_sub [of 0 6 7 w 25] f by simp
  show "fld w 31 1 = f7 div 64"
    using fld_sub [of 6 1 7 w 25] f b by simp
  show "fld w 20 1 = rs2 mod 2"
    using fld_sub [of 0 1 5 w 20] f by simp
  show "fld w 21 10 = (rs2 + 32 * f7) div 2 mod 1024"
    using fld_sub [of 1 10 12 w 20] f by simp
qed

text \<open>\<open>opc_fields\<close>: an opcode constant sets only the opcode and the two function fields.\<close>

definition opc_fields :: "rv_op \<Rightarrow> nat \<Rightarrow> nat \<Rightarrow> nat \<Rightarrow> bool" where
  "opc_fields opc c f3 f7 \<longleftrightarrow>
     rv_op_val opc = of_nat (c + 2 ^ 12 * f3 + 2 ^ 25 * f7) \<and> c < 128 \<and> f3 < 8 \<and> f7 < 128"

lemma encode_R_fields:
  assumes "opc_fields opc c f3 f7" "unat rd < 32" "unat rs1 < 32" "unat rs2 < 32"
  shows "enc_fields (rv_encode_R opc rd rs1 rs2) c (unat rd) f3 (unat rs1) (unat rs2) f7"
  using assms
  by (intro enc_fieldsI) (simp_all add: opc_fields_def rv_encode_R_def shl_of_nat algebra_simps)

lemma split_imm12: "2 ^ 20 * (x::nat) = 2 ^ 20 * (x mod 32) + 2 ^ 25 * (x div 32)"
proof -
  obtain q r where "x mod 32 = r" "x div 32 = q" "x = r + 32 * q"
    by (metis mod_mult_div_eq)
  then show ?thesis by simp
qed

text \<open>The 12-bit immediate both formats I and S work with.\<close>

definition k12 :: "cint \<Rightarrow> nat" where
  "k12 imm = nat (sint imm mod 2 ^ 12)"

lemma k12_less: "k12 imm < 4096"
  by (simp add: k12_def nat_less_iff)

lemma k12_imm:
  assumes "\<not> (lt_s 2047 imm \<or> lt_s imm (-2048))"
  shows "(if lt_s imm 0 then (imm + 4096) AND (shl 1 13 - 1) else imm) = of_nat (k12 imm)"
    and "sext 12 (k12 imm) = imm"
proof -
  have r: "- 2048 \<le> sint imm" "sint imm \<le> 2047"
    using assms by (simp_all add: lt_s_sint)
  show "sext 12 (k12 imm) = imm"
    unfolding k12_def by (rule sext_sint) (use r in simp_all)
  show "(if lt_s imm 0 then (imm + 4096) AND (shl 1 13 - 1) else imm) = of_nat (k12 imm)"
  proof (cases "lt_s imm 0")
    case True
    have "sint imm mod 4096 = (sint imm + 4096) mod 4096" by simp
    also have "\<dots> = sint imm + 4096"
      using True r by (intro mod_pos_pos_trivial) (simp_all add: lt_s_sint)
    finally have k: "int (k12 imm) = sint imm + 4096"
      using True r by (simp add: k12_def lt_s_sint)
    then have e: "imm + 4096 = of_nat (k12 imm)"
      by (metis of_int_add of_int_numeral of_int_of_nat_eq of_int_sint_eq)
    have "(of_nat (k12 imm) :: cint) AND (shl 1 13 - 1) = take_bit 13 (of_nat (k12 imm))"
      by (simp add: take_bit_eq_mask mask_eq_decr_exp)
    also have "\<dots> = of_nat (take_bit 13 (k12 imm))"
      by (simp add: take_bit_of_nat)
    also have "\<dots> = of_nat (k12 imm)"
      using k12_less [of imm] by (simp add: take_bit_nat_eq_self)
    finally show ?thesis
      using True e by simp
  next
    case False
    then have "int (k12 imm) = sint imm"
      using r by (simp add: k12_def lt_s_sint mod_pos_pos_trivial)
    then have "of_nat (k12 imm) = imm"
      by (metis of_int_of_nat_eq of_int_sint_eq)
    with False show ?thesis by simp
  qed
qed

lemma encode_I_fields:
  assumes "rv_encode_I opc rd rs1 imm = Some w" "opc_fields opc c f3 f7"
    "unat rd < 32" "unat rs1 < 32" "k12 imm div 32 + f7 < 128"
  shows "enc_fields w c (unat rd) f3 (unat rs1) (k12 imm mod 32) (k12 imm div 32 + f7)"
    and "sext 12 (k12 imm) = imm"
proof -
  have g: "\<not> (lt_s 2047 imm \<or> lt_s imm (-2048))"
    using assms(1) by (auto simp: rv_encode_I_def split: if_splits)
  have w: "w = rv_op_val opc + shl rd 7 + shl rs1 15 + shl (of_nat (k12 imm)) 20"
    using assms(1) g k12_imm(1) [OF g] by (simp add: rv_encode_I_def Let_def)
  have k: "2 ^ 20 * k12 imm = 2 ^ 20 * (k12 imm mod 32) + 2 ^ 25 * (k12 imm div 32)"
    by (rule split_imm12)
  have "shl (of_nat (k12 imm)) 20 = (of_nat (2 ^ 20 * k12 imm) :: cint)"
    by (simp add: push_bit_eq_mult)
  then have sh: "shl (of_nat (k12 imm)) 20
      = (of_nat (2 ^ 20 * (k12 imm mod 32) + 2 ^ 25 * (k12 imm div 32)) :: cint)"
    by (simp only: k)
  have w': "w = rv_op_val opc + shl rd 7 + shl rs1 15
      + of_nat (2 ^ 20 * (k12 imm mod 32) + 2 ^ 25 * (k12 imm div 32))"
    by (simp only: w sh)
  show "enc_fields w c (unat rd) f3 (unat rs1) (k12 imm mod 32) (k12 imm div 32 + f7)"
    by (rule enc_fieldsI)
      (use assms(2-) in \<open>simp_all add: w' opc_fields_def shl_of_nat algebra_simps\<close>)
  show "sext 12 (k12 imm) = imm"
    by (rule k12_imm(2) [OF g])
qed

lemma fld_of_nat: "k < 2 ^ 32 \<Longrightarrow> fld (of_nat k) lo len = k div 2 ^ lo mod 2 ^ len"
  by (simp add: fld_def unat_of_nat)

lemma encode_S_fields:
  assumes "rv_encode_S opc rs1 rs2 imm = Some w" "opc_fields opc c f3 0"
    "unat rs1 < 32" "unat rs2 < 32"
  shows "enc_fields w c (k12 imm mod 32) f3 (unat rs1) (unat rs2) (k12 imm div 32)"
    and "sext 12 (k12 imm) = imm"
proof -
  have g: "\<not> (lt_s 2047 imm \<or> lt_s imm (-2048))"
    using assms(1) by (auto simp: rv_encode_S_def split: if_splits)
  have k: "k12 imm < 4096" by (rule k12_less)
  have w: "w = rv_op_val opc + shl rs1 15 + shl rs2 20 + of_nat (2 ^ 7 * (k12 imm mod 32))
      + of_nat (2 ^ 25 * (k12 imm div 32))"
    using assms(1) g k12_imm(1) [OF g] k
    by (simp add: rv_encode_S_def Let_def rv_extract_bits_fld fld_of_nat mult.commute)
  show "enc_fields w c (k12 imm mod 32) f3 (unat rs1) (unat rs2) (k12 imm div 32)"
    by (rule enc_fieldsI)
      (use assms(2-) k in \<open>simp_all add: w opc_fields_def shl_of_nat algebra_simps\<close>)
  show "sext 12 (k12 imm) = imm"
    by (rule k12_imm(2) [OF g])
qed

text \<open>Joining adjacent fields.\<close>

lemma mod_split: "(i::int) mod 2 ^ (a + b) = i mod 2 ^ a + 2 ^ a * (i div 2 ^ a mod 2 ^ b)"
  by (simp add: power_add zmod_zmult2_eq)

lemma fld_join: "lo + a + b \<le> 32 \<Longrightarrow> fld x lo (a + b) = fld x lo a + 2 ^ a * fld x (lo + a) b"
proof -
  assume le: "lo + a + b \<le> 32"
  have "unat x div 2 ^ lo mod 2 ^ (a + b)
      = 2 ^ a * (unat x div 2 ^ lo div 2 ^ a mod 2 ^ b) + unat x div 2 ^ lo mod 2 ^ a"
    by (simp add: power_add mod_mult2_eq)
  then show ?thesis
    by (simp add: fld_def power_add div_mult2_eq)
qed

lemma fld_even0: "even (sint a) \<Longrightarrow> fld a 0 1 = 0"
  using fld_sint [of 0 1 a] by (simp add: even_iff_mod_2_eq_zero)

text \<open>The sign of a value that fits \<open>n + 1\<close> bits is its bit \<open>n\<close>.\<close>

lemma fld_sign:
  assumes "n < 32" "- (2 ^ n) \<le> sint a" "sint a < 2 ^ n"
  shows "fld a n 1 = (if lt_s a 0 then 1 else 0)"
proof (cases "lt_s a 0")
  case True
  then have "sint a < 0" by (simp add: lt_s_sint)
  have "sint a div 2 ^ n = -1"
    using \<open>sint a < 0\<close> assms by (intro int_div_pos_eq [where r = "sint a + 2 ^ n"]) auto
  with True assms show ?thesis
    using fld_sint [of n 1 a] by simp
next
  case False
  then have "sint a div 2 ^ n = 0"
    using assms by (simp add: lt_s_sint div_pos_pos_trivial)
  with False assms show ?thesis
    using fld_sint [of n 1 a] by simp
qed

lemma fld_low_bound: "unat (of_bool_c b) < 2"
  by (simp add: of_bool_c_def)

lemma encode_B_fields:
  assumes "rv_encode_B opc rs1 rs2 imm = Some w" "opc_fields opc c f3 0"
    "unat rs1 < 32" "unat rs2 < 32"
  shows "enc_fields w c (fld imm 11 1 + 2 * fld imm 1 4) f3 (unat rs1) (unat rs2)
    (fld imm 5 6 + 64 * fld imm 12 1)"
proof -
  have g: "- 4096 \<le> sint imm" "sint imm \<le> 4095"
    using assms(1) by (auto simp: rv_encode_B_def lt_s_sint split: if_splits)
  have sgn: "of_bool_c (sint imm < 0) = of_nat (fld imm 12 1)"
    using fld_sign [of 12 imm] g by (simp add: of_bool_c_def lt_s_sint)
  have b: "fld imm 11 1 < 2" "fld imm 1 4 < 16" "fld imm 5 6 < 64" "fld imm 12 1 < 2"
    using fld_less [of imm 11 1] fld_less [of imm 1 4] fld_less [of imm 5 6]
      fld_less [of imm 12 1] by simp_all
  have w: "w = rv_op_val opc + shl rs1 15 + shl rs2 20 + of_nat (2 ^ 7 * fld imm 11 1)
      + of_nat (2 ^ 8 * fld imm 1 4) + of_nat (2 ^ 25 * fld imm 5 6)
      + of_nat (2 ^ 31 * fld imm 12 1)"
    using assms(1) g
    by (simp add: rv_encode_B_def Let_def rv_extract_bits_fld lt_s_sint sgn
        push_bit_eq_mult mult.commute)
  show ?thesis
    by (rule enc_fieldsI)
      (use assms(2-) b in \<open>simp_all add: w opc_fields_def shl_of_nat algebra_simps\<close>)
qed

lemma encode_B_imm:
  assumes "rv_encode_B opc rs1 rs2 imm = Some w" "even (sint imm)"
    and f: "enc_fields w c (fld imm 11 1 + 2 * fld imm 1 4) f3 r1 r2 (fld imm 5 6 + 64 * fld imm 12 1)"
  shows "imm_B w = imm"
proof -
  have g: "- 4096 \<le> sint imm" "sint imm \<le> 4095"
    using assms(1) by (auto simp: rv_encode_B_def lt_s_sint split: if_splits)
  have b: "fld imm 11 1 < 2" "fld imm 5 6 < 64"
    using fld_less [of imm 11 1] fld_less [of imm 5 6] by simp_all
  have "fld imm 0 13 = nat (sint imm mod 2 ^ 13)"
    using fld_sint [of 0 13 imm] by simp
  moreover have "fld imm 11 2 = fld imm 11 1 + 2 * fld imm 12 1"
    using fld_join [of 11 1 1 imm] by (simp add: numeral_2_eq_2)
  then have "fld imm 0 13 = 2 * fld imm 1 4 + 2 ^ 5 * fld imm 5 6 + 2 ^ 11 * fld imm 11 1
      + 2 ^ 12 * fld imm 12 1"
    using fld_join [of 0 1 12 imm] fld_join [of 1 4 8 imm] fld_join [of 5 6 2 imm]
      fld_even0 [OF assms(2)] by simp
  moreover have "sext 13 (nat (sint imm mod 2 ^ 13)) = imm"
    by (rule sext_sint) (use g in simp_all)
  moreover have "fld w 8 4 = fld imm 1 4" "fld w 7 1 = fld imm 11 1"
    "fld w 25 6 = fld imm 5 6" "fld w 31 1 = fld imm 12 1"
    unfolding enc_fields_fld [OF f] using b by simp_all
  ultimately show ?thesis
    by (simp only: imm_B_def)
qed

lemma split_field: "2 ^ a * (x::nat) = 2 ^ a * (x mod 2 ^ b) + 2 ^ (a + b) * (x div 2 ^ b)"
proof -
  obtain q r where "x mod 2 ^ b = r" "x div 2 ^ b = q" "x = r + 2 ^ b * q"
    by (metis mod_mult_div_eq)
  then show ?thesis by (simp add: power_add algebra_simps)
qed

lemma of_nat_split_field:
  "(of_nat (2 ^ a * x) :: cint) = of_nat (2 ^ a * (x mod 2 ^ b)) + of_nat (2 ^ (a + b) * (x div 2 ^ b))"
  by (subst split_field [of a x b]) (rule of_nat_add)

text \<open>The J format works on \<open>(1 << 21) + imm\<close> where \<open>imm\<close> is negative; its low 21 bits are those of \<open>imm\<close>.\<close>

lemma fld_cong_take_bit: "take_bit n a = take_bit n b \<Longrightarrow> lo + len \<le> n \<Longrightarrow> fld a lo len = fld b lo len"
proof -
  assume e: "take_bit n a = take_bit n b" and le: "lo + len \<le> n"
  have "take_bit len (drop_bit lo x) = take_bit len (drop_bit lo (take_bit n x))" for x :: cint
    using le by (simp add: drop_bit_take_bit)
  then show ?thesis by (metis e fld_unat)
qed

lemma fld_J: "lo + len \<le> 21 \<Longrightarrow> fld (shl 1 21 - (- imm)) lo len = fld imm lo len"
proof -
  have "take_bit 21 (2097152 + imm) = take_bit 21 imm"
    by (simp only: word_uint_eq_iff unsigned_take_bit_eq)
      (simp add: uint_word_ariths take_bit_eq_mod mod_mod_cancel)
  moreover have "shl 1 21 - (- imm) = 2097152 + imm"
    by simp
  ultimately have "take_bit 21 (shl 1 21 - (- imm)) = take_bit 21 imm"
    by (simp only:)
  then show "lo + len \<le> 21 \<Longrightarrow> ?thesis"
    by (rule fld_cong_take_bit)
qed

lemma encode_J_fields:
  assumes "rv_encode_J opc rd imm = Some w" "opc_fields opc c 0 0" "unat rd < 32"
    and r: "- (2 ^ 20) \<le> sint imm" "sint imm < 2 ^ 20"
  shows "enc_fields w c (unat rd) (fld imm 12 8 mod 8) (fld imm 12 8 div 8)
    (fld imm 11 1 + 2 * (fld imm 1 10 mod 16)) (fld imm 1 10 div 16 + 64 * fld imm 20 1)"
proof -
  have b: "fld imm 11 1 < 2" "fld imm 1 10 < 1024" "fld imm 12 8 < 256" "fld imm 20 1 < 2"
    using fld_less [of imm 11 1] fld_less [of imm 1 10] fld_less [of imm 12 8]
      fld_less [of imm 20 1] by simp_all
  have sgn: "shl (of_bool_c (lt_s imm 0)) 31 = of_nat (2 ^ 31 * fld imm 20 1)"
    using fld_sign [of 20 imm] r by (simp add: of_bool_c_def)
  define imm' where "imm' = (if lt_s imm 0 then shl 1 21 - (- imm) else imm)"
  have f: "fld imm' 1 10 = fld imm 1 10" "fld imm' 11 1 = fld imm 11 1" "fld imm' 12 8 = fld imm 12 8"
    unfolding imm'_def by (simp_all only: fld_J split: if_splits) simp_all
  have "w = rv_op_val opc + shl rd 7 + of_nat (fld imm' 1 10 * 2 ^ 21)
      + of_nat (fld imm' 11 1 * 2 ^ 20) + of_nat (fld imm' 12 8 * 2 ^ 12)
      + shl (of_bool_c (lt_s imm 0)) 31"
    using assms(1)
    by (simp add: rv_encode_J_def Let_def rv_extract_bits_fld del: of_nat_mult of_nat_power
        flip: imm'_def)
  then have w: "w = rv_op_val opc + shl rd 7
      + (of_nat (2 ^ 21 * (fld imm 1 10 mod 2 ^ 4)) + of_nat (2 ^ (21 + 4) * (fld imm 1 10 div 2 ^ 4)))
      + of_nat (2 ^ 20 * fld imm 11 1)
      + (of_nat (2 ^ 12 * (fld imm 12 8 mod 2 ^ 3)) + of_nat (2 ^ (12 + 3) * (fld imm 12 8 div 2 ^ 3)))
      + of_nat (2 ^ 31 * fld imm 20 1)"
    unfolding of_nat_split_field [symmetric] f sgn by (simp only: mult.commute)
  show ?thesis
  proof (rule enc_fieldsI)
    show "fld imm 12 8 div 8 < 32" "fld imm 1 10 div 16 + 64 * fld imm 20 1 < 128"
      using b by linarith+
  qed (use assms(2,3) b in \<open>simp_all add: w opc_fields_def shl_of_nat algebra_simps\<close>)
qed

lemma encode_J_imm:
  assumes f: "enc_fields w c rd (fld imm 12 8 mod 8) (fld imm 12 8 div 8)
    (fld imm 11 1 + 2 * (fld imm 1 10 mod 16)) (fld imm 1 10 div 16 + 64 * fld imm 20 1)"
    and r: "- (2 ^ 20) \<le> sint imm" "sint imm < 2 ^ 20" "even (sint imm)"
  shows "imm_J w = imm"
proof -
  have b: "fld imm 11 1 < 2" "fld imm 1 10 < 1024" "fld imm 12 8 < 256" "fld imm 20 1 < 2"
    using fld_less [of imm 11 1] fld_less [of imm 1 10] fld_less [of imm 12 8]
      fld_less [of imm 20 1] by simp_all
  have w10: "fld w 21 10 = fld imm 1 10"
  proof -
    obtain q r where qr: "fld imm 1 10 div 16 = q" "fld imm 1 10 mod 16 = r"
      "fld imm 1 10 = r + 16 * q"
      by (metis mod_mult_div_eq)
    then have "r < 16" "q < 64" using b by (auto simp: less_mult_imp_div_less)
    define X where "X = r + 16 * q + 1024 * fld imm 20 1"
    have e1: "fld imm 11 1 + 2 * r + 32 * (q + 64 * fld imm 20 1) = fld imm 11 1 + 2 * X"
      by (simp add: X_def)
    have e2: "(fld imm 11 1 + 2 * X) div 2 = X"
      using b by (simp del: One_nat_def)
    have e3: "X mod 1024 = r + 16 * q"
      using \<open>r < 16\<close> \<open>q < 64\<close> by (simp add: X_def)
    have "(fld imm 11 1 + 2 * r + 32 * (q + 64 * fld imm 20 1)) div 2 mod 1024 = r + 16 * q"
      by (simp only: e1 e2 e3)
    then show ?thesis
      unfolding enc_fields_fld [OF f] qr(1,2) by (simp only: qr(3))
  qed
  moreover have "fld w 20 1 = fld imm 11 1"
    unfolding enc_fields_fld [OF f] using b by simp
  moreover have "fld w 12 8 = fld imm 12 8"
    unfolding enc_fields_fld [OF f] by simp
  moreover have "fld w 31 1 = fld imm 20 1"
  proof -
    have "fld imm 1 10 div 16 < 64" using b by linarith
    then show ?thesis unfolding enc_fields_fld [OF f] by simp
  qed
  moreover have "fld imm 0 21 = 2 * fld imm 1 10 + 2 ^ 11 * fld imm 11 1 + 2 ^ 12 * fld imm 12 8
      + 2 ^ 20 * fld imm 20 1"
    using fld_join [of 0 1 20 imm] fld_join [of 1 10 10 imm] fld_join [of 11 1 9 imm]
      fld_join [of 12 8 1 imm] fld_even0 [OF r(3)] by simp
  moreover have "fld imm 0 21 = nat (sint imm mod 2 ^ 21)"
    using fld_sint [of 0 21 imm] by simp
  moreover have "sext 21 (nat (sint imm mod 2 ^ 21)) = imm"
    by (rule sext_sint) (use r in simp_all)
  ultimately show ?thesis
    by (simp only: imm_J_def)
qed

lemma encode_U_fields:
  assumes "rv_encode_U opc rd imm = Some w" "opc_fields opc c 0 0" "unat rd < 32"
  shows "fld w 0 7 = c" "fld w 7 5 = unat rd" "imm_U w = imm AND NOT 0xFFF"
proof -
  let ?h = "fld imm 12 20"
  have h: "?h < 2 ^ 20" by (rule fld_less)
  have w: "w = of_nat (c + 2 ^ 7 * unat rd + 2 ^ 12 * ?h)"
    using assms by (simp add: rv_encode_U_def rv_extract_bits_fld opc_fields_def shl_of_nat
        mult.commute)
  have u: "unat w = c + 2 ^ 7 * unat rd + 2 ^ 12 * ?h"
    by (rule unat_of_sum [OF w]) (use assms h in \<open>simp add: opc_fields_def\<close>)
  have c: "c < 128" using assms by (simp add: opc_fields_def)
  show "fld w 0 7 = c"
    by (rule fld_eqI [where a = 0 and c = "unat rd + 32 * ?h"]) (use u c in simp_all)
  show "fld w 7 5 = unat rd"
    by (rule fld_eqI [where a = c and c = ?h]) (use u c assms(3) in simp_all)
  have "fld w 12 20 = ?h"
    by (rule fld_eqI [where a = "c + 128 * unat rd" and c = 0]) (use u c h assms(3) in simp_all)
  then have "imm_U w = push_bit 12 (take_bit 20 (drop_bit 12 imm))"
    by (simp add: imm_U_def fld_unat push_bit_eq_mult mult.commute)
  also have "take_bit 20 (drop_bit 12 imm) = drop_bit 12 imm"
    using bit_imp_le_length [of imm] by (fastforce intro!: bit_word_eqI simp: bit_simps)
  also have "push_bit 12 (drop_bit 12 imm) = imm AND NOT (mask 12)"
    by (auto intro!: bit_word_eqI simp: bit_simps)
  also have "mask 12 = (0xFFF :: cint)"
    by (simp add: mask_eq_decr_exp)
  finally show "imm_U w = imm AND NOT 0xFFF" .
qed

section \<open>Decoding every mnemonic\<close>

lemma decode_R:
  assumes "opc_fields opc 51 f3 f7" "alu_of f7 f3 = Some a"
    "unat rd < 32" "unat rs1 < 32" "unat rs2 < 32"
  shows "rv_decode (rv_encode_R opc rd rs1 rs2) = Some (I_alu a (unat rd) (unat rs1) (unat rs2))"
  using enc_fields_fld [OF encode_R_fields [OF assms(1,3,4,5)]] assms(2)
  by (simp add: rv_decode_def Let_def)

lemma opc_fields_R:
  "opc_fields rv_add 51 0 0" "opc_fields rv_sub 51 0 32" "opc_fields rv_xor 51 4 0"
  "opc_fields rv_or 51 6 0" "opc_fields rv_and 51 7 0" "opc_fields rv_sll 51 1 0"
  "opc_fields rv_srl 51 5 0" "opc_fields rv_sra 51 5 32" "opc_fields rv_slt 51 2 0"
  "opc_fields rv_sltu 51 3 0" "opc_fields rv_mul 51 0 1" "opc_fields rv_div 51 4 1"
  "opc_fields rv_mod 51 6 1"
  by (simp_all add: opc_fields_def)

lemma opc_fields_I:
  "opc_fields rv_addi 19 0 0" "opc_fields rv_xori 19 4 0" "opc_fields rv_ori 19 6 0"
  "opc_fields rv_andi 19 7 0" "opc_fields rv_slti 19 2 0" "opc_fields rv_sltiu 19 3 0"
  "opc_fields rv_slli 19 1 0" "opc_fields rv_srli 19 5 0" "opc_fields rv_srai 19 5 32"
  "opc_fields rv_lb 3 0 0" "opc_fields rv_lh 3 1 0" "opc_fields rv_lw 3 2 0"
  "opc_fields rv_lbu 3 4 0" "opc_fields rv_lhu 3 5 0" "opc_fields rv_jalr 103 0 0"
  by (simp_all add: opc_fields_def)

lemma opc_fields_SBJU:
  "opc_fields rv_sb 35 0 0" "opc_fields rv_sh 35 1 0" "opc_fields rv_sw 35 2 0"
  "opc_fields rv_beq 99 0 0" "opc_fields rv_bne 99 1 0" "opc_fields rv_blt 99 4 0"
  "opc_fields rv_bge 99 5 0" "opc_fields rv_bltu 99 6 0" "opc_fields rv_bgeu 99 7 0"
  "opc_fields rv_jal 111 0 0" "opc_fields rv_lui 55 0 0" "opc_fields rv_auipc 23 0 0"
  by (simp_all add: opc_fields_def)

lemma decode_R_mnemonics:
  assumes "unat rd < 32" "unat rs1 < 32" "unat rs2 < 32"
  shows "rv_decode (rvi_add rd rs1 rs2) = Some (I_alu A_add (unat rd) (unat rs1) (unat rs2))"
    and "rv_decode (rvi_sub rd rs1 rs2) = Some (I_alu A_sub (unat rd) (unat rs1) (unat rs2))"
    and "rv_decode (rvi_xor rd rs1 rs2) = Some (I_alu A_xor (unat rd) (unat rs1) (unat rs2))"
    and "rv_decode (rvi_or rd rs1 rs2) = Some (I_alu A_or (unat rd) (unat rs1) (unat rs2))"
    and "rv_decode (rvi_and rd rs1 rs2) = Some (I_alu A_and (unat rd) (unat rs1) (unat rs2))"
    and "rv_decode (rvi_sll rd rs1 rs2) = Some (I_alu A_sll (unat rd) (unat rs1) (unat rs2))"
    and "rv_decode (rvi_srl rd rs1 rs2) = Some (I_alu A_srl (unat rd) (unat rs1) (unat rs2))"
    and "rv_decode (rvi_sra rd rs1 rs2) = Some (I_alu A_sra (unat rd) (unat rs1) (unat rs2))"
    and "rv_decode (rvi_slt rd rs1 rs2) = Some (I_alu A_slt (unat rd) (unat rs1) (unat rs2))"
    and "rv_decode (rvi_sltu rd rs1 rs2) = Some (I_alu A_sltu (unat rd) (unat rs1) (unat rs2))"
    and "rv_decode (rvi_mul rd rs1 rs2) = Some (I_alu A_mul (unat rd) (unat rs1) (unat rs2))"
    and "rv_decode (rvi_div rd rs1 rs2) = Some (I_alu A_div (unat rd) (unat rs1) (unat rs2))"
    and "rv_decode (rvi_mod rd rs1 rs2) = Some (I_alu A_rem (unat rd) (unat rs1) (unat rs2))"
  unfolding rvi_defs
  by (rule decode_R [OF _ _ assms], rule opc_fields_R, simp add: alu_of_def)+

lemma decode_alui_I:
  assumes "rv_encode_I opc rd rs1 imm = Some w" "opc_fields opc 19 f3 0"
    "unat rd < 32" "unat rs1 < 32" "f3 \<noteq> 1" "f3 \<noteq> 5" "alu_of 0 f3 = Some a"
  shows "rv_decode w = Some (I_alui a (unat rd) (unat rs1) imm)"
proof -
  have lt: "k12 imm div 32 + 0 < 128" using k12_less [of imm] by simp
  note f = enc_fields_fld [OF encode_I_fields(1) [OF assms(1-4) lt]]
  have "imm_I w = imm"
    using encode_I_fields(2) [OF assms(1-4) lt] by (simp add: imm_I_def f)
  with assms(5-7) show ?thesis
    by (simp add: rv_decode_def decode_alui_def Let_def f)
qed

lemma decode_shift_I:
  assumes "rv_encode_I opc rd rs1 imm = Some w" "opc_fields opc 19 f3 f7"
    "unat rd < 32" "unat rs1 < 32" "unat imm < 32"
    "f3 = 1 \<and> f7 = 0 \<and> a = A_sll \<or> f3 = 5 \<and> f7 = 0 \<and> a = A_srl \<or> f3 = 5 \<and> f7 = 32 \<and> a = A_sra"
  shows "rv_decode w = Some (I_alui a (unat rd) (unat rs1) imm)"
proof -
  have u: "int (unat imm) < 32" using assms(5) by linarith
  then have "sint imm = uint imm"
    by (simp add: sint_uint_if)
  then have "sint imm mod 2 ^ 12 = uint imm"
    using u by (simp add: mod_pos_pos_trivial)
  then have k: "k12 imm = unat imm"
    by (simp add: k12_def)
  have lt: "k12 imm div 32 + f7 < 128" using k assms(5,6) by auto
  note f = enc_fields_fld [OF encode_I_fields(1) [OF assms(1-4) lt]]
  show ?thesis
    using assms(5,6) by (auto simp: rv_decode_def decode_alui_def Let_def f k)
qed

lemma decode_load_I:
  assumes "rv_encode_I opc rd rs1 imm = Some w" "opc_fields opc 3 f3 0"
    "unat rd < 32" "unat rs1 < 32"
    "f3 = 0 \<and> n = 1 \<and> sg \<or> f3 = 1 \<and> n = 2 \<and> sg \<or> f3 = 2 \<and> n = 4 \<and> sg
     \<or> f3 = 4 \<and> n = 1 \<and> \<not> sg \<or> f3 = 5 \<and> n = 2 \<and> \<not> sg"
  shows "rv_decode w = Some (I_load n sg (unat rd) (unat rs1) imm)"
proof -
  have lt: "k12 imm div 32 + 0 < 128" using k12_less [of imm] by simp
  note f = enc_fields_fld [OF encode_I_fields(1) [OF assms(1-4) lt]]
  have "imm_I w = imm"
    using encode_I_fields(2) [OF assms(1-4) lt] by (simp add: imm_I_def f)
  with assms(5) show ?thesis
    by (auto simp: rv_decode_def decode_load_def Let_def f)
qed

lemma decode_jalr:
  assumes "rvi_jalr rd rs1 imm = Some w" "unat rd < 32" "unat rs1 < 32"
  shows "rv_decode w = Some (I_jalr (unat rd) (unat rs1) imm)"
proof -
  have e: "rv_encode_I rv_jalr rd rs1 imm = Some w"
    using assms(1) by (simp add: rvi_jalr_def)
  have lt: "k12 imm div 32 + 0 < 128" using k12_less [of imm] by simp
  note f = enc_fields_fld [OF encode_I_fields(1) [OF e opc_fields_I(15) assms(2,3) lt]]
  have "imm_I w = imm"
    using encode_I_fields(2) [OF e opc_fields_I(15) assms(2,3) lt] by (simp add: imm_I_def f)
  then show ?thesis
    by (simp add: rv_decode_def Let_def f)
qed

lemma decode_S:
  assumes "rv_encode_S opc rs1 rs2 imm = Some w" "opc_fields opc 35 f3 0"
    "unat rs1 < 32" "unat rs2 < 32"
    "f3 = 0 \<and> n = 1 \<or> f3 = 1 \<and> n = 2 \<or> f3 = 2 \<and> n = 4"
  shows "rv_decode w = Some (I_store n (unat rs2) (unat rs1) imm)"
proof -
  note f = enc_fields_fld [OF encode_S_fields(1) [OF assms(1-4)]]
  have "imm_S w = imm"
    using encode_S_fields(2) [OF assms(1-4)] by (simp add: imm_S_def f)
  with assms(5) show ?thesis
    by (auto simp: rv_decode_def decode_store_def Let_def f)
qed

lemma decode_B:
  assumes "rv_encode_B opc rs1 rs2 imm = Some w" "opc_fields opc 99 f3 0"
    "unat rs1 < 32" "unat rs2 < 32" "even (sint imm)" "cmp_of f3 = Some c"
  shows "rv_decode w = Some (I_branch c (unat rs1) (unat rs2) imm)"
proof -
  note e = encode_B_fields [OF assms(1-4)]
  note f = enc_fields_fld [OF e]
  have "imm_B w = imm"
    by (rule encode_B_imm [OF assms(1,5) e])
  with assms(6) show ?thesis
    by (simp add: rv_decode_def Let_def f)
qed

lemma decode_jal:
  assumes "rvi_jal rd imm = Some w" "unat rd < 32"
    "- (2 ^ 20) \<le> sint imm" "sint imm < 2 ^ 20" "even (sint imm)"
  shows "rv_decode w = Some (I_jal (unat rd) imm)"
proof -
  have j: "rv_encode_J rv_jal rd imm = Some w"
    using assms(1) by (simp add: rvi_jal_def)
  note e = encode_J_fields [OF j opc_fields_SBJU(10) assms(2-4)]
  note f = enc_fields_fld [OF e]
  have "imm_J w = imm"
    by (rule encode_J_imm [OF e assms(3-5)])
  then show ?thesis
    by (simp add: rv_decode_def Let_def f)
qed

lemma decode_lui:
  assumes "rvi_lui rd imm = Some w" "unat rd < 32"
  shows "rv_decode w = Some (I_lui (unat rd) (imm AND NOT 0xFFF))"
proof -
  have e: "rv_encode_U rv_lui rd imm = Some w"
    using assms(1) by (simp add: rvi_lui_def)
  note f = encode_U_fields [OF e opc_fields_SBJU(11) assms(2)]
  show ?thesis
    by (simp only: rv_decode_def Let_def f) simp
qed

lemma decode_auipc:
  assumes "rvi_auipc rd imm = Some w" "unat rd < 32"
  shows "rv_decode w = Some (I_auipc (unat rd) (imm AND NOT 0xFFF))"
proof -
  have e: "rv_encode_U rv_auipc rd imm = Some w"
    using assms(1) by (simp add: rvi_auipc_def)
  note f = encode_U_fields [OF e opc_fields_SBJU(12) assms(2)]
  show ?thesis
    by (simp only: rv_decode_def Let_def f) simp
qed

lemma decode_ecall: "rvi_ecall = Some w \<Longrightarrow> rv_decode w = Some I_ecall"
proof -
  assume "rvi_ecall = Some w"
  then have "w = 115"
    by (simp add: rvi_ecall_def rv_encode_I_def lt_s_sint)
  moreover have "rv_decode 115 = Some I_ecall"
    by (simp add: rv_decode_def fld_def Let_def)
  ultimately show ?thesis by simp
qed

text \<open>The immediate mnemonics, as rules on a successful encoding.\<close>

lemma decode_alui_mnemonics:
  assumes "unat rd < 32" "unat rs1 < 32"
  shows "rvi_addi rd rs1 imm = Some w \<Longrightarrow> rv_decode w = Some (I_alui A_add (unat rd) (unat rs1) imm)"
    and "rvi_xori rd rs1 imm = Some w \<Longrightarrow> rv_decode w = Some (I_alui A_xor (unat rd) (unat rs1) imm)"
    and "rvi_ori rd rs1 imm = Some w \<Longrightarrow> rv_decode w = Some (I_alui A_or (unat rd) (unat rs1) imm)"
    and "rvi_andi rd rs1 imm = Some w \<Longrightarrow> rv_decode w = Some (I_alui A_and (unat rd) (unat rs1) imm)"
    and "rvi_slti rd rs1 imm = Some w \<Longrightarrow> rv_decode w = Some (I_alui A_slt (unat rd) (unat rs1) imm)"
    and "rvi_sltiu rd rs1 imm = Some w \<Longrightarrow> rv_decode w = Some (I_alui A_sltu (unat rd) (unat rs1) imm)"
  unfolding rvi_defs
  by (erule decode_alui_I [OF _ _ assms], rule opc_fields_I, simp, simp, simp add: alu_of_def)+

lemma decode_shift_mnemonics:
  assumes "unat rd < 32" "unat rs1 < 32" "unat imm < 32"
  shows "rvi_slli rd rs1 imm = Some w \<Longrightarrow> rv_decode w = Some (I_alui A_sll (unat rd) (unat rs1) imm)"
    and "rvi_srli rd rs1 imm = Some w \<Longrightarrow> rv_decode w = Some (I_alui A_srl (unat rd) (unat rs1) imm)"
    and "rvi_srai rd rs1 imm = Some w \<Longrightarrow> rv_decode w = Some (I_alui A_sra (unat rd) (unat rs1) imm)"
  unfolding rvi_defs
  by (erule decode_shift_I [OF _ _ assms], rule opc_fields_I, simp)+

lemma decode_load_mnemonics:
  assumes "unat rd < 32" "unat rs1 < 32"
  shows "rvi_lb rd rs1 imm = Some w \<Longrightarrow> rv_decode w = Some (I_load 1 True (unat rd) (unat rs1) imm)"
    and "rvi_lh rd rs1 imm = Some w \<Longrightarrow> rv_decode w = Some (I_load 2 True (unat rd) (unat rs1) imm)"
    and "rvi_lw rd rs1 imm = Some w \<Longrightarrow> rv_decode w = Some (I_load 4 True (unat rd) (unat rs1) imm)"
    and "rvi_lbu rd rs1 imm = Some w \<Longrightarrow> rv_decode w = Some (I_load 1 False (unat rd) (unat rs1) imm)"
    and "rvi_lhu rd rs1 imm = Some w \<Longrightarrow> rv_decode w = Some (I_load 2 False (unat rd) (unat rs1) imm)"
  unfolding rvi_defs
  by (erule decode_load_I [OF _ _ assms], rule opc_fields_I, simp)+

text \<open>A store names the stored register first: \<open>__sw(rd, rs1, imm)\<close> stores \<open>rd\<close>.\<close>

lemma decode_store_mnemonics:
  assumes "unat rd < 32" "unat rs1 < 32"
  shows "rvi_sb rd rs1 imm = Some w \<Longrightarrow> rv_decode w = Some (I_store 1 (unat rd) (unat rs1) imm)"
    and "rvi_sh rd rs1 imm = Some w \<Longrightarrow> rv_decode w = Some (I_store 2 (unat rd) (unat rs1) imm)"
    and "rvi_sw rd rs1 imm = Some w \<Longrightarrow> rv_decode w = Some (I_store 4 (unat rd) (unat rs1) imm)"
  unfolding rvi_defs
  by (erule decode_S [OF _ _ assms(2,1)], rule opc_fields_SBJU, simp)+

lemma decode_branch_mnemonics:
  assumes "unat rs1 < 32" "unat rs2 < 32" "even (sint imm)"
  shows "rvi_beq rs1 rs2 imm = Some w \<Longrightarrow> rv_decode w = Some (I_branch C_eq (unat rs1) (unat rs2) imm)"
    and "rvi_bne rs1 rs2 imm = Some w \<Longrightarrow> rv_decode w = Some (I_branch C_ne (unat rs1) (unat rs2) imm)"
    and "rvi_blt rs1 rs2 imm = Some w \<Longrightarrow> rv_decode w = Some (I_branch C_lt (unat rs1) (unat rs2) imm)"
    and "rvi_bge rs1 rs2 imm = Some w \<Longrightarrow> rv_decode w = Some (I_branch C_ge (unat rs1) (unat rs2) imm)"
    and "rvi_bltu rs1 rs2 imm = Some w \<Longrightarrow> rv_decode w = Some (I_branch C_ltu (unat rs1) (unat rs2) imm)"
    and "rvi_bgeu rs1 rs2 imm = Some w \<Longrightarrow> rv_decode w = Some (I_branch C_geu (unat rs1) (unat rs2) imm)"
  unfolding rvi_defs
  by (erule decode_B [OF _ _ assms], rule opc_fields_SBJU, simp add: cmp_of_def)+

section \<open>32-bit constants from two instructions\<close>

text \<open>\<open>lui\<close> of \<open>rv_hi\<close> then \<open>addi\<close> of \<open>rv_lo\<close> rebuild any 32-bit value.\<close>

lemma take_bit_12_add: "take_bit 12 (v + 4096 :: cint) = take_bit 12 v"
  by (simp only: word_uint_eq_iff unsigned_take_bit_eq)
    (simp add: uint_word_ariths take_bit_eq_mod mod_mod_cancel)

lemma and_FFF: "(v::cint) AND 0xFFF = take_bit 12 v"
  by (simp add: take_bit_eq_mask mask_eq_decr_exp)

lemma and_not_FFF: "(v::cint) AND NOT 0xFFF = v - take_bit 12 v"
proof -
  have "v = (v AND NOT m) OR (v AND m)" for m
    by (auto intro!: bit_word_eqI simp: bit_simps)
  then have "v = (v AND NOT 0xFFF) OR (v AND 0xFFF)" .
  moreover have disj: "(v AND NOT m) AND (v AND m) = 0" for m
    by (auto intro!: bit_word_eqI simp: bit_simps)
  moreover have "(v AND NOT 0xFFF) OR (v AND 0xFFF) = (v AND NOT 0xFFF) + (v AND 0xFFF)"
    by (rule disjunctive_add_eq_or [symmetric]) (rule disj)
  ultimately have "v = (v AND NOT 0xFFF) + take_bit 12 v"
    by (simp only: and_FFF)
  then show ?thesis
    by (simp only: eq_diff_eq)
qed

lemma and_bit: "(v::cint) AND shl 1 n = (if bit v n then shl 1 n else 0)"
  by (auto intro!: bit_word_eqI simp: bit_simps)

lemma bit11_and: "shl ((v::cint) AND shl 1 11) 1 = (if bit v 11 then 4096 else 0)"
  by (simp only: and_bit) simp

lemma rv_hi_lo: "(rv_hi v AND NOT 0xFFF) + rv_lo v = v"
proof (cases "bit v 11")
  case True
  then have "rv_hi v = v + 4096" "rv_lo v = (v AND 0xFFF) - 4096"
    by (simp_all only: rv_hi_def rv_lo_def bit11_and) simp_all
  then show ?thesis
    by (simp only: and_not_FFF and_FFF take_bit_12_add) simp
next
  case False
  then have "rv_hi v = v" "rv_lo v = v AND 0xFFF"
    by (simp_all only: rv_hi_def rv_lo_def bit11_and) simp_all
  then show ?thesis
    by (simp only: and_not_FFF and_FFF) simp
qed

lemma rv_lo_range: "- 2048 \<le> sint (rv_lo v)" "sint (rv_lo v) \<le> 2047"
proof -
  define k where "k = unat (take_bit 12 v)"
  have k: "k < 4096"
    by (simp only: k_def unsigned_take_bit_eq) (simp add: take_bit_eq_mod)
  have a: "v AND 0xFFF = of_int (int k)"
    by (simp only: k_def and_FFF of_int_of_nat_eq) simp
  have b: "bit v 11 \<longleftrightarrow> 2048 \<le> k"
  proof -
    have "bit v 11 \<longleftrightarrow> bit k 11"
      by (simp add: k_def bit_unsigned_iff bit_take_bit_iff)
    also have "\<dots> \<longleftrightarrow> odd (k div 2048)"
      by (simp add: bit_iff_odd)
    also have "\<dots> \<longleftrightarrow> 2048 \<le> k"
    proof (cases "2048 \<le> k")
      case True
      then have "k div 2048 = 1" using k by (intro div_nat_eqI) simp_all
      with True show ?thesis by simp
    qed simp
    finally show ?thesis .
  qed
  have "rv_lo v = of_int (if bit v 11 then int k - 4096 else int k)"
    by (simp only: rv_lo_def bit11_and a) simp
  moreover have "sint (of_int i :: cint) = i" if "- 2048 \<le> i" "i \<le> 2047" for i
    using that by (simp add: signed_of_int signed_take_bit_int_eq_self)
  moreover have "- 2048 \<le> (if bit v 11 then int k - 4096 else int k)"
    "(if bit v 11 then int k - 4096 else int k) \<le> 2047"
    using k b by auto
  ultimately show "- 2048 \<le> sint (rv_lo v)" "sint (rv_lo v) \<le> 2047"
    by simp_all
qed

end
