(* ===== verification/RiscvLayout.thy ===== *)
theory RiscvLayout
  imports RiscvCodegen RiscvDecode
begin

text \<open>
  The RISC-V back end meets the layout contract: \<open>rv_update_elf_offset\<close> counts the
  bytes \<open>rv_emit_ph2_ir\<close> writes, so \<open>elf_offset\<close> of every block is the position of
  its code, and the offset encoded in a jump leads to its target block.
\<close>

lemma rv_li_length [simp]: "length (rv_li r v) = 2"
  by (simp add: rv_li_def)

lemma rv_mul_seq_length [simp]: "length (rv_mul_seq rd rs1 rs2) = 13"
  by (simp add: rv_mul_seq_def)

lemma rv_divmod_seq_length [simp]: "length (rv_divmod_seq m rd rs1 rs2) = 27"
  by (simp add: rv_divmod_seq_def Let_def)

lemma rv_seq_size:
  assumes "rv_seq env ir = Some es" "rv_update_elf_offset env ir o1 = Some o2"
  shows "o2 = o1 + 4 * of_nat (length es)"
  using assms
  by (cases "op ir")
    (auto simp: rv_seq_def rv_seq_alu_def rv_update_elf_offset_def Let_def
      split: if_splits bind_splits)

lemma rv_emit_size:
  assumes "rv_emit_ph2_ir env ir c = Some c'" "rv_update_elf_offset env ir o1 = Some o2"
  shows "code_size c' = code_size c + (o2 - o1)"
proof -
  obtain es where es: "rv_seq env ir = Some es" "emits es c = Some c'"
    using assms(1) by (auto simp: rv_emit_ph2_ir_def split: option.splits)
  then show ?thesis
    using rv_seq_size [OF es(1) assms(2)] emits_length [OF es(2)] by (simp add: code_size_def)
qed

lemma rv_define_size:
  assumes "op ir = OP_define" "rv_emit_ph2_ir env ir c = Some c'"
  shows "code_size c' = code_size c + 16"
proof -
  obtain es where es: "rv_seq env ir = Some es" "emits es c = Some c'"
    using assms(2) by (auto simp: rv_emit_ph2_ir_def split: option.splits)
  then have "length es = 4"
    using assms(1) by (auto simp: rv_seq_def Let_def)
  then show ?thesis
    using emits_length [OF es(2)] by (simp add: code_size_def)
qed

text \<open>Sizes read none of the block offsets, so the layout pass may run before they are known.\<close>

lemma rv_update_env: "rv_update_elf_offset (env\<lparr>bb_offset := x\<rparr>) = rv_update_elf_offset env"
  by (intro ext) (simp add: rv_update_elf_offset_def)


interpretation rvl: code_layout "rv_update_elf_offset env" "rv_emit_ph2_ir env" rv_flat_insn 16
  "\<lambda>_. True" for env
  by unfold_locales (auto dest: rv_emit_size rv_define_size)

lemma rv_start_length: "length (rv_start_seq env p) = 15"
  by (simp add: rv_start_seq_def)

lemma rv_main_length: "length (rv_main_seq env m) = 6"
  by (simp add: rv_main_seq_def)

text \<open>The code before the first function ends where \<open>cfg_flatten\<close> starts the functions.\<close>

lemma rv_prefix_size:
  assumes "rv_code_prefix env p = Some c" "main_bb p = Some m"
    and "sum_offsets (rv_update_elf_offset env) (ph2_ir_list (global_bb p)) 60 = Some o1"
  shows "code_size c = o1 + 24"
proof -
  obtain c1 c2 where c1: "emits (rv_start_seq env p) [] = Some c1"
    and c2: "emit_list (rv_emit_ph2_ir env) (ph2_ir_list (global_bb p)) c1 = Some c2"
    and c: "emits (rv_main_seq env m) c2 = Some c"
    using assms(1,2) by (auto simp: rv_code_prefix_def split: bind_splits)
  have "code_size c1 = 60"
    using emits_length [OF c1] by (simp add: code_size_def rv_start_length)
  moreover have "code_size c2 = code_size c1 + (o1 - 60)"
    using rvl.sum_offsets_emit [OF _ assms(3) c2] by simp
  moreover have "code_size c = code_size c2 + 24"
    using emits_length [OF c] by (simp add: code_size_def rv_main_length)
  ultimately show ?thesis by simp
qed

definition rv_block_ids :: "cg_prog \<Rightarrow> bb_ref list" where
  "rv_block_ids p = concat (map func_bb_ids (func_list p))"

text \<open>
  C2. Block layout of the RISC-V back end. Let \<open>cfg_flatten\<close> have laid out a program
  with a \<open>main\<close>, and \<open>code_generate\<close> have emitted it with the resulting block offsets.
  Then for every block \<open>b\<close> of every function, the flattened instruction list splits
  before the code of \<open>b\<close> (the function prologue belongs to the entry block), and the
  bytes emitted up to that point are exactly \<open>b->elf_offset\<close>. All calls, jumps and
  branches are computed from these offsets, so they are computed from the true positions.
\<close>

theorem rv_layout_correct:
  assumes "rv_cfg_flatten env p = Some l"
    and "env' = env\<lparr>bb_offset := offs l\<rparr>"
    and "main_bb p = Some m"
    and "rv_code_generate env' p (flat l) = Some code"
    and "distinct (rv_block_ids p)"
    and "func_list p = fs1 @ f # fs2" and "bbs f = bs1 @ b # bs2"
  shows "\<exists>pre post c0 c.
      flat l = pre @ (if bs1 = [] then [define_ir f] else [])
        @ map (rv_flat_insn (stack_size f)) (ph2_ir_list b) @ post
      \<and> rv_code_prefix env' p = Some c0
      \<and> emit_list (rv_emit_ph2_ir env') pre c0 = Some c
      \<and> code_size c = bb_offset env' (bb_id b)"
proof -
  obtain sys o1 where o1: "sum_offsets (rv_update_elf_offset env') (ph2_ir_list (global_bb p)) 60 = Some o1"
    and fl: "flat_funcs (rv_update_elf_offset env') rv_flat_insn 16 (func_list p)
      \<lparr>offs = (\<lambda>_. 0)(sys := 24, bb_id (global_bb p) := 60), elf_off = o1 + 24, flat = []\<rparr> = Some l"
    using assms(1,2) by (auto simp: rv_cfg_flatten_def rv_update_env Let_def split: bind_splits)
  obtain c0 where c0: "rv_code_prefix env' p = Some c0"
    and em: "emit_list (rv_emit_ph2_ir env') (flat l) c0 = Some code"
    using assms(4) by (auto simp: rv_code_generate_def split: bind_splits)
  have sz: "code_size c0 = o1 + 24"
    by (rule rv_prefix_size [OF c0 assms(3) o1])
  show ?thesis
    using rvl.block_offset [OF fl [unfolded assms(6)] assms(7) _ _ _ em] sz c0 assms(2,5)
    by (auto simp: rvl.tracks_def rv_block_ids_def assms(6))
qed

end
