(* ===== verification/Ph2Sem.thy ===== *)
theory Ph2Sem
  imports Ir Machine
begin

text \<open>
  The meaning of the phase-2 instructions, as the abstract specification of the passes
  that produce and rewrite them: a register file, the stack and global pointers and byte
  memory. \<open>ph2_step\<close> gives the effect of one straight-line instruction; \<open>None\<close> is an
  operation whose result C leaves undefined (division by zero, a shift count outside
  0..31), an operand the IR never has, or an instruction that transfers control.
\<close>

record ph2_state =
  reg :: "cint \<Rightarrow> cint"
  spv :: cint
  gpv :: cint
  pmem :: "cint \<Rightarrow> 8 word"

definition set_reg :: "cint \<Rightarrow> cint \<Rightarrow> ph2_state \<Rightarrow> ph2_state" where
  "set_reg r v s = s\<lparr>reg := (reg s)(r := v)\<rparr>"

definition size_ok :: "cint \<Rightarrow> bool" where
  "size_ok n \<longleftrightarrow> n = 1 \<or> n = 2 \<or> n = 4"

text \<open>Binary operations on register values.\<close>

definition ph2_bin :: "opcode \<Rightarrow> cint \<Rightarrow> cint \<Rightarrow> cint option" where
  "ph2_bin oc a b =
     (case oc of
        OP_add \<Rightarrow> Some (a + b)
      | OP_sub \<Rightarrow> Some (a - b)
      | OP_mul \<Rightarrow> Some (a * b)
      | OP_div \<Rightarrow> (if b = 0 then None else Some (of_int (sdiv_trunc (sint a) (sint b))))
      | OP_mod \<Rightarrow> (if b = 0 then None else Some (of_int (srem_trunc (sint a) (sint b))))
      | OP_lshift \<Rightarrow> (if unat b < 32 then Some (push_bit (unat b) a) else None)
      | OP_rshift \<Rightarrow> (if unat b < 32 then Some (signed_drop_bit (unat b) a) else None)
      | OP_eq \<Rightarrow> Some (of_bool_c (a = b))
      | OP_neq \<Rightarrow> Some (of_bool_c (a \<noteq> b))
      | OP_lt \<Rightarrow> Some (of_bool_c (lt_s a b))
      | OP_leq \<Rightarrow> Some (of_bool_c (le_s a b))
      | OP_gt \<Rightarrow> Some (of_bool_c (lt_s b a))
      | OP_geq \<Rightarrow> Some (of_bool_c (le_s b a))
      | OP_bit_and \<Rightarrow> Some (a AND b)
      | OP_bit_or \<Rightarrow> Some (a OR b)
      | OP_bit_xor \<Rightarrow> Some (a XOR b)
      | _ \<Rightarrow> None)"

text \<open>Unary operations; \<open>k\<close> is the size operand.\<close>

definition trunc_val :: "cint \<Rightarrow> cint \<Rightarrow> cint option" where
  "trunc_val k a =
     (if k = 1 then Some (a AND 0xFF) else if k = 2 then Some (a AND 0xFFFF)
      else if k = 4 then Some a else None)"

definition sign_ext_val :: "cint \<Rightarrow> cint \<Rightarrow> cint option" where
  "sign_ext_val k a =
     (let source_size = sar k 16 AND 0xFFFF
      in if source_size = 1 then Some (sext 8 (unat (a AND 0xFF)))
         else if source_size = 2 then Some (sext 16 (unat (a AND 0xFFFF)))
         else None)"

definition ph2_un :: "opcode \<Rightarrow> cint \<Rightarrow> cint \<Rightarrow> cint option" where
  "ph2_un oc k a =
     (case oc of
        OP_assign \<Rightarrow> Some a
      | OP_negate \<Rightarrow> Some (- a)
      | OP_bit_not \<Rightarrow> Some (NOT a)
      | OP_log_not \<Rightarrow> Some (of_bool_c (a = 0))
      | OP_trunc \<Rightarrow> trunc_val k a
      | OP_sign_ext \<Rightarrow> sign_ext_val k a
      | OP_cast \<Rightarrow> Some a
      | _ \<Rightarrow> None)"

definition is_bin :: "opcode \<Rightarrow> bool" where
  "is_bin oc \<longleftrightarrow> oc \<in> {OP_add, OP_sub, OP_mul, OP_div, OP_mod, OP_lshift, OP_rshift, OP_eq, OP_neq,
     OP_lt, OP_leq, OP_gt, OP_geq, OP_bit_and, OP_bit_or, OP_bit_xor}"

definition is_un :: "opcode \<Rightarrow> bool" where
  "is_un oc \<longleftrightarrow> oc \<in> {OP_assign, OP_negate, OP_bit_not, OP_log_not, OP_trunc, OP_sign_ext, OP_cast}"

definition ph2_step :: "ph2_ir \<Rightarrow> ph2_state \<Rightarrow> ph2_state option" where
  "ph2_step ir s =
     (case op ir of
        OP_load_constant \<Rightarrow> Some (set_reg (dest ir) (src0 ir) s)
      | OP_address_of \<Rightarrow> Some (set_reg (dest ir) (spv s + src0 ir) s)
      | OP_global_address_of \<Rightarrow> Some (set_reg (dest ir) (gpv s + src0 ir) s)
      | OP_load \<Rightarrow> Some (set_reg (dest ir) (load_val (pmem s) 4 True (spv s + src0 ir)) s)
      | OP_global_load \<Rightarrow> Some (set_reg (dest ir) (load_val (pmem s) 4 True (gpv s + src0 ir)) s)
      | OP_store \<Rightarrow> Some (s\<lparr>pmem := store_val (pmem s) 4 (spv s + src1 ir) (reg s (src0 ir))\<rparr>)
      | OP_global_store \<Rightarrow> Some (s\<lparr>pmem := store_val (pmem s) 4 (gpv s + src1 ir) (reg s (src0 ir))\<rparr>)
      | OP_read \<Rightarrow>
          (if size_ok (src1 ir)
           then Some (set_reg (dest ir) (load_val (pmem s) (unat (src1 ir)) True (reg s (src0 ir))) s)
           else None)
      | OP_write \<Rightarrow>
          (if size_ok (dest ir)
           then Some (s\<lparr>pmem := store_val (pmem s) (unat (dest ir)) (reg s (src0 ir)) (reg s (src1 ir))\<rparr>)
           else None)
      | _ \<Rightarrow>
          (if is_bin (op ir)
           then map_option (\<lambda>v. set_reg (dest ir) v s) (ph2_bin (op ir) (reg s (src0 ir)) (reg s (src1 ir)))
           else if is_un (op ir)
           then map_option (\<lambda>v. set_reg (dest ir) v s) (ph2_un (op ir) (src1 ir) (reg s (src0 ir)))
           else None))"

fun ph2_run :: "ph2_ir list \<Rightarrow> ph2_state \<Rightarrow> ph2_state option" where
  "ph2_run [] s = Some s"
| "ph2_run (ir # irs) s = (case ph2_step ir s of None \<Rightarrow> None | Some t \<Rightarrow> ph2_run irs t)"

lemma ph2_run_append:
  "ph2_run (xs @ ys) s = (case ph2_run xs s of None \<Rightarrow> None | Some t \<Rightarrow> ph2_run ys t)"
  by (induction xs arbitrary: s) (auto split: option.split)

lemma set_reg_simps [simp]:
  "reg (set_reg r v s) = (reg s)(r := v)" "spv (set_reg r v s) = spv s"
  "gpv (set_reg r v s) = gpv s" "pmem (set_reg r v s) = pmem s"
  by (simp_all add: set_reg_def)

text \<open>The shape of a step.\<close>

definition is_mem :: "opcode \<Rightarrow> bool" where
  "is_mem oc \<longleftrightarrow> oc \<in> {OP_load_constant, OP_address_of, OP_global_address_of, OP_load,
     OP_global_load, OP_store, OP_global_store, OP_read, OP_write}"

lemma ph2_step_arith:
  assumes "\<not> is_mem (op ir)"
  shows "ph2_step ir s =
    (if is_bin (op ir)
     then map_option (\<lambda>v. set_reg (dest ir) v s) (ph2_bin (op ir) (reg s (src0 ir)) (reg s (src1 ir)))
     else if is_un (op ir)
     then map_option (\<lambda>v. set_reg (dest ir) v s) (ph2_un (op ir) (src1 ir) (reg s (src0 ir)))
     else None)"
  using assms unfolding ph2_step_def is_mem_def
  by (cases "op ir"; simp only: opcode.case insert_iff simp_thms)

lemma step_cases:
  assumes "ph2_step ir s = Some s'"
  obtains "is_mem (op ir)"
  | v where "is_bin (op ir)" "ph2_bin (op ir) (reg s (src0 ir)) (reg s (src1 ir)) = Some v"
      "s' = set_reg (dest ir) v s"
  | v where "is_un (op ir)" "ph2_un (op ir) (src1 ir) (reg s (src0 ir)) = Some v"
      "s' = set_reg (dest ir) v s"
proof (cases "is_mem (op ir)")
  case False
  from assms [unfolded ph2_step_arith [OF this]] show thesis
    using that by (auto split: if_split_asm)
qed (rule that)

end
