(* ===== verification/RiscvSem.thy ===== *)
theory RiscvSem
  imports RiscvLayout RiscvRun Ph2Sem
begin

text \<open>
  The machine code of a straight-line phase-2 instruction does what the instruction means:
  running the words \<open>rv_emit_ph2_ir\<close> writes, from their first word to the word after
  the last, takes a machine state that represents an IR state to one that represents the
  IR's next state.

  IR register \<open>r\<close> is machine register \<open>a0 + r\<close>; the stack pointer is \<open>x2\<close>, the global
  pointer \<open>x3\<close>; \<open>t0\<close>..\<open>t5\<close> are scratch.
\<close>

section \<open>Decoding an emission sequence\<close>

definition emits_insn :: "emitter \<Rightarrow> rv_insn \<Rightarrow> bool" where
  "emits_insn e i \<longleftrightarrow> (\<forall>sz w. e sz = Some w \<longrightarrow> rv_decode w = Some i)"

lemma emit_words_decode:
  "list_all2 emits_insn es prog \<Longrightarrow> emit_words es sz = Some ws \<Longrightarrow> map rv_decode ws = map Some prog"
proof (induction es prog arbitrary: sz ws rule: list_all2_induct)
  case (Cons e es i "is")
  then show ?case
    by (auto simp: emits_insn_def split: option.splits)
qed simp

named_theorems emits_rules "which instruction an emitter emits"

lemma emits_R [emits_rules]:
  assumes "unat rd < 32" "unat rs1 < 32" "unat rs2 < 32"
  shows "emits_insn (word (rvi_add rd rs1 rs2)) (I_alu A_add (unat rd) (unat rs1) (unat rs2))"
    and "emits_insn (word (rvi_sub rd rs1 rs2)) (I_alu A_sub (unat rd) (unat rs1) (unat rs2))"
    and "emits_insn (word (rvi_xor rd rs1 rs2)) (I_alu A_xor (unat rd) (unat rs1) (unat rs2))"
    and "emits_insn (word (rvi_or rd rs1 rs2)) (I_alu A_or (unat rd) (unat rs1) (unat rs2))"
    and "emits_insn (word (rvi_and rd rs1 rs2)) (I_alu A_and (unat rd) (unat rs1) (unat rs2))"
    and "emits_insn (word (rvi_sll rd rs1 rs2)) (I_alu A_sll (unat rd) (unat rs1) (unat rs2))"
    and "emits_insn (word (rvi_srl rd rs1 rs2)) (I_alu A_srl (unat rd) (unat rs1) (unat rs2))"
    and "emits_insn (word (rvi_sra rd rs1 rs2)) (I_alu A_sra (unat rd) (unat rs1) (unat rs2))"
    and "emits_insn (word (rvi_slt rd rs1 rs2)) (I_alu A_slt (unat rd) (unat rs1) (unat rs2))"
    and "emits_insn (word (rvi_sltu rd rs1 rs2)) (I_alu A_sltu (unat rd) (unat rs1) (unat rs2))"
    and "emits_insn (word (rvi_mul rd rs1 rs2)) (I_alu A_mul (unat rd) (unat rs1) (unat rs2))"
    and "emits_insn (word (rvi_div rd rs1 rs2)) (I_alu A_div (unat rd) (unat rs1) (unat rs2))"
    and "emits_insn (word (rvi_mod rd rs1 rs2)) (I_alu A_rem (unat rd) (unat rs1) (unat rs2))"
  by (simp_all add: emits_insn_def decode_R_mnemonics [OF assms])

lemma emits_I [emits_rules]:
  assumes "unat rd < 32" "unat rs1 < 32"
  shows "emits_insn (now (rvi_addi rd rs1 imm)) (I_alui A_add (unat rd) (unat rs1) imm)"
    and "emits_insn (now (rvi_xori rd rs1 imm)) (I_alui A_xor (unat rd) (unat rs1) imm)"
    and "emits_insn (now (rvi_andi rd rs1 imm)) (I_alui A_and (unat rd) (unat rs1) imm)"
    and "emits_insn (now (rvi_lb rd rs1 imm)) (I_load 1 True (unat rd) (unat rs1) imm)"
    and "emits_insn (now (rvi_lh rd rs1 imm)) (I_load 2 True (unat rd) (unat rs1) imm)"
    and "emits_insn (now (rvi_lw rd rs1 imm)) (I_load 4 True (unat rd) (unat rs1) imm)"
    and "emits_insn (now (rvi_sb rd rs1 imm)) (I_store 1 (unat rd) (unat rs1) imm)"
    and "emits_insn (now (rvi_sh rd rs1 imm)) (I_store 2 (unat rd) (unat rs1) imm)"
    and "emits_insn (now (rvi_sw rd rs1 imm)) (I_store 4 (unat rd) (unat rs1) imm)"
    and "emits_insn (now (rvi_jalr rd rs1 imm)) (I_jalr (unat rd) (unat rs1) imm)"
  using decode_alui_mnemonics [OF assms] decode_load_mnemonics [OF assms]
    decode_store_mnemonics [OF assms] decode_jalr [OF _ assms]
  by (simp_all add: emits_insn_def)

lemma emits_shift [emits_rules]:
  assumes "unat rd < 32" "unat rs1 < 32" "unat imm < 32"
  shows "emits_insn (now (rvi_slli rd rs1 imm)) (I_alui A_sll (unat rd) (unat rs1) imm)"
    and "emits_insn (now (rvi_srli rd rs1 imm)) (I_alui A_srl (unat rd) (unat rs1) imm)"
    and "emits_insn (now (rvi_srai rd rs1 imm)) (I_alui A_sra (unat rd) (unat rs1) imm)"
  using decode_shift_mnemonics [OF assms] by (simp_all add: emits_insn_def)

lemma emits_branch [emits_rules]:
  assumes "unat rs1 < 32" "unat rs2 < 32" "even (sint imm)"
  shows "emits_insn (now (rvi_beq rs1 rs2 imm)) (I_branch C_eq (unat rs1) (unat rs2) imm)"
    and "emits_insn (now (rvi_bne rs1 rs2 imm)) (I_branch C_ne (unat rs1) (unat rs2) imm)"
    and "emits_insn (now (rvi_bltu rs1 rs2 imm)) (I_branch C_ltu (unat rs1) (unat rs2) imm)"
  using decode_branch_mnemonics [OF assms] by (simp_all add: emits_insn_def)

lemma emits_lui [emits_rules]:
  "unat rd < 32 \<Longrightarrow> emits_insn (now (rvi_lui rd imm)) (I_lui (unat rd) (imm AND NOT 0xFFF))"
  by (simp add: emits_insn_def decode_lui)

lemma emits_jal [emits_rules]:
  "unat rd < 32 \<Longrightarrow> - (2 ^ 20) \<le> sint imm \<Longrightarrow> sint imm < 2 ^ 20 \<Longrightarrow> even (sint imm)
   \<Longrightarrow> emits_insn (now (rvi_jal rd imm)) (I_jal (unat rd) imm)"
  by (simp add: emits_insn_def decode_jal)

lemma emits_zero [emits_rules]:
  "unat rd < 32 \<Longrightarrow> unat rs2 < 32
   \<Longrightarrow> emits_insn (word (rvi_sltu rd x_zero rs2)) (I_alu A_sltu (unat rd) 0 (unat rs2))"
  "unat rd < 32 \<Longrightarrow> unat rs2 < 32
   \<Longrightarrow> emits_insn (word (rvi_sub rd x_zero rs2)) (I_alu A_sub (unat rd) 0 (unat rs2))"
  "unat rd < 32 \<Longrightarrow> emits_insn (now (rvi_addi rd x_zero imm)) (I_alui A_add (unat rd) 0 imm)"
  using emits_R [of rd x_zero rs2] emits_I(1) [of rd x_zero imm] by simp_all

section \<open>Running straight-line code\<close>

lemma at_start: "at_insn (rpc t) 0 t"
  by (simp add: at_insn_def)

lemma run_straight:
  assumes "emit_words es sz = Some ws" "list_all2 emits_insn es prog" "list_all straight prog"
    and "length prog < 1000" "exec_seq prog t = Some t'"
  shows "\<exists>n. rv_run n (rpc t) ws t = Some t' \<and> rpc t' = rpc t + of_nat (4 * length ws)"
proof -
  have d: "map rv_decode ws = map Some prog"
    by (rule emit_words_decode [OF assms(2,1)])
  have r: "reach (rpc t) prog t t'" "at_insn (rpc t) (0 + length prog) t'"
    using reach_seq [OF at_start assms(3) _ assms(4,5)] by simp_all
  then have "at_insn (rpc t) (length prog) t'" by simp
  from reach_run [OF r(1) d assms(4) this] this show ?thesis
    using map_eq_imp_length_eq [OF d] by (auto simp: at_insn_def)
qed

section \<open>The simulation\<close>

definition rx :: "cint \<Rightarrow> nat" where
  "rx r = unat (r + 10)"

definition regs_ok :: "ph2_ir \<Rightarrow> bool" where
  "regs_ok ir \<longleftrightarrow> unat (dest ir) < 8 \<and> unat (src0 ir) < 8 \<and> unat (src1 ir) < 8"

definition sim :: "ph2_state \<Rightarrow> rv_state \<Rightarrow> bool" where
  "sim s t \<longleftrightarrow> (\<forall>r. unat r < 8 \<longrightarrow> reg s r = getx t (rx r)) \<and> spv s = getx t 2
     \<and> gpv s = getx t 3 \<and> pmem s = rmem t"

lemma rx_eq: "unat r < 8 \<Longrightarrow> rx r = unat r + 10"
  by (simp add: rx_def unat_word_ariths)

lemma rx_bounds: "unat r < 8 \<Longrightarrow> 10 \<le> rx r" "unat r < 8 \<Longrightarrow> rx r < 18"
  "unat r < 8 \<Longrightarrow> rx r < 32"
  by (simp_all add: rx_eq)

lemma rx_inj: "unat r < 8 \<Longrightarrow> unat q < 8 \<Longrightarrow> rx r = rx q \<longleftrightarrow> r = q"
  by (simp add: rx_eq word_unat_eq_iff)

lemma sim_set_reg:
  assumes "sim s t" "unat d < 8" "getx t' (rx d) = v"
    and "\<And>x. x \<noteq> rx d \<Longrightarrow> 10 \<le> x \<and> x < 18 \<or> x = 2 \<or> x = 3 \<Longrightarrow> getx t' x = getx t x"
    and "rmem t' = rmem t"
  shows "sim (set_reg d v s) t'"
  unfolding sim_def
proof (intro conjI allI impI)
  fix r :: cint
  assume r: "unat r < 8"
  show "reg (set_reg d v s) r = getx t' (rx r)"
    using assms(1,3) assms(4) [of "rx r"] r rx_bounds [OF r] rx_inj [OF r assms(2)]
    by (auto simp: sim_def)
qed (use assms rx_bounds [OF assms(2)] in \<open>auto simp: sim_def\<close>)

text \<open>Running \<open>ws\<close> puts \<open>v\<close> into register \<open>d\<close> and changes nothing else but scratch registers.\<close>

definition rv_writes :: "cint list \<Rightarrow> rv_state \<Rightarrow> nat \<Rightarrow> cint \<Rightarrow> bool" where
  "rv_writes ws t d v \<longleftrightarrow>
     (\<exists>n t'. rv_run n (rpc t) ws t = Some t' \<and> rpc t' = rpc t + of_nat (4 * length ws)
        \<and> getx t' d = v \<and> rmem t' = rmem t
        \<and> (\<forall>x. x \<noteq> d \<and> x \<notin> {5, 6, 7, 28, 29, 30} \<longrightarrow> getx t' x = getx t x))"

lemma rv_writes_straight:
  assumes "emit_words es sz = Some ws" "list_all2 emits_insn es prog" "list_all straight prog"
    and "length prog < 1000" "exec_seq prog t = Some t'"
    and "getx t' d = v" "rmem t' = rmem t"
    and "\<forall>x. x \<noteq> d \<and> x \<notin> {5, 6, 7, 28, 29, 30} \<longrightarrow> getx t' x = getx t x"
  shows "rv_writes ws t d v"
  using run_straight [OF assms(1-5)] assms(6-8) unfolding rv_writes_def by blast

lemma of_bool_xor_1: "of_bool_c b XOR 1 = of_bool_c (\<not> b)"
  by (cases b) simp_all

lemma word_gt_0_diff: "(0 < (a::cint) - b) \<longleftrightarrow> a \<noteq> b"
  by (simp add: word_gt_0)

lemma not_lt_s: "(\<not> lt_s a b) \<longleftrightarrow> le_s b a"
  by (simp add: lt_s_sint le_s_sint not_less)

lemma ir_regs:
  assumes "regs_ok ir"
  shows "unat (dest ir + 10) < 32" "unat (src0 ir + 10) < 32" "unat (src1 ir + 10) < 32"
    "unat (dest ir + 10) \<noteq> 0" "unat (src0 ir + 10) \<noteq> 0" "unat (src1 ir + 10) \<noteq> 0"
  using assms rx_bounds unfolding regs_ok_def rx_def [symmetric]
  by (auto dest!: rx_bounds(1))

text \<open>The sequences for the binary operators, with the M extension for \<open>*\<close>, \<open>/\<close> and \<open>%\<close>.\<close>

definition rv_bin_prog :: "opcode \<Rightarrow> nat \<Rightarrow> nat \<Rightarrow> nat \<Rightarrow> rv_insn list" where
  "rv_bin_prog oc d a b =
     (case oc of
        OP_add \<Rightarrow> [I_alu A_add d a b]
      | OP_sub \<Rightarrow> [I_alu A_sub d a b]
      | OP_mul \<Rightarrow> [I_alu A_mul d a b]
      | OP_div \<Rightarrow> [I_alu A_div d a b]
      | OP_mod \<Rightarrow> [I_alu A_rem d a b]
      | OP_lshift \<Rightarrow> [I_alu A_sll d a b]
      | OP_rshift \<Rightarrow> [I_alu A_sra d a b]
      | OP_eq \<Rightarrow> [I_alu A_sub d a b, I_alu A_sltu d 0 d, I_alui A_xor d d 1]
      | OP_neq \<Rightarrow> [I_alu A_sub d a b, I_alu A_sltu d 0 d]
      | OP_lt \<Rightarrow> [I_alu A_slt d a b]
      | OP_leq \<Rightarrow> [I_alu A_slt d b a, I_alui A_xor d d 1]
      | OP_gt \<Rightarrow> [I_alu A_slt d b a]
      | OP_geq \<Rightarrow> [I_alu A_slt d a b, I_alui A_xor d d 1]
      | OP_bit_and \<Rightarrow> [I_alu A_and d a b]
      | OP_bit_or \<Rightarrow> [I_alu A_or d a b]
      | OP_bit_xor \<Rightarrow> [I_alu A_xor d a b]
      | _ \<Rightarrow> [])"

definition soft_op :: "cg_env \<Rightarrow> opcode \<Rightarrow> bool" where
  "soft_op env oc \<longleftrightarrow> \<not> hard_mul_div env \<and> oc \<in> {OP_mul, OP_div, OP_mod}"

lemma rv_bin_emits:
  assumes "is_bin (op ir)" "regs_ok ir" "\<not> soft_op env (op ir)" "rv_seq env ir = Some es"
  shows "list_all2 emits_insn es (rv_bin_prog (op ir) (rx (dest ir)) (rx (src0 ir)) (rx (src1 ir)))"
  using assms(1,3,4) ir_regs [OF assms(2)]
  by (auto simp: is_bin_def soft_op_def rv_seq_def rv_seq_alu_def Let_def rv_bin_prog_def rx_def
      intro: emits_rules)

lemma rv_bin_exec:
  assumes "is_bin oc" "ph2_bin oc (getx t a) (getx t b) = Some v" "d \<noteq> 0"
  shows "\<exists>t'. exec_seq (rv_bin_prog oc d a b) t = Some t' \<and> getx t' d = v \<and> rmem t' = rmem t
    \<and> (\<forall>x. x \<noteq> d \<longrightarrow> getx t' x = getx t x)"
  using assms
  by (auto simp: is_bin_def ph2_bin_def rv_bin_prog_def of_bool_xor_1 word_gt_0_diff word_gt_0 not_lt_s
      getx_def [of _ 0] split: if_splits)

lemma rv_bin_straight: "is_bin oc \<Longrightarrow> list_all straight (rv_bin_prog oc d a b)"
  "length (rv_bin_prog oc d a b) < 1000"
  by (cases oc; simp add: is_bin_def rv_bin_prog_def)+

lemma rv_bin_correct:
  assumes "is_bin (op ir)" "regs_ok ir" "\<not> soft_op env (op ir)" "rv_seq env ir = Some es"
    and "emit_words es sz = Some ws"
    and "ph2_bin (op ir) (getx t (rx (src0 ir))) (getx t (rx (src1 ir))) = Some v"
  shows "rv_writes ws t (rx (dest ir)) v"
proof -
  have "rx (dest ir) \<noteq> 0"
    using ir_regs [OF assms(2)] by (simp add: rx_def)
  from rv_bin_exec [OF assms(1,6) this] obtain t' where
    "exec_seq (rv_bin_prog (op ir) (rx (dest ir)) (rx (src0 ir)) (rx (src1 ir))) t = Some t'"
    "getx t' (rx (dest ir)) = v" "rmem t' = rmem t" "\<forall>x. x \<noteq> rx (dest ir) \<longrightarrow> getx t' x = getx t x"
    by blast
  then show ?thesis
    using rv_writes_straight [OF assms(5) rv_bin_emits [OF assms(1-4)] rv_bin_straight(1) [OF assms(1)]
        rv_bin_straight(2)] by blast
qed

end
