(* ===== verification/RiscvStep.thy ===== *)
theory RiscvStep
  imports RiscvSem
begin

text \<open>
  The remaining straight-line instructions (unary operators, constants, loads and stores)
  and the theorem that every straight-line instruction is simulated by its machine code.
\<close>

section \<open>Values\<close>

lemma take_bit_top: "take_bit (Suc n) (k::nat) < 2 ^ n \<longleftrightarrow> \<not> bit k n"
proof (cases "bit k n")
  case True
  then show ?thesis
    by (simp add: take_bit_Suc_from_most)
next
  case False
  then show ?thesis
    by (simp add: take_bit_Suc_from_most)
qed

lemma sext_signed_take_bit:
  fixes a :: cint
  shows "sext (Suc n) (unat (take_bit (Suc n) a)) = signed_take_bit n a"
proof -
  have "unat (take_bit (Suc n) a) < 2 ^ n \<longleftrightarrow> \<not> bit a n"
  proof (cases "n < 32")
    case True
    then show ?thesis
      by (simp only: unsigned_take_bit_eq take_bit_top) (simp add: bit_unsigned_iff)
  next
    case False
    then have "(2::nat) ^ 32 \<le> 2 ^ n"
      by (intro power_increasing) simp_all
    moreover have "unat (take_bit (Suc n) a) < 2 ^ 32"
      using unsigned_less [of "take_bit (Suc n) a"] by simp
    ultimately show ?thesis
      using False bit_imp_le_length [of a n] by auto
  qed
  then show ?thesis
    by (auto simp: sext_def signed_take_bit_eq_take_bit_minus of_bool_def)
qed

lemma sra_sll_sext16:
  "signed_drop_bit 16 (push_bit 16 a) = sext 16 (unat ((a::cint) AND 0xFFFF))"
proof -
  have m: "a AND 0xFFFF = take_bit 16 a"
    by (simp add: take_bit_eq_mask mask_numeral)
  have "signed_drop_bit 16 (push_bit 16 a) = signed_take_bit 15 a"
  proof (rule bit_word_eqI)
    fix n
    show "n < LENGTH(32) \<Longrightarrow> bit (signed_drop_bit 16 (push_bit 16 a)) n = bit (signed_take_bit 15 a) n"
      by (cases "n = 15") (auto simp: bit_simps min_def)
  qed
  then show ?thesis
    using sext_signed_take_bit [of 15 a] by (simp add: m)
qed

lemma sra_sll_sext8:
  "signed_drop_bit 24 (push_bit 24 (a AND 0xFF)) = sext 8 (unat ((a::cint) AND 0xFF))"
proof -
  have m: "a AND 0xFF = take_bit 8 a"
    by (simp add: take_bit_eq_mask mask_numeral)
  have "signed_drop_bit 24 (push_bit 24 (take_bit 8 a)) = signed_take_bit 7 a"
  proof (rule bit_word_eqI)
    fix n
    show "n < LENGTH(32) \<Longrightarrow> bit (signed_drop_bit 24 (push_bit 24 (take_bit 8 a))) n = bit (signed_take_bit 7 a) n"
      by (cases "n = 7") (auto simp: bit_simps min_def)
  qed
  then show ?thesis
    using sext_signed_take_bit [of 7 a] by (simp add: m)
qed

lemma srl_sll_trunc16: "drop_bit 16 (push_bit 16 a) = (a::cint) AND 0xFFFF"
proof -
  have m: "a AND 0xFFFF = take_bit 16 a"
    by (simp add: take_bit_eq_mask mask_numeral)
  show ?thesis
    unfolding m by (rule bit_word_eqI) (auto simp: bit_simps)
qed

section \<open>One instruction\<close>

text \<open>\<open>ws\<close>, run from the current program counter, ends at the word after it in a state that represents \<open>s'\<close>.\<close>

definition rv_sim_step :: "cint list \<Rightarrow> rv_state \<Rightarrow> ph2_state \<Rightarrow> bool" where
  "rv_sim_step ws t s' \<longleftrightarrow>
     (\<exists>n t'. rv_run n (rpc t) ws t = Some t' \<and> rpc t' = rpc t + of_nat (4 * length ws) \<and> sim s' t')"

lemma writes_sim:
  assumes "rv_writes ws t (rx d) v" "sim s t" "unat d < 8"
  shows "rv_sim_step ws t (set_reg d v s)"
proof -
  obtain n t' where t': "rv_run n (rpc t) ws t = Some t'" "rpc t' = rpc t + of_nat (4 * length ws)"
      "getx t' (rx d) = v" "rmem t' = rmem t"
      "\<forall>x. x \<noteq> rx d \<and> x \<notin> {5, 6, 7, 28, 29, 30} \<longrightarrow> getx t' x = getx t x"
    using assms(1) unfolding rv_writes_def by blast
  have "sim (set_reg d v s) t'"
    by (rule sim_set_reg [OF assms(2,3) t'(3) _ t'(4)]) (use t'(5) in auto)
  with t' show ?thesis
    unfolding rv_sim_step_def by blast
qed

lemma bin_step:
  assumes "is_bin (op ir)" "regs_ok ir" "\<not> soft_op env (op ir)" "rv_seq env ir = Some es"
    and "emit_words es sz = Some ws" "sim s t"
    and "ph2_bin (op ir) (reg s (src0 ir)) (reg s (src1 ir)) = Some v"
  shows "rv_sim_step ws t (set_reg (dest ir) v s)"
proof -
  have "rv_writes ws t (rx (dest ir)) v"
    using assms by (intro rv_bin_correct [OF assms(1-5)]) (simp add: sim_def regs_ok_def)
  then show ?thesis
    using assms(2,6) by (intro writes_sim) (simp_all add: regs_ok_def)
qed

text \<open>Unary operators.\<close>

definition rv_un_prog :: "opcode \<Rightarrow> cint \<Rightarrow> nat \<Rightarrow> nat \<Rightarrow> rv_insn list" where
  "rv_un_prog oc k d a =
     (case oc of
        OP_assign \<Rightarrow> [I_alui A_add d a 0]
      | OP_negate \<Rightarrow> [I_alu A_sub d 0 a]
      | OP_bit_not \<Rightarrow> [I_alui A_xor d a (-1)]
      | OP_log_not \<Rightarrow> [I_alu A_sltu d 0 a, I_alui A_xor d d 1]
      | OP_trunc \<Rightarrow>
          (if k = 1 then [I_alui A_and d a 0xFF]
           else if k = 2 then [I_alui A_sll d a 16, I_alui A_srl d d 16]
           else [I_alu A_add d a 0])
      | OP_sign_ext \<Rightarrow>
          (if sar k 16 AND 0xFFFF = 2 then [I_alui A_sll d a 16, I_alui A_sra d d 16]
           else [I_alui A_and d a 0xFF, I_alui A_sll d d 24, I_alui A_sra d d 24])
      | OP_cast \<Rightarrow> [I_alui A_add d a 0]
      | _ \<Rightarrow> [])"

text \<open>A sign extension to a whole register: the target size is 4.\<close>

definition full_ext :: "ph2_ir \<Rightarrow> bool" where
  "full_ext ir \<longleftrightarrow> (op ir = OP_sign_ext \<longrightarrow> src1 ir AND 0xFFFF = 4)"

lemma rv_ext_emits:
  assumes "op ir = OP_sign_ext" "unat (dest ir + 10) < 32" "unat (src0 ir + 10) < 32" "full_ext ir"
    and "rv_seq env ir = Some es" "sign_ext_val (src1 ir) a = Some v"
  shows "list_all2 emits_insn es
    (rv_un_prog OP_sign_ext (src1 ir) (unat (dest ir + 10)) (unat (src0 ir + 10)))"
proof (cases "sar (src1 ir) 16 AND 0xFFFF = 2")
  case True
  have "es = [now (rvi_slli (dest ir + 10) (src0 ir + 10) 16),
      now (rvi_srai (dest ir + 10) (dest ir + 10) 16)]"
    using assms(1,4,5) True by (simp add: full_ext_def rv_seq_def rv_seq_alu_def Let_def)
  then show ?thesis
    using True emits_shift [OF assms(2,3), where imm = 16] emits_shift [OF assms(2,2), where imm = 16]
    by (simp add: rv_un_prog_def)
next
  case False
  then have "sar (src1 ir) 16 AND 0xFFFF = 1"
    using assms(6) by (auto simp: sign_ext_val_def Let_def split: if_splits)
  then have "es = [now (rvi_andi (dest ir + 10) (src0 ir + 10) 0xFF),
      now (rvi_slli (dest ir + 10) (dest ir + 10) 24), now (rvi_srai (dest ir + 10) (dest ir + 10) 24)]"
    using assms(1,4,5) by (simp add: full_ext_def rv_seq_def rv_seq_alu_def Let_def)
  then show ?thesis
    using False emits_I(3) [OF assms(2,3), where imm = "0xFF"]
      emits_shift [OF assms(2,2), where imm = 24]
    by (simp add: rv_un_prog_def)
qed

lemma rv_un_emits:
  assumes "is_un (op ir)" "unat (dest ir) < 8" "unat (src0 ir) < 8" "full_ext ir"
    and "rv_seq env ir = Some es" "ph2_un (op ir) (src1 ir) a = Some v"
  shows "list_all2 emits_insn es (rv_un_prog (op ir) (src1 ir) (rx (dest ir)) (rx (src0 ir)))"
proof -
  have r: "unat (dest ir + 10) < 32" "unat (src0 ir + 10) < 32"
    using rx_bounds(3) assms(2,3) unfolding rx_def by blast+
  have z: "unat rd < 32 \<Longrightarrow> unat rs1 < 32
      \<Longrightarrow> emits_insn (word (rvi_add rd rs1 x_zero)) (I_alu A_add (unat rd) (unat rs1) 0)" for rd rs1
    using emits_R(1) [of rd rs1 x_zero] by simp
  consider "op ir = OP_sign_ext" | "op ir = OP_trunc"
    | "op ir \<in> {OP_assign, OP_negate, OP_bit_not, OP_log_not, OP_cast}"
    using assms(1) by (auto simp: is_un_def)
  then show ?thesis
  proof cases
    case 1
    then show ?thesis
      using rv_ext_emits [OF 1 r assms(4,5)] assms(6) by (simp add: ph2_un_def rx_def)
  next
    case 2
    then show ?thesis
      using assms(5) r
      by (auto simp: rv_seq_def rv_seq_alu_def Let_def rv_un_prog_def rx_def
          intro: emits_rules z split: if_split_asm)
  next
    case 3
    then show ?thesis
      using assms(5) r
      by (auto simp: rv_seq_def rv_seq_alu_def Let_def rv_un_prog_def rx_def intro: emits_rules z)
  qed
qed

lemma rv_un_exec:
  assumes "is_un oc" "ph2_un oc k (getx t a) = Some v" "d \<noteq> 0"
  shows "\<exists>t'. exec_seq (rv_un_prog oc k d a) t = Some t' \<and> getx t' d = v \<and> rmem t' = rmem t
    \<and> (\<forall>x. x \<noteq> d \<longrightarrow> getx t' x = getx t x)"
  using assms
  by (auto simp: is_un_def ph2_un_def rv_un_prog_def trunc_val_def sign_ext_val_def Let_def
      of_bool_xor_1 word_gt_0 getx_def [of _ 0] sra_sll_sext16 sra_sll_sext8 [simplified] srl_sll_trunc16
      split: if_splits)

lemma rv_un_straight: "is_un oc \<Longrightarrow> list_all straight (rv_un_prog oc k d a)"
  "length (rv_un_prog oc k d a) < 1000"
  by (cases oc; simp add: is_un_def rv_un_prog_def)+

lemma un_step:
  assumes "is_un (op ir)" "unat (dest ir) < 8" "unat (src0 ir) < 8" "full_ext ir"
    and "rv_seq env ir = Some es" "emit_words es sz = Some ws" "sim s t"
    and "ph2_un (op ir) (src1 ir) (reg s (src0 ir)) = Some v"
  shows "rv_sim_step ws t (set_reg (dest ir) v s)"
proof -
  let ?prog = "rv_un_prog (op ir) (src1 ir) (rx (dest ir)) (rx (src0 ir))"
  have e: "ph2_un (op ir) (src1 ir) (getx t (rx (src0 ir))) = Some v"
    using assms(3,7,8) by (simp add: sim_def)
  have "rx (dest ir) \<noteq> 0"
    using rx_bounds(1) [OF assms(2)] by simp
  from rv_un_exec [OF assms(1) e this] obtain t' where
    "exec_seq ?prog t = Some t'" "getx t' (rx (dest ir)) = v" "rmem t' = rmem t"
    "\<forall>x. x \<noteq> rx (dest ir) \<longrightarrow> getx t' x = getx t x"
    by blast
  then have "rv_writes ws t (rx (dest ir)) v"
    using rv_writes_straight [OF assms(6) rv_un_emits [OF assms(1-5,8)]
        rv_un_straight(1) [OF assms(1)] rv_un_straight(2)] by blast
  then show ?thesis
    by (rule writes_sim [OF _ assms(7,2)])
qed

text \<open>Constants, addresses, loads and stores, near and far.\<close>

definition li_prog :: "nat \<Rightarrow> cint \<Rightarrow> rv_insn list" where
  "li_prog r v = [I_lui r (rv_hi v AND NOT 0xFFF), I_alui A_add r r (rv_lo v)]"

definition addr_prog :: "nat \<Rightarrow> nat \<Rightarrow> cint \<Rightarrow> rv_insn list" where
  "addr_prog b d k =
     (if imm12_ok k then [I_alui A_add d b k] else li_prog 5 k @ [I_alu A_add d b 5])"

definition mem_prog :: "(nat \<Rightarrow> cint \<Rightarrow> rv_insn) \<Rightarrow> nat \<Rightarrow> cint \<Rightarrow> rv_insn list" where
  "mem_prog acc b k =
     (if imm12_ok k then [acc b k] else li_prog 5 k @ [I_alu A_add 5 b 5, acc 5 0])"

definition rv_mem_prog :: "ph2_ir \<Rightarrow> rv_insn list" where
  "rv_mem_prog ir =
     (let d = rx (dest ir); a = rx (src0 ir); b = rx (src1 ir)
      in case op ir of
        OP_load_constant \<Rightarrow> (if imm12_ok (src0 ir) then [I_alui A_add d 0 (src0 ir)] else li_prog d (src0 ir))
      | OP_address_of \<Rightarrow> addr_prog 2 d (src0 ir)
      | OP_global_address_of \<Rightarrow> addr_prog 3 d (src0 ir)
      | OP_load \<Rightarrow> mem_prog (\<lambda>p k. I_load 4 True d p k) 2 (src0 ir)
      | OP_global_load \<Rightarrow> mem_prog (\<lambda>p k. I_load 4 True d p k) 3 (src0 ir)
      | OP_store \<Rightarrow> mem_prog (\<lambda>p k. I_store 4 a p k) 2 (src1 ir)
      | OP_global_store \<Rightarrow> mem_prog (\<lambda>p k. I_store 4 a p k) 3 (src1 ir)
      | OP_read \<Rightarrow> [I_load (unat (src1 ir)) True d a 0]
      | OP_write \<Rightarrow> [I_store (unat (dest ir)) b a 0]
      | _ \<Rightarrow> [])"

text \<open>The operands that name registers; the others are sizes and offsets.\<close>

definition ir_regs_ok :: "ph2_ir \<Rightarrow> bool" where
  "ir_regs_ok ir \<longleftrightarrow>
     (op ir \<in> {OP_store, OP_global_store, OP_write} \<or> unat (dest ir) < 8)
     \<and> (op ir \<in> {OP_load_constant, OP_address_of, OP_global_address_of, OP_load, OP_global_load}
        \<or> unat (src0 ir) < 8)
     \<and> (is_bin (op ir) \<or> op ir = OP_write \<longrightarrow> unat (src1 ir) < 8)"

lemma sim_straight:
  assumes "emit_words es sz = Some ws" "list_all2 emits_insn es prog" "list_all straight prog"
    and "length prog < 1000" "exec_seq prog t = Some t'" "sim s' t'"
  shows "rv_sim_step ws t s'"
  using run_straight [OF assms(1-5)] assms(6) unfolding rv_sim_step_def by blast

lemma li_emits:
  "unat r < 32 \<Longrightarrow> list_all2 emits_insn (rv_li r v) (li_prog (unat r) v)"
  using emits_lui [of r "rv_hi v"] emits_I(1) [of r r "rv_lo v"] by (simp add: rv_li_def li_prog_def)

lemma t0_emits: "list_all2 emits_insn (rv_li x_t0 v) (li_prog 5 v)"
  using li_emits [of x_t0 v] by simp

lemma li_exec: "r \<noteq> 0 \<Longrightarrow> exec_seq (li_prog r v) t
    = Some (nextpc (setx (nextpc (setx t r (rv_hi v AND NOT 0xFFF))) r v))"
  using rv_hi_lo [of v] by (simp add: li_prog_def)

lemma exec_seq_append:
  "exec_seq (xs @ ys) t = (case exec_seq xs t of None \<Rightarrow> None | Some u \<Rightarrow> exec_seq ys u)"
  by (induction xs arbitrary: t) (auto split: option.split)

lemma mem_straight: "is_mem (op ir) \<Longrightarrow> list_all straight (rv_mem_prog ir)"
  "length (rv_mem_prog ir) < 1000"
  by (cases "op ir"; simp add: is_mem_def rv_mem_prog_def Let_def addr_prog_def mem_prog_def li_prog_def)+

lemma emits_num:
  assumes "unat rd = d" "unat rs1 = a" "unat rs2 = b" "d < 32" "a < 32" "b < 32"
  shows "emits_insn (word (rvi_add rd rs1 rs2)) (I_alu A_add d a b)"
    and "emits_insn (now (rvi_addi rd rs1 imm)) (I_alui A_add d a imm)"
    and "emits_insn (now (rvi_lb rd rs1 imm)) (I_load 1 True d a imm)"
    and "emits_insn (now (rvi_lh rd rs1 imm)) (I_load 2 True d a imm)"
    and "emits_insn (now (rvi_lw rd rs1 imm)) (I_load 4 True d a imm)"
    and "emits_insn (now (rvi_sb rd rs1 imm)) (I_store 1 d a imm)"
    and "emits_insn (now (rvi_sh rd rs1 imm)) (I_store 2 d a imm)"
    and "emits_insn (now (rvi_sw rd rs1 imm)) (I_store 4 d a imm)"
  using assms emits_R(1) [of rd rs1 rs2] emits_I [of rd rs1 imm] by auto

lemma addr_emits:
  assumes "unat b = nb" "nb < 32" "unat rd < 32"
  shows "list_all2 emits_insn
      (if \<not> imm12_ok k then rv_li x_t0 k @ [word (rvi_add rd b x_t0)] else [now (rvi_addi rd b k)])
      (addr_prog nb (unat rd) k)"
  using assms t0_emits [of k] by (auto simp: addr_prog_def intro!: list_all2_appendI emits_num)

lemma load_emits:
  assumes "unat b = nb" "nb < 32" "unat rd < 32"
  shows "list_all2 emits_insn
      (if \<not> imm12_ok k then rv_li x_t0 k @ [word (rvi_add x_t0 b x_t0), now (rvi_lw rd x_t0 0)]
       else [now (rvi_lw rd b k)])
      (mem_prog (\<lambda>p k. I_load 4 True (unat rd) p k) nb k)"
  using assms t0_emits [of k] by (auto simp: mem_prog_def intro!: list_all2_appendI emits_num)

lemma store_emits:
  assumes "unat b = nb" "nb < 32" "unat rs < 32"
  shows "list_all2 emits_insn
      (if \<not> imm12_ok k then rv_li x_t0 k @ [word (rvi_add x_t0 b x_t0), now (rvi_sw rs x_t0 0)]
       else [now (rvi_sw rs b k)])
      (mem_prog (\<lambda>p k. I_store 4 (unat rs) p k) nb k)"
  using assms t0_emits [of k] by (auto simp: mem_prog_def intro!: list_all2_appendI emits_num)

lemma rx_32: "unat (r :: cint) < 8 \<Longrightarrow> unat (r + 10) < 32"
  using rx_bounds(3) [of r] by (simp only: rx_def)

lemma mem_emits:
  assumes "is_mem (op ir)" "ir_regs_ok ir" "rv_seq env ir = Some es" "ph2_step ir s = Some s'"
  shows "list_all2 emits_insn es (rv_mem_prog ir)"
proof -
  consider "op ir \<in> {OP_load_constant, OP_address_of, OP_global_address_of}"
    | "op ir \<in> {OP_load, OP_global_load}" | "op ir \<in> {OP_store, OP_global_store}"
    | "op ir = OP_read" | "op ir = OP_write"
    using assms(1) by (auto simp: is_mem_def)
  then show ?thesis
  proof cases
    case 1
    then have "unat (dest ir + 10) < 32"
      using assms(2) rx_32 by (auto simp: ir_regs_ok_def)
    with 1 assms(3) show ?thesis
      using addr_emits [of x_sp 2 "dest ir + 10" "src0 ir"] addr_emits [of x_gp 3 "dest ir + 10" "src0 ir"]
        li_emits [of "dest ir + 10" "src0 ir"] emits_num(2) [of "dest ir + 10" _ x_zero 0 x_zero]
      by (elim insertE) (auto simp: rv_seq_def Let_def rv_mem_prog_def rx_def)
  next
    case 2
    then have "unat (dest ir + 10) < 32"
      using assms(2) rx_32 by (auto simp: ir_regs_ok_def)
    with 2 assms(3) show ?thesis
      using load_emits [of x_sp 2 "dest ir + 10" "src0 ir"] load_emits [of x_gp 3 "dest ir + 10" "src0 ir"]
      by (elim insertE) (auto simp: rv_seq_def Let_def rv_mem_prog_def rx_def)
  next
    case 3
    then have "unat (src0 ir + 10) < 32"
      using assms(2) rx_32 by (auto simp: ir_regs_ok_def)
    with 3 assms(3) show ?thesis
      using store_emits [of x_sp 2 "src0 ir + 10" "src1 ir"] store_emits [of x_gp 3 "src0 ir + 10" "src1 ir"]
      by (elim insertE) (auto simp: rv_seq_def Let_def rv_mem_prog_def rx_def)
  next
    case 4
    then have "unat (dest ir + 10) < 32" "unat (src0 ir + 10) < 32"
      using assms(2) rx_32 by (auto simp: ir_regs_ok_def)
    with 4 assms(3) show ?thesis
      using emits_I [of "dest ir + 10" "src0 ir + 10" 0]
      by (auto simp: rv_seq_def Let_def rv_mem_prog_def rx_def split: if_split_asm)
  next
    case 5
    then have "unat (src1 ir + 10) < 32" "unat (src0 ir + 10) < 32"
      using assms(2) rx_32 by (auto simp: ir_regs_ok_def)
    with 5 assms(3) show ?thesis
      using emits_I [of "src1 ir + 10" "src0 ir + 10" 0]
      by (auto simp: rv_seq_def Let_def rv_mem_prog_def rx_def split: if_split_asm)
  qed
qed

lemma sim_frame:
  assumes "sim s t" "\<And>x. x \<noteq> 5 \<and> x \<noteq> 0 \<Longrightarrow> getx t' x = getx t x" "rmem t' = m"
  shows "sim (s\<lparr>pmem := m\<rparr>) t'"
  unfolding sim_def
proof (intro conjI allI impI)
  fix r :: cint
  assume r: "unat r < 8"
  show "reg (s\<lparr>pmem := m\<rparr>) r = getx t' (rx r)"
    using assms(1) assms(2) [of "rx r"] r rx_bounds(1) [OF r] by (auto simp: sim_def)
qed (use assms in \<open>auto simp: sim_def\<close>)

lemma addr_exec:
  assumes "d \<noteq> 0" "b \<noteq> 5"
  shows "\<exists>t'. exec_seq (addr_prog b d k) t = Some t' \<and> getx t' d = getx t b + k \<and> rmem t' = rmem t
    \<and> (\<forall>x. x \<noteq> d \<and> x \<noteq> 5 \<longrightarrow> getx t' x = getx t x)"
  using assms by (auto simp: addr_prog_def exec_seq_append li_exec)

lemma load_exec:
  assumes "d \<noteq> 0" "b \<noteq> 5"
  shows "\<exists>t'. exec_seq (mem_prog (\<lambda>p k. I_load 4 True d p k) b k) t = Some t'
    \<and> getx t' d = load_val (rmem t) 4 True (getx t b + k) \<and> rmem t' = rmem t
    \<and> (\<forall>x. x \<noteq> d \<and> x \<noteq> 5 \<longrightarrow> getx t' x = getx t x)"
  using assms by (auto simp: mem_prog_def exec_seq_append li_exec)

lemma store_exec:
  assumes "a \<noteq> 5" "b \<noteq> 5"
  shows "\<exists>t'. exec_seq (mem_prog (\<lambda>p k. I_store 4 a p k) b k) t = Some t'
    \<and> rmem t' = store_val (rmem t) 4 (getx t b + k) (getx t a)
    \<and> (\<forall>x. x \<noteq> 5 \<longrightarrow> getx t' x = getx t x)"
  using assms by (auto simp: mem_prog_def exec_seq_append li_exec)

lemma sim_write_reg:
  assumes "sim s t" "unat d < 8" "getx t' (rx d) = v" "rmem t' = rmem t"
    and "\<forall>x. x \<noteq> rx d \<and> x \<noteq> 5 \<longrightarrow> getx t' x = getx t x"
  shows "sim (set_reg d v s) t'"
  by (rule sim_set_reg [OF assms(1-3) _ assms(4)]) (use assms(5) in auto)

lemma addr_sim:
  assumes "sim s t" "unat d < 8" "b \<noteq> 5" "getx t b = p"
  shows "\<exists>t'. exec_seq (addr_prog b (rx d) k) t = Some t' \<and> sim (set_reg d (p + k) s) t'"
proof -
  have "rx d \<noteq> 0" using rx_bounds(1) [OF assms(2)] by simp
  from addr_exec [OF this assms(3), of k t] show ?thesis
    using sim_write_reg [OF assms(1,2)] assms(4) by blast
qed

lemma load_sim:
  assumes "sim s t" "unat d < 8" "b \<noteq> 5" "getx t b = p"
  shows "\<exists>t'. exec_seq (mem_prog (\<lambda>p k. I_load 4 True (rx d) p k) b k) t = Some t'
    \<and> sim (set_reg d (load_val (pmem s) 4 True (p + k)) s) t'"
proof -
  have "rx d \<noteq> 0" using rx_bounds(1) [OF assms(2)] by simp
  moreover have "pmem s = rmem t" using assms(1) by (simp add: sim_def)
  ultimately show ?thesis
    using load_exec [OF _ assms(3), of "rx d" k t] sim_write_reg [OF assms(1,2)] assms(4) by metis
qed

lemma store_sim:
  assumes "sim s t" "unat a < 8" "b \<noteq> 5" "getx t b = p"
  shows "\<exists>t'. exec_seq (mem_prog (\<lambda>p k. I_store 4 (rx a) p k) b k) t = Some t'
    \<and> sim (s\<lparr>pmem := store_val (pmem s) 4 (p + k) (reg s a)\<rparr>) t'"
proof -
  have "rx a \<noteq> 5" using rx_bounds(1) [OF assms(2)] by auto
  from store_exec [OF this assms(3), of k t] obtain t' where t':
    "exec_seq (mem_prog (\<lambda>p k. I_store 4 (rx a) p k) b k) t = Some t'"
    "rmem t' = store_val (rmem t) 4 (getx t b + k) (getx t (rx a))"
    "\<forall>x. x \<noteq> 5 \<longrightarrow> getx t' x = getx t x"
    by blast
  have "reg s a = getx t (rx a)" "pmem s = rmem t"
    using assms(1,2) by (simp_all add: sim_def)
  with t' assms(4) sim_frame [OF assms(1), of t'] show ?thesis
    by auto
qed

lemma mem_exec:
  assumes "is_mem (op ir)" "ir_regs_ok ir" "sim s t" "ph2_step ir s = Some s'"
  shows "\<exists>t'. exec_seq (rv_mem_prog ir) t = Some t' \<and> sim s' t'"
proof -
  consider "op ir = OP_load_constant" | "op ir \<in> {OP_address_of, OP_global_address_of}"
    | "op ir \<in> {OP_load, OP_global_load}" | "op ir \<in> {OP_store, OP_global_store}"
    | "op ir = OP_read" | "op ir = OP_write"
    using assms(1) by (auto simp: is_mem_def)
  moreover have sp: "getx t 2 = spv s" "getx t 3 = gpv s"
    using assms(3) by (simp_all add: sim_def)
  ultimately show ?thesis
  proof cases
    case 1
    then have d: "unat (dest ir) < 8" "rx (dest ir) \<noteq> 0" and s': "s' = set_reg (dest ir) (src0 ir) s"
      using assms(2,4) rx_bounds(1) [of "dest ir"] by (auto simp: ir_regs_ok_def ph2_step_def)
    show ?thesis
      unfolding s' using 1 d assms(3)
      by (auto simp: rv_mem_prog_def Let_def li_exec getx_def [of _ 0] intro!: sim_write_reg)
  next
    case 2
    then have d: "unat (dest ir) < 8"
      using assms(2) by (auto simp: ir_regs_ok_def)
    from 2 show ?thesis
      using addr_sim [OF assms(3) d, of 2] addr_sim [OF assms(3) d, of 3] assms(4) sp
      by (elim insertE) (auto simp: rv_mem_prog_def Let_def ph2_step_def)
  next
    case 3
    then have d: "unat (dest ir) < 8"
      using assms(2) by (auto simp: ir_regs_ok_def)
    from 3 show ?thesis
      using load_sim [OF assms(3) d, of 2] load_sim [OF assms(3) d, of 3] assms(4) sp
      by (elim insertE) (auto simp: rv_mem_prog_def Let_def ph2_step_def)
  next
    case 4
    then have d: "unat (src0 ir) < 8"
      using assms(2) by (auto simp: ir_regs_ok_def)
    from 4 show ?thesis
      using store_sim [OF assms(3) d, of 2] store_sim [OF assms(3) d, of 3] assms(4) sp
      by (elim insertE) (auto simp: rv_mem_prog_def Let_def ph2_step_def)
  next
    case 5
    then have d: "unat (dest ir) < 8" "rx (dest ir) \<noteq> 0" "unat (src0 ir) < 8"
      using assms(2) rx_bounds(1) [of "dest ir"] by (auto simp: ir_regs_ok_def)
    have "reg s (src0 ir) = getx t (rx (src0 ir))" "pmem s = rmem t"
      using assms(3) d(3) by (simp_all add: sim_def)
    with 5 d assms(3,4) show ?thesis
      by (auto simp: rv_mem_prog_def Let_def ph2_step_def intro!: sim_write_reg split: if_split_asm)
  next
    case 6
    then have d: "unat (src0 ir) < 8" "unat (src1 ir) < 8"
      using assms(2) by (auto simp: ir_regs_ok_def)
    have "reg s (src0 ir) = getx t (rx (src0 ir))" "reg s (src1 ir) = getx t (rx (src1 ir))"
        "pmem s = rmem t"
      using assms(3) d by (simp_all add: sim_def)
    with 6 assms(3,4) show ?thesis
      by (auto simp: rv_mem_prog_def Let_def ph2_step_def intro!: sim_frame split: if_split_asm)
  qed
qed

lemma mem_step:
  assumes "is_mem (op ir)" "ir_regs_ok ir" "rv_seq env ir = Some es" "emit_words es sz = Some ws"
    and "sim s t" "ph2_step ir s = Some s'"
  shows "rv_sim_step ws t s'"
proof -
  from mem_exec [OF assms(1,2,5,6)] obtain t' where
    "exec_seq (rv_mem_prog ir) t = Some t'" "sim s' t'" by blast
  then show ?thesis
    by (rule sim_straight [OF assms(4) mem_emits [OF assms(1,2,3,6)] mem_straight(1) [OF assms(1)]
        mem_straight(2)])
qed

lemma straight_ir_step:
  assumes "ir_regs_ok ir" "full_ext ir" "\<not> soft_op env (op ir)"
    and "rv_seq env ir = Some es" "emit_words es sz = Some ws"
    and "sim s t" "ph2_step ir s = Some s'"
  shows "rv_sim_step ws t s'"
  using assms(7)
proof (cases rule: step_cases)
  case 1
  then show ?thesis by (rule mem_step [OF _ assms(1,4-7)])
next
  case (2 v)
  then have "regs_ok ir"
    using assms(1) by (auto simp: ir_regs_ok_def regs_ok_def is_bin_def)
  from bin_step [OF 2(1) this assms(3-6) 2(2)] 2(3) show ?thesis by simp
next
  case (3 v)
  then have "unat (dest ir) < 8" "unat (src0 ir) < 8"
    using assms(1) by (auto simp: ir_regs_ok_def is_un_def)
  from un_step [OF 3(1) this assms(2,4-6) 3(2)] 3(3) show ?thesis by simp
qed

end
