(* ===== verification/RiscvSoft.thy ===== *)
theory RiscvSoft
  imports RiscvIndex RiscvStep
begin

text \<open>
  Multiplication, division and remainder without the M extension: the shift-and-add and
  shift-and-subtract loops of \<open>rv_mul_seq\<close> and \<open>rv_divmod_seq\<close> end and compute what
  the instruction means.
\<close>

section \<open>Multiplication\<close>

definition mul_prog :: "nat \<Rightarrow> nat \<Rightarrow> nat \<Rightarrow> rv_insn list" where
  "mul_prog d a b =
     [I_alui A_add 5 0 0, I_alui A_add 6 0 0, I_alui A_add 28 a 0, I_alui A_add 29 b 0,
      I_branch C_eq 28 0 32, I_branch C_eq 29 0 28, I_alui A_and 6 29 1, I_branch C_eq 6 0 8,
      I_alu A_add 5 5 28, I_alui A_sll 28 28 1, I_alui A_srl 29 29 1, I_jal 0 (-28),
      I_alui A_add d 5 0]"

lemma mul_iter:
  assumes "getx t 28 \<noteq> 0" "getx t 29 \<noteq> 0"
  shows "\<exists>t'. xreach (mul_prog d a b) 4 t 4 t' \<and> getx t' 28 = push_bit 1 (getx t 28)
    \<and> getx t' 29 = drop_bit 1 (getx t 29)
    \<and> getx t' 5 = getx t 5 + (if getx t 29 AND 1 = 0 then 0 else getx t 28)
    \<and> rmem t' = rmem t \<and> (\<forall>x. x \<notin> {5, 6, 28, 29} \<longrightarrow> getx t' x = getx t x)"
proof (cases "getx t 29 AND 1 = 0")
  case True
  let ?t' = "setx (setx (setx t 6 0) 28 (push_bit 1 (getx t 28))) 29 (drop_bit 1 (getx t 29))"
  have "xrun (mul_prog d a b) 7 4 t = Some (4, ?t')"
    using assms True by (simp add: mul_prog_def xjump_def)
  then have "xreach (mul_prog d a b) 4 t 4 ?t'"
    by (rule xreachI)
  with True show ?thesis
    by (intro exI [of _ ?t']) simp
next
  case False
  let ?t' = "setx (setx (setx (setx t 6 (getx t 29 AND 1)) 5 (getx t 5 + getx t 28))
    28 (push_bit 1 (getx t 28))) 29 (drop_bit 1 (getx t 29))"
  have "xrun (mul_prog d a b) 8 4 t = Some (4, ?t')"
    using assms False by (simp add: mul_prog_def xjump_def)
  then have "xreach (mul_prog d a b) 4 t 4 ?t'"
    by (rule xreachI)
  with False show ?thesis
    by (intro exI [of _ ?t']) simp
qed

lemma mul_exit:
  assumes "getx t 28 = 0 \<or> getx t 29 = 0"
  shows "xreach (mul_prog d a b) 4 t 12 t"
proof (cases "getx t 28 = 0")
  case True
  then have "xrun (mul_prog d a b) 1 4 t = Some (12, t)"
    by (simp add: mul_prog_def xjump_def)
  then show ?thesis by (rule xreachI)
next
  case False
  with assms have "xrun (mul_prog d a b) 2 4 t = Some (12, t)"
    by (simp add: mul_prog_def xjump_def)
  then show ?thesis by (rule xreachI)
qed

lemma mul_bit: "(if b AND 1 = 0 then 0 else a) + push_bit 1 a * drop_bit 1 b = a * (b :: cint)"
proof -
  have "b = 2 * (b div 2) + b mod 2"
    by (rule mult_div_mod_eq [symmetric])
  then have b: "a * b = a * (2 * (b div 2)) + a * (b mod 2)"
    by (metis distrib_left)
  have "b AND 1 = b mod 2"
    by (simp add: and_one_eq)
  moreover have "b mod 2 = 0 \<or> b mod 2 = 1"
    by (rule parity_cases [of b]) simp_all
  ultimately show ?thesis
    using b by (auto simp: drop_bit_Suc algebra_simps)
qed

lemma mul_loop:
  "\<exists>t'. xreach (mul_prog d a b) 4 t 12 t' \<and> getx t' 5 = getx t 5 + getx t 28 * getx t 29
     \<and> rmem t' = rmem t \<and> (\<forall>x. x \<notin> {5, 6, 28, 29} \<longrightarrow> getx t' x = getx t x)"
proof (induction "unat (getx t 29)" arbitrary: t rule: less_induct)
  case less
  show ?case
  proof (cases "getx t 28 = 0 \<or> getx t 29 = 0")
    case True
    then show ?thesis
      using mul_exit [OF True] by (intro exI [of _ t]) auto
  next
    case False
    then obtain t1 where t1: "xreach (mul_prog d a b) 4 t 4 t1"
      "getx t1 28 = push_bit 1 (getx t 28)" "getx t1 29 = drop_bit 1 (getx t 29)"
      "getx t1 5 = getx t 5 + (if getx t 29 AND 1 = 0 then 0 else getx t 28)"
      "rmem t1 = rmem t" "\<forall>x. x \<notin> {5, 6, 28, 29} \<longrightarrow> getx t1 x = getx t x"
      using mul_iter [of t d a b] by blast
    have "0 < unat (getx t 29)"
      using False by (simp add: unat_gt_0)
    then have "unat (getx t1 29) < unat (getx t 29)"
      unfolding t1(3) by (simp add: drop_bit_Suc unat_div_distrib)
    from less [OF this] obtain t' where t': "xreach (mul_prog d a b) 4 t1 12 t'"
      "getx t' 5 = getx t1 5 + getx t1 28 * getx t1 29" "rmem t' = rmem t1"
      "\<forall>x. x \<notin> {5, 6, 28, 29} \<longrightarrow> getx t' x = getx t1 x"
      by blast
    have "getx t' 5 = getx t 5 + getx t 28 * getx t 29"
      using mul_bit [of "getx t 29" "getx t 28"] unfolding t'(2) t1(2,3,4) by (simp only: add.assoc)
    then show ?thesis
      using xreach_trans [OF t1(1) t'(1)] t1(5,6) t'(3,4) by auto
  qed
qed

lemma mul_correct:
  assumes "d \<noteq> 0" "a \<notin> {5, 6, 28, 29}" "b \<notin> {5, 6, 28, 29}"
  shows "\<exists>t'. xreach (mul_prog d a b) 0 t 13 t' \<and> getx t' d = getx t a * getx t b
     \<and> rmem t' = rmem t \<and> (\<forall>x. x \<notin> {d, 5, 6, 28, 29} \<longrightarrow> getx t' x = getx t x)"
proof -
  let ?t1 = "setx (setx (setx (setx t 5 0) 6 0) 28 (getx t a)) 29 (getx t b)"
  have "xrun (mul_prog d a b) 4 0 t = Some (4, ?t1)"
    using assms by (simp add: mul_prog_def)
  then have 1: "xreach (mul_prog d a b) 0 t 4 ?t1"
    by (rule xreachI)
  obtain t2 where 2: "xreach (mul_prog d a b) 4 ?t1 12 t2" "rmem t2 = rmem ?t1"
    "getx t2 5 = getx ?t1 5 + getx ?t1 28 * getx ?t1 29"
    "\<forall>x. x \<notin> {5, 6, 28, 29} \<longrightarrow> getx t2 x = getx ?t1 x"
    using mul_loop [of d a b ?t1] by blast
  let ?t3 = "setx t2 d (getx t2 5)"
  have "xrun (mul_prog d a b) 1 12 t2 = Some (13, ?t3)"
    by (simp add: mul_prog_def)
  then have "xreach (mul_prog d a b) 12 t2 13 ?t3"
    by (rule xreachI)
  with 1 2(1) have "xreach (mul_prog d a b) 0 t 13 ?t3"
    by (blast intro: xreach_trans)
  with 2(2-4) assms show ?thesis
    by (intro exI [of _ ?t3]) simp
qed

section \<open>Division and remainder\<close>

definition divmod_prog :: "bool \<Rightarrow> nat \<Rightarrow> nat \<Rightarrow> nat \<Rightarrow> rv_insn list" where
  "divmod_prog is_mod d a b =
     [I_alui A_add 7 a 0, I_alui A_add 28 b 0,
      I_alui A_sra 5 7 31, I_alu A_add 7 7 5, I_alu A_xor 7 7 5,
      I_alui A_sra 6 28 31, I_alu A_add 28 28 6, I_alu A_xor 28 28 6,
      I_alu A_xor 30 5 (if is_mod then 0 else 6),
      I_alui A_add 5 0 0, I_alui A_add 6 0 1,
      I_branch C_eq 28 0 52, I_branch C_eq 7 0 48,
      I_branch C_eq 7 28 20, I_branch C_ltu 7 28 16, I_alui A_sll 28 28 1, I_alui A_sll 6 6 1, I_jal 0 (-16),
      I_branch C_ltu 7 28 12, I_alu A_sub 7 7 28, I_alu A_add 5 5 6,
      I_alui A_srl 6 6 1, I_alui A_srl 28 28 1, I_branch C_ne 6 0 (-20),
      I_alui A_add d (if is_mod then 7 else 5) 0,
      I_branch C_eq 30 0 8, I_alu A_sub d 0 d]"

text \<open>What a phase of the loop leaves alone.\<close>

definition div_frame :: "rv_state \<Rightarrow> rv_state \<Rightarrow> bool" where
  "div_frame t t' \<longleftrightarrow> rmem t' = rmem t \<and> (\<forall>x. x \<notin> {5, 6, 7, 28} \<longrightarrow> getx t' x = getx t x)"

lemma div_frame_refl: "div_frame t t"
  by (simp add: div_frame_def)

lemma div_frame_trans: "div_frame t u \<Longrightarrow> div_frame u v \<Longrightarrow> div_frame t v"
  by (auto simp: div_frame_def)

lemma div_frame_setx: "r \<in> {5, 6, 7, 28} \<Longrightarrow> div_frame t u \<Longrightarrow> div_frame t (setx u r v)"
  by (auto simp: div_frame_def)

lemma up_iter:
  assumes "getx t 28 < getx t 7"
  shows "xreach (divmod_prog m d a b) 13 t 13
    (setx (setx t 28 (push_bit 1 (getx t 28))) 6 (push_bit 1 (getx t 6)))"
proof -
  have "getx t 7 \<noteq> getx t 28" "\<not> getx t 7 < getx t 28"
    using assms by auto
  then have "xrun (divmod_prog m d a b) 5 13 t
     = Some (13, setx (setx t 28 (push_bit 1 (getx t 28))) 6 (push_bit 1 (getx t 6)))"
    by (simp add: divmod_prog_def xjump_def)
  then show ?thesis by (rule xreachI)
qed

lemma up_exit:
  assumes "\<not> getx t 28 < getx t 7"
  shows "xreach (divmod_prog m d a b) 13 t 18 t"
proof (cases "getx t 7 = getx t 28")
  case True
  then have "xrun (divmod_prog m d a b) 1 13 t = Some (18, t)"
    by (simp add: divmod_prog_def xjump_def)
  then show ?thesis by (rule xreachI)
next
  case False
  with assms have "getx t 7 < getx t 28" by simp
  with False have "xrun (divmod_prog m d a b) 2 13 t = Some (18, t)"
    by (simp add: divmod_prog_def xjump_def)
  then show ?thesis by (rule xreachI)
qed

lemma unat_double: "unat w < 2 ^ 31 \<Longrightarrow> unat (push_bit 1 (w :: cint)) = 2 * unat w"
  by (simp add: push_bit_eq_mult unat_word_ariths)

lemma up_loop:
  assumes "unat (getx t 7) \<le> 2 ^ 31" "unat (getx t 28) = B * 2 ^ k" "unat (getx t 6) = 2 ^ k"
    and "0 < B"
  shows "\<exists>t' k'. xreach (divmod_prog m d a b) 13 t 18 t' \<and> getx t' 7 = getx t 7 \<and> getx t' 5 = getx t 5
     \<and> unat (getx t' 28) = B * 2 ^ k' \<and> unat (getx t' 6) = 2 ^ k'
     \<and> unat (getx t 7) < B * 2 ^ Suc k' \<and> div_frame t t'"
  using assms(1-3)
proof (induction "unat (getx t 7) - unat (getx t 28)" arbitrary: t k rule: less_induct)
  case less
  show ?case
  proof (cases "getx t 28 < getx t 7")
    case True
    let ?t1 = "setx (setx t 28 (push_bit 1 (getx t 28))) 6 (push_bit 1 (getx t 6))"
    have lt: "unat (getx t 28) < unat (getx t 7)"
      using True by (simp add: word_less_nat_alt)
    then have "unat (getx t 28) < 2 ^ 31"
      using less.prems(1) by linarith
    moreover have "unat (getx t 6) \<le> unat (getx t 28)"
      using less.prems(2,3) assms(4) by simp
    ultimately have d: "unat (getx ?t1 28) = 2 * unat (getx t 28)" "unat (getx ?t1 6) = 2 * unat (getx t 6)"
      using unat_double [of "getx t 28"] unat_double [of "getx t 6"] by simp_all
    have pos: "0 < unat (getx t 28)"
      using less.prems(2) assms(4) by simp
    have "unat (getx ?t1 7) - unat (getx ?t1 28) < unat (getx t 7) - unat (getx t 28)"
      using lt pos d(1) by simp
    moreover have "unat (getx ?t1 7) \<le> 2 ^ 31" "unat (getx ?t1 28) = B * 2 ^ Suc k" "unat (getx ?t1 6) = 2 ^ Suc k"
      using less.prems d by simp_all
    ultimately obtain t' k' where t': "xreach (divmod_prog m d a b) 13 ?t1 18 t'"
      "getx t' 7 = getx ?t1 7" "getx t' 5 = getx ?t1 5"
      "unat (getx t' 28) = B * 2 ^ k'" "unat (getx t' 6) = 2 ^ k'"
      "unat (getx ?t1 7) < B * 2 ^ Suc k'" "div_frame ?t1 t'"
      using less.hyps [of ?t1 "Suc k"] by blast
    have "div_frame t ?t1"
      by (intro div_frame_setx div_frame_refl) simp_all
    then show ?thesis
      using xreach_trans [OF up_iter [OF True] t'(1)] t'(2-7) div_frame_trans
      by (intro exI [of _ t'] exI [of _ k']) auto
  next
    case False
    then have "unat (getx t 7) \<le> unat (getx t 28)"
      by (simp add: word_less_nat_alt)
    moreover have "0 < B * 2 ^ k"
      using assms(4) by simp
    moreover have "B * 2 ^ Suc k = B * 2 ^ k + B * 2 ^ k"
      by simp
    ultimately have "unat (getx t 7) < B * 2 ^ Suc k"
      using less.prems(2) by linarith
    then show ?thesis
      using up_exit [OF False] less.prems(2,3) div_frame_refl by blast
  qed
qed

definition down_sub :: "rv_state \<Rightarrow> rv_state" where
  "down_sub t =
     (if getx t 7 < getx t 28 then t
      else setx (setx t 7 (getx t 7 - getx t 28)) 5 (getx t 5 + getx t 6))"

definition down_next :: "rv_state \<Rightarrow> rv_state" where
  "down_next t = setx (setx (down_sub t) 6 (drop_bit 1 (getx t 6))) 28 (drop_bit 1 (getx t 28))"

lemma down_iter:
  "xreach (divmod_prog m d a b) 18 t (if drop_bit 1 (getx t 6) = 0 then 24 else 18) (down_next t)"
proof (cases "getx t 7 < getx t 28")
  case True
  then have "xrun (divmod_prog m d a b) 4 18 t
      = Some (if drop_bit 1 (getx t 6) = 0 then 24 else 18, down_next t)"
    by (simp add: divmod_prog_def xjump_def down_next_def down_sub_def)
  then show ?thesis by (rule xreachI)
next
  case False
  then have "xrun (divmod_prog m d a b) 6 18 t
      = Some (if drop_bit 1 (getx t 6) = 0 then 24 else 18, down_next t)"
    by (simp add: divmod_prog_def xjump_def down_next_def down_sub_def)
  then show ?thesis by (rule xreachI)
qed

lemma unat_half: "unat (drop_bit 1 (w :: cint)) = unat w div 2"
  by (simp add: drop_bit_Suc unat_div_distrib)

lemma down_next_values:
  assumes "unat (getx t 28) = C" "unat (getx t 6) = p" "unat (getx t 5) + unat (getx t 7) < 2 ^ 32"
    and "p \<le> C" "0 < C"
  shows "unat (getx (down_next t) 28) = C div 2" "unat (getx (down_next t) 6) = p div 2"
    "unat (getx (down_next t) 7) = (if unat (getx t 7) < C then unat (getx t 7) else unat (getx t 7) - C)"
    "unat (getx (down_next t) 5) = (if unat (getx t 7) < C then unat (getx t 5) else unat (getx t 5) + p)"
    "div_frame t (down_next t)"
proof -
  show "unat (getx (down_next t) 28) = C div 2" "unat (getx (down_next t) 6) = p div 2"
    using assms(1,2) unat_half [of "getx t 28"] unat_half [of "getx t 6"] by (simp_all add: down_next_def)
  show "unat (getx (down_next t) 7) = (if unat (getx t 7) < C then unat (getx t 7) else unat (getx t 7) - C)"
    using assms(1) by (auto simp: down_next_def down_sub_def word_less_nat_alt unat_sub word_le_nat_alt)
  have "\<not> unat (getx t 7) < C \<Longrightarrow> unat (getx t 5) + p < 2 ^ 32"
    using assms(3,4) by linarith
  then show "unat (getx (down_next t) 5) = (if unat (getx t 7) < C then unat (getx t 5) else unat (getx t 5) + p)"
    using assms(1,2) by (auto simp: down_next_def down_sub_def word_less_nat_alt unat_word_ariths)
  show "div_frame t (down_next t)"
    unfolding down_next_def down_sub_def by (auto intro!: div_frame_setx div_frame_refl)
qed

lemma down_loop:
  assumes "0 < B" "unat (getx t 28) = B * 2 ^ k" "unat (getx t 6) = 2 ^ k"
    and "unat (getx t 7) < B * 2 ^ Suc k" "unat (getx t 5) * B + unat (getx t 7) = A" "A < 2 ^ 32"
  shows "\<exists>t'. xreach (divmod_prog m d a b) 18 t 24 t' \<and> unat (getx t' 5) * B + unat (getx t' 7) = A
     \<and> unat (getx t' 7) < B \<and> div_frame t t'"
  using assms
proof (induction k arbitrary: t)
  case 0
  let ?t = "down_next t"
  have "unat (getx t 5) \<le> unat (getx t 5) * B"
    using 0 by simp
  then have "unat (getx t 5) + unat (getx t 7) < 2 ^ 32"
    using 0 by linarith
  moreover have "1 \<le> B" using 0 by simp
  ultimately have v: "unat (getx ?t 7) = (if unat (getx t 7) < B then unat (getx t 7) else unat (getx t 7) - B)"
    "unat (getx ?t 5) = (if unat (getx t 7) < B then unat (getx t 5) else unat (getx t 5) + 1)"
    "div_frame t ?t"
    using down_next_values [of t B 1] 0 by simp_all
  have "drop_bit 1 (getx t 6) = 0"
    using unat_half [of "getx t 6"] 0 by (simp add: unat_eq_zero)
  then have "xreach (divmod_prog m d a b) 18 t 24 ?t"
    using down_iter [of m d a b t] by simp
  moreover have "unat (getx ?t 5) * B + unat (getx ?t 7) = A" "unat (getx ?t 7) < B"
    using v 0 by (auto simp: algebra_simps)
  ultimately show ?case
    using v(3) by blast
next
  case (Suc k)
  let ?t = "down_next t" and ?C = "B * 2 ^ Suc k"
  have "unat (getx t 5) \<le> unat (getx t 5) * B"
    using Suc.prems(1) by simp
  then have "unat (getx t 5) + unat (getx t 7) < 2 ^ 32"
    using Suc.prems by linarith
  moreover have "2 ^ Suc k \<le> ?C" "0 < ?C" using Suc.prems(1) by simp_all
  ultimately have v: "unat (getx ?t 28) = ?C div 2" "unat (getx ?t 6) = 2 ^ Suc k div 2"
    "unat (getx ?t 7) = (if unat (getx t 7) < ?C then unat (getx t 7) else unat (getx t 7) - ?C)"
    "unat (getx ?t 5) = (if unat (getx t 7) < ?C then unat (getx t 5) else unat (getx t 5) + 2 ^ Suc k)"
    "div_frame t ?t"
    using down_next_values [OF Suc.prems(2,3)] by blast+
  have "unat (drop_bit 1 (getx t 6)) \<noteq> 0"
    unfolding unat_half Suc.prems(3) by simp
  then have "drop_bit 1 (getx t 6) \<noteq> 0"
    by (metis unsigned_0)
  then have x: "xreach (divmod_prog m d a b) 18 t 18 ?t"
    using down_iter [of m d a b t] by simp
  have "B * 2 ^ Suc (Suc k) = ?C + ?C" by simp
  then have r: "unat (getx ?t 7) < ?C"
    using v(3) Suc.prems(4) by (cases "unat (getx t 7) < ?C") auto
  have "unat (getx ?t 5) * B + unat (getx ?t 7) = A"
  proof (cases "unat (getx t 7) < ?C")
    case True
    then show ?thesis using v(3,4) Suc.prems(5) by simp
  next
    case False
    then have "unat (getx ?t 5) * B = unat (getx t 5) * B + ?C"
      using v(4) by (simp add: algebra_simps)
    moreover have "unat (getx ?t 7) = unat (getx t 7) - ?C"
      using v(3) by (simp only: False if_False)
    ultimately show ?thesis
      using False Suc.prems(5) by linarith
  qed
  from Suc.IH [OF Suc.prems(1) _ _ r this Suc.prems(6)] v(1,2) obtain t' where
    "xreach (divmod_prog m d a b) 18 ?t 24 t'" "unat (getx t' 5) * B + unat (getx t' 7) = A"
    "unat (getx t' 7) < B" "div_frame ?t t'"
    by auto
  then show ?case
    using xreach_trans [OF x] div_frame_trans [OF v(5)] by blast
qed

lemma divmod_head:
  assumes "a \<notin> {5, 6, 7, 28, 30}" "b \<notin> {5, 6, 7, 28, 30}"
  shows "\<exists>t'. xreach (divmod_prog m d a b) 0 t 11 t' \<and> getx t' 5 = 0 \<and> getx t' 6 = 1
     \<and> getx t' 7 = (getx t a + signed_drop_bit 31 (getx t a)) XOR signed_drop_bit 31 (getx t a)
     \<and> getx t' 28 = (getx t b + signed_drop_bit 31 (getx t b)) XOR signed_drop_bit 31 (getx t b)
     \<and> getx t' 30 = signed_drop_bit 31 (getx t a) XOR (if m then 0 else signed_drop_bit 31 (getx t b))
     \<and> rmem t' = rmem t \<and> (\<forall>x. x \<notin> {5, 6, 7, 28, 30} \<longrightarrow> getx t' x = getx t x)"
proof -
  let ?sa = "signed_drop_bit 31 (getx t a)" and ?sb = "signed_drop_bit 31 (getx t b)"
  let ?u = "setx (setx (setx t 7 (getx t a)) 28 (getx t b)) 5 ?sa"
  let ?u2 = "setx (setx (setx (setx ?u 7 (getx t a + ?sa)) 7 ((getx t a + ?sa) XOR ?sa)) 6 ?sb) 28 (getx t b + ?sb)"
  let ?u3 = "setx ?u2 28 ((getx t b + ?sb) XOR ?sb)"
  let ?t' = "setx (setx (setx ?u3 30 (?sa XOR (if m then 0 else ?sb))) 5 0) 6 1"
  have "xrun (divmod_prog m d a b) 11 0 t = Some (11, ?t')"
    using assms by (cases m) (simp_all add: divmod_prog_def)
  then have "xreach (divmod_prog m d a b) 0 t 11 ?t'"
    by (rule xreachI)
  then show ?thesis
    by (intro exI [of _ ?t']) simp
qed

lemma divmod_tail:
  assumes "d \<noteq> 0" "d \<noteq> 30"
  shows "\<exists>t'. xreach (divmod_prog m d a b) 24 t 27 t'
     \<and> getx t' d = (if getx t 30 = 0 then getx t (if m then 7 else 5) else - getx t (if m then 7 else 5))
     \<and> rmem t' = rmem t \<and> (\<forall>x. x \<noteq> d \<longrightarrow> getx t' x = getx t x)"
proof (cases "getx t 30 = 0")
  case True
  then have "xrun (divmod_prog m d a b) 2 24 t = Some (27, setx t d (getx t (if m then 7 else 5)))"
    using assms by (simp add: divmod_prog_def xjump_def)
  from xreachI [OF this] True assms show ?thesis
    by (intro exI [of _ "setx t d (getx t (if m then 7 else 5))"]) simp
next
  case False
  let ?u = "setx t d (getx t (if m then 7 else 5))"
  have "xrun (divmod_prog m d a b) 3 24 t = Some (27, setx ?u d (- getx t (if m then 7 else 5)))"
    using assms False by (simp add: divmod_prog_def xjump_def)
  from xreachI [OF this] False assms show ?thesis
    by (intro exI [of _ "setx ?u d (- getx t (if m then 7 else 5))"]) simp
qed

lemma sign_mask: "signed_drop_bit 31 (x :: cint) = (if sint x < 0 then - 1 else 0)"
proof -
  have "sint (signed_drop_bit 31 x) = sint x div 2 ^ 31"
    by (simp add: sint_signed_drop_bit_eq drop_bit_eq_div)
  moreover have "sint x < 0 \<Longrightarrow> sint x div 2 ^ 31 = - 1"
    using sint_range [of x] by (intro int_div_pos_eq [where r = "sint x + 2 ^ 31"]) simp_all
  moreover have "\<not> sint x < 0 \<Longrightarrow> sint x div 2 ^ 31 = 0"
    using sint_range [of x] by (simp add: div_pos_pos_trivial)
  ultimately have "sint (signed_drop_bit 31 x) = sint (if sint x < 0 then - 1 else 0 :: cint)"
    by simp
  then show ?thesis
    by (rule signed_word_eqI)
qed

lemma unat_abs:
  "unat ((x + signed_drop_bit 31 x) XOR signed_drop_bit 31 x) = nat \<bar>sint (x :: cint)\<bar>"
proof (cases "sint x < 0")
  case True
  have "(x + - 1) XOR - 1 = - x"
    by (simp add: not_eq_complement)
  moreover have "unat (- x) = nat (- sint x)"
  proof -
    have "- x = of_nat (nat (- sint x))"
      using True by simp
    moreover have "nat (- sint x) < 2 ^ 32"
      using sint_range [of x] by simp
    ultimately show ?thesis
      by (simp only: unat_of_nat) simp
  qed
  ultimately show ?thesis
    using True by (simp add: sign_mask)
next
  case False
  then show ?thesis
    by (simp add: sign_mask sint_nonneg_uint)
qed

lemma divmod_mid:
  assumes "getx t 5 = 0" "getx t 6 = 1" "unat (getx t 7) = A" "unat (getx t 28) = B"
    and "A \<le> 2 ^ 31" "0 < B"
  shows "\<exists>t'. xreach (divmod_prog m d a b) 11 t 24 t' \<and> unat (getx t' 5) = A div B
     \<and> unat (getx t' 7) = A mod B \<and> div_frame t t'"
proof (cases "A = 0")
  case True
  then have "getx t 7 = 0" "getx t 28 \<noteq> 0"
    using assms(3,4,6) by (auto simp: unat_eq_zero)
  then have "xrun (divmod_prog m d a b) 2 11 t = Some (24, t)"
    by (simp add: divmod_prog_def xjump_def)
  from xreachI [OF this] show ?thesis
    using assms(1,3) True div_frame_refl by (intro exI [of _ t]) simp
next
  case False
  then have "getx t 7 \<noteq> 0" "getx t 28 \<noteq> 0"
    using assms(3,4,6) by auto
  then have "xrun (divmod_prog m d a b) 2 11 t = Some (13, t)"
    by (simp add: divmod_prog_def xjump_def)
  then have x1: "xreach (divmod_prog m d a b) 11 t 13 t"
    by (rule xreachI)
  obtain t1 k where t1: "xreach (divmod_prog m d a b) 13 t 18 t1" "getx t1 7 = getx t 7"
    "getx t1 5 = getx t 5" "unat (getx t1 28) = B * 2 ^ k" "unat (getx t1 6) = 2 ^ k"
    "unat (getx t 7) < B * 2 ^ Suc k" "div_frame t t1"
    using up_loop [of t B 0 m d a b] assms by auto
  obtain t2 where t2: "xreach (divmod_prog m d a b) 18 t1 24 t2"
    "unat (getx t2 5) * B + unat (getx t2 7) = A" "unat (getx t2 7) < B" "div_frame t1 t2"
    using down_loop [OF assms(6) t1(4,5), of A m d a b] t1(2,3,6) assms(1,3,5) by auto
  have "A div B = unat (getx t2 5)" "A mod B = unat (getx t2 7)"
    using t2(2,3) by auto
  then show ?thesis
    using xreach_trans [OF x1 xreach_trans [OF t1(1) t2(1)]] div_frame_trans [OF t1(7) t2(4)] by auto
qed

lemma divmod_by_zero:
  assumes "getx t 28 = 0"
  shows "xreach (divmod_prog m d a b) 11 t 24 t"
proof -
  have "xrun (divmod_prog m d a b) 1 11 t = Some (24, t)"
    using assms by (simp add: divmod_prog_def xjump_def)
  then show ?thesis by (rule xreachI)
qed

text \<open>The value the sequence leaves, in terms of magnitudes and the sign flag.\<close>

definition soft_divmod :: "bool \<Rightarrow> cint \<Rightarrow> cint \<Rightarrow> cint" where
  "soft_divmod m x y =
     (if y = 0 then (if m then x else 0)
      else of_int (if m then srem_trunc (sint x) (sint y) else sdiv_trunc (sint x) (sint y)))"

lemma word_of_unat: "unat (w :: cint) = n \<Longrightarrow> w = of_nat n"
  by auto

lemma sign_xor:
  "(signed_drop_bit 31 x XOR (if m then 0 else signed_drop_bit 31 (y :: cint)) = 0)
   \<longleftrightarrow> (if m then 0 \<le> sint x else (sint x < 0) = (sint y < 0))"
  by (auto simp: sign_mask)

lemma div_sign:
  assumes "sint y \<noteq> 0"
  shows "(of_int (sdiv_trunc (sint x) (sint y)) :: cint) =
     (if (sint x < 0) = (sint y < 0) then of_nat (nat \<bar>sint x\<bar> div nat \<bar>sint y\<bar>)
      else - of_nat (nat \<bar>sint x\<bar> div nat \<bar>sint y\<bar>))"
proof -
  have "int (nat \<bar>sint x\<bar> div nat \<bar>sint y\<bar>) = \<bar>sint x\<bar> div \<bar>sint y\<bar>"
    by (simp add: zdiv_int)
  then have "(of_nat (nat \<bar>sint x\<bar> div nat \<bar>sint y\<bar>) :: cint) = of_int (\<bar>sint x\<bar> div \<bar>sint y\<bar>)"
    by (metis of_int_of_nat_eq)
  then show ?thesis
    using assms by (cases "sint x = 0"; cases "sint x < 0"; cases "sint y < 0")
      (simp_all add: sdiv_trunc_def)
qed

lemma mod_sign:
  "(of_int (srem_trunc (sint x) (sint y)) :: cint) =
     (if 0 \<le> sint x then of_nat (nat \<bar>sint x\<bar> mod nat \<bar>sint (y :: cint)\<bar>)
      else - of_nat (nat \<bar>sint (x :: cint)\<bar> mod nat \<bar>sint y\<bar>))"
proof -
  have "int (nat \<bar>sint x\<bar> mod nat \<bar>sint y\<bar>) = \<bar>sint x\<bar> mod \<bar>sint y\<bar>"
    by (simp add: zmod_int)
  then have "(of_nat (nat \<bar>sint x\<bar> mod nat \<bar>sint y\<bar>) :: cint) = of_int (\<bar>sint x\<bar> mod \<bar>sint y\<bar>)"
    by (metis of_int_of_nat_eq)
  then show ?thesis
    by (cases "sint x = 0"; cases "sint x < 0") (simp_all add: srem_trunc_def)
qed

lemma divmod_correct:
  assumes "a \<notin> {5, 6, 7, 28, 30}" "b \<notin> {5, 6, 7, 28, 30}" "d \<noteq> 0" "d \<noteq> 30"
  shows "\<exists>t'. xreach (divmod_prog m d a b) 0 t 27 t' \<and> getx t' d = soft_divmod m (getx t a) (getx t b)
     \<and> rmem t' = rmem t \<and> (\<forall>x. x \<notin> {d, 5, 6, 7, 28, 30} \<longrightarrow> getx t' x = getx t x)"
proof -
  let ?x = "getx t a" and ?y = "getx t b"
  obtain t1 where t1: "xreach (divmod_prog m d a b) 0 t 11 t1" "getx t1 5 = 0" "getx t1 6 = 1"
    "getx t1 7 = (?x + signed_drop_bit 31 ?x) XOR signed_drop_bit 31 ?x"
    "getx t1 28 = (?y + signed_drop_bit 31 ?y) XOR signed_drop_bit 31 ?y"
    "getx t1 30 = signed_drop_bit 31 ?x XOR (if m then 0 else signed_drop_bit 31 ?y)"
    "rmem t1 = rmem t" "\<forall>x. x \<notin> {5, 6, 7, 28, 30} \<longrightarrow> getx t1 x = getx t x"
    using divmod_head [OF assms(1,2), of m d t] by blast
  have u: "unat (getx t1 7) = nat \<bar>sint ?x\<bar>" "unat (getx t1 28) = nat \<bar>sint ?y\<bar>"
    unfolding t1(4,5) by (rule unat_abs)+
  have "\<exists>t2. xreach (divmod_prog m d a b) 11 t1 24 t2 \<and> div_frame t1 t2
      \<and> (if getx t1 30 = 0 then getx t2 (if m then 7 else 5) else - getx t2 (if m then 7 else 5))
        = soft_divmod m ?x ?y"
  proof (cases "?y = 0")
    case True
    then have "getx t1 28 = 0"
      using t1(5) by simp
    moreover have "(if getx t1 30 = 0 then getx t1 (if m then 7 else 5) else - getx t1 (if m then 7 else 5))
        = soft_divmod m ?x ?y"
      using True t1(2,4,6) by (auto simp: soft_divmod_def sign_mask not_eq_complement)
    ultimately show ?thesis
      using divmod_by_zero [of t1] div_frame_refl by blast
  next
    case False
    then have y: "sint ?y \<noteq> 0" by (simp add: signed_eq_0_iff)
    have A: "nat \<bar>sint ?x\<bar> \<le> 2 ^ 31"
      using sint_range [of ?x] by simp
    have B: "0 < nat \<bar>sint ?y\<bar>"
      using y by simp
    obtain t2 where t2: "xreach (divmod_prog m d a b) 11 t1 24 t2" "div_frame t1 t2"
      "unat (getx t2 5) = nat \<bar>sint ?x\<bar> div nat \<bar>sint ?y\<bar>"
      "unat (getx t2 7) = nat \<bar>sint ?x\<bar> mod nat \<bar>sint ?y\<bar>"
      using divmod_mid [OF t1(2,3) u A B, of m d a b] by blast
    have "(if getx t1 30 = 0 then getx t2 (if m then 7 else 5) else - getx t2 (if m then 7 else 5))
        = soft_divmod m ?x ?y"
      unfolding t1(6) sign_xor soft_divmod_def
      using t2(3,4) [THEN word_of_unat] False by (cases m) (simp_all add: div_sign [OF y] mod_sign)
    with t2(1,2) show ?thesis by blast
  qed
  then obtain t2 where t2: "xreach (divmod_prog m d a b) 11 t1 24 t2" "div_frame t1 t2"
    "(if getx t1 30 = 0 then getx t2 (if m then 7 else 5) else - getx t2 (if m then 7 else 5))
        = soft_divmod m ?x ?y"
    by blast
  have "getx t2 30 = getx t1 30"
    using t2(2) by (simp add: div_frame_def)
  moreover obtain t3 where "xreach (divmod_prog m d a b) 24 t2 27 t3"
    "getx t3 d = (if getx t2 30 = 0 then getx t2 (if m then 7 else 5) else - getx t2 (if m then 7 else 5))"
    "rmem t3 = rmem t2" "\<forall>x. x \<noteq> d \<longrightarrow> getx t3 x = getx t2 x"
    using divmod_tail [OF assms(3,4)] by blast
  ultimately show ?thesis
    using xreach_trans [OF t1(1) xreach_trans [OF t2(1)]] t2(2,3) t1(7,8) unfolding div_frame_def
    by (intro exI [of _ t3]) auto
qed

section \<open>The emitted words\<close>

lemma emits_cong: "emits_insn e i \<Longrightarrow> i = j \<Longrightarrow> emits_insn e j"
  by simp

lemmas emits_eq = emits_rules [THEN emits_cong]

lemma mul_emits:
  assumes "unat rd < 32" "unat rs1 < 32" "unat rs2 < 32"
  shows "list_all2 emits_insn (rv_mul_seq rd rs1 rs2) (mul_prog (unat rd) (unat rs1) (unat rs2))"
  unfolding rv_mul_seq_def mul_prog_def list_all2_Cons list_all2_Nil simp_thms
  by (intro conjI; rule emits_eq; simp add: assms)

lemma divmod_emits:
  assumes "unat rd < 32" "unat rs1 < 32" "unat rs2 < 32"
  shows "list_all2 emits_insn (rv_divmod_seq m rd rs1 rs2) (divmod_prog m (unat rd) (unat rs1) (unat rs2))"
  unfolding rv_divmod_seq_def divmod_prog_def Let_def list_all2_Cons list_all2_Nil simp_thms
  by (intro conjI; rule emits_eq; simp add: assms)

lemma xreach_writes:
  assumes "emit_words es sz = Some ws" "list_all2 emits_insn es prog" "length prog < 1000"
    and "xreach prog 0 t (length prog) t'" "getx t' d = v" "rmem t' = rmem t"
    and "\<forall>x. x \<notin> {d, 5, 6, 7, 28, 29, 30} \<longrightarrow> getx t' x = getx t x"
  shows "rv_writes ws t d v"
proof -
  have dec: "map rv_decode ws = map Some prog"
    by (rule emit_words_decode [OF assms(2,1)])
  obtain n where "xrun prog n 0 t = Some (length prog, t')"
    using assms(4) unfolding xreach_def by blast
  from xrun_reach [OF this at_start pc_eq_simps(1) assms(3)] obtain T' where
    T': "reach (rpc t) prog t T'" "at_insn (rpc t) (length prog) T'" "pc_eq T' t'"
    by auto
  obtain k where "rv_run k (rpc t) ws t = Some T'"
    using reach_run [OF T'(1) dec assms(3) T'(2)] by blast
  moreover have "rpc T' = rpc t + of_nat (4 * length ws)"
    using T'(2) map_eq_imp_length_eq [OF dec] by (simp add: at_insn_def)
  moreover have "getx T' x = getx t' x" for x
    using pc_eq_getx [OF T'(3)] .
  moreover have "rmem T' = rmem t"
    using T'(3) assms(6) by (simp add: pc_eq_def)
  ultimately show ?thesis
    using assms(5,7) unfolding rv_writes_def by (intro exI [of _ k] exI [of _ T']) simp
qed

lemma soft_writes:
  assumes "op ir \<in> {OP_mul, OP_div, OP_mod}" "\<not> hard_mul_div env" "regs_ok ir"
    and "rv_seq env ir = Some es" "emit_words es sz = Some ws"
  shows "rv_writes ws t (rx (dest ir))
    (let x = getx t (rx (src0 ir)); y = getx t (rx (src1 ir))
     in case op ir of OP_mul \<Rightarrow> x * y | OP_div \<Rightarrow> soft_divmod False x y | _ \<Rightarrow> soft_divmod True x y)"
proof -
  note r = ir_regs(1-3) [OF assms(3)]
  have "unat (dest ir) < 8" "unat (src0 ir) < 8" "unat (src1 ir) < 8"
    using assms(3) by (simp_all add: regs_ok_def)
  note b = this [THEN rx_bounds(1)] this [THEN rx_bounds(2)]
  then have nin: "rx (src0 ir) \<notin> {5, 6, 7, 28, 29, 30}" "rx (src1 ir) \<notin> {5, 6, 7, 28, 29, 30}"
      "rx (dest ir) \<noteq> 0" "rx (dest ir) \<noteq> 30"
    by auto
  from assms(1) consider "op ir = OP_mul" | "op ir = OP_div" | "op ir = OP_mod" by blast
  then show ?thesis
  proof cases
    case 1
    then have es: "es = rv_mul_seq (dest ir + 10) (src0 ir + 10) (src1 ir + 10)"
      using assms(2,4) by (simp add: rv_seq_def rv_seq_alu_def Let_def)
    obtain t' where t': "xreach (mul_prog (rx (dest ir)) (rx (src0 ir)) (rx (src1 ir))) 0 t 13 t'"
      "getx t' (rx (dest ir)) = getx t (rx (src0 ir)) * getx t (rx (src1 ir))" "rmem t' = rmem t"
      "\<forall>x. x \<notin> {rx (dest ir), 5, 6, 28, 29} \<longrightarrow> getx t' x = getx t x"
      using mul_correct [OF nin(3), of "rx (src0 ir)" "rx (src1 ir)" t] nin(1,2) by auto
    have "length (mul_prog (rx (dest ir)) (rx (src0 ir)) (rx (src1 ir))) = 13"
      by (simp add: mul_prog_def)
    then show ?thesis
      using xreach_writes [OF assms(5) [unfolded es] mul_emits [OF r, folded rx_def] _ _ t'(2,3)] t'(1,4) 1
      by simp
  next
    case 2
    then have es: "es = rv_divmod_seq False (dest ir + 10) (src0 ir + 10) (src1 ir + 10)"
      using assms(2,4) by (simp add: rv_seq_def rv_seq_alu_def Let_def)
    obtain t' where t': "xreach (divmod_prog False (rx (dest ir)) (rx (src0 ir)) (rx (src1 ir))) 0 t 27 t'"
      "getx t' (rx (dest ir)) = soft_divmod False (getx t (rx (src0 ir))) (getx t (rx (src1 ir)))"
      "rmem t' = rmem t" "\<forall>x. x \<notin> {rx (dest ir), 5, 6, 7, 28, 30} \<longrightarrow> getx t' x = getx t x"
      using divmod_correct [of "rx (src0 ir)" "rx (src1 ir)" "rx (dest ir)" False t] nin by auto
    have "length (divmod_prog False (rx (dest ir)) (rx (src0 ir)) (rx (src1 ir))) = 27"
      by (simp add: divmod_prog_def)
    then show ?thesis
      using xreach_writes [OF assms(5) [unfolded es] divmod_emits [OF r, folded rx_def] _ _ t'(2,3)]
        t'(1,4) 2
      by simp
  next
    case 3
    then have es: "es = rv_divmod_seq True (dest ir + 10) (src0 ir + 10) (src1 ir + 10)"
      using assms(2,4) by (simp add: rv_seq_def rv_seq_alu_def Let_def)
    obtain t' where t': "xreach (divmod_prog True (rx (dest ir)) (rx (src0 ir)) (rx (src1 ir))) 0 t 27 t'"
      "getx t' (rx (dest ir)) = soft_divmod True (getx t (rx (src0 ir))) (getx t (rx (src1 ir)))"
      "rmem t' = rmem t" "\<forall>x. x \<notin> {rx (dest ir), 5, 6, 7, 28, 30} \<longrightarrow> getx t' x = getx t x"
      using divmod_correct [of "rx (src0 ir)" "rx (src1 ir)" "rx (dest ir)" True t] nin by auto
    have "length (divmod_prog True (rx (dest ir)) (rx (src0 ir)) (rx (src1 ir))) = 27"
      by (simp add: divmod_prog_def)
    then show ?thesis
      using xreach_writes [OF assms(5) [unfolded es] divmod_emits [OF r, folded rx_def] _ _ t'(2,3)]
        t'(1,4) 3
      by simp
  qed
qed

end
