(* ===== verification/RiscvBlock.thy ===== *)
theory RiscvBlock
  imports RiscvSoft
begin

text \<open>
  The code of a basic block: every straight-line instruction, multiplication and division
  included, is simulated by the words emitted for it, and a sequence of them by the
  concatenation of their words.
\<close>

section \<open>One instruction, with or without the M extension\<close>

lemma soft_step:
  assumes "soft_op env (op ir)" "ir_regs_ok ir" "rv_seq env ir = Some es" "emit_words es sz = Some ws"
    and "sim s t" "ph2_step ir s = Some s'"
  shows "rv_sim_step ws t s'"
proof -
  have o: "op ir \<in> {OP_mul, OP_div, OP_mod}" "\<not> hard_mul_div env"
    using assms(1) by (auto simp: soft_op_def)
  from o(1) assms(2) have r: "regs_ok ir"
    by (elim insertE) (simp_all add: ir_regs_ok_def regs_ok_def is_bin_def)
  let ?x = "reg s (src0 ir)" and ?y = "reg s (src1 ir)"
  have xy: "getx t (rx (src0 ir)) = ?x" "getx t (rx (src1 ir)) = ?y"
    using assms(5) r by (simp_all add: sim_def regs_ok_def)
  have "\<not> is_mem (op ir)" "is_bin (op ir)"
    using o(1) by (auto simp: is_mem_def is_bin_def)
  then obtain v where v: "ph2_bin (op ir) ?x ?y = Some v" "s' = set_reg (dest ir) v s"
    using assms(6) unfolding ph2_step_arith [OF \<open>\<not> is_mem (op ir)\<close>] by auto
  have s': "s' = set_reg (dest ir) (case op ir of OP_mul \<Rightarrow> ?x * ?y
      | OP_div \<Rightarrow> soft_divmod False ?x ?y | _ \<Rightarrow> soft_divmod True ?x ?y) s"
    using o(1) v(1) unfolding v(2)
    by (elim insertE; simp add: ph2_bin_def soft_divmod_def split: if_split_asm)
  show ?thesis
    unfolding s'
    by (rule writes_sim [OF soft_writes [OF o r assms(3,4), of t, unfolded xy Let_def] assms(5)])
      (use r in \<open>simp add: regs_ok_def\<close>)
qed

lemma full_ir_step:
  assumes "ir_regs_ok ir" "full_ext ir" "rv_seq env ir = Some es" "emit_words es sz = Some ws"
    and "sim s t" "ph2_step ir s = Some s'"
  shows "rv_sim_step ws t s'"
proof (cases "soft_op env (op ir)")
  case True
  then show ?thesis by (rule soft_step [OF _ assms(1,3-6)])
next
  case False
  then show ?thesis by (rule straight_ir_step [OF assms(1,2) _ assms(3-6)])
qed

text \<open>
  The sizes of a sign extension as \<^verbatim>\<open>promote_unchecked\<close> of the parser encodes them: a \<^verbatim>\<open>char\<close> or \<^verbatim>\<open>bool\<close> to
  a \<^verbatim>\<open>short\<close> or \<^verbatim>\<open>int\<close>, a \<^verbatim>\<open>short\<close> to an \<^verbatim>\<open>int\<close>. The extension of a \<^verbatim>\<open>char\<close> to a \<^verbatim>\<open>short\<close> is compiled to
  a zero extension: \<open>rv_meaning\<close> is the instruction whose meaning the code really has.
\<close>

definition ext_sizes :: "ph2_ir \<Rightarrow> bool" where
  "ext_sizes ir \<longleftrightarrow> (op ir = OP_sign_ext \<longrightarrow> src1 ir \<in> {0x10002, 0x10004, 0x20004})"

definition rv_meaning :: "ph2_ir \<Rightarrow> ph2_ir" where
  "rv_meaning ir =
     (if op ir = OP_sign_ext \<and> src1 ir = 0x10002 then ir\<lparr>op := OP_trunc, src1 := 1\<rparr> else ir)"

lemma narrow_ext_writes:
  assumes "op ir = OP_sign_ext" "src1 ir = 0x10002" "unat (dest ir) < 8" "unat (src0 ir) < 8"
    and "rv_seq env ir = Some es" "emit_words es sz = Some ws"
  shows "rv_writes ws t (rx (dest ir)) (getx t (rx (src0 ir)) AND 0xFF)"
proof -
  let ?d = "rx (dest ir)" and ?a = "rx (src0 ir)"
  let ?p = "[I_alui A_and ?d ?a 0xFF, I_alui A_sll ?d ?d 8, I_alui A_sra ?d ?d 8]"
  have r: "unat (dest ir + 10) < 32" "unat (src0 ir + 10) < 32" "?d \<noteq> 0"
    using rx_32 assms(3,4) rx_bounds(1) [OF assms(3)] by auto
  have es: "es = [now (rvi_andi (dest ir + 10) (src0 ir + 10) 0xFF),
      now (rvi_slli (dest ir + 10) (dest ir + 10) 8), now (rvi_srai (dest ir + 10) (dest ir + 10) 8)]"
    using assms(1,5) by (simp add: rv_seq_def rv_seq_alu_def Let_def assms(2))
  have em: "list_all2 emits_insn es ?p"
    unfolding es using emits_I(3) [OF r(1,2), where imm = "0xFF"] emits_shift [OF r(1,1), where imm = 8]
    by (simp add: rx_def)
  have "signed_drop_bit 8 (push_bit 8 (w AND 0xFF)) = w AND 0xFF" for w :: cint
  proof -
    have m: "w AND 0xFF = take_bit 8 w"
      by (simp add: take_bit_eq_mask mask_numeral)
    show ?thesis
      unfolding m by (rule bit_word_eqI) (auto simp: bit_simps)
  qed
  then obtain t' where t': "exec_seq ?p t = Some t'" "getx t' ?d = getx t ?a AND 0xFF" "rmem t' = rmem t"
    "\<forall>x. x \<noteq> ?d \<longrightarrow> getx t' x = getx t x"
    using r(3) by (simp add: getx_def [of _ 0])
  have "list_all straight ?p" "length ?p < 1000" by simp_all
  from rv_writes_straight [OF assms(6) em this t'(1-3)] t'(4) show ?thesis by simp
qed

lemma ir_step:
  assumes "ir_regs_ok ir" "ext_sizes ir" "rv_seq env ir = Some es" "emit_words es sz = Some ws"
    and "sim s t" "ph2_step (rv_meaning ir) s = Some s'"
  shows "rv_sim_step ws t s'"
proof (cases "op ir = OP_sign_ext \<and> src1 ir = 0x10002")
  case True
  then have r: "unat (dest ir) < 8" "unat (src0 ir) < 8"
    using assms(1) by (auto simp: ir_regs_ok_def is_un_def)
  have "s' = set_reg (dest ir) (reg s (src0 ir) AND 0xFF) s"
    using assms(6) True by (simp add: rv_meaning_def ph2_step_def is_bin_def is_un_def ph2_un_def trunc_val_def)
  moreover have "getx t (rx (src0 ir)) = reg s (src0 ir)"
    using assms(5) r by (simp add: sim_def)
  ultimately show ?thesis
    using writes_sim [OF narrow_ext_writes [OF _ _ r assms(3,4)] assms(5) r(1)] True by simp
next
  case False
  have w: "(0x10004 :: cint) AND 0xFFFF = 4" "(0x20004 :: cint) AND 0xFFFF = 4" by code_simp+
  have "full_ext ir" using False assms(2) by (auto simp: full_ext_def ext_sizes_def w)
  moreover have "rv_meaning ir = ir" using False by (auto simp: rv_meaning_def)
  ultimately show ?thesis
    using full_ir_step [OF assms(1) _ assms(3-5)] assms(6) by simp
qed

section \<open>Sequences\<close>

lemma run_extend:
  assumes "rv_run n base ws1 t = Some t1" "rv_run m base (ws1 @ ws2) t1 = Some t2"
  shows "\<exists>k. rv_run k base (ws1 @ ws2) t = Some t2"
  using assms(1)
proof (induction n arbitrary: t)
  case (Suc n)
  from Suc.prems obtain i where i: "pc_index base (rpc t) = Some i"
    by (auto split: option.split_asm)
  show ?case
  proof (cases "i = length ws1")
    case True
    then have "t = t1"
      using Suc.prems i by simp
    then show ?thesis using assms(2) by blast
  next
    case False
    with Suc.prems i obtain ins u where u: "i < length ws1" "rv_decode (ws1 ! i) = Some ins"
      "rv_exec ins t = Some u" "rv_run n base ws1 u = Some t1"
      by (auto split: if_split_asm option.split_asm)
    from Suc.IH [OF u(4)] obtain k where "rv_run k base (ws1 @ ws2) u = Some t2" by blast
    then have "rv_run (Suc k) base (ws1 @ ws2) t = Some t2"
      using i u by (simp add: nth_append)
    then show ?thesis by blast
  qed
qed simp

lemma pc_index_shift:
  assumes "pc_index (base + of_nat (4 * l)) pc = Some i" "4 * (l + i) < 2 ^ 32"
  shows "pc_index base pc = Some (l + i)"
proof -
  have i: "unat (pc - (base + of_nat (4 * l))) = 4 * i"
    using assms(1) by (auto simp: pc_index_def split: if_split_asm)
  have "pc - base = (pc - (base + of_nat (4 * l))) + of_nat (4 * l)"
    by simp
  also have "\<dots> = of_nat (4 * (l + i))"
    using word_of_unat [OF i] by simp
  finally have "unat (pc - base) = 4 * (l + i)"
    using assms(2) by (simp only: unat_of_nat) simp
  then show ?thesis
    by (simp add: pc_index_def)
qed

lemma run_suffix:
  assumes "rv_run m (base + of_nat (4 * length ws1)) ws2 t = Some t'"
    and "4 * (length ws1 + length ws2) < 2 ^ 32"
  shows "rv_run m base (ws1 @ ws2) t = Some t'"
  using assms(1)
proof (induction m arbitrary: t)
  case (Suc m)
  let ?b = "base + of_nat (4 * length ws1)"
  from Suc.prems obtain i where i: "pc_index ?b (rpc t) = Some i" "i \<le> length ws2"
    by (auto split: option.split_asm if_split_asm)
  have b: "pc_index base (rpc t) = Some (length ws1 + i)"
    using pc_index_shift [OF i(1)] i(2) assms(2) by simp
  show ?case
  proof (cases "i = length ws2")
    case True
    then show ?thesis using Suc.prems i b by simp
  next
    case False
    with Suc.prems i obtain ins u where u: "rv_decode (ws2 ! i) = Some ins"
      "rv_exec ins t = Some u" "rv_run m ?b ws2 u = Some t'"
      by (auto split: if_split_asm option.split_asm)
    then show ?thesis
      using Suc.IH [OF u(3)] b i(2) False by simp
  qed
qed simp

lemma sim_step_append:
  assumes "rv_sim_step ws1 t s1" "\<And>t1. sim s1 t1 \<Longrightarrow> rv_sim_step ws2 t1 s2"
    and "4 * (length ws1 + length ws2) < 2 ^ 32"
  shows "rv_sim_step (ws1 @ ws2) t s2"
proof -
  obtain n t1 where 1: "rv_run n (rpc t) ws1 t = Some t1" "rpc t1 = rpc t + of_nat (4 * length ws1)" "sim s1 t1"
    using assms(1) unfolding rv_sim_step_def by blast
  obtain m t2 where 2: "rv_run m (rpc t1) ws2 t1 = Some t2" "rpc t2 = rpc t1 + of_nat (4 * length ws2)" "sim s2 t2"
    using assms(2) [OF 1(3)] unfolding rv_sim_step_def by blast
  obtain k where "rv_run k (rpc t) (ws1 @ ws2) t = Some t2"
    using run_extend [OF 1(1) run_suffix [OF 2(1) [unfolded 1(2)] assms(3)]] by blast
  moreover have "rpc t2 = rpc t + of_nat (4 * length (ws1 @ ws2))"
    unfolding 2(2) 1(2) by simp
  ultimately show ?thesis
    using 2(3) unfolding rv_sim_step_def by blast
qed

lemma block_step:
  assumes "list_all (\<lambda>ir. ir_regs_ok ir \<and> ext_sizes ir) irs"
    and "emit_list (rv_emit_ph2_ir env) irs code = Some code'" "length code' < 2 ^ 32"
    and "sim s t" "ph2_run (map rv_meaning irs) s = Some s'"
  shows "\<exists>ws. code' = code @ concat (map word_bytes ws) \<and> rv_sim_step ws t s'"
  using assms
proof (induction irs arbitrary: code s t)
  case Nil
  have "rv_run (Suc 0) (rpc t) [] t = Some t"
    by (simp add: pc_index_def)
  then have "rv_sim_step [] t s"
    using Nil.prems(4) unfolding rv_sim_step_def by (intro exI [of _ "Suc 0"] exI [of _ t]) simp
  with Nil.prems show ?case
    by (intro exI [of _ "[]"]) simp
next
  case (Cons ir irs)
  from Cons.prems(2) obtain c1 where c1: "rv_emit_ph2_ir env ir code = Some c1"
    "emit_list (rv_emit_ph2_ir env) irs c1 = Some code'"
    by (auto split: option.split_asm)
  from Cons.prems(5) obtain s1 where s1: "ph2_step (rv_meaning ir) s = Some s1" "ph2_run (map rv_meaning irs) s1 = Some s'"
    by (auto split: option.split_asm)
  from c1(1) obtain es where es: "rv_seq env ir = Some es" "emits es code = Some c1"
    by (auto simp: rv_emit_ph2_ir_def split: option.split_asm)
  from es(2) obtain ws1 where ws1: "emit_words es (code_size code) = Some ws1"
    "c1 = code @ concat (map word_bytes ws1)"
    by (auto simp: emits_eq_words)
  have step1: "rv_sim_step ws1 t s1"
    using Cons.prems(1) by (intro ir_step [OF _ _ es(1) ws1(1) Cons.prems(4) s1(1)]) simp_all
  have ok: "list_all (\<lambda>ir. ir_regs_ok ir \<and> ext_sizes ir) irs"
    using Cons.prems(1) by simp
  have ex: "\<exists>ws2. code' = c1 @ concat (map word_bytes ws2) \<and> rv_sim_step ws2 t1 s'" if "sim s1 t1" for t1
    by (rule Cons.IH [OF ok c1(2) Cons.prems(3) that s1(2)])
  from step1 obtain t1 where "sim s1 t1"
    unfolding rv_sim_step_def by blast
  from ex [OF this] obtain ws2 where ws2: "code' = c1 @ concat (map word_bytes ws2)"
    by blast
  have "rv_sim_step ws2 u s'" if "sim s1 u" for u
    using ex [OF that] ws2 concat_word_bytes_inj by auto
  then have "rv_sim_step (ws1 @ ws2) t s'"
    using Cons.prems(3) ws1(2) ws2 by (intro sim_step_append [OF step1]) simp_all
  then show ?case
    using ws1(2) ws2 by (intro exI [of _ "ws1 @ ws2"]) simp
qed

end
