(* ===== verification/RiscvControl.thy ===== *)
theory RiscvControl
  imports RiscvBlock
begin

text \<open>
  Where control goes: the words emitted for jumps, branches, calls and returns, executed
  at the address they are placed at, transfer control to the block or function they name
  (as the layout placed it), and the prologue and epilogue of a function restore the
  stack pointer and the return address.
\<close>

text \<open>Exactly \<open>n\<close> instructions of \<open>ws\<close>, placed at \<open>base\<close>.\<close>

fun rv_steps :: "nat \<Rightarrow> cint \<Rightarrow> cint list \<Rightarrow> rv_state \<Rightarrow> rv_state option" where
  "rv_steps 0 base ws t = Some t"
| "rv_steps (Suc n) base ws t =
     (case pc_index base (rpc t) of
        None \<Rightarrow> None
      | Some i \<Rightarrow>
          if i < length ws then
            (case rv_decode (ws ! i) of
               None \<Rightarrow> None
             | Some ins \<Rightarrow> (case rv_exec ins t of None \<Rightarrow> None | Some u \<Rightarrow> rv_steps n base ws u))
          else None)"

lemma reach_steps:
  assumes "reach base prog t t'" "map rv_decode ws = map Some prog"
  shows "\<exists>n. rv_steps n base ws t = Some t'"
  using assms(1)
proof (induction rule: converse_rtranclp_induct)
  case base
  have "rv_steps 0 base ws t' = Some t'" by simp
  then show ?case by blast
next
  case (step y z)
  then obtain n where n: "rv_steps n base ws z = Some t'" by blast
  from step(1) obtain i where i: "pc_index base (rpc y) = Some i" "i < length prog"
    "rv_exec (prog ! i) y = Some z"
    by (auto elim: istepE)
  have len: "length ws = length prog"
    using map_eq_imp_length_eq [OF assms(2)] .
  have "rv_decode (ws ! i) = Some (prog ! i)"
    using arg_cong [OF assms(2), of "\<lambda>xs. xs ! i"] i(2) len by simp
  then have "rv_steps (Suc n) base ws y = Some t'"
    using i n len by simp
  then show ?case by blast
qed

text \<open>The words of one instruction lead from \<open>t\<close> to \<open>t'\<close>.\<close>

definition rv_leads :: "cint list \<Rightarrow> rv_state \<Rightarrow> rv_state \<Rightarrow> bool" where
  "rv_leads ws t t' \<longleftrightarrow> (\<exists>n. rv_steps n (rpc t) ws t = Some t')"

lemma leads_reach:
  "emit_words es sz = Some ws \<Longrightarrow> list_all2 emits_insn es prog \<Longrightarrow> reach (rpc t) prog t t' \<Longrightarrow> rv_leads ws t t'"
  unfolding rv_leads_def by (rule reach_steps [OF _ emit_words_decode])

text \<open>A straight-line segment and one more instruction, as sequences.\<close>

lemma reach_seq_then:
  assumes "list_all straight xs" "length xs < 999" "exec_seq xs t = Some t1" "rv_exec i t1 = Some t'"
  shows "reach (rpc t) (xs @ [i]) t t'"
proof -
  have 1: "reach (rpc t) (xs @ [i]) t t1" "at_insn (rpc t) (0 + length xs) t1"
    using reach_seq [OF at_start assms(1), where prog = "xs @ [i]" and t' = t1] assms(2,3) by simp_all
  then have "istep (rpc t) (xs @ [i]) t1 t'"
    using assms(2,4) by (intro istep_at [of _ "length xs"]) simp_all
  with 1(1) show ?thesis by simp
qed

section \<open>Jumps and calls\<close>

text \<open>\<open>ofs\<close> is reached from \<open>sz\<close> by a jump: its range is that of the \<open>jal\<close> instruction.\<close>

definition jal_reach :: "cint \<Rightarrow> cint \<Rightarrow> bool" where
  "jal_reach sz ofs \<longleftrightarrow> - (2 ^ 20) \<le> sint (ofs - sz) \<and> sint (ofs - sz) < 2 ^ 20 \<and> even (sint (ofs - sz))"

lemma jump_lands:
  assumes "op ir = OP_jump" "next_bb ir = Some b" "rv_seq env ir = Some es" "emit_words es sz = Some ws"
    and "jal_reach sz (bb_offset env b)" "rpc t = elf_code_start env + sz"
  shows "rv_leads ws t (t\<lparr>rpc := elf_code_start env + bb_offset env b\<rparr>)"
proof -
  have es: "es = [\<lambda>s. do { e \<leftarrow> bb_ofs env (next_bb ir); rvi_jal x_zero (e - s) }]"
    using assms(1,3) by (simp add: rv_seq_def Let_def)
  have ws: "emit_words [now (rvi_jal x_zero (bb_offset env b - sz))] sz = Some ws"
    using assms(2,4) unfolding es by (simp add: bb_ofs_def)
  have "emits_insn (now (rvi_jal x_zero (bb_offset env b - sz))) (I_jal 0 (bb_offset env b - sz))"
    using emits_jal [of x_zero "bb_offset env b - sz"] assms(5) by (simp add: jal_reach_def)
  moreover have "reach (rpc t) ([] @ [I_jal 0 (bb_offset env b - sz)]) t
      (t\<lparr>rpc := rpc t + (bb_offset env b - sz)\<rparr>)"
    by (intro reach_seq_then [of "[]"]) (simp_all add: setx_def)
  moreover have "rpc t + (bb_offset env b - sz) = elf_code_start env + bb_offset env b"
    using assms(6) by simp
  ultimately show ?thesis
    using leads_reach [OF ws, of "[I_jal 0 (bb_offset env b - sz)]"] by simp
qed

lemma call_lands:
  assumes "op ir = OP_call" "func_entry (find_func env) (func_name ir) = Some b"
    and "rv_seq env ir = Some es" "emit_words es sz = Some ws"
    and "jal_reach sz (bb_offset env b)" "rpc t = elf_code_start env + sz"
  shows "rv_leads ws t ((setx t 1 (rpc t + 4))\<lparr>rpc := elf_code_start env + bb_offset env b\<rparr>)"
proof -
  have es: "es = [\<lambda>s. do { e \<leftarrow> func_ofs env (func_name ir); rvi_jal x_ra (e - s) }]"
    using assms(1,3) by (simp add: rv_seq_def Let_def)
  have ws: "emit_words [now (rvi_jal x_ra (bb_offset env b - sz))] sz = Some ws"
    using assms(2,4) unfolding es by (simp add: func_ofs_def)
  have "emits_insn (now (rvi_jal x_ra (bb_offset env b - sz))) (I_jal 1 (bb_offset env b - sz))"
    using emits_jal [of x_ra "bb_offset env b - sz"] assms(5) by (simp add: jal_reach_def)
  moreover have "reach (rpc t) ([] @ [I_jal 1 (bb_offset env b - sz)]) t
      ((setx t 1 (rpc t + 4))\<lparr>rpc := rpc t + (bb_offset env b - sz)\<rparr>)"
    by (intro reach_seq_then [of "[]"]) simp_all
  moreover have "rpc t + (bb_offset env b - sz) = elf_code_start env + bb_offset env b"
    using assms(6) by simp
  ultimately show ?thesis
    using leads_reach [OF ws, of "[I_jal 1 (bb_offset env b - sz)]"] by simp
qed

lemma even_and_not_1: "(v :: cint) AND 1 = 0 \<Longrightarrow> v AND NOT 1 = v"
proof (rule bit_word_eqI)
  fix n
  assume "v AND 1 = 0" "n < LENGTH(32)"
  then show "bit (v AND NOT 1) n = bit v n"
    by (auto simp: bit_simps and_one_eq even_iff_mod_2_eq_zero [symmetric] bit_0)
qed

section \<open>Branches\<close>

lemma emit_words_last:
  "e (sz + of_nat (4 * length es)) = e' (sz + of_nat (4 * length es))
   \<Longrightarrow> emit_words (es @ [e]) sz = emit_words (es @ [e']) sz"
proof (induction es arbitrary: sz)
  case (Cons a es)
  have "e ((sz + 4) + of_nat (4 * length es)) = e' ((sz + 4) + of_nat (4 * length es))"
    using Cons.prems by (simp add: algebra_simps)
  from Cons.IH [OF this] show ?case
    by (simp split: option.split)
qed simp

definition branch_prog :: "nat \<Rightarrow> cint \<Rightarrow> cint \<Rightarrow> rv_insn list" where
  "branch_prog a target d = li_prog 5 target @ [I_branch C_eq a 0 8, I_jalr 0 5 0, I_jal 0 d]"

lemma branch_nth:
  "branch_prog a v d ! 2 = I_branch C_eq a 0 8" "branch_prog a v d ! 3 = I_jalr 0 5 0"
  "branch_prog a v d ! 4 = I_jal 0 d" "length (branch_prog a v d) = 5"
  "take 2 (branch_prog a v d) = li_prog 5 v"
  by (simp_all add: branch_prog_def li_prog_def)

lemma branch_reach:
  assumes "a \<noteq> 5" "v AND 1 = 0"
  shows "\<exists>t'. reach (rpc t) (branch_prog a v d) t t' \<and> rmem t' = rmem t
    \<and> (\<forall>x. x \<noteq> 5 \<longrightarrow> getx t' x = getx t x)
    \<and> rpc t' = (if getx t a \<noteq> 0 then v else rpc t + 16 + d)"
proof -
  let ?p = "branch_prog a v d"
  obtain t1 where t1: "exec_seq (li_prog 5 v) t = Some t1" "getx t1 5 = v" "rmem t1 = rmem t"
    "\<forall>x. x \<noteq> 5 \<longrightarrow> getx t1 x = getx t x" "rpc t1 = rpc t + 8"
    by (simp add: li_exec)
  have r1: "reach (rpc t) ?p t t1" "at_insn (rpc t) 2 t1"
    using reach_seq [OF at_start _ _ _ t1(1), where prog = ?p]
    by (simp_all add: branch_prog_def li_prog_def numeral_2_eq_2)
  show ?thesis
  proof (cases "getx t a = 0")
    case True
    let ?t2 = "t1\<lparr>rpc := rpc t1 + 8\<rparr>"
    have "reach (rpc t) ?p t1 ?t2"
      using reach_branch [OF r1(2), of ?p C_eq a 0 8] True t1(4) assms(1) branch_nth(1,4) by simp
    moreover have a2: "at_insn (rpc t) 4 ?t2"
      by (rule at_branch [OF r1(2), of _ 2]) simp_all
    then have "istep (rpc t) ?p ?t2 (?t2\<lparr>rpc := rpc ?t2 + d\<rparr>)"
      using branch_nth(3,4) by (intro istep_at [OF a2]) (simp_all add: setx_def)
    ultimately have "reach (rpc t) ?p t (?t2\<lparr>rpc := rpc ?t2 + d\<rparr>)"
      using r1(1) by (meson rtranclp.rtrancl_into_rtrancl rtranclp_trans)
    then show ?thesis
      using True t1(3-5) by (intro exI [of _ "?t2\<lparr>rpc := rpc ?t2 + d\<rparr>"]) simp
  next
    case False
    have "reach (rpc t) ?p t1 (nextpc t1)"
      using reach_branch [OF r1(2), of ?p C_eq a 0 8] False t1(4) assms(1) branch_nth(1,4) by simp
    moreover have a2: "at_insn (rpc t) 3 (nextpc t1)"
      using at_nextpc [OF r1(2)] by simp
    have "v AND NOT 1 = v"
      using assms(2) by (rule even_and_not_1)
    then have "istep (rpc t) ?p (nextpc t1) (t1\<lparr>rpc := v\<rparr>)"
      using branch_nth(2,4) t1(2) by (intro istep_at [OF a2]) (simp_all add: setx_def nextpc_def)
    ultimately have "reach (rpc t) ?p t (t1\<lparr>rpc := v\<rparr>)"
      using r1(1) by (meson rtranclp.rtrancl_into_rtrancl rtranclp_trans)
    then show ?thesis
      using False t1(3-5) by (intro exI [of _ "t1\<lparr>rpc := v\<rparr>"]) simp
  qed
qed

lemma branch_lands:
  assumes "op ir = OP_branch" "then_bb ir = Some b1" "else_bb ir = Some b2" "unat (src0 ir) < 8"
    and "rv_seq env ir = Some es" "emit_words es sz = Some ws"
    and "jal_reach (sz + 16) (bb_offset env b2)" "rpc t = elf_code_start env + sz"
    and "(elf_code_start env + bb_offset env b1) AND 1 = 0"
  shows "\<exists>t'. rv_leads ws t t' \<and> rmem t' = rmem t \<and> (\<forall>x. x \<noteq> 5 \<longrightarrow> getx t' x = getx t x)
    \<and> rpc t' = elf_code_start env + bb_offset env (if getx t (rx (src0 ir)) \<noteq> 0 then b1 else b2)"
proof -
  let ?v = "elf_code_start env + bb_offset env b1" and ?d = "bb_offset env b2 - (sz + 16)"
  let ?es = "rv_li x_t0 ?v @ [now (rvi_beq (src0 ir + 10) x_zero 8), now (rvi_jalr x_zero x_t0 0),
      now (rvi_jal x_zero ?d)]"
  have es: "es = rv_li x_t0 ?v @ [now (rvi_beq (src0 ir + 10) x_zero 8), now (rvi_jalr x_zero x_t0 0),
      (\<lambda>s. do { e \<leftarrow> bb_ofs env (else_bb ir); rvi_jal x_zero (e - s) })]"
    using assms(1,2,5) by (simp add: rv_seq_def Let_def bb_ofs_def)
  have ws: "emit_words ?es sz = Some ws"
    using assms(3,6) emit_words_last [of "\<lambda>s. do { e \<leftarrow> bb_ofs env (else_bb ir); rvi_jal x_zero (e - s) }" sz
        "rv_li x_t0 ?v @ [now (rvi_beq (src0 ir + 10) x_zero 8), now (rvi_jalr x_zero x_t0 0)]"
        "now (rvi_jal x_zero ?d)"]
    unfolding es by (simp add: bb_ofs_def rv_li_def)
  have a: "unat (src0 ir + 10) < 32" "rx (src0 ir) \<noteq> 5"
    using rx_32 [OF assms(4)] rx_bounds(1) [OF assms(4)] by auto
  have "emits_insn (now (rvi_beq (src0 ir + 10) x_zero 8)) (I_branch C_eq (rx (src0 ir)) 0 8)"
    using emits_branch(1) [of "src0 ir + 10" x_zero 8] a by (simp add: rx_def)
  moreover have "emits_insn (now (rvi_jal x_zero ?d)) (I_jal 0 ?d)"
    using emits_jal [of x_zero ?d] assms(7) by (simp add: jal_reach_def)
  moreover have "emits_insn (now (rvi_jalr x_zero x_t0 0)) (I_jalr 0 5 0)"
    using emits_I(10) [of x_zero x_t0 0] by simp
  ultimately have "list_all2 emits_insn ?es (branch_prog (rx (src0 ir)) ?v ?d)"
    unfolding branch_prog_def using t0_emits [of ?v] by (intro list_all2_appendI) simp_all
  moreover obtain t' where t': "reach (rpc t) (branch_prog (rx (src0 ir)) ?v ?d) t t'" "rmem t' = rmem t"
    "\<forall>x. x \<noteq> 5 \<longrightarrow> getx t' x = getx t x"
    "rpc t' = (if getx t (rx (src0 ir)) \<noteq> 0 then ?v else rpc t + 16 + ?d)"
    using branch_reach [OF a(2) assms(9), of t ?d] by blast
  moreover have "rpc t + 16 + ?d = elf_code_start env + bb_offset env b2"
    using assms(8) by simp
  ultimately show ?thesis
    using leads_reach [OF ws] by (intro exI [of _ t']) auto
qed

section \<open>Function prologue and epilogue\<close>

definition define_prog :: "cint \<Rightarrow> rv_insn list" where
  "define_prog k = I_store 4 1 2 (-4) # li_prog 5 k @ [I_alu A_sub 2 2 5]"

lemma define_lands:
  assumes "op ir = OP_define" "rv_seq env ir = Some es" "emit_words es sz = Some ws"
  shows "\<exists>t'. rv_leads ws t t' \<and> rpc t' = rpc t + of_nat (4 * length ws)
    \<and> getx t' 2 = getx t 2 - (src0 ir + 4)
    \<and> rmem t' = store_val (rmem t) 4 (getx t 2 - 4) (getx t 1)
    \<and> (\<forall>x. x \<noteq> 2 \<and> x \<noteq> 5 \<longrightarrow> getx t' x = getx t x)"
proof -
  let ?p = "define_prog (src0 ir + 4)"
  have es: "es = now (rvi_sw x_ra x_sp (-4)) # rv_li x_t0 (src0 ir + 4) @ [word (rvi_sub x_sp x_sp x_t0)]"
    using assms(1,2) by (simp add: rv_seq_def Let_def)
  have "emits_insn (now (rvi_sw x_ra x_sp (-4))) (I_store 4 1 2 (-4))"
    using emits_I(9) [of x_ra x_sp "-4"] by simp
  moreover have "emits_insn (word (rvi_sub x_sp x_sp x_t0)) (I_alu A_sub 2 2 5)"
    using emits_R(2) [of x_sp x_sp x_t0] by simp
  ultimately have em: "list_all2 emits_insn es ?p"
    unfolding es define_prog_def using t0_emits [of "src0 ir + 4"]
    by (intro list_all2_appendI list_all2_Cons [THEN iffD2] conjI) simp_all
  have st: "list_all straight ?p" "length ?p = 4"
    by (simp_all add: define_prog_def li_prog_def)
  obtain t' where t': "exec_seq ?p t = Some t'" "getx t' 2 = getx t 2 - (src0 ir + 4)"
    "rmem t' = store_val (rmem t) 4 (getx t 2 - 4) (getx t 1)"
    "\<forall>x. x \<noteq> 2 \<and> x \<noteq> 5 \<longrightarrow> getx t' x = getx t x"
    by (simp add: define_prog_def exec_seq_append li_exec)
  have "length ws = 4"
    using em emit_words_length [OF assms(3)] st(2) by (simp add: list_all2_lengthD)
  moreover have "reach (rpc t) ?p t t'" "at_insn (rpc t) (0 + length ?p) t'"
    using reach_seq [OF at_start st(1) _ _ t'(1), where prog = ?p] st(2) by simp_all
  ultimately show ?thesis
    using leads_reach [OF assms(3) em] t'(2-4) st(2) by (intro exI [of _ t']) (simp add: at_insn_def)
qed

definition return_prog :: "cint \<Rightarrow> cint \<Rightarrow> rv_insn list" where
  "return_prog r k =
     (if r = -1 then I_alui A_add 0 0 0 else I_alui A_add 10 (rx r) 0)
       # li_prog 5 k @ [I_alu A_add 2 2 5, I_load 4 True 1 2 (-4)]"

lemma return_lands:
  assumes "op ir = OP_return" "src0 ir = -1 \<or> unat (src0 ir) < 8"
    and "rv_seq env ir = Some es" "emit_words es sz = Some ws"
  shows "\<exists>t'. rv_leads ws t t' \<and> getx t' 2 = getx t 2 + (src1 ir + 4)
    \<and> getx t' 1 = load_val (rmem t) 4 True (getx t 2 + src1 ir) \<and> rpc t' = getx t' 1 AND NOT 1
    \<and> getx t' 10 = (if src0 ir = -1 then getx t 10 else getx t (rx (src0 ir)))
    \<and> rmem t' = rmem t \<and> (\<forall>x. x \<notin> {1, 2, 5, 10} \<longrightarrow> getx t' x = getx t x)"
proof -
  let ?p = "return_prog (src0 ir) (src1 ir + 4)"
  let ?mv = "now (if src0 ir = -1 then rvi_addi x_zero x_zero 0 else rvi_addi x_a0 (src0 ir + 10) 0)"
  have es: "es = (?mv # rv_li x_t0 (src1 ir + 4) @ [word (rvi_add x_sp x_sp x_t0), now (rvi_lw x_ra x_sp (-4))])
      @ [now (rvi_jalr x_zero x_ra 0)]"
    using assms(1,3) by (simp add: rv_seq_def Let_def)
  have "emits_insn ?mv (if src0 ir = -1 then I_alui A_add 0 0 0 else I_alui A_add 10 (rx (src0 ir)) 0)"
    using assms(2) emits_I(1) [of x_zero x_zero 0] emits_I(1) [of x_a0 "src0 ir + 10" 0] rx_32 [of "src0 ir"]
    by (auto simp: rx_def)
  moreover have "emits_insn (word (rvi_add x_sp x_sp x_t0)) (I_alu A_add 2 2 5)"
    using emits_R(1) [of x_sp x_sp x_t0] by simp
  moreover have "emits_insn (now (rvi_lw x_ra x_sp (-4))) (I_load 4 True 1 2 (-4))"
    using emits_I(6) [of x_ra x_sp "-4"] by simp
  moreover have "emits_insn (now (rvi_jalr x_zero x_ra 0)) (I_jalr 0 1 0)"
    using emits_I(10) [of x_zero x_ra 0] by simp
  ultimately have em: "list_all2 emits_insn es (?p @ [I_jalr 0 1 0])"
    unfolding es return_prog_def using t0_emits [of "src1 ir + 4"]
    by (intro list_all2_appendI list_all2_Cons [THEN iffD2] conjI) simp_all
  have st: "list_all straight ?p" "length ?p = 5"
    by (simp_all add: return_prog_def li_prog_def)
  have r: "rx (src0 ir) \<noteq> 5" if "src0 ir \<noteq> -1"
    using that assms(2) rx_bounds(1) by fastforce
  obtain t1 where t1: "exec_seq ?p t = Some t1" "getx t1 2 = getx t 2 + (src1 ir + 4)"
    "getx t1 1 = load_val (rmem t) 4 True (getx t 2 + src1 ir)"
    "getx t1 10 = (if src0 ir = -1 then getx t 10 else getx t (rx (src0 ir)))" "rmem t1 = rmem t"
    "\<forall>x. x \<notin> {1, 2, 5, 10} \<longrightarrow> getx t1 x = getx t x"
    by (cases "src0 ir = -1") (simp_all add: return_prog_def exec_seq_append li_exec)
  let ?t' = "t1\<lparr>rpc := getx t1 1 AND NOT 1\<rparr>"
  have "reach (rpc t) (?p @ [I_jalr 0 1 0]) t ?t'"
    using st by (intro reach_seq_then [OF st(1) _ t1(1)]) (simp_all add: setx_def)
  then show ?thesis
    using leads_reach [OF assms(4) em] t1(2-6) by (intro exI [of _ ?t']) simp
qed

text \<open>
  A call of a function whose body keeps the stack pointer and the word the prologue saved
  returns to the caller with the caller's stack pointer.
\<close>

lemma frame_restored:
  assumes "rv_seq env (define_ir f) = Some es1" "emit_words es1 sz1 = Some ws1"
    and "op ir = OP_return" "src0 ir = -1 \<or> unat (src0 ir) < 8"
    and "rv_seq env (rv_flat_insn (stack_size f) ir) = Some es2" "emit_words es2 sz2 = Some ws2"
    and "getx t 1 AND 1 = 0"
  obtains t1 where "rv_leads ws1 t t1" "rpc t1 = rpc t + of_nat (4 * length ws1)"
    "\<And>t2. getx t2 2 = getx t1 2 \<Longrightarrow>
       load_val (rmem t2) 4 True (getx t 2 - 4) = load_val (rmem t1) 4 True (getx t 2 - 4) \<Longrightarrow>
       \<exists>t3. rv_leads ws2 t2 t3 \<and> rpc t3 = getx t 1 \<and> getx t3 2 = getx t 2"
proof -
  obtain t1 where t1: "rv_leads ws1 t t1" "rpc t1 = rpc t + of_nat (4 * length ws1)"
    "getx t1 2 = getx t 2 - (stack_size f + 4)"
    "rmem t1 = store_val (rmem t) 4 (getx t 2 - 4) (getx t 1)"
    using define_lands [OF _ assms(1,2), of t] by (auto simp: define_ir_def new_ph2_ir_def)
  let ?ir = "rv_flat_insn (stack_size f) ir"
  have ir: "op ?ir = OP_return" "src0 ?ir = src0 ir" "src1 ?ir = stack_size f"
    using assms(3) by (simp_all add: rv_flat_insn_def)
  show thesis
  proof (rule that [OF t1(1,2)])
    fix t2
    assume t2: "getx t2 2 = getx t1 2"
      "load_val (rmem t2) 4 True (getx t 2 - 4) = load_val (rmem t1) 4 True (getx t 2 - 4)"
    obtain t3 where t3: "rv_leads ws2 t2 t3" "getx t3 2 = getx t2 2 + (src1 ?ir + 4)"
      "getx t3 1 = load_val (rmem t2) 4 True (getx t2 2 + src1 ?ir)" "rpc t3 = getx t3 1 AND NOT 1"
      using return_lands [OF ir(1) _ assms(5,6), of t2] assms(4) ir(2) by auto
    have "getx t2 2 + src1 ?ir = getx t 2 - 4"
      using t2(1) t1(3) ir(3) by simp
    then have "getx t3 1 = getx t 1"
      using t3(3) t2(2) t1(4) by (simp add: load_store_same)
    then show "\<exists>t3. rv_leads ws2 t2 t3 \<and> rpc t3 = getx t 1 \<and> getx t3 2 = getx t 2"
      using t3 t2(1) t1(3) ir(3) even_and_not_1 [OF assms(7)] by (intro exI [of _ t3]) simp
  qed
qed

end
