(* ===== verification/Samples.thy ===== *)
theory Samples
  imports Layout
begin

text \<open>
  Concrete data on which the properties are instantiated: code generator globals, an
  instruction from its operands, and a program of one function with two blocks, the second
  of which is \<open>return r0\<close>.
\<close>

definition env0 :: cg_env where
  "env0 = \<lparr>hard_mul_div = False, dynlink = False, find_func = (\<lambda>_. None),
     bb_offset = (\<lambda>b. if b = 3 then 0x200000 else if b = 7 then 28 else 64), elf_code_start = 0x10054, elf_data_start = 0x20000,
     elf_rodata_start = 0x30000, elf_plt_start = 0, elf_got_start = 0, plt_size = 0\<rparr>"

definition ir3 :: "opcode \<Rightarrow> cint \<Rightarrow> cint \<Rightarrow> cint \<Rightarrow> ph2_ir" where
  "ir3 oc d a b = (new_ph2_ir oc)\<lparr>dest := d, src0 := a, src1 := b\<rparr>"

definition main0 :: func where
  "main0 = \<lparr>fname = ''main'', stack_size = 16,
     bbs = [\<lparr>bb_id = 1, ph2_ir_list = [ir3 OP_load_constant 0 100000 0, (ir3 OP_jump 0 0 0)\<lparr>next_bb := Some 2\<rparr>]\<rparr>,
            \<lparr>bb_id = 2, ph2_ir_list = [ir3 OP_return 0 0 0]\<rparr>], plt_offset = 0\<rparr>"

definition prog0 :: cg_prog where
  "prog0 = \<lparr>global_bb = \<lparr>bb_id = 0, ph2_ir_list = [ir3 OP_load_constant 0 1 0]\<rparr>, global_stack_size = 8,
     func_list = [main0], main_bb = Some 1\<rparr>"

definition env_l :: cg_env where
  "env_l = env0\<lparr>find_func := (\<lambda>n. if n = ''__syscall''
     then Some \<lparr>fname = ''__syscall'', stack_size = 0, bbs = [\<lparr>bb_id = 9, ph2_ir_list = []\<rparr>], plt_offset = 0\<rparr>
     else None)\<rparr>"

end
