(* ===== verification/RiscvProps.thy ===== *)
theory RiscvProps
  imports RiscvControl Samples
begin

text \<open>
  The properties of the RISC-V back end: the code of straight-line blocks, the software
  division, control transfers, function frames and the encoding of jump offsets, each with
  a concrete instance where it needs one.
\<close>

section \<open>Concrete data for the instances\<close>

text \<open>\<open>r0 = 100000; r1 = 7; r2 = r0 / r1; *(sp + 8) = r2; r3 = (int) (char) r0\<close>\<close>

definition block0 :: "ph2_ir list" where
  "block0 = [ir3 OP_load_constant 0 100000 0, ir3 OP_load_constant 1 7 0, ir3 OP_div 2 0 1,
     ir3 OP_store 0 2 8, ir3 OP_sign_ext 3 0 0x10004]"

definition s0 :: ph2_state where
  "s0 = \<lparr>reg = (\<lambda>_. 0), spv = 0, gpv = 0, pmem = (\<lambda>_. 0)\<rparr>"

definition t0 :: rv_state where
  "t0 = \<lparr>xreg = (\<lambda>_. 0), rmem = (\<lambda>_. 0), rpc = 0x10054\<rparr>"

lemma sim0: "sim s0 t0"
  by (simp add: sim_def s0_def t0_def getx_def)

section \<open>Blocks\<close>

text \<open>
  C1. Correctness of the generated RISC-V code. The words emitted for a sequence of
  straight-line instructions (constants, addresses, loads and stores near and far, all
  arithmetic, comparisons, truncation and the extensions the parser makes; multiplication,
  division and remainder with the M extension or in software), run on the machine from a state
  that represents the IR state, end just after the last word in a state that represents the
  IR's final state. In particular the software loops terminate. There is one exception, which
  the final state takes into account (\<open>rv_meaning\<close>): the extension of a \<^verbatim>\<open>char\<close> to a \<^verbatim>\<open>short\<close> is
  compiled to a zero extension.
\<close>

theorem rv_block_correct:
  assumes "list_all (\<lambda>ir. ir_regs_ok ir \<and> ext_sizes ir) irs"
    and "emit_list (rv_emit_ph2_ir env) irs code = Some code'" "length code' < 2 ^ 32"
    and "sim s t" "ph2_run (map rv_meaning irs) s = Some s'"
  shows "\<exists>ws n t'. code' = code @ concat (map word_bytes ws) \<and> rv_run n (rpc t) ws t = Some t'
    \<and> rpc t' = rpc t + of_nat (4 * length ws) \<and> sim s' t'"
  using block_step [OF assms] unfolding rv_sim_step_def by blast

lemma block0_emits: "map_option length (emit_list (rv_emit_ph2_ir env0) block0 []) = Some 136"
  by code_simp

lemma block0_runs: "map_option (\<lambda>s. reg s 2) (ph2_run (map rv_meaning block0) s0) = Some 14285"
  by code_simp

lemma rv_block_correct_witness:
  "\<exists>ws n t'. rv_run n 0x10054 ws t0 = Some t' \<and> rpc t' = 0x10054 + of_nat (4 * length ws)
     \<and> getx t' 12 = 14285"
proof -
  obtain code' where c: "emit_list (rv_emit_ph2_ir env0) block0 [] = Some code'" "length code' = 136"
    using block0_emits by auto
  obtain s' where s': "ph2_run (map rv_meaning block0) s0 = Some s'" "reg s' 2 = 14285"
    using block0_runs by auto
  have ok: "list_all (\<lambda>ir. ir_regs_ok ir \<and> ext_sizes ir) block0"
    by code_simp
  have "length code' < 2 ^ 32"
    using c(2) by simp
  from rv_block_correct [OF ok c(1) this sim0 s'(1)] obtain ws n t' where
    r: "rv_run n (rpc t0) ws t0 = Some t'" "rpc t' = rpc t0 + of_nat (4 * length ws)" "sim s' t'"
    by blast
  have "reg s' 2 = getx t' (rx 2)"
    using r(3) by (simp add: sim_def)
  then have "getx t' 12 = 14285"
    using s'(2) by (simp add: rx_def)
  with r(1,2) show ?thesis
    unfolding t0_def rv_state.select_convs by blast
qed

section \<open>Software division\<close>

text \<open>
  C30. Division and remainder without the M extension. The 27 emitted words terminate for
  every dividend and divisor and leave the truncated quotient or the remainder with the
  sign of the dividend, the wrap-around of the most negative number included; a zero
  divisor gives quotient 0 and the dividend as remainder. Only the destination and scratch
  registers change.
\<close>

theorem rv_soft_divmod_correct:
  assumes "op ir = OP_div \<or> op ir = OP_mod" "\<not> hard_mul_div env" "regs_ok ir"
    and "rv_seq env ir = Some es" "emit_words es sz = Some ws"
  shows "\<exists>n t'. rv_run n (rpc t) ws t = Some t' \<and> rpc t' = rpc t + of_nat (4 * length ws)
    \<and> getx t' (rx (dest ir)) = soft_divmod (op ir = OP_mod) (getx t (rx (src0 ir))) (getx t (rx (src1 ir)))
    \<and> rmem t' = rmem t
    \<and> (\<forall>x. x \<noteq> rx (dest ir) \<and> x \<notin> {5, 6, 7, 28, 29, 30} \<longrightarrow> getx t' x = getx t x)"
proof -
  have "rv_writes ws t (rx (dest ir))
      (soft_divmod (op ir = OP_mod) (getx t (rx (src0 ir))) (getx t (rx (src1 ir))))"
    using soft_writes [of ir env es sz ws t] assms by auto
  then show ?thesis
    by (simp only: rv_writes_def)
qed

lemma rv_soft_divmod_correct_witness:
  "\<exists>ws n t'. rv_run n 0x10054 ws (setx (setx t0 10 (-7)) 11 2) = Some t' \<and> getx t' 12 = -3"
proof -
  let ?ir = "ir3 OP_div 2 0 1" and ?t = "setx (setx t0 10 (-7)) 11 2"
  have ir: "op ?ir = OP_div \<or> op ?ir = OP_mod" "regs_ok ?ir" "\<not> hard_mul_div env0"
    by code_simp+
  have "map_option (\<lambda>es. map_option length (emit_words es 0)) (rv_seq env0 ?ir) = Some (Some 27)"
    by code_simp
  then obtain es ws where es: "rv_seq env0 ?ir = Some es" "emit_words es 0 = Some ws"
    by auto
  have v: "soft_divmod False (-7) 2 = -3"
    by code_simp
  have "rpc ?t = 0x10054" "getx ?t 10 = -7" "getx ?t 11 = 2" "rx (dest ?ir) = 12" "rx (src0 ?ir) = 10"
    "rx (src1 ?ir) = 11" "(op ?ir = OP_mod) = False"
    by (simp_all add: t0_def rx_def ir3_def new_ph2_ir_def)
  note t = this
  from rv_soft_divmod_correct [OF ir(1,3,2) es, of ?t] show ?thesis
    unfolding t v by blast
qed

text \<open>
  A sign extension of a \<open>char\<close> to a \<open>short\<close> (source size 1, target size 2) is
  compiled to a zero extension: the register ends up holding the low byte as an unsigned
  number, whatever its sign bit.
\<close>

theorem rv_sign_ext_short_zero_extends:
  assumes "op ir = OP_sign_ext" "src1 ir = 0x10002" "unat (dest ir) < 8" "unat (src0 ir) < 8"
    and "rv_seq env ir = Some es" "emit_words es sz = Some ws"
  shows "\<exists>n t'. rv_run n (rpc t) ws t = Some t' \<and> getx t' (rx (dest ir)) = getx t (rx (src0 ir)) AND 0xFF"
  using narrow_ext_writes [OF assms, of t] unfolding rv_writes_def by blast

lemma rv_sign_ext_short_zero_extends_witness:
  "\<exists>ws n t'. rv_run n 0x10054 ws (setx t0 10 (-1)) = Some t' \<and> getx t' 11 = 255
     \<and> sign_ext_val 0x10002 (-1) = Some (-1)"
proof -
  let ?ir = "ir3 OP_sign_ext 1 0 0x10002" and ?t = "setx t0 10 (-1)"
  have ir: "op ?ir = OP_sign_ext" "src1 ?ir = 0x10002" "unat (dest ?ir) < 8" "unat (src0 ?ir) < 8"
    by code_simp+
  have "map_option (\<lambda>es. map_option length (emit_words es 0)) (rv_seq env0 ?ir) = Some (Some 3)"
    by code_simp
  then obtain es ws where es: "rv_seq env0 ?ir = Some es" "emit_words es 0 = Some ws"
    by auto
  have v: "sign_ext_val 0x10002 (-1) = Some (-1)" "(-1 :: cint) AND 0xFF = 255"
    by code_simp+
  have "rpc ?t = 0x10054" "getx ?t 10 = -1" "rx (dest ?ir) = 11" "rx (src0 ?ir) = 10"
    by (simp_all add: t0_def rx_def ir3_def new_ph2_ir_def)
  note t = this
  from rv_sign_ext_short_zero_extends [OF ir es, of ?t] v(1) show ?thesis
    unfolding t v(2) by blast
qed

section \<open>Control\<close>

text \<open>
  C32. Branches. The five words of a conditional branch, executed where they are placed in
  the text section, continue at the address of the then-block when the tested register is
  not zero and at the address of the else-block when it is, with memory and every register
  but \<open>t0\<close> unchanged. The else-block must be in range of a \<open>jal\<close>; the then-block may
  be anywhere.
\<close>

theorem rv_branch_correct:
  assumes "op ir = OP_branch" "then_bb ir = Some b1" "else_bb ir = Some b2" "unat (src0 ir) < 8"
    and "rv_seq env ir = Some es" "emit_words es sz = Some ws"
    and "jal_reach (sz + 16) (bb_offset env b2)" "rpc t = elf_code_start env + sz"
    and "(elf_code_start env + bb_offset env b1) AND 1 = 0"
  shows "\<exists>n t'. rv_steps n (rpc t) ws t = Some t' \<and> rmem t' = rmem t
    \<and> (\<forall>x. x \<noteq> 5 \<longrightarrow> getx t' x = getx t x)
    \<and> rpc t' = elf_code_start env + bb_offset env (if getx t (rx (src0 ir)) \<noteq> 0 then b1 else b2)"
  using branch_lands [OF assms] unfolding rv_leads_def by blast

lemma rv_branch_correct_witness:
  "\<exists>n ws t'. rv_steps n 0x10054 ws (setx t0 10 1) = Some t' \<and> rpc t' = 0x10054 + 0x200000"
proof -
  let ?ir = "(ir3 OP_branch 0 0 0)\<lparr>then_bb := Some 3, else_bb := Some 9\<rparr>" and ?t = "setx t0 10 1"
  have ir: "op ?ir = OP_branch" "then_bb ?ir = Some 3" "else_bb ?ir = Some 9" "unat (src0 ?ir) < 8"
    "(elf_code_start env0 + bb_offset env0 3) AND 1 = 0" "jal_reach (0 + 16) (bb_offset env0 9)"
    by code_simp+
  have "map_option (\<lambda>es. map_option length (emit_words es 0)) (rv_seq env0 ?ir) = Some (Some 5)"
    by code_simp
  then obtain es ws where es: "rv_seq env0 ?ir = Some es" "emit_words es 0 = Some ws"
    by auto
  have t: "rpc ?t = elf_code_start env0 + 0" "getx ?t (rx (src0 ?ir)) = 1" "rpc ?t = 0x10054"
    by (simp_all add: t0_def env0_def rx_def ir3_def new_ph2_ir_def)
  have "elf_code_start env0 + bb_offset env0 3 = 0x10054 + 0x200000"
    by (simp add: env0_def)
  note v = this
  have nz: "(1 :: cint) \<noteq> 0" by simp
  from rv_branch_correct [OF ir(1-4) es ir(6) t(1) ir(5)] show ?thesis
    unfolding t(2,3) if_P [OF nz] v by blast
qed

text \<open>
  C33. Calls. The word of a call of a function with a body, executed where it is placed,
  transfers control to the function's entry block and leaves the address of the next word
  in \<open>ra\<close>; nothing else changes.
\<close>

theorem rv_call_correct:
  assumes "op ir = OP_call" "func_entry (find_func env) (func_name ir) = Some b"
    and "rv_seq env ir = Some es" "emit_words es sz = Some ws"
    and "jal_reach sz (bb_offset env b)" "rpc t = elf_code_start env + sz"
  shows "\<exists>n. rv_steps n (rpc t) ws t
    = Some ((setx t 1 (rpc t + 4))\<lparr>rpc := elf_code_start env + bb_offset env b\<rparr>)"
  using call_lands [OF assms] unfolding rv_leads_def .

definition env_f :: cg_env where
  "env_f = env0\<lparr>find_func := (\<lambda>n. if n = ''f''
     then Some \<lparr>fname = ''f'', stack_size = 16, bbs = [\<lparr>bb_id = 7, ph2_ir_list = []\<rparr>], plt_offset = 0\<rparr>
     else None)\<rparr>"

lemma rv_call_correct_witness:
  "\<exists>n ws. rv_steps n 0x10060 ws (t0\<lparr>rpc := 0x10060\<rparr>)
    = Some ((setx (t0\<lparr>rpc := 0x10060\<rparr>) 1 (0x10060 + 4))\<lparr>rpc := 0x10070\<rparr>)"
proof -
  let ?ir = "(new_ph2_ir OP_call)\<lparr>func_name := ''f''\<rparr>" and ?t = "t0\<lparr>rpc := 0x10060\<rparr>"
  have ir: "op ?ir = OP_call" "func_entry (find_func env_f) (func_name ?ir) = Some 7"
    "jal_reach 12 (bb_offset env_f 7)"
    by code_simp+
  have "map_option (\<lambda>es. map_option length (emit_words es 12)) (rv_seq env_f ?ir) = Some (Some 1)"
    by code_simp
  then obtain es ws where es: "rv_seq env_f ?ir = Some es" "emit_words es 12 = Some ws"
    by auto
  have t: "rpc ?t = elf_code_start env_f + 12" "rpc ?t = 0x10060"
    "elf_code_start env_f + bb_offset env_f 7 = 0x10070"
    by (simp_all add: env_f_def env0_def)
  from rv_call_correct [OF ir(1,2) es ir(3) t(1)] show ?thesis
    unfolding t(2,3) by blast
qed

text \<open>
  C31. Function frames. Let \<open>ws1\<close> be the prologue of \<open>f\<close> and \<open>ws2\<close> the code of a
  return of \<open>f\<close> as the layout pass completes it. The prologue runs to its end, and from
  every state the body may reach with the same stack pointer and the saved word intact,
  the epilogue returns to the address that was in \<open>ra\<close> on entry with the caller's stack
  pointer, whatever the size of the frame.
\<close>

theorem rv_frame_correct:
  assumes "rv_seq env (define_ir f) = Some es1" "emit_words es1 sz1 = Some ws1"
    and "op ir = OP_return" "src0 ir = -1 \<or> unat (src0 ir) < 8"
    and "rv_seq env (rv_flat_insn (stack_size f) ir) = Some es2" "emit_words es2 sz2 = Some ws2"
    and "getx t 1 AND 1 = 0"
  shows "\<exists>n1 t1. rv_steps n1 (rpc t) ws1 t = Some t1 \<and> rpc t1 = rpc t + of_nat (4 * length ws1)
    \<and> (\<forall>t2. getx t2 2 = getx t1 2
          \<and> load_val (rmem t2) 4 True (getx t 2 - 4) = load_val (rmem t1) 4 True (getx t 2 - 4)
        \<longrightarrow> (\<exists>n2 t3. rv_steps n2 (rpc t2) ws2 t2 = Some t3 \<and> rpc t3 = getx t 1 \<and> getx t3 2 = getx t 2))"
proof -
  obtain t1 where t1: "rv_leads ws1 t t1" "rpc t1 = rpc t + of_nat (4 * length ws1)"
    "\<And>t2. getx t2 2 = getx t1 2 \<Longrightarrow>
       load_val (rmem t2) 4 True (getx t 2 - 4) = load_val (rmem t1) 4 True (getx t 2 - 4) \<Longrightarrow>
       \<exists>t3. rv_leads ws2 t2 t3 \<and> rpc t3 = getx t 1 \<and> getx t3 2 = getx t 2"
    using frame_restored [OF assms] by blast
  then show ?thesis
    unfolding rv_leads_def by blast
qed

lemma rv_frame_correct_witness:
  "\<exists>ws1 ws2 n1 n2 t1 t3. rv_steps n1 0x10054 ws1 (setx t0 1 0x10100) = Some t1
    \<and> rv_steps n2 (rpc t1) ws2 t1 = Some t3 \<and> rpc t3 = 0x10100 \<and> getx t3 2 = 0"
proof -
  let ?f = "\<lparr>fname = ''f'', stack_size = 5000, bbs = [], plt_offset = 0\<rparr>"
  let ?ir = "ir3 OP_return 0 3 0" and ?t = "setx t0 1 0x10100"
  have "map_option (\<lambda>es. map_option length (emit_words es 0)) (rv_seq env0 (define_ir ?f)) = Some (Some 4)"
    by code_simp
  then obtain es1 ws1 where e1: "rv_seq env0 (define_ir ?f) = Some es1" "emit_words es1 0 = Some ws1"
    by auto
  have "map_option (\<lambda>es. map_option length (emit_words es 0))
      (rv_seq env0 (rv_flat_insn (stack_size ?f) ?ir)) = Some (Some 6)"
    by code_simp
  then obtain es2 ws2 where e2: "rv_seq env0 (rv_flat_insn (stack_size ?f) ?ir) = Some es2"
    "emit_words es2 0 = Some ws2"
    by auto
  have ir: "op ?ir = OP_return" "src0 ?ir = -1 \<or> unat (src0 ?ir) < 8" "getx ?t 1 AND 1 = 0"
    by code_simp+
  have t: "rpc ?t = 0x10054" "getx ?t 1 = 0x10100" "getx ?t 2 = 0"
    by code_simp+
  from rv_frame_correct [OF e1 ir(1,2) e2 ir(3)] show ?thesis
    unfolding t by blast
qed

section \<open>Jump offsets\<close>

lemma sint_of_int_eq: "- (2 ^ 31) \<le> i \<Longrightarrow> i < 2 ^ 31 \<Longrightarrow> sint (of_int i :: cint) = i"
  by (simp add: signed_of_int signed_take_bit_int_eq_self)

lemma imm_J_range: "- (2 ^ 20) \<le> sint (imm_J w) \<and> sint (imm_J w) < 2 ^ 20 \<and> even (sint (imm_J w))"
proof -
  define k where "k = fld w 21 10 + 2 ^ 10 * fld w 20 1 + 2 ^ 11 * fld w 12 8 + 2 ^ 19 * fld w 31 1"
  have b: "fld w 21 10 < 2 ^ 10" "fld w 20 1 < 2 ^ 1" "fld w 12 8 < 2 ^ 8" "fld w 31 1 < 2 ^ 1"
    by (rule fld_less)+
  have k: "k < 2 ^ 20"
    using b unfolding k_def by simp
  have j: "imm_J w = sext 21 (2 * k)"
    by (simp add: imm_J_def k_def)
  show ?thesis
  proof (cases "2 * k < 2 ^ 20")
    case True
    then have "imm_J w = of_nat (2 * k)"
      by (simp add: j sext_def)
    moreover have "sint (of_int (int (2 * k)) :: cint) = int (2 * k)"
      using True by (intro sint_of_int_eq) simp_all
    ultimately show ?thesis
      using True by simp
  next
    case False
    then have "imm_J w = of_int (int (2 * k) - 2 ^ 21)"
      by (simp add: j sext_def)
    moreover have "sint (of_int (int (2 * k) - 2 ^ 21) :: cint) = int (2 * k) - 2 ^ 21"
      using False k by (intro sint_of_int_eq) simp_all
    ultimately show ?thesis
      using False k by simp
  qed
qed

text \<open>
  C34. The range of a jump. \<open>rv_encode_J\<close>, unlike the other formats, does not check its
  offset. The word it makes jumps by the offset asked for exactly when the offset is even
  and within one MiB; for any other offset the emitted jump silently goes elsewhere.
\<close>

theorem rv_jal_decodes_iff:
  assumes "rvi_jal rd imm = Some w" "unat rd < 32"
  shows "rv_decode w = Some (I_jal (unat rd) imm)
    \<longleftrightarrow> - (2 ^ 20) \<le> sint imm \<and> sint imm < 2 ^ 20 \<and> even (sint imm)"
proof
  assume d: "rv_decode w = Some (I_jal (unat rd) imm)"
  then have "imm = imm_J w"
    by (auto simp: rv_decode_def Let_def decode_alui_def decode_load_def decode_store_def split: if_split_asm)
  then show "- (2 ^ 20) \<le> sint imm \<and> sint imm < 2 ^ 20 \<and> even (sint imm)"
    using imm_J_range [of w] by simp
qed (use decode_jal [OF assms] in blast)

lemma rv_jal_decodes_iff_witness:
  "\<exists>w. rvi_jal 1 0x200000 = Some w \<and> rv_decode w \<noteq> Some (I_jal 1 0x200000)"
proof -
  have "map_option (\<lambda>_. ()) (rvi_jal 1 0x200000) = Some ()"
    by code_simp
  then obtain w where w: "rvi_jal 1 0x200000 = Some w"
    by auto
  have "\<not> sint (0x200000 :: cint) < 2 ^ 20"
    by code_simp
  with rv_jal_decodes_iff [OF w] w show ?thesis
    by auto
qed

section \<open>An instance of the layout theorem\<close>

lemma rv_layout_correct_witness:
  "\<exists>l c0 pre c. rv_cfg_flatten env_l prog0 = Some l
     \<and> rv_code_prefix (env_l\<lparr>bb_offset := offs l\<rparr>) prog0 = Some c0
     \<and> emit_list (rv_emit_ph2_ir (env_l\<lparr>bb_offset := offs l\<rparr>)) pre c0 = Some c
     \<and> code_size c = 116"
proof -
  let ?l = "the (rv_cfg_flatten env_l prog0)" and ?f = "hd (func_list prog0)"
  let ?env = "env_l\<lparr>bb_offset := offs ?l\<rparr>"
  have "map_option (\<lambda>_. ()) (rv_cfg_flatten env_l prog0) = Some ()"
    by code_simp
  then have l: "rv_cfg_flatten env_l prog0 = Some ?l"
    by auto
  have "map_option (\<lambda>_. ()) (rv_code_generate ?env prog0 (flat ?l)) = Some ()"
    by code_simp
  then obtain code where code: "rv_code_generate ?env prog0 (flat ?l) = Some code"
    by auto
  have d: "distinct (rv_block_ids prog0)" and off: "bb_offset ?env (bb_id (bbs ?f ! 1)) = 116"
    by code_simp+
  have p: "main_bb prog0 = Some 1" "func_list prog0 = [] @ ?f # []" "bbs ?f = [hd (bbs ?f)] @ bbs ?f ! 1 # []"
    by (simp_all add: prog0_def main0_def)
  from rv_layout_correct [OF l refl p(1) code d p(2,3)] show ?thesis
    unfolding off using l by blast
qed

end
