(* ===== verification/ArmEncode.thy ===== *)
theory ArmEncode
  imports Ir
begin

text \<open>
  The ARMv7-A instruction encoder, \<^verbatim>\<open>src/arm.c\<close>: opcodes \<open>arm_op_t\<close>,
  condition codes \<open>arm_cond_t\<close>, shift kinds \<open>shift_type\<close>, the field packers and one
  function per mnemonic. Mnemonics that start with two underscores in C start with
  \<open>armi_\<close> here, registers with \<open>a_\<close>, conditions with \<open>c_\<close>. \<open>None\<close> is a call
  of \<open>fatal()\<close>.
\<close>

section \<open>Opcodes, conditions and registers\<close>

datatype (plugins only: code size) arm_op =
    arm_and | arm_eor | arm_sub | arm_rsb | arm_add | arm_ldm | arm_teq | arm_cmp | arm_orr
  | arm_mov | arm_mvn | arm_stmdb

fun arm_op_val :: "arm_op \<Rightarrow> cint" where
  "arm_op_val arm_and = 0"
| "arm_op_val arm_eor = 1"
| "arm_op_val arm_sub = 2"
| "arm_op_val arm_rsb = 3"
| "arm_op_val arm_add = 4"
| "arm_op_val arm_ldm = 9"
| "arm_op_val arm_teq = 9"
| "arm_op_val arm_cmp = 10"
| "arm_op_val arm_orr = 12"
| "arm_op_val arm_mov = 13"
| "arm_op_val arm_mvn = 15"
| "arm_op_val arm_stmdb = 16"

datatype (plugins only: code size) arm_cond =
    c_EQ | c_NE | c_CS | c_CC | c_LS | c_GE | c_LT | c_GT | c_LE | c_AL

fun arm_cond_val :: "arm_cond \<Rightarrow> cint" where
  "arm_cond_val c_EQ = 0"
| "arm_cond_val c_NE = 1"
| "arm_cond_val c_CS = 2"
| "arm_cond_val c_CC = 3"
| "arm_cond_val c_LS = 9"
| "arm_cond_val c_GE = 10"
| "arm_cond_val c_LT = 11"
| "arm_cond_val c_GT = 12"
| "arm_cond_val c_LE = 13"
| "arm_cond_val c_AL = 14"

abbreviation (input) a_r0 :: cint where "a_r0 \<equiv> 0"
abbreviation (input) a_r1 :: cint where "a_r1 \<equiv> 1"
abbreviation (input) a_r2 :: cint where "a_r2 \<equiv> 2"
abbreviation (input) a_r3 :: cint where "a_r3 \<equiv> 3"
abbreviation (input) a_r4 :: cint where "a_r4 \<equiv> 4"
abbreviation (input) a_r5 :: cint where "a_r5 \<equiv> 5"
abbreviation (input) a_r6 :: cint where "a_r6 \<equiv> 6"
abbreviation (input) a_r7 :: cint where "a_r7 \<equiv> 7"
abbreviation (input) a_r8 :: cint where "a_r8 \<equiv> 8"
abbreviation (input) a_r9 :: cint where "a_r9 \<equiv> 9"
abbreviation (input) a_r10 :: cint where "a_r10 \<equiv> 10"
abbreviation (input) a_r11 :: cint where "a_r11 \<equiv> 11"
abbreviation (input) a_r12 :: cint where "a_r12 \<equiv> 12"
abbreviation (input) a_sp :: cint where "a_sp \<equiv> 13"
abbreviation (input) a_lr :: cint where "a_lr \<equiv> 14"
abbreviation (input) a_pc :: cint where "a_pc \<equiv> 15"

datatype (plugins only: code size) shift_type = logic_ls | logic_rs | arith_rs | rotat_rs

fun shift_val :: "shift_type \<Rightarrow> cint" where
  "shift_val logic_ls = 0"
| "shift_val logic_rs = 1"
| "shift_val arith_rs = 2"
| "shift_val rotat_rs = 3"

definition arm_get_cond :: "opcode \<Rightarrow> arm_cond option" where
  "arm_get_cond oc =
     (case oc of
        OP_eq \<Rightarrow> Some c_EQ
      | OP_neq \<Rightarrow> Some c_NE
      | OP_lt \<Rightarrow> Some c_LT
      | OP_geq \<Rightarrow> Some c_GE
      | OP_gt \<Rightarrow> Some c_GT
      | OP_leq \<Rightarrow> Some c_LE
      | _ \<Rightarrow> None)"

section \<open>Formats\<close>

definition arm_extract_bits :: "cint \<Rightarrow> nat \<Rightarrow> nat \<Rightarrow> nat \<Rightarrow> nat \<Rightarrow> cint option" where
  "arm_extract_bits imm i_start i_end d_start d_end =
     (if int d_end - int d_start \<noteq> int i_end - int i_start \<or> i_end < i_start \<or> d_end < d_start
      then None
      else Some (shl (sar imm i_start AND (shl 2 (i_end - i_start) - 1)) d_start))"

definition arm_encode :: "arm_cond \<Rightarrow> cint \<Rightarrow> cint \<Rightarrow> cint \<Rightarrow> cint \<Rightarrow> cint" where
  "arm_encode cond opc rn rd op2 =
     shl (arm_cond_val cond) 28 + shl opc 20 + shl rn 16 + shl rd 12 + op2"

text \<open>
  The loop of \<open>__mov\<close>: shift the immediate right two bits at a time, counting the
  rotation down. On \<open>0\<close> it would not end (\<open>None\<close>); it is entered above 255 only.
\<close>

partial_function (option) arm_mov_rotate :: "cint \<Rightarrow> cint \<Rightarrow> (cint \<times> cint) option" where
  "arm_mov_rotate op2 shift =
     (if op2 AND 3 = 0 then arm_mov_rotate (sar op2 2) (shift - 1) else Some (op2, shift))"

definition armi_mov :: "arm_cond \<Rightarrow> cint \<Rightarrow> arm_op \<Rightarrow> cint \<Rightarrow> cint \<Rightarrow> cint \<Rightarrow> cint \<Rightarrow> cint option" where
  "armi_mov cond io opc s rn rd op2 =
     do { (op2', shift) \<leftarrow> (if lt_s 255 op2 then arm_mov_rotate op2 16 else Some (op2, 0));
          (if lt_s 255 op2 \<and> lt_s 255 op2' then None
           else Some (arm_encode cond (s + shl (arm_op_val opc) 1 + shl io 5) rn rd
                        (shl shift 8 + (op2' AND 255)))) }"

section \<open>Mnemonics\<close>

definition armi_svc :: "cint" where
  "armi_svc = arm_encode c_AL 240 0 0 0"

definition armi_and_r :: "arm_cond \<Rightarrow> cint \<Rightarrow> cint \<Rightarrow> cint \<Rightarrow> cint option" where
  "armi_and_r cond rd rs rm =
     armi_mov cond 0 arm_and 0 rs rd rm"

definition armi_or_r :: "arm_cond \<Rightarrow> cint \<Rightarrow> cint \<Rightarrow> cint \<Rightarrow> cint option" where
  "armi_or_r cond rd rs rm =
     armi_mov cond 0 arm_orr 0 rs rd rm"

definition armi_eor_r :: "arm_cond \<Rightarrow> cint \<Rightarrow> cint \<Rightarrow> cint \<Rightarrow> cint option" where
  "armi_eor_r cond rd rs rm =
     armi_mov cond 0 arm_eor 0 rs rd rm"

definition armi_mvn_r :: "arm_cond \<Rightarrow> cint \<Rightarrow> cint \<Rightarrow> cint option" where
  "armi_mvn_r cond rd rm =
     armi_mov cond 0 arm_mvn 0 0 rd rm"

definition armi_movw :: "arm_cond \<Rightarrow> cint \<Rightarrow> cint \<Rightarrow> cint option" where
  "armi_movw cond rd imm =
     do { lo \<leftarrow> arm_extract_bits imm 0 11 0 11;
          hi \<leftarrow> arm_extract_bits imm 12 15 16 19;
          Some (arm_encode cond 48 0 rd 0 + lo + hi) }"

definition armi_movt :: "arm_cond \<Rightarrow> cint \<Rightarrow> cint \<Rightarrow> cint option" where
  "armi_movt cond rd imm =
     (let imm2 = sar imm 16
      in do { lo \<leftarrow> arm_extract_bits imm2 0 11 0 11;
          hi \<leftarrow> arm_extract_bits imm2 12 15 16 19;
          Some (arm_encode cond 52 0 rd 0 + lo + hi) })"

definition armi_mov_i :: "arm_cond \<Rightarrow> cint \<Rightarrow> cint \<Rightarrow> cint option" where
  "armi_mov_i cond rd imm =
     armi_mov cond 1 arm_mov 0 0 rd imm"

definition armi_mov_r :: "arm_cond \<Rightarrow> cint \<Rightarrow> cint \<Rightarrow> cint option" where
  "armi_mov_r cond rd rs =
     armi_mov cond 0 arm_mov 0 0 rd rs"

definition armi_srl :: "arm_cond \<Rightarrow> cint \<Rightarrow> cint \<Rightarrow> cint \<Rightarrow> cint" where
  "armi_srl cond rd rm rs =
     arm_encode cond (0 + shl (arm_op_val arm_mov) 1 + shl 0 5) 0 rd (rm + shl 1 4 + shl 1 5 + shl rs 8)"

definition armi_srl_amt :: "arm_cond \<Rightarrow> cint \<Rightarrow> shift_type \<Rightarrow> cint \<Rightarrow> cint \<Rightarrow> cint \<Rightarrow> cint" where
  "armi_srl_amt cond s shift rd rm amt =
     arm_encode cond (s + shl (arm_op_val arm_mov) 1 + shl 0 5) 0 rd
       (rm + shl 0 4 + shl (shift_val shift) 5 + shl amt 7)"

definition armi_sll :: "arm_cond \<Rightarrow> cint \<Rightarrow> cint \<Rightarrow> cint \<Rightarrow> cint" where
  "armi_sll cond rd rm rs =
     arm_encode cond (0 + shl (arm_op_val arm_mov) 1 + shl 0 5) 0 rd (rm + shl 1 4 + shl 0 5 + shl rs 8)"

definition armi_sll_amt :: "arm_cond \<Rightarrow> cint \<Rightarrow> shift_type \<Rightarrow> cint \<Rightarrow> cint \<Rightarrow> cint \<Rightarrow> cint" where
  "armi_sll_amt cond s shift rd rm amt =
     arm_encode cond (s + shl (arm_op_val arm_mov) 1 + shl 0 5) 0 rd
       (rm + shl 0 4 + shl (shift_val shift) 5 + shl amt 7)"

definition armi_sra :: "arm_cond \<Rightarrow> cint \<Rightarrow> cint \<Rightarrow> cint \<Rightarrow> cint" where
  "armi_sra cond rd rm rs =
     arm_encode cond (0 + shl (arm_op_val arm_mov) 1 + shl 0 5) 0 rd
       (rm + shl 1 4 + shl (shift_val arith_rs) 5 + shl rs 8)"

definition armi_add_i :: "arm_cond \<Rightarrow> cint \<Rightarrow> cint \<Rightarrow> cint \<Rightarrow> cint option" where
  "armi_add_i cond rd rs imm =
     (if le_s 0 imm then armi_mov cond 1 arm_add 0 rs rd imm
      else armi_mov cond 1 arm_sub 0 rs rd (- imm))"

definition armi_add_r :: "arm_cond \<Rightarrow> cint \<Rightarrow> cint \<Rightarrow> cint \<Rightarrow> cint option" where
  "armi_add_r cond rd rs ro =
     armi_mov cond 0 arm_add 0 rs rd ro"

definition armi_sub_r :: "arm_cond \<Rightarrow> cint \<Rightarrow> cint \<Rightarrow> cint \<Rightarrow> cint option" where
  "armi_sub_r cond rd rs ro =
     armi_mov cond 0 arm_sub 0 rs rd ro"

definition armi_and_i :: "arm_cond \<Rightarrow> cint \<Rightarrow> cint \<Rightarrow> cint \<Rightarrow> cint option" where
  "armi_and_i cond rd rs imm =
     armi_mov cond 1 arm_and 0 rs rd imm"

definition armi_zero :: "cint \<Rightarrow> cint option" where
  "armi_zero rd =
     armi_mov_i c_AL rd 0"

definition arm_halfword_transfer ::
  "arm_cond \<Rightarrow> cint \<Rightarrow> cint \<Rightarrow> cint \<Rightarrow> cint \<Rightarrow> cint \<Rightarrow> cint option"
where
  "arm_halfword_transfer cond l rn rd ofs signed_op =
     (let opc = 16 + 8 + 4 + l;
          opc' = (if lt_s ofs 0 then opc - 8 else opc);
          ofs' = (if lt_s ofs 0 then - ofs else ofs)
      in if lt_s 255 ofs' then None
         else let imm4H = shl (sar ofs' 4 AND 0xF) 8;
                  imm4L = ofs' AND 0xF;
                  encoded_ofs = imm4H OR 0xB0 OR imm4L OR shl signed_op 6
              in Some (arm_encode cond opc' rn rd encoded_ofs))"

definition arm_transfer :: "arm_cond \<Rightarrow> cint \<Rightarrow> cint \<Rightarrow> cint \<Rightarrow> cint \<Rightarrow> cint \<Rightarrow> cint" where
  "arm_transfer cond l sz rn rd ofs =
     (let opc = 64 + 16 + 8 + l;
          opc1 = (if sz = 1 then opc + 4 else opc);
          opc2 = (if lt_s ofs 0 then opc1 - 8 else opc1);
          ofs' = (if lt_s ofs 0 then - ofs else ofs)
      in arm_encode cond opc2 rn rd (ofs' AND 4095))"

definition armi_lw :: "arm_cond \<Rightarrow> cint \<Rightarrow> cint \<Rightarrow> cint \<Rightarrow> cint" where
  "armi_lw cond rd rn ofs =
     arm_transfer cond 1 4 rn rd ofs"

definition armi_lb :: "arm_cond \<Rightarrow> cint \<Rightarrow> cint \<Rightarrow> cint \<Rightarrow> cint" where
  "armi_lb cond rd rn ofs =
     arm_transfer cond 1 1 rn rd ofs"

definition armi_sw :: "arm_cond \<Rightarrow> cint \<Rightarrow> cint \<Rightarrow> cint \<Rightarrow> cint" where
  "armi_sw cond rd rn ofs =
     arm_transfer cond 0 4 rn rd ofs"

definition armi_sb :: "arm_cond \<Rightarrow> cint \<Rightarrow> cint \<Rightarrow> cint \<Rightarrow> cint" where
  "armi_sb cond rd rn ofs =
     arm_transfer cond 0 1 rn rd ofs"

definition armi_lh :: "arm_cond \<Rightarrow> cint \<Rightarrow> cint \<Rightarrow> cint \<Rightarrow> cint option" where
  "armi_lh cond rd rn ofs =
     arm_halfword_transfer cond 1 rn rd ofs 1"

definition armi_sh :: "arm_cond \<Rightarrow> cint \<Rightarrow> cint \<Rightarrow> cint \<Rightarrow> cint option" where
  "armi_sh cond rd rn ofs =
     arm_halfword_transfer cond 0 rn rd ofs 0"

definition armi_stmdb :: "arm_cond \<Rightarrow> cint \<Rightarrow> cint \<Rightarrow> cint \<Rightarrow> cint" where
  "armi_stmdb cond w rn reg_list =
     arm_encode cond (arm_op_val arm_stmdb + shl 2 6 + shl w 1) rn 0 reg_list"

definition armi_ldm :: "arm_cond \<Rightarrow> cint \<Rightarrow> cint \<Rightarrow> cint \<Rightarrow> cint" where
  "armi_ldm cond w rn reg_list =
     arm_encode cond (arm_op_val arm_ldm + shl 2 6 + shl w 1) rn 0 reg_list"

definition armi_push_reg :: "arm_cond \<Rightarrow> cint \<Rightarrow> cint" where
  "armi_push_reg cond rt =
     arm_encode cond (shl 5 4 OR 2) 0xd rt 4"

definition armi_pop_word :: "arm_cond \<Rightarrow> cint \<Rightarrow> cint" where
  "armi_pop_word cond rt =
     arm_encode cond (shl 4 4 OR 9) 0xd rt 4"

definition armi_b :: "arm_cond \<Rightarrow> cint \<Rightarrow> cint" where
  "armi_b cond ofs =
     (let o1 = sar (ofs - 8) 2 in arm_encode cond 160 0 0 0 + (o1 AND 16777215))"

definition armi_bl :: "arm_cond \<Rightarrow> cint \<Rightarrow> cint" where
  "armi_bl cond ofs =
     (let o1 = sar (ofs - 8) 2 in arm_encode cond 176 0 0 0 + (o1 AND 16777215))"

definition armi_bx :: "arm_cond \<Rightarrow> cint \<Rightarrow> cint" where
  "armi_bx cond rm =
     shl (arm_cond_val cond) 28 OR 0x012FFF10 OR rm"

definition armi_blx :: "arm_cond \<Rightarrow> cint \<Rightarrow> cint" where
  "armi_blx cond rd =
     arm_encode cond 18 15 15 (rd + 3888)"

definition armi_mul :: "arm_cond \<Rightarrow> cint \<Rightarrow> cint \<Rightarrow> cint \<Rightarrow> cint" where
  "armi_mul cond rd r1 r2 =
     arm_encode cond 0 rd 0 (shl r1 8 + 144 + r2)"

definition armi_div :: "arm_cond \<Rightarrow> cint \<Rightarrow> cint \<Rightarrow> cint \<Rightarrow> cint" where
  "armi_div cond rd r1 r2 =
     arm_encode cond 113 rd 15 (shl r1 8 + 16 + r2)"

definition armi_rsb_i :: "arm_cond \<Rightarrow> cint \<Rightarrow> cint \<Rightarrow> cint \<Rightarrow> cint option" where
  "armi_rsb_i cond rd imm rn =
     armi_mov cond 1 arm_rsb 0 rn rd imm"

definition armi_cmp_r :: "arm_cond \<Rightarrow> cint \<Rightarrow> cint \<Rightarrow> cint option" where
  "armi_cmp_r cond r1 r2 =
     armi_mov cond 0 arm_cmp 1 r1 0 r2"

definition armi_cmp_i :: "arm_cond \<Rightarrow> cint \<Rightarrow> cint \<Rightarrow> cint option" where
  "armi_cmp_i cond rn imm =
     armi_mov cond 1 arm_cmp 1 rn 0 imm"

definition armi_teq :: "cint \<Rightarrow> cint option" where
  "armi_teq rd =
     armi_mov c_AL 1 arm_teq 1 rd 0 0"

definition armi_sxtb :: "arm_cond \<Rightarrow> cint \<Rightarrow> cint \<Rightarrow> cint \<Rightarrow> cint option" where
  "armi_sxtb cond rd rm rotation =
     (if rotation \<noteq> 0 \<and> rotation \<noteq> 8 \<and> rotation \<noteq> 16 \<and> rotation \<noteq> 24 then None
      else Some (arm_encode cond 106 0xF rd (rm OR shl (sar rotation 3) 10 OR shl 7 4)))"

definition armi_sxth :: "arm_cond \<Rightarrow> cint \<Rightarrow> cint \<Rightarrow> cint \<Rightarrow> cint option" where
  "armi_sxth cond rd rm rotation =
     (if rotation \<noteq> 0 \<and> rotation \<noteq> 8 \<and> rotation \<noteq> 16 \<and> rotation \<noteq> 24 then None
      else Some (arm_encode cond 107 0xF rd (rm OR shl (sar rotation 3) 10 OR shl 7 4)))"

lemmas armi_defs =
  armi_and_r_def armi_or_r_def armi_eor_r_def armi_mvn_r_def armi_movw_def armi_movt_def armi_mov_i_def armi_mov_r_def armi_srl_def armi_srl_amt_def armi_sll_def armi_sll_amt_def armi_sra_def armi_add_i_def armi_add_r_def armi_sub_r_def armi_and_i_def armi_zero_def armi_lw_def armi_lb_def armi_sw_def armi_sb_def armi_lh_def armi_sh_def armi_stmdb_def armi_ldm_def armi_push_reg_def armi_pop_word_def armi_b_def armi_bl_def armi_bx_def armi_blx_def armi_mul_def armi_div_def armi_rsb_i_def armi_cmp_r_def armi_cmp_i_def armi_teq_def armi_sxtb_def armi_sxth_def armi_svc_def

end
