(* ===== verification/ArmCodegen.thy ===== *)
theory ArmCodegen
  imports Layout ArmEncode
begin

text \<open>
  The ARMv7-A code generator, \<^verbatim>\<open>src/arm-codegen.c\<close>: \<open>update_elf_offset\<close>,
  \<open>cfg_flatten\<close>, \<open>emit_ph2_ir\<close>, \<open>code_generate\<close> and \<open>plt_generate\<close>, for
  static and dynamic linking. IR register \<open>r\<close> is machine register \<open>r\<close>; r8-r11 are
  scratch and r12 holds the global stack pointer.
\<close>

section \<open>Sizes\<close>

definition align_up :: "cint \<Rightarrow> cint" where
  "align_up v = (v + 8 - 1) AND NOT (8 - 1)"

definition arm_update_elf_offset :: "cg_env \<Rightarrow> ph2_ir \<Rightarrow> cint \<Rightarrow> cint option" where
  "arm_update_elf_offset env ir elf_offset =
     (case op ir of
        OP_load_constant \<Rightarrow> Some (if lt_s (src0 ir) 0 then elf_offset + 12
          else if lt_s 255 (src0 ir) then elf_offset + 8 else elf_offset + 4)
      | OP_address_of \<Rightarrow> (if lt_s 255 (src0 ir) then Some (elf_offset + 12)
          else if le_s 0 (src0 ir) then Some (elf_offset + 4) else None)
      | OP_global_address_of \<Rightarrow> (if lt_s 255 (src0 ir) then Some (elf_offset + 12)
          else if le_s 0 (src0 ir) then Some (elf_offset + 4) else None)
      | OP_assign \<Rightarrow> Some (if dest ir \<noteq> src0 ir then elf_offset + 4 else elf_offset)
      | OP_load \<Rightarrow> (if lt_s 4095 (src0 ir) then Some (elf_offset + 16)
          else if le_s 0 (src0 ir) then Some (elf_offset + 4) else None)
      | OP_global_load \<Rightarrow> (if lt_s 4095 (src0 ir) then Some (elf_offset + 16)
          else if le_s 0 (src0 ir) then Some (elf_offset + 4) else None)
      | OP_store \<Rightarrow> (if lt_s 4095 (src1 ir) then Some (elf_offset + 16)
          else if le_s 0 (src1 ir) then Some (elf_offset + 4) else None)
      | OP_global_store \<Rightarrow> (if lt_s 4095 (src1 ir) then Some (elf_offset + 16)
          else if le_s 0 (src1 ir) then Some (elf_offset + 4) else None)
      | OP_read \<Rightarrow> Some (elf_offset + 4)
      | OP_write \<Rightarrow> Some (elf_offset + 4)
      | OP_jump \<Rightarrow> Some (elf_offset + 4)
      | OP_load_func \<Rightarrow> Some (elf_offset + 4)
      | OP_indirect \<Rightarrow> Some (elf_offset + 4)
      | OP_add \<Rightarrow> Some (elf_offset + 4)
      | OP_sub \<Rightarrow> Some (elf_offset + 4)
      | OP_mul \<Rightarrow> Some (elf_offset + 4)
      | OP_lshift \<Rightarrow> Some (elf_offset + 4)
      | OP_rshift \<Rightarrow> Some (elf_offset + 4)
      | OP_bit_and \<Rightarrow> Some (elf_offset + 4)
      | OP_bit_or \<Rightarrow> Some (elf_offset + 4)
      | OP_bit_xor \<Rightarrow> Some (elf_offset + 4)
      | OP_negate \<Rightarrow> Some (elf_offset + 4)
      | OP_bit_not \<Rightarrow> Some (elf_offset + 4)
      | OP_call \<Rightarrow> (case find_func env (func_name ir) of
            None \<Rightarrow> None
          | Some f \<Rightarrow>
              if bbs f \<noteq> [] then Some (elf_offset + 4)
              else if dynlink env then Some (elf_offset + 16) else None)
      | OP_div \<Rightarrow> Some (if hard_mul_div env then elf_offset + 4 else elf_offset + 116)
      | OP_mod \<Rightarrow> Some (if hard_mul_div env then elf_offset + 12 else elf_offset + 116)
      | OP_load_data_address \<Rightarrow> Some (elf_offset + 8)
      | OP_load_rodata_address \<Rightarrow> Some (elf_offset + 8)
      | OP_address_of_func \<Rightarrow> Some (elf_offset + 12)
      | OP_eq \<Rightarrow> Some (elf_offset + 12)
      | OP_neq \<Rightarrow> Some (elf_offset + 12)
      | OP_gt \<Rightarrow> Some (elf_offset + 12)
      | OP_lt \<Rightarrow> Some (elf_offset + 12)
      | OP_geq \<Rightarrow> Some (elf_offset + 12)
      | OP_leq \<Rightarrow> Some (elf_offset + 12)
      | OP_log_not \<Rightarrow> Some (elf_offset + 12)
      | OP_branch \<Rightarrow> Some (if is_branch_detached ir then elf_offset + 12 else elf_offset + 8)
      | OP_return \<Rightarrow> Some (elf_offset + 24)
      | OP_trunc \<Rightarrow> Some (if src1 ir = 2 then elf_offset + 8 else elf_offset + 4)
      | OP_sign_ext \<Rightarrow> Some (elf_offset + 4)
      | OP_cast \<Rightarrow> Some (elf_offset + 4)
      | _ \<Rightarrow> None)"

section \<open>Instruction words\<close>

text \<open>\<open>movw\<close> and \<open>movt\<close>: a 32-bit constant in two instructions.\<close>

definition arm_li :: "cint \<Rightarrow> cint \<Rightarrow> emitter list" where
  "arm_li r v = [now (armi_movw c_AL r v), now (armi_movt c_AL r v)]"

text \<open>Division and remainder without a divide instruction: 29 words.\<close>

definition arm_divmod_seq :: "bool \<Rightarrow> cint \<Rightarrow> cint \<Rightarrow> cint \<Rightarrow> emitter list" where
  "arm_divmod_seq is_mod rd rn rm =
     (let interm = (if is_mod then a_r9 else a_r8);
          regs = shl 1 (unat rn) OR shl 1 (unat rm)
      in [word (armi_stmdb c_AL 1 a_sp regs),
          word (armi_srl_amt c_AL 0 arith_rs a_r8 rn 31),
          now (armi_add_r c_AL rn rn a_r8),
          now (armi_eor_r c_AL rn rn a_r8),
          word (armi_srl_amt c_AL 0 arith_rs a_r9 rm 31),
          now (armi_add_r c_AL rm rm a_r9),
          now (armi_eor_r c_AL rm rm a_r9),
          (if is_mod then now (armi_mov_r c_AL a_r10 a_r8)
           else now (armi_eor_r c_AL a_r10 a_r8 a_r9)),
          now (armi_zero a_r8),
          now (armi_mov_i c_AL a_r9 1),
          now (armi_cmp_i c_AL rm 0),
          word (armi_b c_EQ 52),
          now (armi_cmp_i c_AL rn 0),
          word (armi_b c_EQ 44),
          now (armi_cmp_r c_AL rm rn),
          word (armi_sll_amt c_CC 0 logic_ls rm rm 1),
          word (armi_sll_amt c_CC 0 logic_ls a_r9 a_r9 1),
          word (armi_b c_CC (-12)),
          now (armi_cmp_r c_AL rn rm),
          now (armi_sub_r c_CS rn rn rm),
          now (armi_add_r c_CS a_r8 a_r8 a_r9),
          word (armi_srl_amt c_AL 1 logic_rs a_r9 a_r9 1),
          word (armi_srl_amt c_CC 0 logic_rs rm rm 1),
          word (armi_b c_CC (-20)),
          now (armi_mov_r c_AL a_r9 rn),
          word (armi_ldm c_AL 1 a_sp regs),
          now (armi_mov_r c_AL rd interm),
          now (armi_cmp_i c_AL a_r10 0),
          now (armi_rsb_i c_NE rd 0 rd)])"

text \<open>The cases of the \<open>switch\<close> in \<open>emit_ph2_ir\<close> from \<open>OP_add\<close> on.\<close>

definition arm_seq_alu :: "cg_env \<Rightarrow> ph2_ir \<Rightarrow> emitter list option" where
  "arm_seq_alu env ir =
     (let rd = dest ir; rn = src0 ir; rm = src1 ir
      in case op ir of
        OP_add \<Rightarrow> Some [now (armi_add_r c_AL rd rn rm)]
      | OP_sub \<Rightarrow> Some [now (armi_sub_r c_AL rd rn rm)]
      | OP_mul \<Rightarrow> Some [word (armi_mul c_AL rd rn rm)]
      | OP_div \<Rightarrow> Some (if hard_mul_div env then [word (armi_div c_AL rd rm rn)]
                        else arm_divmod_seq False rd rn rm)
      | OP_mod \<Rightarrow> Some (if hard_mul_div env
                        then [word (armi_div c_AL a_r8 rm rn), word (armi_mul c_AL a_r8 rm a_r8),
                              now (armi_sub_r c_AL rd rn a_r8)]
                        else arm_divmod_seq True rd rn rm)
      | OP_lshift \<Rightarrow> Some [word (armi_sll c_AL rd rn rm)]
      | OP_rshift \<Rightarrow> Some [word (armi_sra c_AL rd rn rm)]
      | OP_eq \<Rightarrow>
          Some [now (armi_cmp_r c_AL rn rm), now (armi_zero rd),
                now (do { c \<leftarrow> arm_get_cond (op ir); armi_mov_i c rd 1 })]
      | OP_neq \<Rightarrow>
          Some [now (armi_cmp_r c_AL rn rm), now (armi_zero rd),
                now (do { c \<leftarrow> arm_get_cond (op ir); armi_mov_i c rd 1 })]
      | OP_gt \<Rightarrow>
          Some [now (armi_cmp_r c_AL rn rm), now (armi_zero rd),
                now (do { c \<leftarrow> arm_get_cond (op ir); armi_mov_i c rd 1 })]
      | OP_lt \<Rightarrow>
          Some [now (armi_cmp_r c_AL rn rm), now (armi_zero rd),
                now (do { c \<leftarrow> arm_get_cond (op ir); armi_mov_i c rd 1 })]
      | OP_geq \<Rightarrow>
          Some [now (armi_cmp_r c_AL rn rm), now (armi_zero rd),
                now (do { c \<leftarrow> arm_get_cond (op ir); armi_mov_i c rd 1 })]
      | OP_leq \<Rightarrow>
          Some [now (armi_cmp_r c_AL rn rm), now (armi_zero rd),
                now (do { c \<leftarrow> arm_get_cond (op ir); armi_mov_i c rd 1 })]
      | OP_negate \<Rightarrow> Some [now (armi_rsb_i c_AL rd 0 rn)]
      | OP_bit_not \<Rightarrow> Some [now (armi_mvn_r c_AL rd rn)]
      | OP_bit_and \<Rightarrow> Some [now (armi_and_r c_AL rd rn rm)]
      | OP_bit_or \<Rightarrow> Some [now (armi_or_r c_AL rd rn rm)]
      | OP_bit_xor \<Rightarrow> Some [now (armi_eor_r c_AL rd rn rm)]
      | OP_log_not \<Rightarrow>
          Some [now (armi_cmp_i c_AL rn 0), now (armi_mov_i c_NE rd 0), now (armi_mov_i c_EQ rd 1)]
      | OP_trunc \<Rightarrow>
          (if rm = 1 then Some [now (armi_and_i c_AL rd rn 0xFF)]
           else if rm = 2 then Some [word (armi_sll_amt c_AL 0 logic_ls rd rn 16),
                                     word (armi_sll_amt c_AL 0 logic_rs rd rd 16)]
           else if rm = 4 then Some [now (armi_mov_r c_AL rd rn)]
           else None)
      | OP_sign_ext \<Rightarrow>
          (let source_size = sar rm 16 AND 0xFFFF
           in if source_size = 2 then Some [now (armi_sxth c_AL rd rn 0)]
              else Some [now (armi_sxtb c_AL rd rn 0)])
      | OP_cast \<Rightarrow> Some [now (armi_mov_r c_AL rd rn)]
      | _ \<Rightarrow> None)"

text \<open>Calls and function addresses: an internal function by its entry block, an external one through its PLT entry.\<close>

definition arm_call_seq :: "cg_env \<Rightarrow> ph2_ir \<Rightarrow> emitter list option" where
  "arm_call_seq env ir =
     (case find_func env (func_name ir) of
        None \<Rightarrow> None
      | Some f \<Rightarrow>
          (case bbs f of
             b # _ \<Rightarrow> Some [(\<lambda>sz. Some (armi_bl c_AL (bb_offset env (bb_id b) - sz)))]
           | [] \<Rightarrow>
               if dynlink env
               then Some ([(\<lambda>sz. Some (armi_bl c_AL
                              ((elf_plt_start env + plt_offset f) - (elf_code_start env + sz))))]
                          @ arm_li a_r8 (elf_data_start env)
                          @ [word (armi_lw c_AL a_r12 a_r8 0)])
               else None))"

definition arm_func_addr :: "cg_env \<Rightarrow> string \<Rightarrow> cint option" where
  "arm_func_addr env nm =
     (case find_func env nm of
        None \<Rightarrow> None
      | Some f \<Rightarrow>
          (case bbs f of
             b # _ \<Rightarrow> Some (elf_code_start env + bb_offset env (bb_id b))
           | [] \<Rightarrow> if dynlink env then Some (elf_plt_start env + plt_offset f) else None))"

definition arm_address_seq :: "cint \<Rightarrow> cint \<Rightarrow> cint \<Rightarrow> emitter list" where
  "arm_address_seq interm rd k =
     (if lt_s 255 k then arm_li a_r8 k @ [now (armi_add_r c_AL rd interm a_r8)]
      else [now (armi_add_i c_AL rd interm k)])"

definition arm_mem_seq :: "(arm_cond \<Rightarrow> cint \<Rightarrow> cint \<Rightarrow> cint \<Rightarrow> cint) \<Rightarrow> cint \<Rightarrow> cint \<Rightarrow> cint \<Rightarrow> emitter list" where
  "arm_mem_seq access interm r k =
     (if lt_s 4095 k
      then arm_li a_r8 k @ [now (armi_add_r c_AL a_r8 interm a_r8), word (access c_AL r a_r8 0)]
      else [word (access c_AL r interm k)])"

text \<open>The cases from \<open>OP_define\<close> to \<open>OP_return\<close>; the others continue in \<open>arm_seq_alu\<close>.\<close>

definition arm_seq :: "cg_env \<Rightarrow> ph2_ir \<Rightarrow> emitter list option" where
  "arm_seq env ir =
     (let rd = dest ir; rn = src0 ir; rm = src1 ir
      in case op ir of
        OP_define \<Rightarrow>
          Some ([word (armi_stmdb c_AL 1 a_sp 0x4FF0)] @ arm_li a_r8 (elf_data_start env)
                @ [word (armi_lw c_AL a_r12 a_r8 0)] @ arm_li a_r8 (align_up (src0 ir) + 4)
                @ [now (armi_sub_r c_AL a_sp a_sp a_r8)])
      | OP_load_constant \<Rightarrow>
          Some (if lt_s (src0 ir) 0 then arm_li a_r8 (- src0 ir) @ [now (armi_rsb_i c_AL rd 0 a_r8)]
                else if lt_s 255 (src0 ir) then arm_li rd (src0 ir)
                else [now (armi_mov_i c_AL rd (src0 ir))])
      | OP_address_of \<Rightarrow> Some (arm_address_seq a_sp rd (src0 ir))
      | OP_global_address_of \<Rightarrow> Some (arm_address_seq a_r12 rd (src0 ir))
      | OP_assign \<Rightarrow> Some [now (armi_mov_r c_AL rd rn)]
      | OP_load \<Rightarrow> Some (arm_mem_seq armi_lw a_sp rd (src0 ir))
      | OP_global_load \<Rightarrow> Some (arm_mem_seq armi_lw a_r12 rd (src0 ir))
      | OP_store \<Rightarrow> Some (arm_mem_seq armi_sw a_sp rn (src1 ir))
      | OP_global_store \<Rightarrow> Some (arm_mem_seq armi_sw a_r12 rn (src1 ir))
      | OP_read \<Rightarrow>
          (if src1 ir = 1 then Some [word (armi_lb c_AL rd rn 0)]
           else if src1 ir = 2 then Some [now (armi_lh c_AL rd rn 0)]
           else if src1 ir = 4 then Some [word (armi_lw c_AL rd rn 0)]
           else None)
      | OP_write \<Rightarrow>
          (if dest ir = 1 then Some [word (armi_sb c_AL rm rn 0)]
           else if dest ir = 2 then Some [now (armi_sh c_AL rm rn 0)]
           else if dest ir = 4 then Some [word (armi_sw c_AL rm rn 0)]
           else None)
      | OP_branch \<Rightarrow>
          Some (now (armi_teq rn)
                # (if is_branch_detached ir
                   then [word (armi_b c_NE 8),
                         (\<lambda>sz. do { e \<leftarrow> bb_ofs env (else_bb ir); Some (armi_b c_AL (e - sz)) })]
                   else [(\<lambda>sz. do { e \<leftarrow> bb_ofs env (then_bb ir); Some (armi_b c_NE (e - sz)) })]))
      | OP_jump \<Rightarrow> Some [(\<lambda>sz. do { e \<leftarrow> bb_ofs env (next_bb ir); Some (armi_b c_AL (e - sz)) })]
      | OP_call \<Rightarrow> arm_call_seq env ir
      | OP_load_data_address \<Rightarrow> Some (arm_li rd (src0 ir + elf_data_start env))
      | OP_load_rodata_address \<Rightarrow> Some (arm_li rd (src0 ir + elf_rodata_start env))
      | OP_address_of_func \<Rightarrow>
          do { ofs \<leftarrow> arm_func_addr env (func_name ir);
               Some (arm_li a_r8 ofs @ [word (armi_sw c_AL a_r8 rn 0)]) }
      | OP_load_func \<Rightarrow> Some [now (armi_mov_r c_AL a_r8 rn)]
      | OP_indirect \<Rightarrow> Some [word (armi_blx c_AL a_r8)]
      | OP_return \<Rightarrow>
          Some ([now (if src0 ir = -1 then armi_mov_r c_AL a_r0 a_r0 else armi_mov_r c_AL a_r0 rn)]
                @ arm_li a_r8 (align_up (src1 ir) + 4)
                @ [now (armi_add_r c_AL a_sp a_sp a_r8), word (armi_ldm c_AL 1 a_sp 0x4FF0),
                   word (armi_bx c_AL a_lr)])
      | _ \<Rightarrow> arm_seq_alu env ir)"

definition arm_emit_ph2_ir :: "cg_env \<Rightarrow> ph2_ir \<Rightarrow> bytes \<Rightarrow> bytes option" where
  "arm_emit_ph2_ir env ir code =
     (case arm_seq env ir of None \<Rightarrow> None | Some es \<Rightarrow> emits es code)"

section \<open>Layout\<close>

text \<open>
  An operand that is relative to the top of the frame is made relative to the stack
  pointer; an \<open>OP_return\<close> learns the stack size of its function.
\<close>

definition arm_flat_insn :: "cint \<Rightarrow> ph2_ir \<Rightarrow> ph2_ir" where
  "arm_flat_insn ss ir =
     (let stack_top_ofs = align_up ss + 40;
          ir1 = (if ofs_based_on_stack_top ir
                 then (case op ir of
                         OP_load \<Rightarrow> ir\<lparr>src0 := src0 ir + stack_top_ofs\<rparr>
                       | OP_address_of \<Rightarrow> ir\<lparr>src0 := src0 ir + stack_top_ofs\<rparr>
                       | OP_store \<Rightarrow> ir\<lparr>src1 := src1 ir + stack_top_ofs\<rparr>
                       | _ \<Rightarrow> ir)
                 else ir)
      in if op ir = OP_return then ir1\<lparr>src1 := ss\<rparr> else ir1)"

definition arm_global_offset :: "cg_env \<Rightarrow> cint" where
  "arm_global_offset env = (if dynlink env then 100 else 112)"

definition arm_main_size :: "cg_env \<Rightarrow> cint" where
  "arm_main_size env = (if dynlink env then 28 else 32)"

definition arm_cfg_flatten :: "cg_env \<Rightarrow> cg_prog \<Rightarrow> lay option" where
  "arm_cfg_flatten env p =
     do { offs0 \<leftarrow> (if dynlink env then Some (\<lambda>_. 0)
                    else map_option (\<lambda>sys. (\<lambda>_. 0)(sys := 60)) (func_entry (find_func env) ''__syscall''));
          let l0 = \<lparr>offs = offs0(bb_id (global_bb p) := arm_global_offset env),
                    elf_off = arm_global_offset env, flat = []\<rparr>;
          o' \<leftarrow> sum_offsets (arm_update_elf_offset env) (ph2_ir_list (global_bb p)) (arm_global_offset env);
          flat_funcs (arm_update_elf_offset env) arm_flat_insn 28 (func_list p)
            (l0\<lparr>elf_off := o' + arm_main_size env\<rparr>) }"

section \<open>The text section\<close>

definition arm_dyn_start_seq :: "cg_env \<Rightarrow> emitter list" where
  "arm_dyn_start_seq env =
     [now (armi_mov_i c_AL a_r11 0),
      now (armi_mov_i c_AL a_lr 0),
      word (armi_pop_word c_AL a_r1),
      now (armi_mov_r c_AL a_r2 a_sp),
      word (armi_push_reg c_AL a_r2),
      word (armi_push_reg c_AL a_r0),
      now (armi_mov_i c_AL a_r12 0),
      word (armi_push_reg c_AL a_r12),
      (\<lambda>sz. armi_movw c_AL a_r0 (elf_code_start env + (sz + 28))),
      (\<lambda>sz. armi_movt c_AL a_r0 (elf_code_start env + (sz - 4 + 28))),
      now (armi_mov_i c_AL a_r3 0),
      (\<lambda>sz. Some (armi_bl c_AL ((elf_plt_start env + 20) - (elf_code_start env + sz)))),
      now (armi_mov_i c_AL a_r0 127),
      now (armi_mov_i c_AL a_r7 1),
      word armi_svc,
      word (armi_stmdb c_AL 1 a_sp 0x4FF0),
      now (armi_mov_r c_AL a_r9 a_r0),
      now (armi_mov_r c_AL a_r10 a_r1)]"

definition arm_start_ofs :: "cg_env \<Rightarrow> cg_prog \<Rightarrow> cint" where
  "arm_start_ofs env p =
     (if dynlink env then align_up (global_stack_size p) + 4 else align_up (global_stack_size p))"

definition arm_stack_seq :: "cg_env \<Rightarrow> cg_prog \<Rightarrow> emitter list" where
  "arm_stack_seq env p =
     arm_li a_r8 (arm_start_ofs env p)
     @ [now (armi_sub_r c_AL a_sp a_sp a_r8), now (armi_mov_r c_AL a_r12 a_sp)]
     @ arm_li a_r8 (elf_data_start env) @ [word (armi_sw c_AL a_r12 a_r8 0)]"

definition arm_static_seq :: "cg_env \<Rightarrow> cg_prog \<Rightarrow> emitter list" where
  "arm_static_seq env p =
     [(\<lambda>sz. Some (armi_bl c_AL (bb_offset env (bb_id (global_bb p)) - sz))),
      word (armi_b c_AL 56)]
     @ arm_li a_r8 (arm_start_ofs env p)
     @ [now (armi_add_r c_AL a_sp a_sp a_r8),
        now (armi_mov_r c_AL a_r0 a_r0),
        now (armi_mov_i c_AL a_r7 1),
        word armi_svc,
        word (armi_lw c_AL a_r4 a_sp 0),
        word (armi_lw c_AL a_r5 a_sp 4),
        word (armi_lw c_AL a_r6 a_sp 8),
        word (armi_lw c_AL a_r7 a_sp 12),
        now (armi_mov_r c_AL a_r7 a_r0),
        now (armi_mov_r c_AL a_r0 a_r1),
        now (armi_mov_r c_AL a_r1 a_r2),
        now (armi_mov_r c_AL a_r2 a_r3),
        now (armi_mov_r c_AL a_r3 a_r4),
        now (armi_mov_r c_AL a_r4 a_r5),
        now (armi_mov_r c_AL a_r5 a_r6),
        word armi_svc,
        word (armi_bx c_AL a_lr)]"

definition arm_start_seq :: "cg_env \<Rightarrow> cg_prog \<Rightarrow> emitter list" where
  "arm_start_seq env p =
     (if dynlink env then arm_dyn_start_seq env else []) @ arm_stack_seq env p
     @ (if dynlink env then [] else arm_static_seq env p)"

definition arm_main_seq :: "cg_env \<Rightarrow> cg_prog \<Rightarrow> bb_ref \<Rightarrow> emitter list" where
  "arm_main_seq env p m =
     (if dynlink env
      then [now (armi_mov_r c_AL a_r0 a_r9),
            now (armi_mov_r c_AL a_r1 a_r10),
            (\<lambda>sz. Some (armi_bl c_AL (bb_offset env m - sz)))]
           @ arm_li a_r8 (arm_start_ofs env p)
           @ [now (armi_add_r c_AL a_sp a_sp a_r8),
              word (armi_ldm c_AL 1 a_sp 0x8FF0)]
      else arm_li a_r8 (arm_start_ofs env p)
           @ [now (armi_add_r c_AL a_r8 a_r12 a_r8),
              word (armi_lw c_AL a_r0 a_r8 0),
              now (armi_add_i c_AL a_r1 a_r8 4),
              (\<lambda>sz. Some (armi_bl c_AL (bb_offset env m - sz))),
              now (armi_mov_i c_AL a_r7 1),
              word armi_svc])"

definition arm_code_prefix :: "cg_env \<Rightarrow> cg_prog \<Rightarrow> bytes option" where
  "arm_code_prefix env p =
     do { c1 \<leftarrow> emits (arm_start_seq env p) [];
          c2 \<leftarrow> emit_list (arm_emit_ph2_ir env) (ph2_ir_list (global_bb p)) c1;
          (case main_bb p of None \<Rightarrow> Some c2 | Some m \<Rightarrow> emits (arm_main_seq env p m) c2) }"

definition arm_code_generate :: "cg_env \<Rightarrow> cg_prog \<Rightarrow> ph2_ir list \<Rightarrow> bytes option" where
  "arm_code_generate env p fl = do { c \<leftarrow> arm_code_prefix env p; emit_list (arm_emit_ph2_ir env) fl c }"

section \<open>The procedure linkage table\<close>

definition plt_head_seq :: "cg_env \<Rightarrow> emitter list" where
  "plt_head_seq env =
     (let addr_of_got = elf_got_start env + 4 * 2
      in [word (armi_push_reg c_AL a_lr)] @ arm_li a_r10 addr_of_got
         @ [now (armi_mov_r c_AL a_lr a_r10), word (armi_lw c_AL a_pc a_lr 0)])"

definition plt_entry_seq :: "cg_env \<Rightarrow> nat \<Rightarrow> emitter list" where
  "plt_entry_seq env i =
     (let addr_of_got = elf_got_start env + 4 * (of_nat i + 3)
      in arm_li a_r12 addr_of_got @ [word (armi_lw c_AL a_pc a_r12 0)])"

function plt_entries :: "cg_env \<Rightarrow> nat \<Rightarrow> int \<Rightarrow> bytes \<Rightarrow> bytes option" where
  "plt_entries env i fin buf =
     (if int i * 12 < fin
      then (case emits (plt_entry_seq env i) buf of None \<Rightarrow> None | Some b \<Rightarrow> plt_entries env (i + 1) fin b)
      else Some buf)"
  by auto

termination plt_entries
  by (relation "measure (\<lambda>(env, i, fin, buf). nat (fin - int i * 12))") auto

declare plt_entries.simps [simp del]

definition plt_generate :: "cg_env \<Rightarrow> bytes \<Rightarrow> bytes option" where
  "plt_generate env elf_plt =
     do { b \<leftarrow> emits (plt_head_seq env) elf_plt;
          plt_entries env 0 (sint (plt_size env) - 20) b }"

end
