(* ===== verification/ArmLayout.thy ===== *)
theory ArmLayout
  imports ArmCodegen
begin

text \<open>
  The ARM back end meets the layout contract for every instruction but one: an
  \<open>OP_assign\<close> from a register to itself is counted as no bytes and emitted as one word.
  For programs without such an instruction, \<open>elf_offset\<close> of every block is the position
  of its code.
\<close>

definition arm_ok :: "ph2_ir \<Rightarrow> bool" where
  "arm_ok ir \<longleftrightarrow> (op ir = OP_assign \<longrightarrow> dest ir \<noteq> src0 ir)"

lemma arm_li_length [simp]: "length (arm_li r v) = 2"
  by (simp add: arm_li_def)

lemma arm_divmod_seq_length [simp]: "length (arm_divmod_seq m rd rn rm) = 29"
  by (simp add: arm_divmod_seq_def Let_def)

lemma arm_address_seq_length:
  "length (arm_address_seq interm rd k) = (if lt_s 255 k then 3 else 1)"
  by (simp add: arm_address_seq_def)

lemma arm_mem_seq_length: "length (arm_mem_seq acc interm r k) = (if lt_s 4095 k then 4 else 1)"
  by (simp add: arm_mem_seq_def)

lemma arm_call_seq_size:
  "arm_call_seq env ir = Some es \<Longrightarrow> find_func env (func_name ir) = Some f
   \<Longrightarrow> length es = (if bbs f \<noteq> [] then 1 else 4)"
  by (auto simp: arm_call_seq_def split: list.splits if_splits)

lemma arm_seq_size:
  assumes "arm_ok ir" "arm_seq env ir = Some es" "arm_update_elf_offset env ir o1 = Some o2"
  shows "o2 = o1 + 4 * of_nat (length es)"
  using assms
  by (cases "op ir")
    (auto simp: arm_ok_def arm_seq_def arm_seq_alu_def arm_update_elf_offset_def Let_def
        arm_address_seq_length arm_mem_seq_length
      dest: arm_call_seq_size split: if_splits bind_splits option.splits)

lemma arm_emit_size:
  assumes "arm_ok ir" "arm_emit_ph2_ir env ir c = Some c'" "arm_update_elf_offset env ir o1 = Some o2"
  shows "code_size c' = code_size c + (o2 - o1)"
proof -
  obtain es where es: "arm_seq env ir = Some es" "emits es c = Some c'"
    using assms(2) by (auto simp: arm_emit_ph2_ir_def split: option.splits)
  then show ?thesis
    using arm_seq_size [OF assms(1) es(1) assms(3)] emits_length [OF es(2)] by (simp add: code_size_def)
qed

lemma arm_define_size:
  assumes "op ir = OP_define" "arm_emit_ph2_ir env ir c = Some c'"
  shows "code_size c' = code_size c + 28"
proof -
  obtain es where es: "arm_seq env ir = Some es" "emits es c = Some c'"
    using assms(2) by (auto simp: arm_emit_ph2_ir_def split: option.splits)
  then have "length es = 7"
    using assms(1) by (auto simp: arm_seq_def Let_def)
  then show ?thesis
    using emits_length [OF es(2)] by (simp add: code_size_def)
qed

lemma arm_update_env: "arm_update_elf_offset (env\<lparr>bb_offset := x\<rparr>) = arm_update_elf_offset env"
proof (intro ext)
  fix ir o1
  show "arm_update_elf_offset (env\<lparr>bb_offset := x\<rparr>) ir o1 = arm_update_elf_offset env ir o1"
    by (cases "op ir"; simp add: arm_update_elf_offset_def)
qed

interpretation arml: code_layout "arm_update_elf_offset env" "arm_emit_ph2_ir env" arm_flat_insn 28
  arm_ok for env
  by unfold_locales ((rule arm_emit_size; assumption) | (rule arm_define_size; assumption))+

lemma arm_start_length: "4 * of_nat (length (arm_start_seq env p)) = arm_global_offset env"
  by (simp add: arm_start_seq_def arm_dyn_start_seq_def arm_stack_seq_def arm_static_seq_def arm_global_offset_def)

lemma arm_main_length: "4 * of_nat (length (arm_main_seq env p m)) = arm_main_size env"
  by (simp add: arm_main_seq_def arm_main_size_def)

lemma arm_prefix_size:
  assumes "arm_code_prefix env p = Some c" "main_bb p = Some m"
    and "sum_offsets (arm_update_elf_offset env) (ph2_ir_list (global_bb p)) (arm_global_offset env) = Some o1"
    and "\<forall>ir\<in>set (ph2_ir_list (global_bb p)). arm_ok ir"
  shows "code_size c = o1 + arm_main_size env"
proof -
  obtain c1 c2 where c1: "emits (arm_start_seq env p) [] = Some c1"
    and c2: "emit_list (arm_emit_ph2_ir env) (ph2_ir_list (global_bb p)) c1 = Some c2"
    and c: "emits (arm_main_seq env p m) c2 = Some c"
    using assms(1,2) by (auto simp: arm_code_prefix_def split: bind_splits)
  have "code_size c1 = arm_global_offset env"
    using emits_length [OF c1] arm_start_length [of env p] by (simp add: code_size_def)
  moreover have "code_size c2 = code_size c1 + (o1 - arm_global_offset env)"
    using arml.sum_offsets_emit [OF assms(4,3) c2] .
  moreover have "code_size c = code_size c2 + arm_main_size env"
    using emits_length [OF c] arm_main_length [of env p m] by (simp add: code_size_def)
  ultimately show ?thesis by simp
qed

definition arm_block_ids :: "cg_prog \<Rightarrow> bb_ref list" where
  "arm_block_ids p = concat (map func_bb_ids (func_list p))"

text \<open>No assignment of a register to itself reaches the generator.\<close>

definition arm_prog_ok :: "cg_prog \<Rightarrow> bool" where
  "arm_prog_ok p \<longleftrightarrow> list_all arm_ok (ph2_ir_list (global_bb p))
     \<and> list_all (\<lambda>f. list_all (\<lambda>b. list_all (\<lambda>ir. arm_ok (arm_flat_insn (stack_size f) ir))
          (ph2_ir_list b)) (bbs f)) (func_list p)"

text \<open>
  C3. Block layout of the ARM back end, static and dynamic: as for RISC-V, the code of every
  block starts exactly \<open>b->elf_offset\<close> bytes into the text section, provided no
  \<open>OP_assign\<close> has the same source and destination.
\<close>

theorem arm_layout_correct:
  assumes "arm_cfg_flatten env p = Some l"
    and "env' = env\<lparr>bb_offset := offs l\<rparr>"
    and "main_bb p = Some m" and "arm_prog_ok p"
    and "arm_code_generate env' p (flat l) = Some code"
    and "distinct (arm_block_ids p)"
    and "func_list p = fs1 @ f # fs2" and "bbs f = bs1 @ b # bs2"
  shows "\<exists>pre post c0 c.
      flat l = pre @ (if bs1 = [] then [define_ir f] else [])
        @ map (arm_flat_insn (stack_size f)) (ph2_ir_list b) @ post
      \<and> arm_code_prefix env' p = Some c0
      \<and> emit_list (arm_emit_ph2_ir env') pre c0 = Some c
      \<and> code_size c = bb_offset env' (bb_id b)"
proof -
  have g: "arm_global_offset env' = arm_global_offset env" "arm_main_size env' = arm_main_size env"
    using assms(2) by (simp_all add: arm_global_offset_def arm_main_size_def)
  have upd: "arm_update_elf_offset env' = arm_update_elf_offset env"
    using assms(2) arm_update_env by simp
  obtain os o1 where o1: "sum_offsets (arm_update_elf_offset env') (ph2_ir_list (global_bb p))
        (arm_global_offset env') = Some o1"
    and fl: "flat_funcs (arm_update_elf_offset env') arm_flat_insn 28 (func_list p)
      \<lparr>offs = os, elf_off = o1 + arm_main_size env', flat = []\<rparr> = Some l"
    using assms(1) unfolding upd g by (auto simp: arm_cfg_flatten_def Let_def split: bind_splits if_splits)
  obtain c0 where c0: "arm_code_prefix env' p = Some c0"
    and em: "emit_list (arm_emit_ph2_ir env') (flat l) c0 = Some code"
    using assms(5) by (auto simp: arm_code_generate_def split: bind_splits)
  have ok: "\<forall>ir\<in>set (ph2_ir_list (global_bb p)). arm_ok ir"
    "\<forall>g\<in>set (func_list p). \<forall>b\<in>set (bbs g). \<forall>ir\<in>set (ph2_ir_list b). arm_ok (arm_flat_insn (stack_size g) ir)"
    using assms(4) by (auto simp: arm_prog_ok_def list_all_iff)
  have sz: "code_size c0 = o1 + arm_main_size env'"
    by (rule arm_prefix_size [OF c0 assms(3) o1 ok(1)])
  have tr: "arml.tracks env' c0 0 \<lparr>offs = os, elf_off = o1 + arm_main_size env', flat = []\<rparr>"
    by (simp add: arml.tracks_def sz)
  show ?thesis
    using arml.block_offset [OF fl [unfolded assms(7)] assms(8) tr ok(2) [unfolded assms(7)] _ em] c0
      assms(2,6)
    by (auto simp: arm_block_ids_def assms(7))
qed

end
