(* ===== verification/ArmProps.thy ===== *)
theory ArmProps
  imports ArmLayout Samples
begin

text \<open>Instances of the ARM layout theorem.\<close>

lemma arm_layout_correct_witness:
  "\<exists>l c0 pre c. arm_cfg_flatten env_l prog0 = Some l
     \<and> arm_code_prefix (env_l\<lparr>bb_offset := offs l\<rparr>) prog0 = Some c0
     \<and> emit_list (arm_emit_ph2_ir (env_l\<lparr>bb_offset := offs l\<rparr>)) pre c0 = Some c
     \<and> code_size c = bb_offset (env_l\<lparr>bb_offset := offs l\<rparr>) 2"
proof -
  let ?l = "the (arm_cfg_flatten env_l prog0)" and ?f = "hd (func_list prog0)"
  let ?env = "env_l\<lparr>bb_offset := offs ?l\<rparr>"
  have "map_option (\<lambda>_. ()) (arm_cfg_flatten env_l prog0) = Some ()"
    by code_simp
  then have l: "arm_cfg_flatten env_l prog0 = Some ?l"
    by auto
  have "map_option (\<lambda>_. ()) (arm_code_generate ?env prog0 (flat ?l)) = Some ()"
    by code_simp
  then obtain code where code: "arm_code_generate ?env prog0 (flat ?l) = Some code"
    by auto
  have d: "distinct (arm_block_ids prog0)" "arm_prog_ok prog0"
    by code_simp+
  have p: "main_bb prog0 = Some 1" "func_list prog0 = [] @ ?f # []" "bbs ?f = [hd (bbs ?f)] @ bbs ?f ! 1 # []"
    "bb_id (bbs ?f ! 1) = 2"
    by (simp_all add: prog0_def main0_def)
  from arm_layout_correct [OF l refl p(1) d(2) code d(1) p(2,3)] show ?thesis
    unfolding p(4) using l by blast
qed

end
