(* ===== verification/Peephole.thy ===== *)
theory Peephole
  imports Ir
begin

text \<open>
  The peephole optimizer, \<^verbatim>\<open>src/peephole.c\<close>. A rule looks at the instruction list
  from the current instruction on; its value is the list it leaves when it fires and
  \<open>None\<close> when it returns \<open>false\<close>. \<open>ph2_ir->next = next->next\<close> drops the second
  instruction of the list.
\<close>

text \<open>The first rule of a sequence of early returns that fires.\<close>

fun or_else :: "'a option \<Rightarrow> 'a option \<Rightarrow> 'a option" where
  "or_else (Some x) y = Some x"
| "or_else None y = y"

lemma or_else_Some: "or_else x y = Some z \<longleftrightarrow> x = Some z \<or> x = None \<and> y = Some z"
  by (cases x) auto

section \<open>Instruction fusion\<close>

definition is_fusible_insn :: "ph2_ir \<Rightarrow> bool" where
  "is_fusible_insn ir =
     (case op ir of
        OP_add \<Rightarrow> True | OP_sub \<Rightarrow> True | OP_mul \<Rightarrow> True | OP_div \<Rightarrow> True | OP_mod \<Rightarrow> True
      | OP_lshift \<Rightarrow> True | OP_rshift \<Rightarrow> True
      | OP_bit_and \<Rightarrow> True | OP_bit_or \<Rightarrow> True | OP_bit_xor \<Rightarrow> True
      | OP_log_and \<Rightarrow> True | OP_log_or \<Rightarrow> True | OP_log_not \<Rightarrow> True
      | OP_negate \<Rightarrow> True
      | OP_load \<Rightarrow> True | OP_global_load \<Rightarrow> True
      | OP_load_data_address \<Rightarrow> True | OP_load_rodata_address \<Rightarrow> True
      | _ \<Rightarrow> False)"

text \<open>\<open>while (tmp > 1) { tmp >>= 1; shift_amount++; }\<close>\<close>

function log2_loop :: "cint \<Rightarrow> cint \<Rightarrow> cint" where
  "log2_loop tmp shift_amount =
     (if lt_s 1 tmp then log2_loop (sar tmp 1) (shift_amount + 1) else shift_amount)"
  by auto

lemma sar1_less: "lt_s 1 tmp \<Longrightarrow> nat (sint (sar tmp 1)) < nat (sint tmp)"
proof -
  assume "lt_s 1 tmp"
  then have "1 < sint tmp"
    by (simp add: lt_s_sint)
  moreover have "sint (sar tmp 1) = sint tmp div 2"
    by (simp add: sint_signed_drop_bit_eq drop_bit_eq_div del: One_nat_def)
  ultimately show ?thesis
    by linarith
qed

termination log2_loop
proof (relation "measure (\<lambda>p. nat (sint (fst p)))")
  fix tmp shift_amount :: cint
  assume "lt_s 1 tmp"
  then show "((sar tmp 1, shift_amount + 1), (tmp, shift_amount)) \<in> measure (\<lambda>p. nat (sint (fst p)))"
    by (simp only: in_measure fst_conv sar1_less)
qed simp

declare log2_loop.simps [simp del]

text \<open>\<open>{ALU rn, ...; mv rd, rn}\<close> becomes \<open>{ALU rd, ...}\<close>.\<close>

definition fuse_move :: "ph2_ir \<Rightarrow> ph2_ir \<Rightarrow> ph2_ir list \<Rightarrow> ph2_ir list option" where
  "fuse_move ir nxt rest =
     (if op nxt = OP_assign \<and> is_fusible_insn ir \<and> dest ir = src0 nxt
      then Some (ir\<lparr>dest := dest nxt\<rparr> # rest) else None)"

definition fold_to_move :: "ph2_ir \<Rightarrow> ph2_ir \<Rightarrow> cint \<Rightarrow> ph2_ir list \<Rightarrow> ph2_ir list option" where
  "fold_to_move ir nxt x rest = Some (ir\<lparr>op := OP_assign, src0 := x, dest := dest nxt\<rparr> # rest)"

text \<open>Arithmetic identities with the constant zero.\<close>

definition fuse_zero :: "ph2_ir \<Rightarrow> ph2_ir \<Rightarrow> ph2_ir list \<Rightarrow> ph2_ir list option" where
  "fuse_zero ir nxt rest =
     (if \<not> (op ir = OP_load_constant \<and> src0 ir = 0) then None
      else if op nxt = OP_add \<and> (dest ir = src0 nxt \<or> dest ir = src1 nxt)
      then fold_to_move ir nxt (if dest ir = src0 nxt then src1 nxt else src0 nxt) rest
      else if op nxt = OP_sub \<and> dest ir = src1 nxt
      then fold_to_move ir nxt (src0 nxt) rest
      else if op nxt = OP_sub \<and> dest ir = src0 nxt
      then Some (ir\<lparr>op := OP_negate, src0 := src1 nxt, dest := dest nxt\<rparr> # rest)
      else if op nxt = OP_mul \<and> (dest ir = src0 nxt \<or> dest ir = src1 nxt)
      then Some (ir\<lparr>op := OP_load_constant, src0 := 0, dest := dest nxt\<rparr> # rest)
      else None)"

text \<open>Multiplication by one, in either operand.\<close>

definition fuse_one :: "ph2_ir \<Rightarrow> ph2_ir \<Rightarrow> ph2_ir list \<Rightarrow> ph2_ir list option" where
  "fuse_one ir nxt rest =
     (if op ir = OP_load_constant \<and> src0 ir = 1 \<and> op nxt = OP_mul
         \<and> (dest ir = src0 nxt \<or> dest ir = src1 nxt)
      then fold_to_move ir nxt (if dest ir = src0 nxt then src1 nxt else src0 nxt) rest
      else None)"

text \<open>And with all ones, shifts by zero, or with zero.\<close>

definition fuse_bits :: "ph2_ir \<Rightarrow> ph2_ir \<Rightarrow> ph2_ir list \<Rightarrow> ph2_ir list option" where
  "fuse_bits ir nxt rest =
     (if op ir = OP_load_constant \<and> src0 ir = -1 \<and> op nxt = OP_bit_and \<and> dest ir = src1 nxt
      then fold_to_move ir nxt (src0 nxt) rest
      else if op ir = OP_load_constant \<and> src0 ir = 0 \<and> (op nxt = OP_lshift \<or> op nxt = OP_rshift)
         \<and> dest ir = src1 nxt
      then fold_to_move ir nxt (src0 nxt) rest
      else if op ir = OP_load_constant \<and> src0 ir = 0 \<and> op nxt = OP_bit_or \<and> dest ir = src1 nxt
      then fold_to_move ir nxt (src0 nxt) rest
      else None)"

text \<open>Multiplication by a power of two becomes a shift.\<close>

definition fuse_power :: "ph2_ir \<Rightarrow> ph2_ir \<Rightarrow> ph2_ir list \<Rightarrow> ph2_ir list option" where
  "fuse_power ir nxt rest =
     (if op ir = OP_load_constant \<and> lt_s 0 (src0 ir) \<and> op nxt = OP_mul \<and> dest ir = src1 nxt
      then (let power = src0 ir
            in if power \<noteq> 0 \<and> power AND (power - 1) = 0
               then Some (ir\<lparr>op := OP_load_constant, src0 := log2_loop power 0\<rparr>
                          # nxt\<lparr>op := OP_lshift\<rparr> # rest)
               else None)
      else None)"

definition fuse_last :: "ph2_ir \<Rightarrow> ph2_ir \<Rightarrow> ph2_ir list \<Rightarrow> ph2_ir list option" where
  "fuse_last ir nxt rest =
     (if op ir = OP_load_constant \<and> src0 ir = 0 \<and> op nxt = OP_bit_xor \<and> dest ir = src1 nxt
      then fold_to_move ir nxt (src0 nxt) rest
      else if op ir = OP_load_constant \<and> src0 ir = 1 \<and> op nxt = OP_mul \<and> dest ir = src0 nxt
      then fold_to_move ir nxt (src1 nxt) rest
      else None)"

fun insn_fusion :: "ph2_ir list \<Rightarrow> ph2_ir list option" where
  "insn_fusion (ir # nxt # rest) =
     or_else (fuse_move ir nxt rest) (or_else (fuse_zero ir nxt rest) (or_else (fuse_one ir nxt rest)
       (or_else (fuse_bits ir nxt rest) (or_else (fuse_power ir nxt rest) (fuse_last ir nxt rest)))))"
| "insn_fusion _ = None"

section \<open>Redundant moves\<close>

definition is_load :: "ph2_ir \<Rightarrow> bool" where
  "is_load ir \<longleftrightarrow> op ir = OP_load \<or> op ir = OP_global_load"

fun redundant_move_elim :: "ph2_ir list \<Rightarrow> ph2_ir list option" where
  "redundant_move_elim (ir # nxt # rest) =
     (if op ir = OP_assign \<and> op nxt = OP_assign \<and> dest ir = dest nxt
      then Some (ir\<lparr>src0 := src0 nxt\<rparr> # rest)
      else if is_load ir \<and> op nxt = OP_assign \<and> dest ir = dest nxt
      then Some (ir\<lparr>op := OP_assign, src0 := src0 nxt, src1 := 0\<rparr> # rest)
      else if op ir = OP_load_constant \<and> op nxt = OP_assign \<and> dest ir = dest nxt
      then Some (ir\<lparr>op := OP_assign, src0 := src0 nxt\<rparr> # rest)
      else if is_load ir \<and> is_load nxt \<and> dest ir = dest nxt
      then Some (ir\<lparr>op := op nxt, src0 := src0 nxt, src1 := src1 nxt\<rparr> # rest)
      else if op ir = OP_load_constant \<and> op nxt = OP_load_constant \<and> dest ir = dest nxt
      then Some (ir\<lparr>src0 := src0 nxt\<rparr> # rest)
      else if op ir = OP_assign \<and> is_load nxt \<and> dest ir = dest nxt
      then Some (ir\<lparr>op := op nxt, src0 := src0 nxt, src1 := src1 nxt\<rparr> # rest)
      else if op ir = OP_assign \<and> op nxt = OP_load_constant \<and> dest ir = dest nxt
      then Some (ir\<lparr>op := OP_load_constant, src0 := src0 nxt, src1 := 0\<rparr> # rest)
      else None)"
| "redundant_move_elim _ = None"

section \<open>Loads and stores\<close>

fun eliminate_load_store_pairs :: "ph2_ir list \<Rightarrow> ph2_ir list option" where
  "eliminate_load_store_pairs (ir # nxt # rest) =
     (if op ir = OP_store \<and> op nxt = OP_store
         \<and> src0 ir = src0 nxt \<and> src1 ir = src1 nxt \<and> le_s 0 (src0 ir) \<and> le_s 0 (src1 ir)
      then Some (ir\<lparr>dest := dest nxt\<rparr> # rest)
      else if op ir = OP_load \<and> op nxt = OP_load
         \<and> src0 ir = src0 nxt \<and> src1 ir = src1 nxt \<and> le_s 0 (src0 ir) \<and> le_s 0 (src1 ir)
      then Some (ir # nxt\<lparr>op := OP_assign, src0 := dest ir, src1 := 0\<rparr> # rest)
      else if op ir = OP_store \<and> op nxt = OP_load
         \<and> src0 ir = src0 nxt \<and> src1 ir = src1 nxt \<and> le_s 0 (src0 ir) \<and> le_s 0 (dest ir)
      then Some (ir # nxt\<lparr>op := OP_assign, src0 := dest ir, src1 := 0\<rparr> # rest)
      else if op ir = OP_load \<and> op nxt = OP_store
         \<and> dest ir = dest nxt \<and> src0 ir = src0 nxt \<and> src1 ir = src1 nxt \<and> le_s 0 (src0 ir)
      then Some (ir # rest)
      else if op ir = OP_global_store \<and> op nxt = OP_global_store
         \<and> src0 ir = src0 nxt \<and> src1 ir = src1 nxt
      then Some (ir\<lparr>dest := dest nxt\<rparr> # rest)
      else if op ir = OP_global_load \<and> op nxt = OP_global_load
         \<and> src0 ir = src0 nxt \<and> src1 ir = src1 nxt
      then Some (ir # nxt\<lparr>op := OP_assign, src0 := dest ir, src1 := 0\<rparr> # rest)
      else None)"
| "eliminate_load_store_pairs _ = None"

section \<open>Single instructions\<close>

fun algebraic_simplification :: "ph2_ir list \<Rightarrow> ph2_ir list option" where
  "algebraic_simplification (ir # rest) =
     (if op ir = OP_sub \<and> src0 ir = src1 ir
      then Some (ir\<lparr>op := OP_load_constant, src0 := 0, src1 := 0\<rparr> # rest)
      else if op ir = OP_bit_xor \<and> src0 ir = src1 ir
      then Some (ir\<lparr>op := OP_load_constant, src0 := 0, src1 := 0\<rparr> # rest)
      else if op ir = OP_bit_or \<and> src0 ir = src1 ir
      then Some (ir\<lparr>op := OP_assign, src1 := 0\<rparr> # rest)
      else if op ir = OP_bit_and \<and> src0 ir = src1 ir
      then Some (ir\<lparr>op := OP_assign, src1 := 0\<rparr> # rest)
      else None)"
| "algebraic_simplification [] = None"

fun comparison_optimization :: "ph2_ir list \<Rightarrow> ph2_ir list option" where
  "comparison_optimization (ir # rest) =
     (if op ir = OP_neq \<and> src0 ir = src1 ir
      then Some (ir\<lparr>op := OP_load_constant, src0 := 0, src1 := 0\<rparr> # rest)
      else if op ir = OP_eq \<and> src0 ir = src1 ir
      then Some (ir\<lparr>op := OP_load_constant, src0 := 1, src1 := 0\<rparr> # rest)
      else if op ir = OP_lt \<and> src0 ir = src1 ir
      then Some (ir\<lparr>op := OP_load_constant, src0 := 0, src1 := 0\<rparr> # rest)
      else if op ir = OP_gt \<and> src0 ir = src1 ir
      then Some (ir\<lparr>op := OP_load_constant, src0 := 0, src1 := 0\<rparr> # rest)
      else if op ir = OP_leq \<and> src0 ir = src1 ir
      then Some (ir\<lparr>op := OP_load_constant, src0 := 1, src1 := 0\<rparr> # rest)
      else if op ir = OP_geq \<and> src0 ir = src1 ir
      then Some (ir\<lparr>op := OP_load_constant, src0 := 1, src1 := 0\<rparr> # rest)
      else None)"
| "comparison_optimization [] = None"

section \<open>Strength reduction\<close>

fun strength_reduction :: "ph2_ir list \<Rightarrow> ph2_ir list option" where
  "strength_reduction (ir # nxt # rest) =
     (if op ir \<noteq> OP_load_constant then None
      else let val = src0 ir
      in if le_s val 0 \<or> val AND (val - 1) \<noteq> 0 then None
      else let sh = log2_loop val 0
      in if op nxt = OP_div \<and> src1 nxt = dest ir
         then Some (ir\<lparr>src0 := sh\<rparr> # nxt\<lparr>op := OP_rshift\<rparr> # rest)
         else if op nxt = OP_mod \<and> src1 nxt = dest ir
         then Some (ir\<lparr>src0 := val - 1\<rparr> # nxt\<lparr>op := OP_bit_and\<rparr> # rest)
         else if op nxt = OP_mul \<and> src0 nxt = dest ir
         then Some (ir\<lparr>src0 := sh\<rparr>
                    # nxt\<lparr>op := OP_lshift, src0 := src1 nxt, src1 := dest ir\<rparr> # rest)
         else if op nxt = OP_mul \<and> src1 nxt = dest ir
         then Some (ir\<lparr>src0 := sh\<rparr> # nxt\<lparr>op := OP_lshift\<rparr> # rest)
         else None)"
| "strength_reduction _ = None"

section \<open>Bitwise patterns\<close>

text \<open>
  Patterns 2 to 7 change the second instruction and then drop it from the list, as the
  code does.
\<close>

fun bitwise_optimization :: "ph2_ir list \<Rightarrow> ph2_ir list option" where
  "bitwise_optimization (ir # nxt # rest) =
     (if op ir = OP_negate \<and> op nxt = OP_negate \<and> src0 nxt = dest ir
      then Some (ir\<lparr>op := OP_assign, dest := dest nxt\<rparr> # rest)
      else if op ir = OP_load_constant \<and> src0 ir = -1 \<and> op nxt = OP_bit_and \<and> src1 nxt = dest ir
      then Some (ir # rest)
      else if op ir = OP_load_constant \<and> src0 ir = 0 \<and> op nxt = OP_bit_or \<and> src1 nxt = dest ir
      then Some (ir # rest)
      else if op ir = OP_load_constant \<and> src0 ir = 0 \<and> op nxt = OP_bit_xor \<and> src1 nxt = dest ir
      then Some (ir # rest)
      else if op ir = OP_load_constant \<and> src0 ir = 0 \<and> op nxt = OP_bit_and
         \<and> (src0 nxt = dest ir \<or> src1 nxt = dest ir)
      then Some (ir # rest)
      else if op ir = OP_load_constant \<and> src0 ir = -1 \<and> op nxt = OP_bit_or
         \<and> (src0 nxt = dest ir \<or> src1 nxt = dest ir)
      then Some (ir # rest)
      else if op ir = OP_load_constant \<and> src0 ir = 0 \<and> (op nxt = OP_lshift \<or> op nxt = OP_rshift)
         \<and> src1 nxt = dest ir
      then Some (ir # rest)
      else None)"
| "bitwise_optimization _ = None"

section \<open>Windows of three\<close>

fun triple_pattern_optimization :: "ph2_ir list \<Rightarrow> ph2_ir list option" where
  "triple_pattern_optimization (ir # second # third # rest) =
     (if op ir = OP_store \<and> op second = OP_load \<and> op third = OP_store
         \<and> src1 ir = src0 second \<and> dest ir = src1 second
         \<and> src0 second = src1 third \<and> src1 second = dest third
         \<and> src0 third \<noteq> dest second
      then Some (ir # third # rest)
      else if op ir = OP_store \<and> op second = OP_store \<and> op third = OP_store
         \<and> src1 ir = src1 second \<and> dest ir = dest second
         \<and> src1 second = src1 third \<and> dest second = dest third
      then Some (ir\<lparr>src0 := src0 third\<rparr> # rest)
      else None)"
| "triple_pattern_optimization _ = None"

section \<open>The driver\<close>

text \<open>One iteration of the loop over a block, at an instruction that has a successor.\<close>

definition peep_rules :: "ph2_ir list \<Rightarrow> ph2_ir list option" where
  "peep_rules irs =
     or_else (triple_pattern_optimization irs) (or_else (insn_fusion irs)
       (or_else (comparison_optimization irs) (or_else (strength_reduction irs)
         (or_else (algebraic_simplification irs) (or_else (bitwise_optimization irs)
           (or_else (redundant_move_elim irs) (eliminate_load_store_pairs irs)))))))"

fun peep_step :: "ph2_ir list \<Rightarrow> ph2_ir list" where
  "peep_step (ir # nxt # rest) =
     (if op nxt = OP_assign \<and> dest nxt = src0 nxt then ir # rest
      else case peep_rules (ir # nxt # rest) of None \<Rightarrow> ir # nxt # rest | Some irs \<Rightarrow> irs)"
| "peep_step irs = irs"

text \<open>No rule lengthens the list, and none empties it.\<close>

lemmas rule_defs = insn_fusion.simps fuse_move_def fold_to_move_def fuse_zero_def fuse_one_def
  fuse_bits_def fuse_power_def fuse_last_def

lemma insn_fusion_length: "insn_fusion irs = Some irs' \<Longrightarrow> irs' \<noteq> [] \<and> length irs' \<le> length irs"
  by (cases irs rule: insn_fusion.cases)
    (auto simp: or_else_Some rule_defs Let_def split: if_split_asm)

lemma redundant_move_elim_length:
  "redundant_move_elim irs = Some irs' \<Longrightarrow> irs' \<noteq> [] \<and> length irs' \<le> length irs"
  by (cases irs rule: redundant_move_elim.cases) (auto split: if_split_asm)

lemma eliminate_load_store_pairs_length:
  "eliminate_load_store_pairs irs = Some irs' \<Longrightarrow> irs' \<noteq> [] \<and> length irs' \<le> length irs"
  by (cases irs rule: eliminate_load_store_pairs.cases) (auto split: if_split_asm)

lemma single_length:
  "algebraic_simplification irs = Some irs' \<Longrightarrow> irs' \<noteq> [] \<and> length irs' \<le> length irs"
  "comparison_optimization irs = Some irs' \<Longrightarrow> irs' \<noteq> [] \<and> length irs' \<le> length irs"
  by (cases irs; auto split: if_split_asm)+

lemma strength_reduction_length:
  "strength_reduction irs = Some irs' \<Longrightarrow> irs' \<noteq> [] \<and> length irs' \<le> length irs"
  by (cases irs rule: strength_reduction.cases) (auto simp: Let_def split: if_split_asm)

lemma bitwise_optimization_length:
  "bitwise_optimization irs = Some irs' \<Longrightarrow> irs' \<noteq> [] \<and> length irs' \<le> length irs"
  by (cases irs rule: bitwise_optimization.cases) (auto split: if_split_asm)

lemma triple_pattern_optimization_length:
  "triple_pattern_optimization irs = Some irs' \<Longrightarrow> irs' \<noteq> [] \<and> length irs' \<le> length irs"
  by (cases irs rule: triple_pattern_optimization.cases) (auto split: if_split_asm)

lemmas rule_lengths = triple_pattern_optimization_length insn_fusion_length single_length
  strength_reduction_length bitwise_optimization_length redundant_move_elim_length
  eliminate_load_store_pairs_length

lemma peep_rules_length: "peep_rules irs = Some irs' \<Longrightarrow> irs' \<noteq> [] \<and> length irs' \<le> length irs"
  unfolding peep_rules_def or_else_Some by (elim disjE conjE) (erule rule_lengths)+

lemma peep_step_length: "irs \<noteq> [] \<Longrightarrow> peep_step irs \<noteq> [] \<and> length (peep_step irs) \<le> length irs"
  by (cases irs rule: peep_step.cases) (auto split: option.split dest: peep_rules_length)

text \<open>The loop over a block: \<open>ir = ir->next\<close> on the list as the iteration left it.\<close>

function peep :: "ph2_ir list \<Rightarrow> ph2_ir list" where
  "peep [] = []"
| "peep (ir # irs) = hd (peep_step (ir # irs)) # peep (tl (peep_step (ir # irs)))"
  by pat_completeness auto

termination peep
proof (relation "measure length")
  fix ir :: ph2_ir and irs
  show "(tl (peep_step (ir # irs)), ir # irs) \<in> measure length"
    using peep_step_length [of "ir # irs"] by (cases "peep_step (ir # irs)") auto
qed simp

declare peep.simps(2) [simp del]

definition peephole :: "func list \<Rightarrow> func list" where
  "peephole func_list =
     map (\<lambda>fn. fn\<lparr>bbs := map (\<lambda>bb. bb\<lparr>ph2_ir_list := peep (ph2_ir_list bb)\<rparr>) (bbs fn)\<rparr>) func_list"

end
