(* ===== verification/PeepSem.thy ===== *)
theory PeepSem
  imports Ph2Sem
begin

text \<open>
  What a rewriting of a basic block must preserve. The block is run by \<open>prun\<close>: the
  straight-line instructions as in \<open>ph2_step\<close>, with the frame-top relative operands of
  \<open>ofs_based_on_stack_top\<close> instructions resolved and the data sections placed, and every
  other instruction (calls, control transfers) by an arbitrary function of the context.
  Two blocks are equivalent for the registers \<open>L\<close> that are live at the end when every
  defined run of the first is matched by a run of the second that agrees on \<open>L\<close>, the
  pointers and memory.
\<close>

section \<open>Running a block\<close>

record pctx =
  stack_top :: cint
  data_base :: cint
  rodata_base :: cint
  other :: "ph2_ir \<Rightarrow> ph2_state \<Rightarrow> ph2_state option"

definition is_straight :: "opcode \<Rightarrow> bool" where
  "is_straight oc \<longleftrightarrow> is_mem oc \<or> is_bin oc \<or> is_un oc \<or> oc = OP_load_data_address
     \<or> oc = OP_load_rodata_address"

definition rebase :: "cint \<Rightarrow> ph2_ir \<Rightarrow> ph2_ir" where
  "rebase st ir =
     (if ofs_based_on_stack_top ir
      then (if op ir = OP_load \<or> op ir = OP_address_of then ir\<lparr>src0 := src0 ir + st\<rparr>
            else if op ir = OP_store then ir\<lparr>src1 := src1 ir + st\<rparr> else ir)
      else ir)"

definition pstep :: "pctx \<Rightarrow> ph2_ir \<Rightarrow> ph2_state \<Rightarrow> ph2_state option" where
  "pstep c ir s =
     (if op ir = OP_load_data_address then Some (set_reg (dest ir) (data_base c + src0 ir) s)
      else if op ir = OP_load_rodata_address then Some (set_reg (dest ir) (rodata_base c + src0 ir) s)
      else if is_straight (op ir) then ph2_step (rebase (stack_top c) ir) s
      else other c ir s)"

fun prun :: "pctx \<Rightarrow> ph2_ir list \<Rightarrow> ph2_state \<Rightarrow> ph2_state option" where
  "prun c [] s = Some s"
| "prun c (ir # irs) s = (case pstep c ir s of None \<Rightarrow> None | Some t \<Rightarrow> prun c irs t)"

section \<open>Registers read and written\<close>

definition reads :: "ph2_ir \<Rightarrow> cint \<Rightarrow> bool" where
  "reads ir r \<longleftrightarrow>
     (is_bin (op ir) \<and> (src0 ir = r \<or> src1 ir = r)) \<or> (is_un (op ir) \<and> src0 ir = r)
     \<or> (op ir \<in> {OP_store, OP_global_store, OP_read} \<and> src0 ir = r)
     \<or> (op ir = OP_write \<and> (src0 ir = r \<or> src1 ir = r))"

definition writes :: "ph2_ir \<Rightarrow> bool" where
  "writes ir \<longleftrightarrow> op ir \<notin> {OP_store, OP_global_store, OP_write}"

text \<open>
  \<open>dead L r irs\<close>: register \<open>r\<close> is overwritten before anything in \<open>irs\<close> can read
  it, or is not in the live-out set \<open>L\<close>. An instruction outside the straight-line ones
  counts as reading every register.
\<close>

fun dead :: "cint list \<Rightarrow> cint \<Rightarrow> ph2_ir list \<Rightarrow> bool" where
  "dead L r [] \<longleftrightarrow> r \<notin> set L"
| "dead L r (ir # irs) \<longleftrightarrow>
     is_straight (op ir) \<and> \<not> reads ir r \<and> (writes ir \<and> dest ir = r \<or> dead L r irs)"

section \<open>Agreement of states\<close>

definition agree_except :: "cint set \<Rightarrow> ph2_state \<Rightarrow> ph2_state \<Rightarrow> bool" where
  "agree_except D s t \<longleftrightarrow> (\<forall>r. r \<notin> D \<longrightarrow> reg t r = reg s r) \<and> spv t = spv s \<and> gpv t = gpv s
     \<and> pmem t = pmem s"

lemma agree_refl [simp]: "agree_except D s s"
  by (simp add: agree_except_def)

lemma agree_trans: "agree_except D s t \<Longrightarrow> agree_except D t u \<Longrightarrow> agree_except D s u"
  by (simp add: agree_except_def)

lemma agree_mono: "agree_except D s t \<Longrightarrow> D \<subseteq> D' \<Longrightarrow> agree_except D' s t"
  by (auto simp: agree_except_def)

lemma agree_empty: "agree_except {} s t \<longleftrightarrow> t = s"
  by (cases s; cases t) (auto simp: agree_except_def)

lemma agree_set_reg: "agree_except D s t \<Longrightarrow> agree_except (D - {r}) (set_reg r v s) (set_reg r v t)"
  by (auto simp: agree_except_def)

lemma rebase_same [simp]: "op (rebase st ir) = op ir" "dest (rebase st ir) = dest ir"
  by (simp_all add: rebase_def)

lemma rebase_src:
  "op ir \<notin> {OP_load, OP_address_of} \<Longrightarrow> src0 (rebase st ir) = src0 ir"
  "op ir \<noteq> OP_store \<Longrightarrow> src1 (rebase st ir) = src1 ir"
  by (auto simp: rebase_def)

lemma mem_step_agree:
  assumes "is_mem (op ir)" "agree_except D s t" "ph2_step ir s = Some s'" "\<forall>r\<in>D. \<not> reads ir r"
  shows "\<exists>t'. ph2_step ir t = Some t' \<and> agree_except (if writes ir then D - {dest ir} else D) s' t'"
proof -
  consider "op ir \<in> {OP_load_constant, OP_address_of, OP_global_address_of, OP_load, OP_global_load}"
    | "op ir \<in> {OP_store, OP_global_store}" | "op ir = OP_read" | "op ir = OP_write"
    using assms(1) by (auto simp: is_mem_def)
  then show ?thesis
  proof cases
    case 1
    then have w: "writes ir" by (auto simp: writes_def)
    from 1 assms(2,3) obtain v where "s' = set_reg (dest ir) v s" "ph2_step ir t = Some (set_reg (dest ir) v t)"
      by (elim insertE) (auto simp: ph2_step_def agree_except_def)
    then show ?thesis
      using agree_set_reg [OF assms(2)] w by auto
  next
    case 2
    then have "\<not> writes ir" "reg t (src0 ir) = reg s (src0 ir)"
      using assms(2,4) by (auto simp: writes_def reads_def agree_except_def)
    with 2 assms(2,3) show ?thesis
      by (elim insertE) (auto simp: ph2_step_def agree_except_def)
  next
    case 3
    then have r: "writes ir" "reg t (src0 ir) = reg s (src0 ir)"
      using assms(2,4) by (auto simp: writes_def reads_def agree_except_def)
    from 3 assms(2,3) obtain v where "s' = set_reg (dest ir) v s" "ph2_step ir t = Some (set_reg (dest ir) v t)"
      using r(2) by (auto simp: ph2_step_def agree_except_def split: if_split_asm)
    then show ?thesis
      using agree_set_reg [OF assms(2)] r(1) by auto
  next
    case 4
    then have "\<not> writes ir" "reg t (src0 ir) = reg s (src0 ir)" "reg t (src1 ir) = reg s (src1 ir)"
      using assms(2,4) by (auto simp: writes_def reads_def agree_except_def)
    with 4 assms(2,3) show ?thesis
      by (auto simp: ph2_step_def agree_except_def split: if_split_asm)
  qed
qed

lemma arith_step_agree:
  assumes "is_bin (op ir) \<or> is_un (op ir)" "agree_except D s t" "ph2_step ir s = Some s'"
    and "\<forall>r\<in>D. \<not> reads ir r"
  shows "\<exists>t'. ph2_step ir t = Some t' \<and> agree_except (if writes ir then D - {dest ir} else D) s' t'"
proof -
  have w: "writes ir" "\<not> is_mem (op ir)"
    using assms(1) by (auto simp: writes_def is_bin_def is_un_def is_mem_def)
  have "reg t (src0 ir) = reg s (src0 ir)" "is_bin (op ir) \<Longrightarrow> reg t (src1 ir) = reg s (src1 ir)"
    using assms(1,2,4) by (auto simp: reads_def agree_except_def)
  then obtain v where "s' = set_reg (dest ir) v s" "ph2_step ir t = Some (set_reg (dest ir) v t)"
    using assms(3) unfolding ph2_step_arith [OF w(2)] by (auto split: if_split_asm)
  then show ?thesis
    using agree_set_reg [OF assms(2)] w(1) by auto
qed

lemma reads_rebase [simp]: "reads (rebase st ir) r = reads ir r"
  by (auto simp: reads_def rebase_def is_bin_def is_un_def)

lemma writes_rebase [simp]: "writes (rebase st ir) = writes ir"
  by (simp add: writes_def)

lemma pstep_agree:
  assumes "is_straight (op ir)" "agree_except D s t" "pstep c ir s = Some s'" "\<forall>r\<in>D. \<not> reads ir r"
  shows "\<exists>t'. pstep c ir t = Some t' \<and> agree_except (if writes ir then D - {dest ir} else D) s' t'"
proof -
  consider "op ir = OP_load_data_address \<or> op ir = OP_load_rodata_address"
    | "is_mem (op ir)" | "is_bin (op ir) \<or> is_un (op ir)"
    using assms(1) by (auto simp: is_straight_def)
  then show ?thesis
  proof cases
    case 1
    then have "writes ir"
      by (auto simp: writes_def)
    with 1 assms(3) agree_set_reg [OF assms(2)] show ?thesis
      by (auto simp: pstep_def split: if_split_asm)
  next
    case 2
    then have p: "pstep c ir u = ph2_step (rebase (stack_top c) ir) u" for u
      by (auto simp: pstep_def is_straight_def is_mem_def)
    show ?thesis
      using mem_step_agree [of "rebase (stack_top c) ir" D s t s'] 2 assms by (cases "writes ir") (simp_all add: p)
  next
    case 3
    then have p: "pstep c ir u = ph2_step (rebase (stack_top c) ir) u" for u
      by (auto simp: pstep_def is_straight_def is_bin_def is_un_def)
    show ?thesis
      using arith_step_agree [of "rebase (stack_top c) ir" D s t s'] 3 assms by (cases "writes ir") (simp_all add: p)
  qed
qed

definition agree_on :: "cint list \<Rightarrow> ph2_state \<Rightarrow> ph2_state \<Rightarrow> bool" where
  "agree_on L s t = agree_except (- set L) s t"

lemma run_dead:
  assumes "agree_except D s t" "\<forall>d\<in>D. dead L d irs" "prun c irs s = Some s'"
  shows "\<exists>t'. prun c irs t = Some t' \<and> agree_on L s' t'"
  using assms
proof (induction irs arbitrary: D s t)
  case Nil
  then show ?case
    by (auto simp: agree_on_def elim!: agree_mono)
next
  case (Cons ir irs)
  from Cons.prems(3) obtain s1 where s1: "pstep c ir s = Some s1" "prun c irs s1 = Some s'"
    by (auto split: option.split_asm)
  show ?case
  proof (cases "D = {}")
    case True
    then have "t = s"
      using Cons.prems(1) by (simp add: agree_empty)
    with Cons.prems(3) show ?thesis
      by (auto simp: agree_on_def)
  next
    case False
    then have "is_straight (op ir)" "\<forall>d\<in>D. \<not> reads ir d"
      using Cons.prems(2) by auto
    from pstep_agree [OF this(1) Cons.prems(1) s1(1) this(2)] obtain t1 where
      t1: "pstep c ir t = Some t1" "agree_except (if writes ir then D - {dest ir} else D) s1 t1"
      by blast
    have "\<forall>d\<in>(if writes ir then D - {dest ir} else D). dead L d irs"
      using Cons.prems(2) by auto
    from Cons.IH [OF t1(2) this s1(2)] t1(1) show ?thesis
      by simp
  qed
qed

section \<open>Equivalent blocks\<close>

definition block_equiv :: "pctx \<Rightarrow> cint list \<Rightarrow> ph2_ir list \<Rightarrow> ph2_ir list \<Rightarrow> bool" where
  "block_equiv c L irs irs' \<longleftrightarrow>
     (\<forall>s s1. prun c irs s = Some s1 \<longrightarrow> (\<exists>s2. prun c irs' s = Some s2 \<and> agree_on L s1 s2))"

lemma block_equiv_refl [simp]: "block_equiv c L irs irs"
  by (auto simp: block_equiv_def agree_on_def)

lemma block_equiv_trans:
  "block_equiv c L xs ys \<Longrightarrow> block_equiv c L ys zs \<Longrightarrow> block_equiv c L xs zs"
  unfolding block_equiv_def agree_on_def by (meson agree_trans)

lemma block_equiv_Cons: "block_equiv c L xs ys \<Longrightarrow> block_equiv c L (ir # xs) (ir # ys)"
  by (auto simp: block_equiv_def split: option.split)

lemma prun_append: "prun c (xs @ ys) s = (case prun c xs s of None \<Rightarrow> None | Some t \<Rightarrow> prun c ys t)"
  by (induction xs arbitrary: s) (auto split: option.split)

text \<open>
  Replacing the first instructions: it is enough that the two windows agree but for
  registers that are dead in the rest of the block.
\<close>

lemma window_equiv:
  assumes "\<And>s s1. prun c w s = Some s1 \<Longrightarrow> \<exists>s2. prun c w' s = Some s2 \<and> agree_except D s1 s2"
    and "\<forall>d\<in>D. dead L d rest"
  shows "block_equiv c L (w @ rest) (w' @ rest)"
  unfolding block_equiv_def
proof (intro allI impI)
  fix s s1
  assume "prun c (w @ rest) s = Some s1"
  then obtain u where u: "prun c w s = Some u" "prun c rest u = Some s1"
    by (auto simp: prun_append split: option.split_asm)
  obtain v where v: "prun c w' s = Some v" "agree_except D u v"
    using assms(1) [OF u(1)] by blast
  from run_dead [OF v(2) assms(2) u(2)] v(1)
  show "\<exists>s2. prun c (w' @ rest) s = Some s2 \<and> agree_on L s1 s2"
    by (auto simp: prun_append)
qed

end
