(* ===== verification/PeepCorrect.thy ===== *)
theory PeepCorrect
  imports Peephole PeepSem
begin

text \<open>
  Correctness of the peephole optimizer. Each rule is shown to leave an equivalent block
  under an executable condition on the instructions it looks at, \<open>*_ok\<close>; the conditions
  are those the code leaves to the register allocator (the rewritten register is not read
  later) and those it should check and does not. \<open>peep_ok\<close> runs the optimizer and checks
  the condition of the rule that fires at each step.
\<close>

section \<open>Steps of the instructions the rules use\<close>

lemma pstep_const: "op ir = OP_load_constant \<Longrightarrow> pstep c ir s = Some (set_reg (dest ir) (src0 ir) s)"
  by (simp add: pstep_def is_straight_def is_mem_def ph2_step_def rebase_def)

lemma pstep_bin:
  "is_bin (op ir) \<Longrightarrow> pstep c ir s
     = map_option (\<lambda>v. set_reg (dest ir) v s) (ph2_bin (op ir) (reg s (src0 ir)) (reg s (src1 ir)))"
  by (auto simp: pstep_def is_straight_def is_bin_def is_mem_def ph2_step_arith rebase_def)

lemma pstep_un:
  "is_un (op ir) \<Longrightarrow> pstep c ir s
     = map_option (\<lambda>v. set_reg (dest ir) v s) (ph2_un (op ir) (src1 ir) (reg s (src0 ir)))"
  by (auto simp: pstep_def is_straight_def is_bin_def is_un_def is_mem_def ph2_step_arith rebase_def)

lemma pstep_assign: "op ir = OP_assign \<Longrightarrow> pstep c ir s = Some (set_reg (dest ir) (reg s (src0 ir)) s)"
  by (simp add: pstep_un is_un_def ph2_un_def)

lemma pstep_negate: "op ir = OP_negate \<Longrightarrow> pstep c ir s = Some (set_reg (dest ir) (- reg s (src0 ir)) s)"
  by (simp add: pstep_un is_un_def ph2_un_def)

definition slot :: "pctx \<Rightarrow> ph2_ir \<Rightarrow> cint \<Rightarrow> cint" where
  "slot c ir ofs = (if ofs_based_on_stack_top ir then ofs + stack_top c else ofs)"

lemma pstep_load:
  "op ir = OP_load \<Longrightarrow> pstep c ir s
     = Some (set_reg (dest ir) (load_val (pmem s) 4 True (spv s + slot c ir (src0 ir))) s)"
  by (simp add: pstep_def is_straight_def is_mem_def ph2_step_def rebase_def slot_def)

lemma pstep_global_load:
  "op ir = OP_global_load \<Longrightarrow> pstep c ir s
     = Some (set_reg (dest ir) (load_val (pmem s) 4 True (gpv s + src0 ir)) s)"
  by (simp add: pstep_def is_straight_def is_mem_def ph2_step_def rebase_def)

lemma pstep_store:
  "op ir = OP_store \<Longrightarrow> pstep c ir s
     = Some (s\<lparr>pmem := store_val (pmem s) 4 (spv s + slot c ir (src1 ir)) (reg s (src0 ir))\<rparr>)"
  by (simp add: pstep_def is_straight_def is_mem_def ph2_step_def rebase_def slot_def)

lemma pstep_global_store:
  "op ir = OP_global_store \<Longrightarrow> pstep c ir s
     = Some (s\<lparr>pmem := store_val (pmem s) 4 (gpv s + src1 ir) (reg s (src0 ir))\<rparr>)"
  by (simp add: pstep_def is_straight_def is_mem_def ph2_step_def rebase_def)

lemmas pstep_simps = pstep_const pstep_assign pstep_negate pstep_load pstep_global_load
  pstep_store pstep_global_store

lemma is_bin_simps [simp]:
  "is_bin OP_add" "is_bin OP_sub" "is_bin OP_mul" "is_bin OP_div" "is_bin OP_mod" "is_bin OP_lshift"
  "is_bin OP_rshift" "is_bin OP_eq" "is_bin OP_neq" "is_bin OP_lt" "is_bin OP_leq" "is_bin OP_gt"
  "is_bin OP_geq" "is_bin OP_bit_and" "is_bin OP_bit_or" "is_bin OP_bit_xor"
  by (simp_all add: is_bin_def)

lemma straight_simps [simp]:
  "is_bin oc \<Longrightarrow> is_straight oc" "is_straight OP_load_constant" "is_straight OP_load"
  "is_straight OP_global_load" "is_straight OP_store" "is_straight OP_global_store"
  "is_straight OP_assign" "is_straight OP_negate"
  by (simp_all add: is_straight_def is_mem_def is_un_def)

lemma set_reg_twice [simp]: "set_reg r v (set_reg r w s) = set_reg r v s"
  by (simp add: set_reg_def)

lemma if_SomeE:
  "(if b then Some x else y) = Some z \<Longrightarrow> (b \<Longrightarrow> z = x \<Longrightarrow> P) \<Longrightarrow> (\<not> b \<Longrightarrow> y = Some z \<Longrightarrow> P) \<Longrightarrow> P"
  by (auto split: if_split_asm)

section \<open>Rewriting schemes\<close>

lemma same_step_equiv: "(\<And>s. pstep c ir' s = pstep c ir s) \<Longrightarrow> block_equiv c L (ir # rest) (ir' # rest)"
  by (auto simp: block_equiv_def agree_on_def)

lemma prun_single: "prun c [ir] s = pstep c ir s"
  by (simp split: option.split)

lemma same_run_equiv:
  assumes "\<And>s s1. prun c w s = Some s1 \<Longrightarrow> prun c w' s = Some s1"
  shows "block_equiv c L (w @ rest) (w' @ rest)"
  using assms by (intro window_equiv [where D = "{}"]) auto

lemma same_run2_equiv:
  assumes "\<And>s s1. prun c [a, b] s = Some s1 \<Longrightarrow> prun c w' s = Some s1"
  shows "block_equiv c L (a # b # rest) (w' @ rest)"
  using same_run_equiv [of c "[a, b]", OF assms] by simp

text \<open>What an instruction writes does not depend on where it is written.\<close>

lemma pstep_dest:
  assumes "is_straight (op ir)" "writes ir" "pstep c ir s = Some s1"
  shows "\<exists>v. s1 = set_reg (dest ir) v s \<and> (\<forall>d. pstep c (ir\<lparr>dest := d\<rparr>) s = Some (set_reg d v s))"
proof -
  consider "op ir = OP_load_data_address \<or> op ir = OP_load_rodata_address"
    | "is_mem (op ir)" | "is_bin (op ir)" | "is_un (op ir)"
    using assms(1) by (auto simp: is_straight_def)
  then show ?thesis
  proof cases
    case 1
    with assms(3) show ?thesis by (auto simp: pstep_def)
  next
    case 2
    then have "op ir \<in> {OP_load_constant, OP_address_of, OP_global_address_of, OP_load,
        OP_global_load, OP_read}"
      using assms(2) by (auto simp: is_mem_def writes_def)
    with assms(3) show ?thesis
      by (elim insertE)
        (auto simp: pstep_def is_straight_def is_mem_def ph2_step_def rebase_def split: if_split_asm)
  next
    case 3
    with assms(3) show ?thesis by (auto simp: pstep_bin)
  next
    case 4
    with assms(3) show ?thesis by (auto simp: pstep_un)
  qed
qed

text \<open>A write nobody reads can go.\<close>

lemma dead_write_equiv:
  assumes "is_straight (op ir)" "writes ir" "dead L (dest ir) rest"
  shows "block_equiv c L (ir # rest) rest"
  unfolding block_equiv_def
proof (intro allI impI)
  fix s s1
  assume "prun c (ir # rest) s = Some s1"
  then obtain u where u: "pstep c ir s = Some u" "prun c rest u = Some s1"
    by (auto split: option.split_asm)
  from pstep_dest [OF assms(1,2) u(1)] have "agree_except {dest ir} u s"
    by (auto simp: agree_except_def)
  from run_dead [OF this _ u(2)] assms(3) show "\<exists>s2. prun c rest s = Some s2 \<and> agree_on L s1 s2"
    by simp
qed

lemma overwritten_equiv:
  assumes "is_straight (op ir)" "writes ir" "is_straight (op nxt)" "writes nxt"
    and "dest ir = dest nxt" "\<not> reads nxt (dest nxt)" "\<And>s. pstep c ir' s = pstep c nxt s"
  shows "block_equiv c L (ir # nxt # rest) (ir' # rest)"
  using assms by (intro block_equiv_trans [OF dead_write_equiv same_step_equiv]) auto

text \<open>
  A constant into a temporary, then a binary operation that may use it; the temporary is
  the destination or not needed any more.
\<close>

definition temp_ok :: "cint list \<Rightarrow> ph2_ir \<Rightarrow> ph2_ir \<Rightarrow> ph2_ir list \<Rightarrow> bool" where
  "temp_ok L ir nxt rest \<longleftrightarrow> dest nxt = dest ir \<or> dead L (dest ir) rest"

definition const_bin :: "ph2_ir \<Rightarrow> ph2_ir \<Rightarrow> ph2_state \<Rightarrow> cint option" where
  "const_bin ir nxt s = ph2_bin (op nxt)
     (if src0 nxt = dest ir then src0 ir else reg s (src0 nxt))
     (if src1 nxt = dest ir then src0 ir else reg s (src1 nxt))"

lemma prun_const_bin:
  "op ir = OP_load_constant \<Longrightarrow> is_bin (op nxt) \<Longrightarrow> prun c [ir, nxt] s
     = map_option (\<lambda>v. set_reg (dest nxt) v (set_reg (dest ir) (src0 ir) s)) (const_bin ir nxt s)"
  by (auto simp: pstep_const pstep_bin const_bin_def split: option.split)

lemma temp_window:
  assumes "\<And>s s1. prun c [ir, nxt] s = Some s1 \<Longrightarrow>
      \<exists>s2. prun c w' s = Some s2 \<and> agree_except ({dest ir} - {dest nxt}) s1 s2"
    and "temp_ok L ir nxt rest"
  shows "block_equiv c L (ir # nxt # rest) (w' @ rest)"
  using window_equiv [where w = "[ir, nxt]" and w' = w' and D = "{dest ir} - {dest nxt}", OF assms(1)] assms(2)
  by (auto simp: temp_ok_def)

lemma const_fold_equiv:
  assumes "op ir = OP_load_constant" "is_bin (op nxt)" "temp_ok L ir nxt rest"
    and "\<And>s v. const_bin ir nxt s = Some v \<Longrightarrow> pstep c ir' s = Some (set_reg (dest nxt) v s)"
  shows "block_equiv c L (ir # nxt # rest) (ir' # rest)"
proof -
  have "block_equiv c L (ir # nxt # rest) ([ir'] @ rest)"
    using assms(4)
    by (intro temp_window [OF _ assms(3)])
      (auto simp: prun_const_bin [OF assms(1,2)] prun_single agree_except_def
        simp del: prun.simps)
  then show ?thesis by simp
qed

lemma const_bin_equiv:
  assumes "op ir = OP_load_constant" "is_bin (op nxt)" "temp_ok L ir nxt rest"
    and "op ir' = OP_load_constant" "is_bin (op nxt')" "dest ir' = dest ir" "dest nxt' = dest nxt"
    and "\<And>s v. const_bin ir nxt s = Some v \<Longrightarrow> const_bin ir' nxt' s = Some v"
  shows "block_equiv c L (ir # nxt # rest) (ir' # nxt' # rest)"
proof -
  have "block_equiv c L (ir # nxt # rest) ([ir', nxt'] @ rest)"
    using assms(8)
    by (intro temp_window [OF _ assms(3)])
      (auto simp: prun_const_bin [OF assms(1,2)] prun_const_bin [OF assms(4,5)] agree_except_def
        assms(6,7) simp del: prun.simps)
  then show ?thesis by simp
qed

section \<open>The rules\<close>

subsection \<open>Fusion\<close>

definition fusion_ok :: "cint list \<Rightarrow> ph2_ir list \<Rightarrow> bool" where
  "fusion_ok L irs =
     (case irs of
        ir # nxt # rest \<Rightarrow>
          is_straight (op ir) \<and> temp_ok L ir nxt rest
          \<and> (op ir = OP_load_constant \<longrightarrow> src0 nxt \<noteq> src1 nxt)
      | _ \<Rightarrow> True)"

lemma fuse_move_equiv:
  assumes "fuse_move ir nxt rest = Some irs'" "is_straight (op ir)" "temp_ok L ir nxt rest"
  shows "block_equiv c L (ir # nxt # rest) irs'"
proof -
  from assms(1) have f: "op nxt = OP_assign" "dest ir = src0 nxt" "writes ir"
    and irs': "irs' = [ir\<lparr>dest := dest nxt\<rparr>] @ rest"
    by (auto simp: fuse_move_def is_fusible_insn_def writes_def split: if_split_asm)
  show ?thesis unfolding irs'
  proof (rule temp_window [OF _ assms(3)])
    fix s s1
    assume "prun c [ir, nxt] s = Some s1"
    then obtain u where u: "pstep c ir s = Some u" "pstep c nxt u = Some s1"
      by (auto split: option.split_asm)
    from pstep_dest [OF assms(2) f(3) u(1)] u(2) f(1,2)
    show "\<exists>s2. prun c [ir\<lparr>dest := dest nxt\<rparr>] s = Some s2
        \<and> agree_except ({dest ir} - {dest nxt}) s1 s2"
      by (auto simp: prun_single pstep_assign agree_except_def)
  qed
qed

lemma log2_zero: "ph2_bin OP_lshift a 0 = Some a" "ph2_bin OP_rshift a 0 = Some a"
  by (simp_all add: ph2_bin_def)

lemma fuse_zero_equiv:
  assumes "fuse_zero ir nxt rest = Some irs'" "temp_ok L ir nxt rest" "src0 nxt \<noteq> src1 nxt"
  shows "block_equiv c L (ir # nxt # rest) irs'"
proof -
  from assms(1) have z: "op ir = OP_load_constant" "src0 ir = 0"
    by (auto simp: fuse_zero_def split: if_split_asm)
  from assms(1,3) show ?thesis
    by (auto simp: fuse_zero_def fold_to_move_def z const_bin_def ph2_bin_def pstep_simps
        split: if_split_asm intro!: const_fold_equiv [OF z(1) _ assms(2)])
qed

lemma fuse_one_equiv:
  assumes "fuse_one ir nxt rest = Some irs'" "temp_ok L ir nxt rest" "src0 nxt \<noteq> src1 nxt"
  shows "block_equiv c L (ir # nxt # rest) irs'"
proof -
  from assms(1) have z: "op ir = OP_load_constant" "src0 ir = 1"
    by (auto simp: fuse_one_def split: if_split_asm)
  from assms(1,3) show ?thesis
    by (auto simp: fuse_one_def fold_to_move_def z const_bin_def ph2_bin_def pstep_simps
        split: if_split_asm intro!: const_fold_equiv [OF z(1) _ assms(2)])
qed

lemma fuse_bits_equiv:
  assumes "fuse_bits ir nxt rest = Some irs'" "temp_ok L ir nxt rest" "src0 nxt \<noteq> src1 nxt"
  shows "block_equiv c L (ir # nxt # rest) irs'"
proof -
  from assms(1) have z: "op ir = OP_load_constant"
    by (auto simp: fuse_bits_def split: if_split_asm)
  from assms(1,3) show ?thesis
    by (auto simp: fuse_bits_def fold_to_move_def z const_bin_def ph2_bin_def pstep_simps
        split: if_split_asm intro!: const_fold_equiv [OF z _ assms(2)])
qed

lemma fuse_last_equiv:
  assumes "fuse_last ir nxt rest = Some irs'" "temp_ok L ir nxt rest" "src0 nxt \<noteq> src1 nxt"
  shows "block_equiv c L (ir # nxt # rest) irs'"
proof -
  from assms(1) have z: "op ir = OP_load_constant"
    by (auto simp: fuse_last_def split: if_split_asm)
  from assms(1,3) show ?thesis
    by (auto simp: fuse_last_def fold_to_move_def z const_bin_def ph2_bin_def pstep_simps
        split: if_split_asm intro!: const_fold_equiv [OF z _ assms(2)])
qed

subsection \<open>Powers of two\<close>

lemma bit_top: "2 ^ n \<le> unat (p :: cint) \<Longrightarrow> unat p < 2 ^ Suc n \<Longrightarrow> bit p n"
proof -
  assume a: "2 ^ n \<le> unat p" "unat p < 2 ^ Suc n"
  have "unat p div 2 ^ n = 1"
    using a by (intro div_nat_eqI) (simp_all add: mult.commute)
  then have "bit (unat p) n"
    by (simp add: bit_iff_odd)
  then show "bit p n"
    by (simp add: bit_unsigned_iff)
qed

lemma power_of_two_test:
  assumes "lt_s 0 p" "p AND (p - 1) = (0 :: cint)"
  shows "\<exists>n. n < 31 \<and> unat p = 2 ^ n"
proof -
  have p: "0 < sint p" "sint p = int (unat p)"
    using assms(1) sint_nonneg_uint [of p] by (simp_all add: lt_s_sint)
  then have pos: "0 < unat p"
    by linarith
  have "int (unat p) < int (2 ^ 31)"
    using p(2) sint_range(2) [of p] by simp
  then have small: "unat p < 2 ^ 31"
    by (rule iffD1 [OF of_nat_less_iff])
  obtain n where lo: "2 ^ n \<le> unat p" and hi: "unat p < 2 ^ Suc n"
    using ex_power_ivl1 [of 2 "unat p"] pos by auto
  have "(2::nat) ^ n < 2 ^ 31"
    by (rule le_less_trans [OF lo small])
  then have n: "n < 31"
    by (rule power_less_imp_less_exp [rotated]) simp
  have "unat p = 2 ^ n"
  proof (rule ccontr)
    assume "unat p \<noteq> 2 ^ n"
    moreover have "unat (p - 1) = unat p - 1"
      using pos by (intro unat_minus_one) auto
    ultimately have "bit (p - 1) n"
      using lo hi by (intro bit_top) simp_all
    moreover have "bit p n"
      by (rule bit_top [OF lo hi])
    ultimately have "bit (p AND (p - 1)) n"
      by (simp add: bit_and_iff)
    with assms(2) show False by simp
  qed
  with n show ?thesis by blast
qed

lemma log2_loop_range:
  "2 ^ n \<le> sint p \<Longrightarrow> sint p < 2 ^ Suc n \<Longrightarrow> log2_loop p k = k + of_nat n"
proof (induction n arbitrary: p k)
  case 0
  then have "\<not> lt_s 1 p"
    by (simp add: lt_s_sint)
  then show ?case
    by (subst log2_loop.simps) simp
next
  case (Suc n)
  have h: "sint (sar p 1) = sint p div 2"
    by (simp add: sint_signed_drop_bit_eq drop_bit_eq_div del: One_nat_def)
  have "(2::int) ^ 1 \<le> 2 ^ Suc n"
    by (rule power_increasing) simp_all
  then have "2 \<le> sint p"
    unfolding power_one_right by (rule order_trans [OF _ Suc.prems(1)])
  then have "1 < sint p"
    by simp
  then have "lt_s 1 p"
    by (simp add: lt_s_sint)
  moreover have "2 ^ n \<le> sint (sar p 1)" "sint (sar p 1) < 2 ^ Suc n"
    unfolding h using Suc.prems by simp_all
  ultimately show ?case
    using Suc.IH by (subst log2_loop.simps) simp
qed

lemma log2_loop_power:
  assumes "lt_s 0 p" "p AND (p - 1) = 0"
  obtains n where "n < 31" "p = 2 ^ n" "log2_loop p 0 = of_nat n" "sint p = 2 ^ n"
proof -
  obtain n where n: "n < 31" "unat p = 2 ^ n"
    using power_of_two_test [OF assms] by blast
  have p: "sint p = 2 ^ n"
    using assms(1) sint_nonneg_uint [of p] n(2) by (simp add: lt_s_sint uint_eq_unat)
  have "log2_loop p 0 = 0 + of_nat n"
    by (rule log2_loop_range) (simp_all add: p)
  moreover have "p = 2 ^ n"
    using arg_cong [OF n(2), of "of_nat :: nat \<Rightarrow> cint"] by simp
  ultimately show thesis
    using that [OF n(1) _ _ p] by simp
qed

lemma div_by_one: "of_int (sdiv_trunc (sint a) 1) = (a :: cint)" "srem_trunc x 1 = 0"
proof -
  have "sdiv_trunc x 1 = x" for x
    by (simp add: sdiv_trunc_def sgn_mult_abs)
  then show "of_int (sdiv_trunc (sint a) 1) = a" by simp
qed (simp add: srem_trunc_def)

lemma shift_is_mul: "n < 31 \<Longrightarrow> ph2_bin OP_lshift a (of_nat n) = Some (a * 2 ^ n)"
  by (simp add: ph2_bin_def unat_of_nat push_bit_eq_mult)

text \<open>Division of a number that is not negative.\<close>

lemma nonneg_div_shift:
  assumes "0 \<le> sint a" "n < 31"
  shows "ph2_bin OP_div a (2 ^ n) = ph2_bin OP_rshift a (of_nat n)"
proof -
  have p: "sint (2 ^ n :: cint) = 2 ^ n"
    using assms(2) by (rule sint_power)
  then have "(2 ^ n :: cint) \<noteq> 0"
    by (metis power_not_zero signed_0 zero_neq_numeral)
  moreover have "sdiv_trunc (sint a) (2 ^ n) = sint (sar a n)"
    using assms(1) by (auto simp: sdiv_trunc_def sint_signed_drop_bit_eq drop_bit_eq_div sgn_if)
  ultimately show ?thesis
    using assms(2) by (simp add: ph2_bin_def p unat_of_nat)
qed

lemma nonneg_mod_mask:
  assumes "0 \<le> sint a" "n < 31"
  shows "ph2_bin OP_mod a (2 ^ n) = ph2_bin OP_bit_and a (2 ^ n - 1)"
proof -
  have p: "sint (2 ^ n :: cint) = 2 ^ n"
    using assms(2) by (rule sint_power)
  then have "(2 ^ n :: cint) \<noteq> 0"
    by (metis power_not_zero signed_0 zero_neq_numeral)
  moreover have "a AND (2 ^ n - 1) = of_int (srem_trunc (sint a) (2 ^ n))"
  proof -
    have "a AND (2 ^ n - 1) = take_bit n a"
      by (simp add: take_bit_eq_mask mask_eq_decr_exp)
    also have "\<dots> = of_int (take_bit n (sint a))"
      using assms(2) by (simp add: take_bit_of_int [symmetric])
    also have "take_bit n (sint a) = srem_trunc (sint a) (2 ^ n)"
      using assms(1) by (auto simp: srem_trunc_def take_bit_eq_mod sgn_if)
    finally show ?thesis .
  qed
  ultimately show ?thesis
    by (simp add: ph2_bin_def p)
qed

lemma fuse_power_equiv:
  assumes "fuse_power ir nxt rest = Some irs'" "temp_ok L ir nxt rest" "src0 nxt \<noteq> src1 nxt"
  shows "block_equiv c L (ir # nxt # rest) irs'"
proof -
  from assms(1) have z: "op ir = OP_load_constant" "op nxt = OP_mul" "dest ir = src1 nxt"
    and pw: "lt_s 0 (src0 ir)" "src0 ir AND (src0 ir - 1) = 0"
    and irs': "irs' = ir\<lparr>src0 := log2_loop (src0 ir) 0\<rparr> # nxt\<lparr>op := OP_lshift\<rparr> # rest"
    by (auto simp: fuse_power_def Let_def split: if_split_asm)
  obtain n where n: "n < 31" "src0 ir = 2 ^ n" "log2_loop (src0 ir) 0 = of_nat n"
    using log2_loop_power [OF pw] by metis
  show ?thesis
    unfolding irs' n(3)
  proof (rule const_bin_equiv [OF z(1) _ assms(2)])
    fix s v
    assume "const_bin ir nxt s = Some v"
    then show "const_bin (ir\<lparr>src0 := of_nat n\<rparr>) (nxt\<lparr>op := OP_lshift\<rparr>) s = Some v"
      using assms(3) z(2,3) shift_is_mul [OF n(1)] n(2) by (simp add: const_bin_def) (simp add: ph2_bin_def)
  qed (simp_all add: z)
qed

lemma insn_fusion_equiv:
  assumes "insn_fusion irs = Some irs'" "fusion_ok L irs"
  shows "block_equiv c L irs irs'"
proof -
  from assms(1) obtain ir nxt rest where irs: "irs = ir # nxt # rest"
    by (cases irs rule: insn_fusion.cases) auto
  note ok = assms(2) [unfolded fusion_ok_def irs, simplified]
  have "fuse_move ir nxt rest = Some irs' \<Longrightarrow> ?thesis"
    unfolding irs using ok by (intro fuse_move_equiv) auto
  moreover have "fuse_zero ir nxt rest = Some irs' \<Longrightarrow> ?thesis"
    unfolding irs using ok by (intro fuse_zero_equiv) (auto simp: fuse_zero_def split: if_split_asm)
  moreover have "fuse_one ir nxt rest = Some irs' \<Longrightarrow> ?thesis"
    unfolding irs using ok by (intro fuse_one_equiv) (auto simp: fuse_one_def split: if_split_asm)
  moreover have "fuse_bits ir nxt rest = Some irs' \<Longrightarrow> ?thesis"
    unfolding irs using ok by (intro fuse_bits_equiv) (auto simp: fuse_bits_def split: if_split_asm)
  moreover have "fuse_power ir nxt rest = Some irs' \<Longrightarrow> ?thesis"
    unfolding irs using ok by (intro fuse_power_equiv) (auto simp: fuse_power_def split: if_split_asm)
  moreover have "fuse_last ir nxt rest = Some irs' \<Longrightarrow> ?thesis"
    unfolding irs using ok by (intro fuse_last_equiv) (auto simp: fuse_last_def split: if_split_asm)
  ultimately show ?thesis
    using assms(1) unfolding irs insn_fusion.simps or_else_Some by blast
qed

subsection \<open>Strength reduction\<close>

text \<open>
  A division or remainder by a power of two becomes a shift or a mask, which agree only
  for a dividend that is not negative; the code does not check the sign.
\<close>

definition strength_ok :: "cint list \<Rightarrow> ph2_ir list \<Rightarrow> bool" where
  "strength_ok L irs =
     (case irs of
        ir # nxt # rest \<Rightarrow>
          temp_ok L ir nxt rest \<and> src0 nxt \<noteq> src1 nxt \<and> (op nxt = OP_mul \<or> src0 ir = 1)
      | _ \<Rightarrow> True)"

lemma strength_reduction_equiv:
  assumes "strength_reduction irs = Some irs'" "strength_ok L irs"
  shows "block_equiv c L irs irs'"
proof -
  from assms(1) obtain ir nxt rest where irs: "irs = ir # nxt # rest"
    by (cases irs rule: strength_reduction.cases) auto
  have ok: "temp_ok L ir nxt rest" "src0 nxt \<noteq> src1 nxt" "op nxt = OP_mul \<or> src0 ir = 1"
    using assms(2) by (simp_all add: strength_ok_def irs)
  from assms(1) have z: "op ir = OP_load_constant" and pw: "lt_s 0 (src0 ir)" "src0 ir AND (src0 ir - 1) = 0"
    by (auto simp: irs Let_def lt_s_sint le_s_sint split: if_split_asm)
  obtain n where n: "n < 31" "src0 ir = 2 ^ n" "log2_loop (src0 ir) 0 = of_nat n" "sint (src0 ir) = 2 ^ n"
    using log2_loop_power [OF pw] by metis
  have n0: "n = 0" if "op nxt \<noteq> OP_mul"
    using ok(3) n(4) that power_inject_exp [of "2::int" n 0] by simp
  note sh = shift_is_mul [OF n(1)]
  have lg: "log2_loop (2 ^ n) 0 = of_nat n"
    using n(2,3) by simp
  have b: "is_bin (op nxt)"
    using assms(1) by (auto simp: irs Let_def split: if_split_asm)
  have "ph2_bin OP_mul a b = Some (a * b)" for a b :: cint
    by (simp add: ph2_bin_def)
  then show ?thesis
    using assms(1) ok(2) n0 z sh lg
    by (auto simp: irs Let_def const_bin_def n(2) ph2_bin_def [of OP_div] ph2_bin_def [of OP_mod]
          ph2_bin_def [of OP_rshift] ph2_bin_def [of OP_bit_and] div_by_one ac_simps
        split: if_split_asm intro!: const_bin_equiv [OF z b ok(1)])
qed

subsection \<open>Operations on equal operands\<close>

lemma algebraic_simplification_equiv:
  assumes "algebraic_simplification irs = Some irs'"
  shows "block_equiv c L irs irs'"
proof (cases irs)
  case (Cons ir rest)
  with assms show ?thesis
    by (auto intro!: same_step_equiv simp: pstep_simps pstep_bin ph2_bin_def split: if_split_asm)
qed (use assms in simp)

lemma comparison_optimization_equiv:
  assumes "comparison_optimization irs = Some irs'"
  shows "block_equiv c L irs irs'"
proof (cases irs)
  case (Cons ir rest)
  with assms show ?thesis
    by (auto intro!: same_step_equiv simp: pstep_simps pstep_bin ph2_bin_def lt_s_sint le_s_sint
        split: if_split_asm)
qed (use assms in simp)

subsection \<open>Bitwise patterns\<close>

text \<open>
  All but the first pattern drop the second instruction, so that its destination keeps an
  old value: right only when the destination is dead, or is the temporary and holds the
  result already.
\<close>

definition bitwise_ok :: "cint list \<Rightarrow> ph2_ir list \<Rightarrow> bool" where
  "bitwise_ok L irs =
     (case irs of
        ir # nxt # rest \<Rightarrow>
          (if op ir = OP_negate then temp_ok L ir nxt rest else dead L (dest nxt) rest)
      | _ \<Rightarrow> True)"

lemma bitwise_optimization_equiv:
  assumes "bitwise_optimization irs = Some irs'" "bitwise_ok L irs"
  shows "block_equiv c L irs irs'"
proof -
  from assms(1) obtain ir nxt rest where irs: "irs = ir # nxt # rest"
    by (cases irs rule: bitwise_optimization.cases) auto
  show ?thesis
  proof (cases "op ir = OP_negate")
    case True
    then have n: "op nxt = OP_negate" "src0 nxt = dest ir" and ok: "temp_ok L ir nxt rest"
      and irs': "irs' = [ir\<lparr>op := OP_assign, dest := dest nxt\<rparr>] @ rest"
      using assms by (auto simp: irs bitwise_ok_def split: if_split_asm)
    show ?thesis unfolding irs irs'
      by (rule temp_window [OF _ ok])
        (auto simp: True n pstep_simps agree_except_def)
  next
    case False
    then have "dead L (dest nxt) rest" "is_bin (op nxt)" and irs': "irs' = ir # rest"
      using assms by (auto simp: irs bitwise_ok_def split: if_split_asm)
    then show ?thesis unfolding irs irs'
      by (intro block_equiv_Cons dead_write_equiv) (auto simp: writes_def is_bin_def)
  qed
qed

subsection \<open>Redundant moves\<close>

definition move_ok :: "ph2_ir list \<Rightarrow> bool" where
  "move_ok irs =
     (case irs of
        ir # nxt # _ \<Rightarrow>
          op nxt = OP_load \<longrightarrow> ofs_based_on_stack_top nxt = ofs_based_on_stack_top ir
      | _ \<Rightarrow> True)"

lemma redundant_move_elim_equiv:
  assumes "redundant_move_elim irs = Some irs'" "move_ok irs"
    and irs: "irs = ir # nxt # rest" and self: "\<not> (op nxt = OP_assign \<and> dest nxt = src0 nxt)"
  shows "block_equiv c L irs irs'"
proof -
  have ok: "op nxt = OP_assign \<longrightarrow> src0 nxt \<noteq> dest nxt"
    "op nxt = OP_load \<longrightarrow> ofs_based_on_stack_top nxt = ofs_based_on_stack_top ir"
    using assms(2) self by (auto simp: move_ok_def irs)
  from assms(1) have d: "dest ir = dest nxt"
    and i: "is_straight (op ir) \<and> writes ir"
    and n: "op nxt \<in> {OP_assign, OP_load, OP_global_load, OP_load_constant}"
    by (auto simp: irs is_load_def writes_def split: if_split_asm)
  have n': "is_straight (op nxt)" "writes nxt" "\<not> reads nxt (dest nxt)"
    using n ok(1) by (auto simp: writes_def reads_def is_bin_def is_un_def)
  have "\<exists>ir'. irs' = ir' # rest \<and> (\<forall>s. pstep c ir' s = pstep c nxt s)"
    using assms(1) d ok(2)
    by (auto simp: irs is_load_def pstep_simps slot_def split: if_split_asm)
  then obtain ir' where ir': "irs' = ir' # rest" "pstep c ir' s = pstep c nxt s" for s
    by blast
  show ?thesis
    unfolding irs ir'(1) using i n' d ir'(2) by (intro overwritten_equiv) auto
qed

subsection \<open>Loads and stores\<close>

text \<open>
  The third and fourth patterns compare the fields of a store with those of a load by
  position, though a store has its register in \<open>src0\<close> and its offset in \<open>src1\<close>
  and a load has its offset in \<open>src0\<close>.
\<close>

definition pair_ok :: "ph2_ir list \<Rightarrow> bool" where
  "pair_ok irs =
     (case irs of
        ir # nxt # _ \<Rightarrow>
          (op ir = OP_load \<or> op ir = OP_store \<longrightarrow> ofs_based_on_stack_top nxt = ofs_based_on_stack_top ir)
          \<and> (op ir = OP_store \<and> op nxt = OP_load \<longrightarrow> src1 ir = src0 nxt \<and> dest ir = src0 ir)
          \<and> (op ir = OP_load \<and> op nxt = OP_store \<longrightarrow> src0 nxt = dest ir \<and> src1 nxt = src0 ir)
      | _ \<Rightarrow> True)"

lemma eliminate_load_store_pairs_equiv:
  assumes "eliminate_load_store_pairs irs = Some irs'" "pair_ok irs"
  shows "block_equiv c L irs irs'"
proof -
  from assms(1) obtain ir nxt rest where irs: "irs = ir # nxt # rest"
    by (cases irs rule: eliminate_load_store_pairs.cases) auto
  have same: "block_equiv c L (ir # nxt # rest) (x # rest)"
    if "\<And>s. prun c [ir, nxt] s = pstep c x s" for x
    using same_run2_equiv [of c ir nxt "[x]" L rest] that by (simp add: prun_single)
  have same2: "block_equiv c L (ir # nxt # rest) (ir # x # rest)"
    if "\<And>s. prun c [ir, nxt] s = prun c [ir, x] s" for x
    using same_run2_equiv [of c ir nxt "[ir, x]" L rest] that by simp
  note ok = assms(2) [unfolded pair_ok_def irs, simplified]
  consider
      "op ir = OP_store" "op nxt = OP_store" "src0 ir = src0 nxt" "src1 ir = src1 nxt"
        "irs' = ir\<lparr>dest := dest nxt\<rparr> # rest"
    | "op ir = OP_load" "op nxt = OP_load" "src0 ir = src0 nxt"
        "irs' = ir # nxt\<lparr>op := OP_assign, src0 := dest ir, src1 := 0\<rparr> # rest"
    | "op ir = OP_store" "op nxt = OP_load"
        "irs' = ir # nxt\<lparr>op := OP_assign, src0 := dest ir, src1 := 0\<rparr> # rest"
    | "op ir = OP_load" "op nxt = OP_store" "irs' = ir # rest"
    | "op ir = OP_global_store" "op nxt = OP_global_store" "src0 ir = src0 nxt" "src1 ir = src1 nxt"
        "irs' = ir\<lparr>dest := dest nxt\<rparr> # rest"
    | "op ir = OP_global_load" "op nxt = OP_global_load" "src0 ir = src0 nxt"
        "irs' = ir # nxt\<lparr>op := OP_assign, src0 := dest ir, src1 := 0\<rparr> # rest"
    using assms(1) unfolding irs eliminate_load_store_pairs.simps
    by (elim if_SomeE conjE) simp_all
  then show ?thesis
  proof cases
    case 1
    show ?thesis unfolding irs 1(5)
      by (rule same) (use 1 ok in \<open>simp add: pstep_store slot_def store_again\<close>)
  next
    case 2
    show ?thesis unfolding irs 2(4)
      by (rule same2) (use 2 ok in \<open>simp add: pstep_load pstep_assign slot_def\<close>)
  next
    case 3
    show ?thesis unfolding irs 3(3)
      by (rule same2) (use 3 ok in \<open>simp add: pstep_load pstep_store pstep_assign slot_def load_store_same\<close>)
  next
    case 4
    show ?thesis unfolding irs 4(3)
      by (rule same) (use 4 ok in \<open>simp add: pstep_load pstep_store slot_def store_load_same\<close>)
  next
    case 5
    show ?thesis unfolding irs 5(5)
      by (rule same) (use 5 ok in \<open>simp add: pstep_global_store store_again\<close>)
  next
    case 6
    show ?thesis unfolding irs 6(4)
      by (rule same2) (use 6 ok in \<open>simp add: pstep_global_load pstep_assign\<close>)
  qed
qed

subsection \<open>Windows of three\<close>

definition triple_ok :: "cint list \<Rightarrow> ph2_ir list \<Rightarrow> bool" where
  "triple_ok L irs =
     (case irs of
        ir # second # third # rest \<Rightarrow>
          (if op second = OP_load then dead L (dest second) (third # rest)
           else ofs_based_on_stack_top second = ofs_based_on_stack_top ir
             \<and> ofs_based_on_stack_top third = ofs_based_on_stack_top ir)
      | _ \<Rightarrow> True)"

lemma triple_pattern_optimization_equiv:
  assumes "triple_pattern_optimization irs = Some irs'" "triple_ok L irs"
  shows "block_equiv c L irs irs'"
proof -
  from assms(1) obtain ir second third rest where irs: "irs = ir # second # third # rest"
    by (cases irs rule: triple_pattern_optimization.cases) auto
  note ok = assms(2) [unfolded triple_ok_def irs, simplified]
  consider
      "op second = OP_load" "irs' = ir # third # rest"
    | "op ir = OP_store" "op second = OP_store" "op third = OP_store" "src1 ir = src1 second"
        "src1 second = src1 third" "irs' = ir\<lparr>src0 := src0 third\<rparr> # rest"
    using assms(1) unfolding irs triple_pattern_optimization.simps
    by (elim if_SomeE conjE) simp_all
  then show ?thesis
  proof cases
    case 1
    then show ?thesis
      unfolding irs 1(2) using ok
      by (intro block_equiv_Cons dead_write_equiv) (auto simp: writes_def)
  next
    case 2
    have "prun c [ir, second, third] s = prun c [ir\<lparr>src0 := src0 third\<rparr>] s" for s
      using 2 ok by (simp add: pstep_store slot_def store_again)
    then show ?thesis
      using same_run_equiv [of c "[ir, second, third]" "[ir\<lparr>src0 := src0 third\<rparr>]" L rest] 2
      by (simp add: irs)
  qed
qed

section \<open>The driver\<close>

definition step_ok :: "cint list \<Rightarrow> ph2_ir list \<Rightarrow> bool" where
  "step_ok L irs =
     (case irs of
        ir # nxt # rest \<Rightarrow>
          (if op nxt = OP_assign \<and> dest nxt = src0 nxt then True
           else if triple_pattern_optimization irs \<noteq> None then triple_ok L irs
           else if insn_fusion irs \<noteq> None then fusion_ok L irs
           else if comparison_optimization irs \<noteq> None then True
           else if strength_reduction irs \<noteq> None then strength_ok L irs
           else if algebraic_simplification irs \<noteq> None then True
           else if bitwise_optimization irs \<noteq> None then bitwise_ok L irs
           else if redundant_move_elim irs \<noteq> None then move_ok irs
           else if eliminate_load_store_pairs irs \<noteq> None then pair_ok irs
           else True)
      | _ \<Rightarrow> True)"

lemma self_assign_equiv:
  "op nxt = OP_assign \<Longrightarrow> dest nxt = src0 nxt \<Longrightarrow> block_equiv c L (ir # nxt # rest) (ir # rest)"
  by (intro block_equiv_Cons) (simp add: block_equiv_def agree_on_def pstep_assign set_reg_def)

lemma peep_rules_equiv:
  assumes "peep_rules irs = Some irs'" "step_ok L irs" "irs = ir # nxt # rest"
    and "\<not> (op nxt = OP_assign \<and> dest nxt = src0 nxt)"
  shows "block_equiv c L irs irs'"
proof -
  note ok = assms(2) [unfolded step_ok_def assms(3) list.case if_not_P [OF assms(4)], folded assms(3)]
  from assms(1) ok show ?thesis
    unfolding peep_rules_def or_else_Some
    by (elim disjE conjE)
      (simp_all add: triple_pattern_optimization_equiv insn_fusion_equiv comparison_optimization_equiv
        strength_reduction_equiv algebraic_simplification_equiv bitwise_optimization_equiv
        redundant_move_elim_equiv [OF _ _ assms(3,4)] eliminate_load_store_pairs_equiv)
qed

lemma peep_step_equiv: "step_ok L irs \<Longrightarrow> block_equiv c L irs (peep_step irs)"
proof (induction irs rule: peep_step.induct)
  case (1 ir nxt rest)
  show ?case
  proof (cases "op nxt = OP_assign \<and> dest nxt = src0 nxt")
    case True
    then show ?thesis by (simp add: self_assign_equiv)
  next
    case False
    show ?thesis
      unfolding peep_step.simps if_not_P [OF False]
      using peep_rules_equiv [OF _ 1 refl False] by (simp split: option.split)
  qed
qed simp_all

function peep_ok :: "cint list \<Rightarrow> ph2_ir list \<Rightarrow> bool" where
  "peep_ok L [] = True"
| "peep_ok L (ir # irs) =
     (step_ok L (ir # irs) \<and> peep_ok L (tl (peep_step (ir # irs))))"
  by pat_completeness auto

termination peep_ok
proof (relation "measure (\<lambda>(L, irs). length irs)")
  fix L :: "cint list" and ir :: ph2_ir and irs
  show "((L, tl (peep_step (ir # irs))), (L, ir # irs)) \<in> measure (\<lambda>(L, irs). length irs)"
    using peep_step_length [of "ir # irs"] by (cases "peep_step (ir # irs)") auto
qed simp

declare peep_ok.simps(2) [simp del]

lemma peep_equiv: "peep_ok L irs \<Longrightarrow> block_equiv c L irs (peep irs)"
proof (induction irs rule: peep.induct)
  case (2 ir irs)
  obtain h t where s: "peep_step (ir # irs) = h # t"
    using peep_step_length [of "ir # irs"] by (cases "peep_step (ir # irs)") auto
  have "block_equiv c L (ir # irs) (h # t)"
    using 2(2) peep_step_equiv [of L "ir # irs" c] by (simp add: s peep_ok.simps(2))
  moreover have "block_equiv c L (h # t) (h # peep t)"
    using 2 by (intro block_equiv_Cons) (simp add: s peep_ok.simps(2))
  ultimately show ?case
    by (simp add: peep.simps(2) s) (rule block_equiv_trans)
qed simp

end
