(* ===== verification/PeepProps.thy ===== *)
theory PeepProps
  imports PeepCorrect Samples
begin

text \<open>
  The properties of the peephole optimizer: a block whose rewrites meet their side
  conditions is replaced by an equivalent one, and the rewrites the code performs without
  checking them change what a program computes.
\<close>

definition pc0 :: pctx where
  "pc0 = \<lparr>stack_top = 0, data_base = 0, rodata_base = 0, other = (\<lambda>_ _. None)\<rparr>"

definition st0 :: ph2_state where
  "st0 = \<lparr>reg = (\<lambda>r. if r = 0 then -1 else if r = 4 then 7 else 5), spv = 0, gpv = 0, pmem = (\<lambda>_. 0)\<rparr>"

text \<open>
  C4. The peephole pass over a block. When every rewrite it makes meets its side
  condition (an executable check, \<open>peep_ok\<close>: the rewritten temporary is dead, the
  division is by one, the two accesses are to one slot, ...), each run of the block from
  any state is matched by a run of the optimized block that ends with the same memory,
  pointers and live registers. The pass itself always terminates.
\<close>

theorem peephole_block_correct:
  assumes "peep_ok L irs" "prun c irs s = Some s1"
  shows "\<exists>s2. prun c (peep irs) s = Some s2 \<and> agree_on L s1 s2"
  using peep_equiv [OF assms(1), of c] assms(2) by (simp add: block_equiv_def)

text \<open>\<open>r1 = 8; r2 = r4 * r1; r3 = r2; r3 = r3 - r3; [sp] = r3; [sp] = r3\<close>\<close>

definition blk :: "ph2_ir list" where
  "blk = [ir3 OP_load_constant 1 8 0, ir3 OP_mul 2 4 1, ir3 OP_assign 3 2 0, ir3 OP_sub 2 3 3,
     ir3 OP_store 0 3 0, ir3 OP_store 0 3 0]"

lemma peephole_block_correct_witness:
  "map_option (\<lambda>s2. reg s2 3) (prun pc0 (peep blk) st0) = Some 56 \<and> length (peep blk) < length blk"
proof -
  have ok: "peep_ok [2, 3] blk" "length (peep blk) < length blk"
    by code_simp+
  have "map_option (\<lambda>s. reg s 3) (prun pc0 blk st0) = Some 56"
    by code_simp
  then obtain s1 where s1: "prun pc0 blk st0 = Some s1" "reg s1 3 = 56"
    by auto
  from peephole_block_correct [OF ok(1) s1(1)] obtain s2
    where "prun pc0 (peep blk) st0 = Some s2" "agree_on [2, 3] s1 s2"
    by blast
  then show ?thesis
    using s1(2) ok(2) by (simp add: agree_on_def agree_except_def)
qed



definition div_blk :: "ph2_ir list" where
  "div_blk = [ir3 OP_load_constant 1 2 0, ir3 OP_div 2 0 1]"

text \<open>
  For a negative dividend it is not: the block \<open>r1 = 2; r2 = r0 / r1\<close> yields 0 when
  \<open>r0 = -1\<close>, and the block the pass makes of it yields -1.
\<close>

theorem strength_reduction_negative:
  "map_option (\<lambda>s. reg s 2) (prun pc0 div_blk st0) = Some 0
   \<and> map_option (\<lambda>s. reg s 2) (prun pc0 (peep div_blk) st0) = Some (-1)"
  by code_simp

definition and_blk :: "ph2_ir list" where
  "and_blk = [ir3 OP_load_constant 1 0 0, ir3 OP_bit_and 2 0 1]"

definition or_blk :: "ph2_ir list" where
  "or_blk = [ir3 OP_load_constant 1 (-1) 0, ir3 OP_bit_or 2 4 1]"

text \<open>
  Bitwise patterns five and six rewrite the second instruction and then unlink it: after
  \<open>r1 = 0; r2 = r0 & r1\<close> is optimized nothing writes \<open>r2\<close>, which keeps its old value
  instead of 0, and likewise after \<open>r1 = -1; r2 = r4 | r1\<close>.
\<close>

theorem bitwise_optimization_drops:
  "map_option (\<lambda>s. reg s 2) (prun pc0 and_blk st0) = Some 0
   \<and> map_option (\<lambda>s. reg s 2) (prun pc0 (peep and_blk) st0) = Some 5
   \<and> map_option (\<lambda>s. reg s 2) (prun pc0 or_blk st0) = Some (-1)
   \<and> map_option (\<lambda>s. reg s 2) (prun pc0 (peep or_blk) st0) = Some 5"
  by code_simp

definition st_ld_blk :: "ph2_ir list" where
  "st_ld_blk = [ir3 OP_store 0 4 0, ir3 OP_load 3 4 0]"

definition ld_st_blk :: "ph2_ir list" where
  "ld_st_blk = [ir3 OP_load 4 4 0, ir3 OP_store 4 4 0]"

text \<open>
  The store-load and load-store patterns compare a register number with an offset.
  \<open>[sp + 1] = r4; r3 = [sp + 4]\<close> is taken for a load of what was stored and becomes a copy
  of \<open>r0\<close>, and \<open>r4 = [sp + 4]; [sp + 0] = r4\<close> loses its store.
\<close>

theorem load_store_pairs_confused:
  "map_option (\<lambda>s. reg s 3) (prun pc0 st_ld_blk st0) = Some 0
   \<and> map_option (\<lambda>s. reg s 3) (prun pc0 (peep st_ld_blk) st0) = Some (-1)
   \<and> map op (peep ld_st_blk) = [OP_load]"
proof -
  have "map_option (\<lambda>s. reg s 3) (prun pc0 (peep st_ld_blk) st0) = Some (-1)"
    "map op (peep ld_st_blk) = [OP_load]"
    by code_simp+
  moreover have "mem_bytes (mem_write (\<lambda>_. 0) 0 4 7) 4 4 = 0"
    by code_simp
  ultimately show ?thesis
    by (simp add: st_ld_blk_def ir3_def new_ph2_ir_def pstep_simps slot_def pc0_def st0_def
        load_val_def sext_def store_val_def)
qed

end
