(* ===== verification/ArchLower.thy ===== *)
theory ArchLower
  imports Layout
begin

text \<open>
  The lowering pass of \<^verbatim>\<open>src/arch-lower.c\<close>: a conditional branch is marked detached
  when its else-block is not the block that follows in the \<open>rpo_next\<close> chain, so that the
  ARM generator knows whether it may fall through. \<open>arm_lower\<close> and \<open>riscv_lower\<close> are
  the same loop.
\<close>

definition lower_insn :: "bb_ref option \<Rightarrow> ph2_ir \<Rightarrow> ph2_ir" where
  "lower_insn rpo_next insn =
     (if op insn = OP_branch then insn\<lparr>is_branch_detached := (else_bb insn \<noteq> rpo_next)\<rparr> else insn)"

definition rpo_next_of :: "basic_block list \<Rightarrow> bb_ref option" where
  "rpo_next_of bs = (case bs of [] \<Rightarrow> None | b # _ \<Rightarrow> Some (bb_id b))"

fun lower_bbs :: "basic_block list \<Rightarrow> basic_block list" where
  "lower_bbs [] = []"
| "lower_bbs (bb # rest) =
     bb\<lparr>ph2_ir_list := map (lower_insn (rpo_next_of rest)) (ph2_ir_list bb)\<rparr> # lower_bbs rest"

definition arm_lower :: "func list \<Rightarrow> func list" where
  "arm_lower funcs = map (\<lambda>f. if bbs f = [] then f else f\<lparr>bbs := lower_bbs (bbs f)\<rparr>) funcs"

definition riscv_lower :: "func list \<Rightarrow> func list" where
  "riscv_lower funcs = map (\<lambda>f. if bbs f = [] then f else f\<lparr>bbs := lower_bbs (bbs f)\<rparr>) funcs"

text \<open>\<open>ELF_MACHINE\<close> selects the pass at compile time.\<close>

definition arch_lower :: "cint \<Rightarrow> func list \<Rightarrow> func list" where
  "arch_lower elf_machine funcs =
     (if elf_machine = 0x28 then arm_lower funcs
      else if elf_machine = 0xf3 then riscv_lower funcs else funcs)"

section \<open>What the pass leaves\<close>

lemma lower_bbs_append:
  "lower_bbs (xs @ b # ys) =
     map (\<lambda>i. (xs ! i)\<lparr>ph2_ir_list :=
        map (lower_insn (rpo_next_of (drop (Suc i) (xs @ b # ys)))) (ph2_ir_list (xs ! i))\<rparr>) [0..<length xs]
     @ b\<lparr>ph2_ir_list := map (lower_insn (rpo_next_of ys)) (ph2_ir_list b)\<rparr> # lower_bbs ys"
proof (induction xs)
  case (Cons x xs)
  show ?case
    by (simp add: Cons map_upt_Suc del: upt_Suc)
qed simp

lemma rpo_next_lower [simp]: "rpo_next_of (lower_bbs bs) = rpo_next_of bs"
  by (cases bs) (simp_all add: rpo_next_of_def)

lemma lower_bbs_ids [simp]: "map bb_id (lower_bbs bs) = map bb_id bs"
  by (induction bs) simp_all

text \<open>A block list is lowered when its marks are those of the fall-through relation.\<close>

fun lowered :: "basic_block list \<Rightarrow> bool" where
  "lowered [] = True"
| "lowered (bb # rest) =
     ((\<forall>insn\<in>set (ph2_ir_list bb). op insn = OP_branch
         \<longrightarrow> is_branch_detached insn = (else_bb insn \<noteq> rpo_next_of rest)) \<and> lowered rest)"

lemma lowered_lower_bbs: "lowered (lower_bbs bs)"
  by (induction bs) (auto simp: lower_insn_def)

lemma lower_insn_again: "lower_insn n (lower_insn n ir) = lower_insn n ir"
  by (simp add: lower_insn_def)

lemma lower_bbs_again: "lower_bbs (lower_bbs bs) = lower_bbs bs"
  by (induction bs) (simp_all add: lower_insn_again)

end
