(* ===== verification/SsaIr.thy ===== *)
theory SsaIr
  imports Ph2Sem
begin

text \<open>
  The instructions of the SSA form (\<open>insn_t\<close>, \<open>var_t\<close> and \<open>basic_block_t\<close> of
  \<^verbatim>\<open>src/defs.h\<close>), with the fields its optimizations read and change, and their
  meaning.

  A \<open>var_t *\<close> is the variable's identity and the fields behind the pointers are a store
  \<open>vars\<close>, so that a pass that changes \<open>rd->init_val\<close> is seen by every instruction that
  mentions the variable. \<open>NULL\<close> is \<open>None\<close>.
\<close>

type_synonym var_ref = nat

record svar =
  is_const :: bool
  init_val :: cint
  is_global :: bool

type_synonym vars = "var_ref \<Rightarrow> svar"

record sinsn =
  i_op :: opcode
  rd :: "var_ref option"
  rs1 :: "var_ref option"
  rs2 :: "var_ref option"
  sz :: cint

record sblock =
  s_insns :: "sinsn list"
  s_next :: "bb_ref option"
  s_then :: "bb_ref option"
  s_else :: "bb_ref option"

section \<open>Meaning\<close>

text \<open>
  An environment gives every variable a value. Constants take their value from
  \<open>rd->init_val\<close>, as register allocation does, unary and binary operations are those of
  the phase-2 instructions, and every other instruction (calls, memory, phi) is an
  arbitrary function \<open>ext\<close>. An instruction without a destination is a no-op that dead code
  elimination removes.
\<close>

type_synonym senv = "var_ref \<Rightarrow> cint"

definition s_is_bin :: "opcode \<Rightarrow> bool" where
  "s_is_bin oc \<longleftrightarrow> is_bin oc \<or> oc = OP_log_and \<or> oc = OP_log_or"

definition s_bin :: "opcode \<Rightarrow> cint \<Rightarrow> cint \<Rightarrow> cint option" where
  "s_bin oc a b =
     (if oc = OP_log_and then Some (of_bool_c (a \<noteq> 0 \<and> b \<noteq> 0))
      else if oc = OP_log_or then Some (of_bool_c (a \<noteq> 0 \<or> b \<noteq> 0))
      else ph2_bin oc a b)"

definition s_value :: "vars \<Rightarrow> sinsn \<Rightarrow> senv \<Rightarrow> cint option" where
  "s_value vs i env =
     (if i_op i = OP_load_constant then map_option (\<lambda>d. init_val (vs d)) (rd i)
      else if is_un (i_op i)
      then (case rs1 i of None \<Rightarrow> None | Some a \<Rightarrow> ph2_un (i_op i) (sz i) (env a))
      else (case (rs1 i, rs2 i) of
              (Some a, Some b) \<Rightarrow> s_bin (i_op i) (env a) (env b)
            | _ \<Rightarrow> None))"

definition s_pure :: "opcode \<Rightarrow> bool" where
  "s_pure oc \<longleftrightarrow> oc = OP_load_constant \<or> is_un oc \<or> s_is_bin oc"

definition s_step :: "(sinsn \<Rightarrow> senv \<Rightarrow> senv option) \<Rightarrow> vars \<Rightarrow> sinsn \<Rightarrow> senv \<Rightarrow> senv option" where
  "s_step ext vs i env =
     (if s_pure (i_op i)
      then (case rd i of
              None \<Rightarrow> Some env
            | Some d \<Rightarrow> map_option (\<lambda>v. env(d := v)) (s_value vs i env))
      else ext i env)"

fun s_run :: "(sinsn \<Rightarrow> senv \<Rightarrow> senv option) \<Rightarrow> vars \<Rightarrow> sinsn list \<Rightarrow> senv \<Rightarrow> senv option" where
  "s_run ext vs [] env = Some env"
| "s_run ext vs (i # is) env =
     (case s_step ext vs i env of None \<Rightarrow> None | Some e \<Rightarrow> s_run ext vs is e)"

text \<open>The successor of a block: its branch decides, if it ends with one.\<close>

definition s_succ :: "sblock \<Rightarrow> senv \<Rightarrow> bb_ref option" where
  "s_succ bb env =
     (if s_insns bb \<noteq> [] \<and> i_op (last (s_insns bb)) = OP_branch
      then (case rs1 (last (s_insns bb)) of
              None \<Rightarrow> None
            | Some a \<Rightarrow> if env a \<noteq> 0 then s_then bb else s_else bb)
      else s_next bb)"

section \<open>The shape of SSA code\<close>

definition rds :: "sinsn list \<Rightarrow> var_ref set" where
  "rds is = {d. \<exists>i\<in>set is. rd i = Some d}"

lemma rds_Nil [simp]: "rds [] = {}"
  by (simp add: rds_def)

lemma rds_Cons [simp]: "rds (i # is) = set_option (rd i) \<union> rds is"
  by (auto simp: rds_def)

lemma rds_append [simp]: "rds (xs @ ys) = rds xs \<union> rds ys"
  by (auto simp: rds_def)

definition operands :: "sinsn \<Rightarrow> var_ref set" where
  "operands i = set_option (rs1 i) \<union> set_option (rs2 i)"

text \<open>
  \<open>ssa g is\<close>: a variable that is not global (\<open>g\<close>) is assigned at most once and read
  only after its assignment.
\<close>

fun ssa :: "(var_ref \<Rightarrow> bool) \<Rightarrow> sinsn list \<Rightarrow> bool" where
  "ssa g [] = True"
| "ssa g (i # is) =
     ((\<forall>d\<in>set_option (rd i). g d \<or> d \<notin> rds is)
      \<and> (\<forall>a\<in>operands i. g a \<or> a \<notin> set_option (rd i) \<and> a \<notin> rds is) \<and> ssa g is)"

text \<open>Variables marked constant have their value, unless they are assigned later.\<close>

definition holds :: "vars \<Rightarrow> senv \<Rightarrow> var_ref set \<Rightarrow> bool" where
  "holds vs env later \<longleftrightarrow> (\<forall>v. is_const (vs v) \<and> v \<notin> later \<longrightarrow> env v = init_val (vs v))"

text \<open>
  What a pass may start from: no global is marked constant, and what is marked constant
  and assigned here is assigned by an \<open>OP_load_constant\<close>.
\<close>

definition marks_ok :: "vars \<Rightarrow> sinsn list \<Rightarrow> bool" where
  "marks_ok vs is \<longleftrightarrow> (\<forall>v. is_global (vs v) \<longrightarrow> \<not> is_const (vs v))
     \<and> (\<forall>i\<in>set is. \<forall>d. rd i = Some d \<and> is_const (vs d) \<longrightarrow> i_op i = OP_load_constant)"

text \<open>Other instructions change their destination and global variables only.\<close>

definition frame :: "(sinsn \<Rightarrow> senv \<Rightarrow> senv option) \<Rightarrow> (var_ref \<Rightarrow> bool) \<Rightarrow> bool" where
  "frame ext g \<longleftrightarrow> (\<forall>i env env' v. ext i env = Some env' \<and> rd i \<noteq> Some v \<and> \<not> g v \<longrightarrow> env' v = env v)"

lemma s_step_frame:
  "frame ext g \<Longrightarrow> s_step ext vs i env = Some env' \<Longrightarrow> rd i \<noteq> Some v \<Longrightarrow> \<not> g v \<Longrightarrow> env' v = env v"
  by (auto simp: s_step_def frame_def split: if_split_asm option.split_asm)

lemma s_step_cong:
  "(\<And>d. rd i = Some d \<Longrightarrow> vs d = ws d) \<Longrightarrow> s_step ext vs i env = s_step ext ws i env"
  by (cases "rd i") (auto simp: s_step_def s_value_def)

lemma s_run_cong:
  "(\<And>d. d \<in> rds is \<Longrightarrow> vs d = ws d) \<Longrightarrow> s_run ext vs is env = s_run ext ws is env"
proof (induction "is" arbitrary: env)
  case (Cons i "is")
  have "s_step ext vs i env = s_step ext ws i env"
    using Cons.prems by (intro s_step_cong) simp
  then show ?case
    using Cons by (simp split: option.split)
qed simp

lemma s_run_append:
  "s_run ext vs (xs @ ys) env = (case s_run ext vs xs env of None \<Rightarrow> None | Some e \<Rightarrow> s_run ext vs ys e)"
  by (induction xs arbitrary: env) (auto split: option.split)

end
