(* ===== verification/Sccp.thy ===== *)
theory Sccp
  imports SsaIr
begin

text \<open>
  The constant propagation of \<^verbatim>\<open>src/opt-sccp.c\<close>. A pass over a function threads the
  variable store; its value is the store, the instructions and whether anything changed.
\<close>

section \<open>The pass\<close>

definition set_const :: "var_ref \<Rightarrow> cint \<Rightarrow> vars \<Rightarrow> vars" where
  "set_const d v vs = vs(d := (vs d)\<lparr>is_const := True, init_val := v\<rparr>)"

text \<open>\<open>r && r->is_const\<close>, with the value \<open>r->init_val\<close>.\<close>

definition const_of :: "vars \<Rightarrow> var_ref option \<Rightarrow> cint option" where
  "const_of vs r = (case r of None \<Rightarrow> None | Some v \<Rightarrow> if is_const (vs v) then Some (init_val (vs v)) else None)"

definition fold_trunc :: "cint \<Rightarrow> cint \<Rightarrow> cint option" where
  "fold_trunc n value =
     (if n = 1 then Some (value AND 0xFF)
      else if n = 2 then Some (value AND 0xFFFF)
      else if n = 4 then Some value
      else None)"

definition fold_sign_ext :: "cint \<Rightarrow> cint \<Rightarrow> cint option" where
  "fold_sign_ext n value =
     (if n = 1 then Some (if value AND 0x80 \<noteq> 0 then value OR 0xFFFFFF00 else value AND 0xFF)
      else if n = 2 then Some (if value AND 0x8000 \<noteq> 0 then value OR 0xFFFF0000 else value AND 0xFFFF)
      else if n = 4 then Some value
      else None)"

definition fold_binary :: "opcode \<Rightarrow> cint \<Rightarrow> cint \<Rightarrow> cint option" where
  "fold_binary oc l r =
     (case oc of
        OP_add \<Rightarrow> Some (l + r)
      | OP_sub \<Rightarrow> Some (l - r)
      | OP_mul \<Rightarrow> Some (l * r)
      | OP_eq \<Rightarrow> Some (of_bool_c (l = r))
      | OP_neq \<Rightarrow> Some (of_bool_c (l \<noteq> r))
      | OP_lt \<Rightarrow> Some (of_bool_c (lt_s l r))
      | OP_leq \<Rightarrow> Some (of_bool_c (le_s l r))
      | OP_gt \<Rightarrow> Some (of_bool_c (lt_s r l))
      | OP_geq \<Rightarrow> Some (of_bool_c (le_s r l))
      | _ \<Rightarrow> None)"

text \<open>The constant an instruction with destination \<open>d\<close> is folded to.\<close>

definition sccp_fold :: "vars \<Rightarrow> var_ref \<Rightarrow> sinsn \<Rightarrow> cint option" where
  "sccp_fold vs d insn =
     (case i_op insn of
        OP_assign \<Rightarrow> (if is_const (vs d) then None else const_of vs (rs1 insn))
      | OP_trunc \<Rightarrow>
          (case const_of vs (rs1 insn) of
             None \<Rightarrow> None
           | Some value \<Rightarrow>
               if \<not> is_global (vs d) \<and> lt_s 0 (sz insn) then fold_trunc (sz insn) value else None)
      | OP_sign_ext \<Rightarrow>
          (case const_of vs (rs1 insn) of
             None \<Rightarrow> None
           | Some value \<Rightarrow>
               if \<not> is_global (vs d) \<and> lt_s 0 (sz insn) then fold_sign_ext (sz insn) value else None)
      | _ \<Rightarrow>
          (case (const_of vs (rs1 insn), const_of vs (rs2 insn)) of
             (Some l, Some r) \<Rightarrow> if \<not> is_global (vs d) then fold_binary (i_op insn) l r else None
           | _ \<Rightarrow> None))"

text \<open>What is cleared when the instruction becomes a constant load.\<close>

definition to_constant :: "sinsn \<Rightarrow> sinsn" where
  "to_constant insn =
     (case i_op insn of
        OP_assign \<Rightarrow> insn\<lparr>i_op := OP_load_constant, rs1 := None\<rparr>
      | OP_trunc \<Rightarrow> insn\<lparr>i_op := OP_load_constant, rs1 := None, sz := 0\<rparr>
      | OP_sign_ext \<Rightarrow> insn\<lparr>i_op := OP_load_constant, rs1 := None, sz := 0\<rparr>
      | _ \<Rightarrow> insn\<lparr>i_op := OP_load_constant, rs1 := None, rs2 := None\<rparr>)"

definition sccp_insn :: "vars \<Rightarrow> sinsn \<Rightarrow> vars \<times> sinsn \<times> bool" where
  "sccp_insn vs insn =
     (case rd insn of
        None \<Rightarrow> (vs, insn, False)
      | Some d \<Rightarrow>
          (case sccp_fold vs d insn of
             None \<Rightarrow> (vs, insn, False)
           | Some c \<Rightarrow> (set_const d c vs, to_constant insn, True)))"

fun sccp_insns :: "vars \<Rightarrow> sinsn list \<Rightarrow> vars \<times> sinsn list \<times> bool" where
  "sccp_insns vs [] = (vs, [], False)"
| "sccp_insns vs (insn # rest) =
     (let (vs1, insn1, c1) = sccp_insn vs insn;
          (vs2, rest2, c2) = sccp_insns vs1 rest
      in (vs2, insn1 # rest2, c1 \<or> c2))"

text \<open>A branch on a constant becomes a jump to the block that is taken.\<close>

definition fold_branch :: "vars \<Rightarrow> sblock \<Rightarrow> sblock \<times> bool" where
  "fold_branch vs bb =
     (if s_insns bb = [] \<or> i_op (last (s_insns bb)) \<noteq> OP_branch then (bb, False)
      else case const_of vs (rs1 (last (s_insns bb))) of
             None \<Rightarrow> (bb, False)
           | Some v \<Rightarrow>
               (bb\<lparr>s_insns := butlast (s_insns bb) @ [(last (s_insns bb))\<lparr>i_op := OP_jump, rs1 := None\<rparr>],
                  s_then := (if v \<noteq> 0 then s_then bb else s_else bb), s_else := None\<rparr>, True))"

definition sccp_block :: "vars \<Rightarrow> sblock \<Rightarrow> vars \<times> sblock \<times> bool" where
  "sccp_block vs bb =
     (let (vs1, is1, c1) = sccp_insns vs (s_insns bb);
          (bb2, c2) = fold_branch vs1 (bb\<lparr>s_insns := is1\<rparr>)
      in (vs1, bb2, c1 \<or> c2))"

fun simple_sccp :: "vars \<Rightarrow> sblock list \<Rightarrow> vars \<times> sblock list \<times> bool" where
  "simple_sccp vs [] = (vs, [], False)"
| "simple_sccp vs (bb # blocks) =
     (let (vs1, bb1, c1) = sccp_block vs bb;
          (vs2, blocks2, c2) = simple_sccp vs1 blocks
      in (vs2, bb1 # blocks2, c1 \<or> c2))"

section \<open>Constants that are truncated\<close>

fun const_casts :: "vars \<Rightarrow> sinsn list \<Rightarrow> vars \<times> sinsn list \<times> bool" where
  "const_casts vs (insn # next_insn # rest) =
     (case (rd insn, rd next_insn) of
        (Some t, Some d) \<Rightarrow>
          (case fold_trunc (sz next_insn) (init_val (vs t)) of
             Some result \<Rightarrow>
               if i_op insn = OP_load_constant \<and> i_op next_insn = OP_trunc \<and> rs1 next_insn = Some t
                  \<and> lt_s 0 (sz next_insn) \<and> \<not> is_global (vs d)
               then (let (vs1, rest1, _) = const_casts (set_const d result vs)
                           (next_insn\<lparr>i_op := OP_load_constant, rs1 := None, sz := 0\<rparr> # rest)
                     in (vs1, insn\<lparr>rd := Some d\<rparr> # rest1, True))
               else (let (vs1, rest1, c) = const_casts vs (next_insn # rest) in (vs1, insn # rest1, c))
           | None \<Rightarrow> (let (vs1, rest1, c) = const_casts vs (next_insn # rest) in (vs1, insn # rest1, c)))
      | _ \<Rightarrow> (let (vs1, rest1, c) = const_casts vs (next_insn # rest) in (vs1, insn # rest1, c)))"
| "const_casts vs is = (vs, is, False)"

fun optimize_constant_casts :: "vars \<Rightarrow> sblock list \<Rightarrow> vars \<times> sblock list \<times> bool" where
  "optimize_constant_casts vs [] = (vs, [], False)"
| "optimize_constant_casts vs (bb # blocks) =
     (let (vs1, is1, c1) = const_casts vs (s_insns bb);
          (vs2, blocks2, c2) = optimize_constant_casts vs1 blocks
      in (vs2, bb\<lparr>s_insns := is1\<rparr> # blocks2, c1 \<or> c2))"

section \<open>Soundness on a block\<close>

lemma set_const_simps [simp]:
  "is_const (set_const d c vs v) \<longleftrightarrow> v = d \<or> is_const (vs v)"
  "init_val (set_const d c vs v) = (if v = d then c else init_val (vs v))"
  "is_global (set_const d c vs v) = is_global (vs v)"
  by (auto simp: set_const_def)

lemma const_of_Some: "const_of vs r = Some c \<longleftrightarrow> (\<exists>v. r = Some v \<and> is_const (vs v) \<and> c = init_val (vs v))"
  by (cases r) (auto simp: const_of_def)

lemma fold_binary_bin: "fold_binary oc l r = Some c \<Longrightarrow> is_bin oc \<and> s_bin oc l r = Some c"
  by (cases oc) (simp_all add: fold_binary_def s_bin_def ph2_bin_def is_bin_def)

lemma fold_trunc_un: "fold_trunc n v = Some c \<Longrightarrow> ph2_un OP_trunc n v = Some c"
  by (simp add: fold_trunc_def ph2_un_def trunc_val_def split: if_split_asm)

text \<open>
  The sizes the sign extension folds are 1, 2 and 4, but an \<open>OP_sign_ext\<close> has its source
  size in the upper half of \<open>sz\<close>: on such an \<open>sz\<close> the target has no result.
\<close>

lemma fold_sign_ext_un: "fold_sign_ext n v = Some c \<Longrightarrow> ph2_un OP_sign_ext n u = None"
proof -
  assume "fold_sign_ext n v = Some c"
  then have "n = 1 \<or> n = 2 \<or> n = 4"
    by (simp add: fold_sign_ext_def split: if_split_asm)
  moreover have "sar 1 16 AND 0xFFFF = (0 :: cint)" "sar 2 16 AND 0xFFFF = (0 :: cint)"
    "sar 4 16 AND 0xFFFF = (0 :: cint)"
    by code_simp+
  ultimately show ?thesis
    by (auto simp: ph2_un_def sign_ext_val_def Let_def)
qed

lemma is_un_simps [simp]: "is_un OP_assign" "is_un OP_trunc" "is_un OP_sign_ext"
  by (simp_all add: is_un_def)

text \<open>A folded instruction computes the constant, from every environment the marks describe.\<close>

lemma sccp_fold_value:
  assumes "sccp_fold vs d i = Some c" "\<And>a. a \<in> operands i \<Longrightarrow> is_const (vs a) \<Longrightarrow> env a = init_val (vs a)"
    and "s_value ws i env = Some v"
  shows "v = c"
proof -
  have un: "v = c" if p: "is_un (i_op i)" "i_op i \<noteq> OP_sign_ext" "const_of vs (rs1 i) = Some x"
    "ph2_un (i_op i) (sz i) x = Some c" for x
  proof -
    obtain a where a: "rs1 i = Some a" "is_const (vs a)" "x = init_val (vs a)"
      using p(3) by (auto simp: const_of_Some)
    then have "env a = x"
      using assms(2) by (auto simp: operands_def)
    moreover have "i_op i \<noteq> OP_load_constant"
      using p(1) by (auto simp: is_un_def)
    ultimately show ?thesis
      using assms(3) p a by (simp add: s_value_def)
  qed
  have bin: "v = c" if p: "const_of vs (rs1 i) = Some x" "const_of vs (rs2 i) = Some y" "fold_binary (i_op i) x y = Some c" for x y
  proof -
    obtain a b where ab: "rs1 i = Some a" "is_const (vs a)" "x = init_val (vs a)"
      "rs2 i = Some b" "is_const (vs b)" "y = init_val (vs b)"
      using p(1,2) by (auto simp: const_of_Some)
    then have "env a = x" "env b = y"
      using assms(2) by (auto simp: operands_def)
    moreover have "i_op i \<noteq> OP_load_constant" "\<not> is_un (i_op i)" "s_bin (i_op i) x y = Some c"
      using fold_binary_bin [OF p(3)] by (auto simp: is_bin_def is_un_def)
    ultimately show ?thesis
      using assms(3) ab by (simp add: s_value_def)
  qed
  consider "i_op i = OP_assign" | "i_op i = OP_trunc" | "i_op i = OP_sign_ext"
    | "i_op i \<notin> {OP_assign, OP_trunc, OP_sign_ext}" by blast
  then show ?thesis
  proof cases
    case 1
    with assms(1) have "const_of vs (rs1 i) = Some c"
      by (auto simp: sccp_fold_def split: if_split_asm)
    then show ?thesis
      using un 1 by (simp add: ph2_un_def)
  next
    case 2
    with assms(1) obtain x where "const_of vs (rs1 i) = Some x" "fold_trunc (sz i) x = Some c"
      by (auto simp: sccp_fold_def split: if_split_asm option.split_asm)
    then show ?thesis
      using un 2 fold_trunc_un by simp
  next
    case 3
    with assms(1) obtain x where "fold_sign_ext (sz i) x = Some c"
      by (auto simp: sccp_fold_def split: if_split_asm option.split_asm)
    from fold_sign_ext_un [OF this] 3 assms(3) show ?thesis
      by (auto simp: s_value_def split: option.split_asm)
  next
    case 4
    then have "sccp_fold vs d i = (case (const_of vs (rs1 i), const_of vs (rs2 i)) of
             (Some l, Some r) \<Rightarrow> if \<not> is_global (vs d) then fold_binary (i_op i) l r else None
           | _ \<Rightarrow> None)"
      by (cases "i_op i") (simp_all add: sccp_fold_def)
    with assms(1) bin show ?thesis
      by (auto split: option.split_asm if_split_asm)
  qed
qed

lemma to_constant_simps [simp]: "i_op (to_constant i) = OP_load_constant" "rd (to_constant i) = rd i"
  by (cases "i_op i"; simp add: to_constant_def)+

text \<open>Whenever the pass comes to an assignment to a global, the operand is not marked constant.\<close>

fun no_global_const :: "vars \<Rightarrow> sinsn list \<Rightarrow> bool" where
  "no_global_const vs [] = True"
| "no_global_const vs (i # is) =
     ((i_op i = OP_assign \<and> (\<exists>d\<in>set_option (rd i). is_global (vs d)) \<longrightarrow> const_of vs (rs1 i) = None)
      \<and> no_global_const (fst (sccp_insn vs i)) is)"

lemma sccp_fold_local:
  "sccp_fold vs d i = Some c \<Longrightarrow> (i_op i = OP_assign \<and> is_global (vs d) \<longrightarrow> const_of vs (rs1 i) = None) \<Longrightarrow> \<not> is_global (vs d)"
  by (cases "i_op i") (auto simp: sccp_fold_def split: option.split_asm if_split_asm)

lemma sccp_fold_pure: "sccp_fold vs d i = Some c \<Longrightarrow> s_pure (i_op i) \<and> i_op i \<noteq> OP_load_constant"
  by (cases "i_op i")
    (auto simp: sccp_fold_def s_pure_def s_is_bin_def is_bin_def is_un_def fold_binary_def
      split: option.split_asm if_split_asm)

lemma holds_step:
  assumes "holds vs env (set_option (rd i) \<union> rds is)" "marks_ok vs (i # is)" "frame ext (is_global \<circ> vs)"
    and "s_step ext vs i env = Some env'" "ssa (is_global \<circ> vs) (i # is)"
  shows "holds vs env' (rds is)"
  unfolding holds_def
proof (intro allI impI, elim conjE)
  fix v
  assume v: "is_const (vs v)" "v \<notin> rds is"
  then have g: "\<not> is_global (vs v)"
    using assms(2) by (auto simp: marks_ok_def)
  show "env' v = init_val (vs v)"
  proof (cases "rd i = Some v")
    case True
    then have "i_op i = OP_load_constant"
      using assms(2) v(1) by (auto simp: marks_ok_def)
    with True assms(4) show ?thesis
      by (auto simp: s_step_def s_pure_def s_value_def)
  next
    case False
    then have "env v = init_val (vs v)"
      using assms(1) v by (auto simp: holds_def)
    with s_step_frame [OF assms(3,4) False] g show ?thesis
      by simp
  qed
qed

lemma sccp_insns_sound:
  assumes "sccp_insns vs is = (vs', is', ch)" "ssa (is_global \<circ> vs) is" "marks_ok vs is"
    and "no_global_const vs is" "holds vs env (rds is)" "frame ext (is_global \<circ> vs)"
    and "s_run ext vs is env = Some env'"
  shows "s_run ext vs' is' env = Some env' \<and> holds vs' env' {}
    \<and> (\<forall>v. v \<notin> rds is \<or> is_global (vs v) \<longrightarrow> vs' v = vs v)
    \<and> is_global \<circ> vs' = is_global \<circ> vs \<and> rds is' = rds is
    \<and> (\<forall>v. is_global (vs v) \<longrightarrow> \<not> is_const (vs' v))"
  using assms
proof (induction "is" arbitrary: vs vs' is' ch env)
  case Nil
  then show ?case by (auto simp: marks_ok_def)
next
  case (Cons i "is")
  let ?g = "is_global \<circ> vs"
  obtain vs1 i1 c1 where h: "sccp_insn vs i = (vs1, i1, c1)"
    by (metis prod_cases3)
  obtain is2 c2 where t: "sccp_insns vs1 is = (vs', is2, c2)" and is': "is' = i1 # is2"
    using Cons.prems(1) h by (auto split: prod.split_asm)
  obtain e1 where e1: "s_step ext vs i env = Some e1" "s_run ext vs is e1 = Some env'"
    using Cons.prems(7) by (auto split: option.split_asm)
  have h1: "holds vs e1 (rds is)"
    using holds_step [OF _ Cons.prems(3) Cons.prems(6) e1(1) Cons.prems(2)] Cons.prems(5) by simp
  have *: "(\<forall>v. v \<notin> set_option (rd i) \<or> is_global (vs v) \<longrightarrow> vs1 v = vs v) \<and> is_global \<circ> vs1 = ?g
      \<and> holds vs1 e1 (rds is) \<and> rd i1 = rd i \<and> marks_ok vs1 is
      \<and> (\<forall>ws. (\<forall>d. rd i = Some d \<longrightarrow> ws d = vs1 d) \<longrightarrow> s_step ext ws i1 env = Some e1)"
  proof (cases "\<exists>d c. rd i = Some d \<and> sccp_fold vs d i = Some c")
    case False
    then have "vs1 = vs" "i1 = i"
      using h by (auto simp: sccp_insn_def split: option.split_asm)
    moreover have "marks_ok vs is"
      using Cons.prems(3) by (auto simp: marks_ok_def)
    moreover have "s_step ext ws i env = Some e1" if "\<forall>d. rd i = Some d \<longrightarrow> ws d = vs d" for ws
      using e1(1) s_step_cong [of i ws vs ext env] that by simp
    ultimately show ?thesis
      using h1 by simp
  next
    case True
    then obtain d c where d: "rd i = Some d" "sccp_fold vs d i = Some c" by blast
    then have 1: "vs1 = set_const d c vs" "i1 = to_constant i"
      using h by (auto simp: sccp_insn_def)
    have g: "\<not> is_global (vs d)"
      using sccp_fold_local [OF d(2)] Cons.prems(4) d(1) by simp
    then have fresh: "d \<notin> rds is"
      using Cons.prems(2) d(1) by simp
    have ops: "env a = init_val (vs a)" if "a \<in> operands i" "is_const (vs a)" for a
    proof -
      have "a \<notin> rds (i # is)"
        using Cons.prems(2,3) that d(1) by (auto simp: marks_ok_def)
      then show ?thesis
        using Cons.prems(5) that(2) by (auto simp: holds_def)
    qed
    obtain v where "s_value vs i env = Some v" "e1 = env(d := v)"
      using e1(1) sccp_fold_pure [OF d(2)] d(1) by (auto simp: s_step_def)
    moreover from sccp_fold_value [OF d(2) ops this(1)] have "v = c" .
    ultimately have e: "e1 = env(d := c)" by simp
    have "marks_ok vs1 is"
      using Cons.prems(3) g fresh by (auto simp: marks_ok_def 1 rds_def)
    moreover have "holds vs1 e1 (rds is)"
      using h1 by (auto simp: holds_def 1 e)
    moreover have "s_step ext ws i1 env = Some e1" if "\<forall>x. rd i = Some x \<longrightarrow> ws x = vs1 x" for ws
      using that d(1) by (simp add: s_step_def s_pure_def s_value_def 1 e)
    ultimately show ?thesis
      using d(1) g by (auto simp: 1 fun_eq_iff set_const_def)
  qed
  then have g1: "is_global \<circ> vs1 = ?g" by blast
  have run1: "s_run ext vs1 is e1 = Some env'"
  proof -
    have "vs1 x = vs x" if "x \<in> rds is" for x
    proof -
      have "x \<notin> set_option (rd i) \<or> is_global (vs x)"
        using Cons.prems(2) that by auto
      with * show ?thesis by blast
    qed
    then show ?thesis
      using e1(2) s_run_cong [of "is" vs1 vs ext e1] by simp
  qed
  have IH: "s_run ext vs' is2 e1 = Some env' \<and> holds vs' env' {}
    \<and> (\<forall>v. v \<notin> rds is \<or> is_global (vs1 v) \<longrightarrow> vs' v = vs1 v)
    \<and> is_global \<circ> vs' = is_global \<circ> vs1 \<and> rds is2 = rds is
    \<and> (\<forall>v. is_global (vs1 v) \<longrightarrow> \<not> is_const (vs' v))"
    using Cons.prems * h by (intro Cons.IH [OF t _ _ _ _ _ run1]) (simp_all add: g1)
  have gl: "is_global (vs1 v) = is_global (vs v)" for v
    using g1 by (auto simp: fun_eq_iff)
  have "s_step ext vs' i1 env = Some e1"
  proof -
    have "vs' d = vs1 d" if "rd i = Some d" for d
      using IH Cons.prems(2) that gl by auto
    with * show ?thesis by blast
  qed
  with IH * gl show ?case
    by (auto simp: is')
qed

text \<open>Branches and jumps, as instructions, change no variable.\<close>

definition control_keeps :: "(sinsn \<Rightarrow> senv \<Rightarrow> senv option) \<Rightarrow> bool" where
  "control_keeps ext \<longleftrightarrow> (\<forall>i env. i_op i = OP_branch \<or> i_op i = OP_jump \<longrightarrow> ext i env = Some env)"

lemma control_step:
  "control_keeps ext \<Longrightarrow> i_op i = OP_branch \<or> i_op i = OP_jump \<Longrightarrow> s_step ext vs i env = Some env"
  by (auto simp: control_keeps_def s_step_def s_pure_def s_is_bin_def is_bin_def is_un_def)

text \<open>
  A branch that is folded keeps, as its only conditional successor, the block that every
  environment the marks describe would take; the other instructions stay.
\<close>

lemma fold_branch_taken:
  assumes "fold_branch vs bb = (bb', True)" "holds vs env {}"
  shows "i_op (last (s_insns bb')) = OP_jump \<and> s_then bb' = s_succ bb env \<and> s_else bb' = None \<and> s_next bb' = s_next bb"
    "map rd (s_insns bb') = map rd (s_insns bb)"
    "control_keeps ext \<Longrightarrow> s_run ext ws (s_insns bb') e = s_run ext ws (s_insns bb) e"
proof -
  let ?last = "last (s_insns bb)"
  obtain v a where ne: "s_insns bb \<noteq> []" "i_op ?last = OP_branch"
    and a: "rs1 ?last = Some a" "is_const (vs a)" "v = init_val (vs a)"
    and bb': "bb' = bb\<lparr>s_insns := butlast (s_insns bb) @ [?last\<lparr>i_op := OP_jump, rs1 := None\<rparr>],
                  s_then := (if v \<noteq> 0 then s_then bb else s_else bb), s_else := None\<rparr>"
    using assms(1) by (auto simp: fold_branch_def const_of_Some split: if_split_asm option.split_asm)
  have "env a = v"
    using assms(2) a by (auto simp: holds_def)
  then show "i_op (last (s_insns bb')) = OP_jump \<and> s_then bb' = s_succ bb env \<and> s_else bb' = None \<and> s_next bb' = s_next bb"
    using ne a(1) by (simp add: bb' s_succ_def)
  have split: "s_insns bb = butlast (s_insns bb) @ [?last]" using ne(1) by simp
  have "map rd (s_insns bb) = map rd (butlast (s_insns bb)) @ [rd ?last]"
    by (subst split) (simp only: map_append list.map)
  then show "map rd (s_insns bb') = map rd (s_insns bb)" by (simp add: bb')
  show "s_run ext ws (s_insns bb') e = s_run ext ws (s_insns bb) e" if "control_keeps ext"
  proof -
    have run: "s_run ext ws (butlast (s_insns bb) @ [l]) e = s_run ext ws (butlast (s_insns bb)) e"
      if l: "i_op l = OP_branch \<or> i_op l = OP_jump" for l
      using control_step [OF \<open>control_keeps ext\<close> l] by (simp add: s_run_append split: option.split)
    have "s_run ext ws (s_insns bb) e = s_run ext ws (butlast (s_insns bb) @ [?last]) e"
      using split by simp
    then show ?thesis using run [of ?last] run [of "?last\<lparr>i_op := OP_jump, rs1 := None\<rparr>"] ne(2) by (simp add: bb')
  qed
qed

text \<open>What is not folded goes where the block went before, and every destination stays.\<close>

lemma sccp_insn_keeps:
  assumes "sccp_insn vs i = (vs1, i1, c)"
  shows "rd i1 = rd i" "i_op i1 = OP_branch \<longleftrightarrow> i_op i = OP_branch" "i_op i = OP_branch \<Longrightarrow> i1 = i"
proof -
  have "i1 = i \<or> (\<exists>d c. sccp_fold vs d i = Some c \<and> i1 = to_constant i)"
    using assms by (auto simp: sccp_insn_def split: option.split_asm)
  moreover have "i_op i \<noteq> OP_branch" if "sccp_fold vs d i = Some c" for d c
    using that by (auto simp: sccp_fold_def fold_binary_def split: option.split_asm if_split_asm)
  ultimately show "rd i1 = rd i" "i_op i1 = OP_branch \<longleftrightarrow> i_op i = OP_branch" "i_op i = OP_branch \<Longrightarrow> i1 = i"
    by auto
qed

lemma sccp_insns_keep:
  assumes "sccp_insns vs is = (vs', is', c)"
  shows "map rd is' = map rd is \<and> (is \<noteq> [] \<longrightarrow> (i_op (last is') = OP_branch \<longleftrightarrow> i_op (last is) = OP_branch)
    \<and> (i_op (last is) = OP_branch \<longrightarrow> last is' = last is))"
  using assms
proof (induction "is" arbitrary: vs vs' is' c)
  case (Cons i "is")
  obtain vs1 i1 c1 where h: "sccp_insn vs i = (vs1, i1, c1)" by (metis prod_cases3)
  obtain is2 c2 where t: "sccp_insns vs1 is = (vs', is2, c2)" "is' = i1 # is2"
    using Cons.prems h by (auto split: prod.split_asm)
  have IH: "map rd is2 = map rd is" using Cons.IH [OF t(1)] by blast
  then have "is2 = [] \<longleftrightarrow> is = []" by (metis map_is_Nil_conv)
  then show ?case
    using Cons.IH [OF t(1)] sccp_insn_keeps [OF h] by (auto simp: t(2))
qed simp

lemma sccp_succ:
  assumes "sccp_insns vs (s_insns bb) = (vs', is1, c)"
  shows "s_succ (bb\<lparr>s_insns := is1\<rparr>) env = s_succ bb env"
proof -
  have "map rd is1 = map rd (s_insns bb)" using sccp_insns_keep [OF assms] by blast
  then have "is1 = [] \<longleftrightarrow> s_insns bb = []" by (metis map_is_Nil_conv)
  then show ?thesis
    using sccp_insns_keep [OF assms] by (cases "s_insns bb = []") (auto simp: s_succ_def split: option.split)
qed

text \<open>Without a marked constant the pass is the identity.\<close>

lemma no_const_fold: "(\<And>v. \<not> is_const (vs v)) \<Longrightarrow> sccp_fold vs d i = None"
proof -
  assume "\<And>v. \<not> is_const (vs v)"
  then have "const_of vs r = None" for r
    by (simp add: const_of_def split: option.split)
  then show ?thesis
    by (cases "i_op i") (simp_all add: sccp_fold_def)
qed

lemma no_const_insns: "(\<And>v. \<not> is_const (vs v)) \<Longrightarrow> sccp_insns vs is = (vs, is, False)"
  by (induction "is") (auto simp: sccp_insn_def no_const_fold split: option.split)

lemma no_const_sccp: "(\<And>v. \<not> is_const (vs v)) \<Longrightarrow> simple_sccp vs blocks = (vs, blocks, False)"
proof (induction blocks)
  case (Cons bb blocks)
  have "const_of vs r = None" for r
    using Cons.prems by (simp add: const_of_def split: option.split)
  then show ?case
    using Cons by (auto simp: sccp_block_def no_const_insns fold_branch_def)
qed simp

text \<open>The last instruction of a block decides where it goes; the fold of the rest keeps it.\<close>

lemma sccp_block_sound:
  assumes "sccp_block vs bb = (vs', bb', ch)" "ssa (is_global \<circ> vs) (s_insns bb)" "marks_ok vs (s_insns bb)"
    and "no_global_const vs (s_insns bb)" "holds vs env (rds (s_insns bb))"
    and "frame ext (is_global \<circ> vs)" "s_run ext vs (s_insns bb) env = Some env'"
  obtains is1 c1 where "sccp_insns vs (s_insns bb) = (vs', is1, c1)" "s_run ext vs' is1 env = Some env'"
    "holds vs' env' {}" "\<exists>c2. fold_branch vs' (bb\<lparr>s_insns := is1\<rparr>) = (bb', c2)"
proof -
  obtain is1 c1 where "sccp_insns vs (s_insns bb) = (vs', is1, c1)"
    "\<exists>c2. fold_branch vs' (bb\<lparr>s_insns := is1\<rparr>) = (bb', c2)"
    using assms(1) by (auto simp: sccp_block_def split: prod.split_asm)
  with sccp_insns_sound [OF this(1) assms(2-7)] that show thesis by blast
qed

end
