(* ===== verification/SsaFold.thy ===== *)
theory SsaFold
  imports Sccp
begin

text \<open>
  The instruction-level optimizations of \<open>optimize()\<close> in \<^verbatim>\<open>src/ssa.c\<close>: constant
  folding, common subexpressions within a block, algebraic identities and the reduction of
  multiplications and divisions by powers of two. \<open>None\<close> is a \<open>NULL\<close> that is followed.

  \<open>host\<close> gives the value the compiler's host computes for a shift or division that C
  leaves undefined; nothing is known about it.
\<close>

type_synonym host_ops = "opcode \<Rightarrow> cint \<Rightarrow> cint \<Rightarrow> cint"

section \<open>Constant folding\<close>

definition mark_const :: "vars \<Rightarrow> sinsn option \<Rightarrow> sinsn \<Rightarrow> (vars \<times> sinsn \<times> bool) option" where
  "mark_const vs prev insn =
     (if i_op insn = OP_load_constant
      then do { d \<leftarrow> rd insn; Some (vs(d := (vs d)\<lparr>is_const := True\<rparr>), insn, False) }
      else if i_op insn \<noteq> OP_assign then Some (vs, insn, False)
      else do {
        d \<leftarrow> rd insn;
        if is_global (vs d) then Some (vs, insn, False)
        else do {
          a \<leftarrow> rs1 insn;
          if \<not> is_const (vs a)
             \<and> (case prev of None \<Rightarrow> True | Some p \<Rightarrow> i_op p \<noteq> OP_load_constant \<or> rd p \<noteq> Some a)
          then Some (vs, insn, False)
          else Some (set_const d (init_val (vs a)) vs,
                     insn\<lparr>i_op := OP_load_constant, rs1 := None\<rparr>, True) } })"

definition eval_binary :: "host_ops \<Rightarrow> opcode \<Rightarrow> cint \<Rightarrow> cint \<Rightarrow> cint option" where
  "eval_binary host oc l r =
     (case oc of
        OP_add \<Rightarrow> Some (l + r)
      | OP_sub \<Rightarrow> Some (l - r)
      | OP_mul \<Rightarrow> Some (l * r)
      | OP_div \<Rightarrow>
          (if r = 0 then None
           else Some (if l = 0x80000000 \<and> r = -1 then host OP_div l r
                      else of_int (sdiv_trunc (sint l) (sint r))))
      | OP_mod \<Rightarrow>
          (if r = 0 then None
           else Some (if l = 0x80000000 \<and> r = -1 then host OP_mod l r
                      else of_int (srem_trunc (sint l) (sint r))))
      | OP_lshift \<Rightarrow> Some (if unat r < 32 then push_bit (unat r) l else host OP_lshift l r)
      | OP_rshift \<Rightarrow> Some (if unat r < 32 then signed_drop_bit (unat r) l else host OP_rshift l r)
      | OP_bit_and \<Rightarrow> Some (l AND r)
      | OP_bit_or \<Rightarrow> Some (l OR r)
      | OP_bit_xor \<Rightarrow> Some (l XOR r)
      | OP_log_and \<Rightarrow> Some (of_bool_c (l \<noteq> 0 \<and> r \<noteq> 0))
      | OP_log_or \<Rightarrow> Some (of_bool_c (l \<noteq> 0 \<or> r \<noteq> 0))
      | OP_eq \<Rightarrow> Some (of_bool_c (l = r))
      | OP_neq \<Rightarrow> Some (of_bool_c (l \<noteq> r))
      | OP_lt \<Rightarrow> Some (of_bool_c (lt_s l r))
      | OP_leq \<Rightarrow> Some (of_bool_c (le_s l r))
      | OP_gt \<Rightarrow> Some (of_bool_c (lt_s r l))
      | OP_geq \<Rightarrow> Some (of_bool_c (le_s r l))
      | _ \<Rightarrow> None)"

definition eval_const_arithmetic :: "host_ops \<Rightarrow> vars \<Rightarrow> sinsn \<Rightarrow> (vars \<times> sinsn \<times> bool) option" where
  "eval_const_arithmetic host vs insn =
     (case (const_of vs (rs1 insn), const_of vs (rs2 insn)) of
        (Some l, Some r) \<Rightarrow>
          (case eval_binary host (i_op insn) l r of
             None \<Rightarrow> Some (vs, insn, False)
           | Some res \<Rightarrow>
               do { d \<leftarrow> rd insn;
                    Some (set_const d res vs,
                          insn\<lparr>i_op := OP_load_constant, rs1 := None, rs2 := None\<rparr>, True) })
      | _ \<Rightarrow> Some (vs, insn, False))"

definition eval_unary :: "opcode \<Rightarrow> cint \<Rightarrow> cint option" where
  "eval_unary oc val =
     (case oc of
        OP_negate \<Rightarrow> Some (- val)
      | OP_bit_not \<Rightarrow> Some (NOT val)
      | OP_log_not \<Rightarrow> Some (of_bool_c (val = 0))
      | _ \<Rightarrow> None)"

definition eval_const_unary :: "vars \<Rightarrow> sinsn \<Rightarrow> (vars \<times> sinsn \<times> bool) option" where
  "eval_const_unary vs insn =
     (case const_of vs (rs1 insn) of
        None \<Rightarrow> Some (vs, insn, False)
      | Some val \<Rightarrow>
          (case eval_unary (i_op insn) val of
             None \<Rightarrow> Some (vs, insn, False)
           | Some res \<Rightarrow>
               do { d \<leftarrow> rd insn;
                    Some (set_const d res vs, insn\<lparr>i_op := OP_load_constant, rs1 := None\<rparr>, True) }))"

definition const_folding ::
  "host_ops \<Rightarrow> vars \<Rightarrow> sinsn option \<Rightarrow> sinsn \<Rightarrow> (vars \<times> sinsn \<times> bool) option"
where
  "const_folding host vs prev insn =
     do { (vs1, i1, c1) \<leftarrow> mark_const vs prev insn;
          if c1 then Some (vs1, i1, True)
          else do { (vs2, i2, c2) \<leftarrow> eval_const_arithmetic host vs1 i1;
                    if c2 then Some (vs2, i2, True) else eval_const_unary vs2 i2 } }"

section \<open>Common subexpressions\<close>

definition is_cse_candidate :: "sinsn \<Rightarrow> bool" where
  "is_cse_candidate insn =
     (case i_op insn of
        OP_add \<Rightarrow> True | OP_sub \<Rightarrow> True | OP_mul \<Rightarrow> True | OP_div \<Rightarrow> True | OP_mod \<Rightarrow> True
      | OP_lshift \<Rightarrow> True | OP_rshift \<Rightarrow> True
      | OP_bit_and \<Rightarrow> True | OP_bit_or \<Rightarrow> True | OP_bit_xor \<Rightarrow> True
      | OP_log_and \<Rightarrow> True | OP_log_or \<Rightarrow> True
      | OP_eq \<Rightarrow> True | OP_neq \<Rightarrow> True | OP_lt \<Rightarrow> True | OP_leq \<Rightarrow> True | OP_gt \<Rightarrow> True | OP_geq \<Rightarrow> True
      | _ \<Rightarrow> False)"

definition commutes :: "opcode \<Rightarrow> bool" where
  "commutes oc \<longleftrightarrow> oc = OP_add \<or> oc = OP_mul \<or> oc = OP_bit_and \<or> oc = OP_bit_or \<or> oc = OP_bit_xor
     \<or> oc = OP_log_and \<or> oc = OP_log_or \<or> oc = OP_eq \<or> oc = OP_neq"

text \<open>The search through the instructions of the block before \<open>insn\<close>.\<close>

fun cse_match :: "sinsn list \<Rightarrow> sinsn \<Rightarrow> var_ref option" where
  "cse_match [] insn = None"
| "cse_match (other # rest) insn =
     (if i_op other = i_op insn \<and> rs1 other \<noteq> None \<and> rs2 other \<noteq> None \<and> rd other \<noteq> None
         \<and> (rs1 other = rs1 insn \<and> rs2 other = rs2 insn
            \<or> commutes (i_op insn) \<and> rs1 other = rs2 insn \<and> rs2 other = rs1 insn)
      then rd other
      else cse_match rest insn)"

text \<open>\<open>cse\<close> on a binary operation.\<close>

definition cse_binary :: "vars \<Rightarrow> sinsn list \<Rightarrow> sinsn \<Rightarrow> sinsn \<times> bool" where
  "cse_binary vs before insn =
     (case (rs1 insn, rs2 insn, rd insn) of
        (Some a, Some b, Some _) \<Rightarrow>
          if is_cse_candidate insn \<and> \<not> is_global (vs a) \<and> \<not> is_global (vs b)
          then (case cse_match before insn of
                  None \<Rightarrow> (insn, False)
                | Some r \<Rightarrow> (insn\<lparr>i_op := OP_assign, rs1 := Some r, rs2 := None\<rparr>, True))
          else (insn, False)
      | _ \<Rightarrow> (insn, False))"

section \<open>Identities\<close>

definition load_const :: "vars \<Rightarrow> var_ref \<Rightarrow> cint \<Rightarrow> sinsn \<Rightarrow> vars \<times> sinsn" where
  "load_const vs d c insn = (set_const d c vs, insn\<lparr>i_op := OP_load_constant, rs1 := None, rs2 := None\<rparr>)"

definition move_rs1 :: "vars \<Rightarrow> sinsn \<Rightarrow> vars \<times> sinsn" where
  "move_rs1 vs insn = (vs, insn\<lparr>i_op := OP_assign, rs2 := None\<rparr>)"

text \<open>\<open>x / x\<close> and \<open>x % x\<close>, for a constant \<open>x\<close> that is not zero.\<close>

definition opt_self_div :: "vars \<Rightarrow> sinsn \<Rightarrow> vars \<times> sinsn" where
  "opt_self_div vs insn =
     (case (rs1 insn, rs2 insn, rd insn) of
        (Some a, Some b, Some d) \<Rightarrow>
          if a = b \<and> is_const (vs a) \<and> init_val (vs a) \<noteq> 0
          then (if i_op insn = OP_div then load_const vs d 1 insn
                else if i_op insn = OP_mod then load_const vs d 0 insn
                else (vs, insn))
          else (vs, insn)
      | _ \<Rightarrow> (vs, insn))"

text \<open>Operations on equal operands.\<close>

definition opt_self_ops :: "vars \<Rightarrow> sinsn \<Rightarrow> vars \<times> sinsn" where
  "opt_self_ops vs insn =
     (case (rs1 insn, rs2 insn, rd insn) of
        (Some a, Some b, Some d) \<Rightarrow>
          if a \<noteq> b then (vs, insn)
          else (case i_op insn of
             OP_sub \<Rightarrow> load_const vs d 0 insn
           | OP_bit_xor \<Rightarrow> load_const vs d 0 insn
           | OP_bit_and \<Rightarrow> move_rs1 vs insn
           | OP_bit_or \<Rightarrow> move_rs1 vs insn
           | OP_eq \<Rightarrow> load_const vs d 1 insn
           | OP_neq \<Rightarrow> load_const vs d 0 insn
           | OP_lt \<Rightarrow> load_const vs d 0 insn
           | OP_gt \<Rightarrow> load_const vs d 0 insn
           | OP_leq \<Rightarrow> load_const vs d 1 insn
           | OP_geq \<Rightarrow> load_const vs d 1 insn
           | _ \<Rightarrow> (vs, insn))
      | _ \<Rightarrow> (vs, insn))"

text \<open>A constant second operand.\<close>

definition opt_identity :: "vars \<Rightarrow> sinsn \<Rightarrow> vars \<times> sinsn" where
  "opt_identity vs insn =
     (case (const_of vs (rs2 insn), rd insn) of
        (Some val, Some d) \<Rightarrow>
          if val = 0
          then (if i_op insn \<in> {OP_add, OP_sub, OP_bit_or, OP_bit_xor} then move_rs1 vs insn
                else if i_op insn \<in> {OP_mul, OP_bit_and} then load_const vs d 0 insn
                else if i_op insn \<in> {OP_lshift, OP_rshift} then move_rs1 vs insn
                else (vs, insn))
          else if val = 1
          then (if i_op insn \<in> {OP_mul, OP_div} then move_rs1 vs insn
                else if i_op insn = OP_mod then load_const vs d 0 insn
                else (vs, insn))
          else if val = -1
          then (if i_op insn = OP_bit_and then move_rs1 vs insn
                else if i_op insn = OP_bit_or then load_const vs d (-1) insn
                else if i_op insn = OP_mul then (vs, insn\<lparr>i_op := OP_negate, rs2 := None\<rparr>)
                else (vs, insn))
          else (vs, insn)
      | _ \<Rightarrow> (vs, insn))"

section \<open>Powers of two\<close>

text \<open>\<open>while ((temp & 1) == 0) { temp >>= 1; shift++; }\<close>\<close>

partial_function (option) ctz_loop :: "cint \<Rightarrow> cint \<Rightarrow> cint option" where
  "ctz_loop temp shift = (if temp AND 1 = 0 then ctz_loop (sar temp 1) (shift + 1) else Some shift)"

declare ctz_loop.simps [code]

text \<open>The constant operand is changed in place, for whoever else uses the variable.\<close>

definition opt_strength :: "vars \<Rightarrow> sinsn \<Rightarrow> (vars \<times> sinsn) option" where
  "opt_strength vs insn =
     (case (rs2 insn, const_of vs (rs2 insn), rd insn) of
        (Some b, Some val, Some _) \<Rightarrow>
          if lt_s 0 val \<and> val AND (val - 1) = 0
          then do {
            shift \<leftarrow> ctz_loop val 0;
            if i_op insn = OP_mul
            then Some (vs(b := (vs b)\<lparr>init_val := shift\<rparr>), insn\<lparr>i_op := OP_lshift\<rparr>)
            else if i_op insn = OP_div
            then Some (vs(b := (vs b)\<lparr>init_val := shift\<rparr>), insn\<lparr>i_op := OP_rshift\<rparr>)
            else if i_op insn = OP_mod
            then Some (vs(b := (vs b)\<lparr>init_val := val - 1\<rparr>), insn\<lparr>i_op := OP_bit_and\<rparr>)
            else Some (vs, insn) }
          else Some (vs, insn)
      | _ \<Rightarrow> Some (vs, insn))"

section \<open>The loop over a block\<close>

definition is_self_assign :: "sinsn \<Rightarrow> bool" where
  "is_self_assign insn \<longleftrightarrow> i_op insn = OP_assign \<and> rd insn \<noteq> None \<and> rd insn = rs1 insn"

text \<open>
  One instruction, after those before it in the block, up to the reduction of powers of two; the
  flag says that the loop goes on with the next instruction.
\<close>

definition simplify_insn :: "host_ops \<Rightarrow> vars \<Rightarrow> sinsn list \<Rightarrow> sinsn \<Rightarrow> (vars \<times> sinsn \<times> bool) option" where
  "simplify_insn host vs before insn =
     do { (vs1, i1, folded) \<leftarrow> const_folding host vs (if before = [] then None else Some (last before)) insn;
          if folded then Some (vs1, i1, True)
          else let (i2, found) = cse_binary vs1 before i1
          in if found then Some (vs1, i2, True)
          else if is_self_assign i2 then Some (vs1, i2\<lparr>rd := None, rs1 := None\<rparr>, True)
          else let (vs3, i3) = opt_self_div vs1 i2;
                   (vs4, i4) = opt_self_ops vs3 i3;
                   (vs5, i5) = opt_identity vs4 i4
          in Some (vs5, i5, False) }"

definition optimize_insn :: "host_ops \<Rightarrow> vars \<Rightarrow> sinsn list \<Rightarrow> sinsn \<Rightarrow> (vars \<times> sinsn) option" where
  "optimize_insn host vs before insn =
     do { (vs1, i1, finished) \<leftarrow> simplify_insn host vs before insn;
          if finished then Some (vs1, i1) else opt_strength vs1 i1 }"

fun optimize_insns :: "host_ops \<Rightarrow> vars \<Rightarrow> sinsn list \<Rightarrow> sinsn list \<Rightarrow> (vars \<times> sinsn list) option" where
  "optimize_insns host vs before [] = Some (vs, before)"
| "optimize_insns host vs before (insn # rest) =
     do { (vs1, i1) \<leftarrow> optimize_insn host vs before insn;
          optimize_insns host vs1 (before @ [i1]) rest }"

section \<open>Soundness of the rewrites\<close>

text \<open>
  The one signed division that overflows, \<open>-2^31 / -1\<close>, on a host that wraps as the target
  does.
\<close>

definition host_wraps :: "host_ops \<Rightarrow> bool" where
  "host_wraps host \<longleftrightarrow> host OP_div 0x80000000 (-1) = 0x80000000 \<and> host OP_mod 0x80000000 (-1) = 0"

definition ops_hold :: "vars \<Rightarrow> senv \<Rightarrow> sinsn \<Rightarrow> bool" where
  "ops_hold vs env i \<longleftrightarrow> (\<forall>a\<in>operands i. is_const (vs a) \<longrightarrow> env a = init_val (vs a))"

text \<open>
  A rewrite of an instruction: nothing, a constant load that records the constant, or
  another operation with the same value.
\<close>

definition good :: "senv \<Rightarrow> vars \<Rightarrow> sinsn \<Rightarrow> vars \<times> sinsn \<Rightarrow> bool" where
  "good env vs i r \<longleftrightarrow>
     r = (vs, i)
     \<or> (\<exists>d. rd i = Some d \<and> rd (snd r) = Some d \<and> s_pure (i_op i)
          \<and> (i_op i = OP_assign \<longrightarrow> \<not> is_global (vs d)) \<and> operands (snd r) \<subseteq> operands i
          \<and> (fst r = vs \<and> is_un (i_op (snd r))
             \<or> (\<exists>c. fst r = set_const d c vs) \<and> i_op (snd r) = OP_load_constant)
          \<and> (\<forall>v. s_value vs i env = Some v \<longrightarrow> s_value (fst r) (snd r) env = Some v))"

lemma const_of_holds:
  "ops_hold vs env i \<Longrightarrow> const_of vs (rs1 i) = Some c \<Longrightarrow> \<exists>a. rs1 i = Some a \<and> env a = c"
  "ops_hold vs env i \<Longrightarrow> const_of vs (rs2 i) = Some c \<Longrightarrow> \<exists>a. rs2 i = Some a \<and> env a = c"
  by (auto simp: const_of_Some ops_hold_def operands_def)

lemma s_value_bin:
  "s_is_bin (i_op i) \<Longrightarrow> rs1 i = Some a \<Longrightarrow> rs2 i = Some b \<Longrightarrow> s_value vs i env = s_bin (i_op i) (env a) (env b)"
  by (auto simp: s_value_def s_is_bin_def is_bin_def is_un_def)

lemma good_load:
  assumes "rd i = Some d" "s_is_bin (i_op i)" "rs1 i = Some a" "rs2 i = Some b"
    and "\<And>v. s_bin (i_op i) (env a) (env b) = Some v \<Longrightarrow> v = c"
  shows "good env vs i (load_const vs d c i)"
proof -
  have "s_pure (i_op i)" "i_op i \<noteq> OP_assign"
    using assms(2) by (auto simp: s_pure_def s_is_bin_def is_bin_def)
  then show ?thesis
    using assms s_value_bin [OF assms(2-4), of vs env]
    by (auto simp: good_def load_const_def s_value_def operands_def)
qed

lemma good_move:
  assumes "rd i = Some d" "s_is_bin (i_op i)" "rs1 i = Some a" "rs2 i = Some b"
    and "\<And>v. s_bin (i_op i) (env a) (env b) = Some v \<Longrightarrow> v = env a"
  shows "good env vs i (move_rs1 vs i)"
proof -
  have "s_pure (i_op i)" "i_op i \<noteq> OP_assign"
    using assms(2) by (auto simp: s_pure_def s_is_bin_def is_bin_def)
  then show ?thesis
    using assms s_value_bin [OF assms(2-4), of vs env]
    by (auto simp: good_def move_rs1_def s_value_def operands_def ph2_un_def)
qed

lemma good_refl [simp]: "good env vs i (vs, i)"
  by (simp add: good_def)

lemma s_is_bin_simps [simp]: "is_bin oc \<Longrightarrow> s_is_bin oc" "s_is_bin OP_log_and" "s_is_bin OP_log_or"
  by (simp_all add: s_is_bin_def)

lemmas s_bin_simps = s_bin_def ph2_bin_def lt_s_sint le_s_sint

lemma bin_ops [simp]:
  "is_bin OP_add" "is_bin OP_sub" "is_bin OP_mul" "is_bin OP_div" "is_bin OP_mod" "is_bin OP_lshift"
  "is_bin OP_rshift" "is_bin OP_eq" "is_bin OP_neq" "is_bin OP_lt" "is_bin OP_leq" "is_bin OP_gt"
  "is_bin OP_geq" "is_bin OP_bit_and" "is_bin OP_bit_or" "is_bin OP_bit_xor"
  by (simp_all add: is_bin_def)

lemma trunc_self: "x \<noteq> 0 \<Longrightarrow> sdiv_trunc x x = 1" "srem_trunc x x = 0"
  by (auto simp: sdiv_trunc_def srem_trunc_def sgn_if)

lemma opt_self_div_good: "ops_hold vs env i \<Longrightarrow> good env vs i (opt_self_div vs i)"
proof (cases "\<exists>a d. rs1 i = Some a \<and> rs2 i = Some a \<and> rd i = Some d \<and> is_const (vs a) \<and> init_val (vs a) \<noteq> 0")
  case True
  then obtain a d where a: "rs1 i = Some a" "rs2 i = Some a" "rd i = Some d" "is_const (vs a)" "init_val (vs a) \<noteq> 0"
    by blast
  assume "ops_hold vs env i"
  then have nz: "env a \<noteq> 0" "sint (env a) \<noteq> 0"
    using a by (auto simp: ops_hold_def operands_def signed_eq_0_iff)
  consider "i_op i = OP_div" | "i_op i = OP_mod" | "i_op i \<noteq> OP_div" "i_op i \<noteq> OP_mod" by blast
  then show ?thesis
    by cases (use a nz in \<open>auto simp: opt_self_div_def s_bin_simps trunc_self intro!: good_load [OF a(3) _ a(1,2)]\<close>)
next
  case False
  then have "opt_self_div vs i = (vs, i)"
    by (auto simp: opt_self_div_def split: option.split)
  then show ?thesis by simp
qed

lemma opt_self_ops_good: "good env vs i (opt_self_ops vs i)"
proof (cases "\<exists>a d. rs1 i = Some a \<and> rs2 i = Some a \<and> rd i = Some d")
  case True
  then obtain a d where a: "rs1 i = Some a" "rs2 i = Some a" "rd i = Some d" by blast
  note l = good_load [OF a(3) _ a(1,2)] and m = good_move [OF a(3) _ a(1,2)]
  show ?thesis
    by (cases "i_op i") (auto simp: opt_self_ops_def a s_bin_simps intro!: l m)
next
  case False
  then have "opt_self_ops vs i = (vs, i)"
    by (auto simp: opt_self_ops_def split: option.split)
  then show ?thesis by simp
qed

lemma unary_facts: "sdiv_trunc x 1 = x" "srem_trunc x 1 = 0"
  by (simp_all add: sdiv_trunc_def srem_trunc_def sgn_mult_abs)

lemma opt_identity_good:
  assumes "ops_hold vs env i" "s_is_bin (i_op i) \<longrightarrow> rs1 i \<noteq> None"
  shows "good env vs i (opt_identity vs i)"
proof (cases "opt_identity vs i = (vs, i)")
  case False
  then obtain d val b where d: "rd i = Some d" "const_of vs (rs2 i) = Some val" "rs2 i = Some b"
    by (auto simp: opt_identity_def const_of_Some split: option.split_asm)
  have bin: "s_is_bin (i_op i)"
  proof (rule ccontr)
    assume "\<not> s_is_bin (i_op i)"
    then have "i_op i \<notin> {OP_add, OP_sub, OP_bit_or, OP_bit_xor, OP_mul, OP_bit_and, OP_lshift, OP_rshift,
        OP_div, OP_mod}"
      by (auto simp: s_is_bin_def is_bin_def)
    with False show False
      by (auto simp: opt_identity_def split: option.split_asm if_split_asm)
  qed
  then obtain a where a: "rs1 i = Some a"
    using assms(2) by auto
  have b: "env b = val"
    using const_of_holds(2) [OF assms(1) d(2)] d(3) by auto
  note l = good_load [OF d(1) bin a d(3)] and m = good_move [OF d(1) bin a d(3)]
  have "good env vs i (vs, i\<lparr>i_op := OP_negate, rs2 := None\<rparr>)" if "i_op i = OP_mul" "val = -1"
    using that a b d
    by (auto simp: good_def s_pure_def s_value_def s_bin_simps operands_def ph2_un_def is_un_def)
  then show ?thesis
    using d(1,2) b
    by (auto simp: opt_identity_def s_bin_simps unary_facts intro!: l m)
qed simp

lemma opt_self_ops_rs2: "opt_self_ops vs i = (vs, i) \<or> rs2 (snd (opt_self_ops vs i)) = None"
proof (cases "\<exists>a d. rs1 i = Some a \<and> rs2 i = Some a \<and> rd i = Some d")
  case True
  then show ?thesis
    by (cases "i_op i") (auto simp: opt_self_ops_def load_const_def move_rs1_def)
next
  case False
  then have "opt_self_ops vs i = (vs, i)"
    by (auto simp: opt_self_ops_def split: option.split)
  then show ?thesis by simp
qed

lemma opt_stages_good:
  assumes "ops_hold vs env i" "s_is_bin (i_op i) \<longrightarrow> rs1 i \<noteq> None"
    and "opt_self_div vs i = (vs3, i3)" "opt_self_ops vs3 i3 = (vs4, i4)"
  shows "good env vs i (opt_identity vs4 i4)"
proof -
  have none: "rs2 j = None \<Longrightarrow> opt_self_ops ws j = (ws, j)" "rs2 j = None \<Longrightarrow> opt_identity ws j = (ws, j)" for ws j
    by (simp_all add: opt_self_ops_def opt_identity_def const_of_def split: option.split)
  note g3 = opt_self_div_good [OF assms(1)]
  show ?thesis
  proof (cases "opt_self_div vs i = (vs, i)")
    case False
    then have "rs2 i3 = None"
      using assms(3) by (auto simp: opt_self_div_def load_const_def split: option.split_asm if_split_asm)
    then show ?thesis
      using none assms(3,4) g3 by simp
  next
    case True
    then have 3: "vs3 = vs" "i3 = i" using assms(3) by simp_all
    show ?thesis
    proof (cases "opt_self_ops vs i = (vs, i)")
      case False
      then have "rs2 i4 = None"
        using assms(4) 3 opt_self_ops_rs2 [of vs i] by auto
      then show ?thesis
        using none assms(4) 3 opt_self_ops_good [of env vs i] by simp
    next
      case True
      then show ?thesis
        using assms(4) 3 opt_identity_good [OF assms(1,2)] by simp
    qed
  qed
qed

lemma eval_binary_sound:
  assumes "eval_binary host oc l r = Some c" "host_wraps host" "s_bin oc l r = Some v"
  shows "v = c \<and> s_is_bin oc"
proof -
  have o: "sdiv_trunc (- 2147483648) (- 1) = 2147483648" "srem_trunc (- 2147483648) (- 1) = 0"
    by (simp_all add: sdiv_trunc_def srem_trunc_def)
  from assms show ?thesis
    by (cases oc)
      (auto simp: eval_binary_def s_bin_def ph2_bin_def host_wraps_def o split: if_split_asm)
qed

lemma eval_unary_sound: "eval_unary oc x = Some c \<Longrightarrow> is_un oc \<and> oc \<noteq> OP_assign \<and> ph2_un oc k x = Some c"
  by (cases oc) (simp_all add: eval_unary_def ph2_un_def is_un_def)

text \<open>
  Constant folding. \<open>prev_ok\<close>: the constant a preceding load has loaded is marked. The
  instruction is unchanged, or only its destination is marked, when nothing is folded.
\<close>

definition prev_ok :: "vars \<Rightarrow> sinsn option \<Rightarrow> bool" where
  "prev_ok vs prev \<longleftrightarrow>
     (\<forall>p a. prev = Some p \<and> i_op p = OP_load_constant \<and> rd p = Some a \<longrightarrow> is_const (vs a))"

lemma mark_const_cases:
  assumes "mark_const vs prev i = Some (vs1, i1, c)" "prev_ok vs prev" "ops_hold vs env i"
  shows "(if c then good env vs i (vs1, i1) \<and> i_op i1 = OP_load_constant
     else i1 = i \<and> (vs1 = vs \<or> (\<exists>d. i_op i = OP_load_constant \<and> rd i = Some d
       \<and> vs1 = vs(d := (vs d)\<lparr>is_const := True\<rparr>))))"
proof (cases c)
  case True
  with assms(1,2) obtain d a where a: "i_op i = OP_assign" "rd i = Some d" "rs1 i = Some a"
    "\<not> is_global (vs d)" "is_const (vs a)" "vs1 = set_const d (init_val (vs a)) vs"
    "i1 = i\<lparr>i_op := OP_load_constant, rs1 := None\<rparr>"
    by (auto simp: mark_const_def prev_ok_def split: bind_splits if_split_asm option.split_asm)
  then have "env a = init_val (vs a)"
    using assms(3) by (auto simp: ops_hold_def operands_def)
  with a True show ?thesis
    by (auto simp: good_def s_pure_def s_value_def ph2_un_def operands_def)
next
  case False
  with assms(1) show ?thesis
    by (auto simp: mark_const_def split: bind_splits if_split_asm)
qed

lemma eval_const_arithmetic_cases:
  assumes "eval_const_arithmetic host vs i = Some (vs1, i1, c)" "ops_hold vs env i" "host_wraps host"
  shows "(if c then good env vs i (vs1, i1) \<and> i_op i1 = OP_load_constant else i1 = i \<and> vs1 = vs)"
proof (cases c)
  case True
  with assms(1) obtain x y res d where x: "const_of vs (rs1 i) = Some x" "const_of vs (rs2 i) = Some y"
    "eval_binary host (i_op i) x y = Some res" "rd i = Some d" "vs1 = set_const d res vs"
    "i1 = i\<lparr>i_op := OP_load_constant, rs1 := None, rs2 := None\<rparr>"
    by (auto simp: eval_const_arithmetic_def split: bind_splits option.split_asm)
  obtain a b where ab: "rs1 i = Some a" "env a = x" "rs2 i = Some b" "env b = y"
    using const_of_holds [OF assms(2)] x(1,2) by metis
  have bin: "s_is_bin (i_op i)"
    using x(3) by (cases "i_op i") (simp_all add: eval_binary_def)
  have "good env vs i (load_const vs d res i)"
    using eval_binary_sound [OF x(3) assms(3)] ab by (intro good_load [OF x(4) bin ab(1,3)]) simp
  then show ?thesis
    using True x by (simp add: load_const_def)
qed (use assms(1) in \<open>auto simp: eval_const_arithmetic_def split: bind_splits option.split_asm\<close>)

lemma eval_const_unary_cases:
  assumes "eval_const_unary vs i = Some (vs1, i1, c)" "ops_hold vs env i"
  shows "(if c then good env vs i (vs1, i1) \<and> i_op i1 = OP_load_constant else i1 = i \<and> vs1 = vs)"
proof (cases c)
  case True
  with assms(1) obtain x res d where x: "const_of vs (rs1 i) = Some x"
    "eval_unary (i_op i) x = Some res" "rd i = Some d" "vs1 = set_const d res vs"
    "i1 = i\<lparr>i_op := OP_load_constant, rs1 := None\<rparr>"
    by (auto simp: eval_const_unary_def split: bind_splits option.split_asm)
  obtain a where a: "rs1 i = Some a" "env a = x"
    using const_of_holds(1) [OF assms(2) x(1)] by blast
  have u: "is_un (i_op i)" "i_op i \<noteq> OP_assign" "ph2_un (i_op i) k x = Some res" for k
    using eval_unary_sound [OF x(2)] by auto
  then have "i_op i \<noteq> OP_load_constant"
    by (auto simp: is_un_def)
  with u a x True show ?thesis
    by (auto simp: good_def s_pure_def s_value_def operands_def)
qed (use assms(1) in \<open>auto simp: eval_const_unary_def split: bind_splits option.split_asm\<close>)

lemma ops_hold_mark:
  "ops_hold vs env i \<Longrightarrow> d \<notin> operands i \<Longrightarrow> ops_hold (vs(d := (vs d)\<lparr>is_const := True\<rparr>)) env i"
  by (auto simp: ops_hold_def)

lemma const_folding_cases:
  assumes "const_folding host vs prev i = Some (vs1, i1, c)" "prev_ok vs prev" "ops_hold vs env i"
    and "host_wraps host" "i_op i = OP_load_constant \<longrightarrow> operands i = {}"
  shows "(if c then good env vs i (vs1, i1) \<and> i_op i1 = OP_load_constant
     else i1 = i \<and> (vs1 = vs \<or> (\<exists>d. i_op i = OP_load_constant \<and> rd i = Some d
       \<and> vs1 = vs(d := (vs d)\<lparr>is_const := True\<rparr>))))"
proof -
  obtain w j c1 where m: "mark_const vs prev i = Some (w, j, c1)"
    and r: "if c1 then (vs1, i1, c) = (w, j, True)
       else \<exists>w2 j2 c2. eval_const_arithmetic host w j = Some (w2, j2, c2)
         \<and> (if c2 then (vs1, i1, c) = (w2, j2, True) else eval_const_unary w2 j2 = Some (vs1, i1, c))"
    using assms(1) by (auto simp: const_folding_def split: bind_splits if_split_asm)
  note mc = mark_const_cases [OF m assms(2,3)]
  show ?thesis
  proof (cases c1)
    case True
    with r mc show ?thesis by simp
  next
    case False
    with mc have j: "j = i" by simp
    show ?thesis
    proof (cases "i_op i = OP_load_constant")
      case True
      then have "const_of w' (rs1 i) = None" for w'
        using assms(5) by (auto simp: operands_def const_of_def)
      then have "vs1 = w" "i1 = i" "\<not> c"
        using r False by (auto simp: j eval_const_arithmetic_def eval_const_unary_def)
      with mc False show ?thesis by simp
    next
      case ne: False
      with mc False have "w = vs" by simp
      with r False j obtain w2 j2 c2 where e: "eval_const_arithmetic host vs i = Some (w2, j2, c2)"
        "if c2 then (vs1, i1, c) = (w2, j2, True) else eval_const_unary w2 j2 = Some (vs1, i1, c)"
        by auto
      from eval_const_arithmetic_cases [OF e(1) assms(3,4)] e(2) eval_const_unary_cases [OF _ assms(3)] show ?thesis
        by (cases c2) (auto split: if_split_asm)
    qed
  qed
qed

section \<open>Soundness on a block\<close>

lemma set_const_global: "is_global \<circ> set_const d c vs = is_global \<circ> vs"
  by (simp add: fun_eq_iff)

text \<open>
  Available expressions: what the earlier candidates computed is still in their
  destinations, and nothing later assigns to them.
\<close>

definition avail :: "(var_ref \<Rightarrow> bool) \<Rightarrow> sinsn list \<Rightarrow> var_ref set \<Rightarrow> senv \<Rightarrow> bool" where
  "avail g before later env \<longleftrightarrow>
     (\<forall>p\<in>set before. \<forall>d a b. is_cse_candidate p \<and> rd p = Some d \<and> rs1 p = Some a \<and> rs2 p = Some b
        \<and> \<not> g a \<and> \<not> g b \<longrightarrow>
        \<not> g d \<and> d \<notin> later \<and> a \<notin> later \<and> b \<notin> later \<and> s_bin (i_op p) (env a) (env b) = Some (env d))"

definition pure_local :: "(var_ref \<Rightarrow> bool) \<Rightarrow> sinsn list \<Rightarrow> bool" where
  "pure_local g is \<longleftrightarrow>
     (\<forall>i\<in>set is. (s_pure (i_op i) \<and> i_op i \<noteq> OP_assign \<longrightarrow> (\<forall>d. rd i = Some d \<longrightarrow> \<not> g d))
        \<and> (i_op i = OP_load_constant \<longrightarrow> operands i = {}))"

definition marked :: "vars \<Rightarrow> sinsn list \<Rightarrow> bool" where
  "marked vs before \<longleftrightarrow>
     (\<forall>p\<in>set before. \<forall>a. i_op p = OP_load_constant \<and> rd p = Some a \<longrightarrow> is_const (vs a))"

text \<open>The strength reduction does not apply: it would change the value of its operand.\<close>

definition no_strength :: "vars \<Rightarrow> sinsn \<Rightarrow> bool" where
  "no_strength vs i \<longleftrightarrow>
     (case const_of vs (rs2 i) of
        None \<Rightarrow> True
      | Some val \<Rightarrow> i_op i \<in> {OP_mul, OP_div, OP_mod} \<longrightarrow> \<not> (lt_s 0 val \<and> val AND (val - 1) = 0))"

lemma opt_strength_skip:
  assumes "no_strength vs i" "opt_strength vs i = Some (vs1, i1)"
  shows "vs1 = vs \<and> i1 = i"
  using assms
  by (auto simp: opt_strength_def no_strength_def split: option.split_asm if_split_asm bind_splits)

lemma candidate_bin: "is_cse_candidate i \<Longrightarrow> s_is_bin (i_op i)"
  by (cases "i_op i") (simp_all add: is_cse_candidate_def)

lemma commutes_bin: "commutes oc \<Longrightarrow> s_bin oc x y = s_bin oc y x"
  by (cases oc)
    (simp_all add: commutes_def s_bin_def ph2_bin_def ac_simps eq_commute [of y x] conj_commute [of "y \<noteq> 0"]
      disj_commute [of "y \<noteq> 0"])

lemma cse_match_value:
  assumes "cse_match before i = Some r" "avail g before later env" "is_cse_candidate i"
    and "rs1 i = Some a" "rs2 i = Some b" "\<not> g a" "\<not> g b"
  shows "s_bin (i_op i) (env a) (env b) = Some (env r)"
  using assms(1,2)
proof (induction before)
  case (Cons p before)
  have av: "avail g before later env"
    using Cons.prems(2) unfolding avail_def by (meson list.set_intros(2))
  show ?case
  proof (cases "i_op p = i_op i \<and> rs1 p \<noteq> None \<and> rs2 p \<noteq> None \<and> rd p \<noteq> None
         \<and> (rs1 p = rs1 i \<and> rs2 p = rs2 i \<or> commutes (i_op i) \<and> rs1 p = rs2 i \<and> rs2 p = rs1 i)")
    case True
    then have p: "rd p = Some r" "i_op p = i_op i" "is_cse_candidate p"
      using Cons.prems(1) assms(3) by (auto simp: is_cse_candidate_def)
    from True assms(4,5) consider "rs1 p = Some a" "rs2 p = Some b"
      | "commutes (i_op i)" "rs1 p = Some b" "rs2 p = Some a" by auto
    then show ?thesis
    proof cases
      case 1
      with Cons.prems(2) p assms(6,7) show ?thesis by (auto simp: avail_def)
    next
      case 2
      with Cons.prems(2) p assms(6,7) have "s_bin (i_op i) (env b) (env a) = Some (env r)"
        by (auto simp: avail_def)
      with commutes_bin [OF 2(1)] show ?thesis by simp
    qed
  next
    case False
    then have "cse_match before i = Some r"
      using Cons.prems(1) by (simp only: cse_match.simps if_False)
    then show ?thesis
      by (rule Cons.IH [OF _ av])
  qed
qed simp

definition step_good :: "(sinsn \<Rightarrow> senv \<Rightarrow> senv option) \<Rightarrow> senv \<Rightarrow> senv \<Rightarrow> vars \<Rightarrow> sinsn \<Rightarrow> vars \<Rightarrow> sinsn \<Rightarrow> bool" where
  "step_good ext env e1 vs i vs1 i1 \<longleftrightarrow>
     (rd i1 = rd i \<or> rd i1 = None)
     \<and> (vs1 = vs \<or> (\<exists>d c. rd i = Some d \<and> \<not> is_global (vs d) \<and> vs1 = set_const d c vs \<and> e1 d = c
          \<and> i_op i1 = OP_load_constant))
     \<and> (\<forall>ws. (\<forall>d. rd i1 = Some d \<longrightarrow> ws d = vs1 d) \<longrightarrow> s_step ext ws i1 env = Some e1)
     \<and> (\<forall>d. i_op i1 = OP_load_constant \<and> rd i1 = Some d \<longrightarrow> is_const (vs1 d))
     \<and> (is_cse_candidate i1 \<longrightarrow> i1 = i)"

lemma good_step:
  assumes "good env vs i (vs1, i1)" "s_step ext vs i env = Some e1"
    and "s_pure (i_op i) \<and> i_op i \<noteq> OP_assign \<longrightarrow> (\<forall>d. rd i = Some d \<longrightarrow> \<not> is_global (vs d))"
    and "i_op i \<noteq> OP_load_constant"
  shows "step_good ext env e1 vs i vs1 i1"
proof (cases "(vs1, i1) = (vs, i)")
  case True
  have "s_step ext ws i env = Some e1" if "\<forall>d. rd i = Some d \<longrightarrow> ws d = vs d" for ws
    using assms(2) s_step_cong [of i ws vs ext env] that by simp
  with True assms(4) show ?thesis
    by (simp add: step_good_def)
next
  case False
  with assms(1) obtain d where d: "rd i = Some d" "rd i1 = Some d" "s_pure (i_op i)"
    and g: "i_op i = OP_assign \<longrightarrow> \<not> is_global (vs d)"
    and r: "vs1 = vs \<and> is_un (i_op i1) \<or> (\<exists>c. vs1 = set_const d c vs) \<and> i_op i1 = OP_load_constant"
    and v: "\<forall>v. s_value vs i env = Some v \<longrightarrow> s_value vs1 i1 env = Some v"
    by (auto simp: good_def)
  have nc: "\<not> is_cse_candidate i1"
    using r by (auto simp: is_cse_candidate_def is_un_def)
  have p1: "s_pure (i_op i1)"
    using r by (auto simp: s_pure_def)
  obtain x where x: "s_value vs i env = Some x" "e1 = env(d := x)"
    using assms(2) d(1,3) by (auto simp: s_step_def)
  have step: "s_step ext ws i1 env = Some e1" if "ws d = vs1 d" for ws
  proof -
    have "s_step ext vs1 i1 env = Some e1"
      using p1 d(2) v x by (simp add: s_step_def)
    then show ?thesis
      using s_step_cong [of i1 ws vs1 ext env] d(2) that by simp
  qed
  have gd: "\<not> is_global (vs d)"
    using g assms(3) d(1,3) by auto
  have "e1 d = c" if "vs1 = set_const d c vs" "i_op i1 = OP_load_constant" for c
    using v x that d(2) by (auto simp: s_value_def)
  with r step nc d gd show ?thesis
    by (auto simp: step_good_def is_un_def)
qed

lemma optimize_insn_step:
  assumes opt: "optimize_insn host vs before i = Some (vs1, i1)"
    and ssa: "ssa (is_global \<circ> vs) (i # rest)" and marks: "marks_ok vs (i # rest)"
    and pl: "pure_local (is_global \<circ> vs) (i # rest)"
    and h: "holds vs env (rds (i # rest))" and av: "avail (is_global \<circ> vs) before later env"
    and mk: "marked vs before" and host: "host_wraps host"
    and ns: "\<And>w j. simplify_insn host vs before i = Some (w, j, False) \<Longrightarrow> no_strength w j"
    and step: "s_step ext vs i env = Some e1"
  shows "step_good ext env e1 vs i vs1 i1"
proof -
  have ops: "ops_hold vs env i"
    unfolding ops_hold_def
  proof (intro ballI impI)
    fix a assume a: "a \<in> operands i" "is_const (vs a)"
    then have "a \<notin> rds (i # rest)"
      using ssa marks by (auto simp: marks_ok_def)
    then show "env a = init_val (vs a)"
      using h a(2) by (auto simp: holds_def)
  qed
  let ?prev = "if before = [] then None else Some (last before)"
  have prev: "prev_ok vs ?prev"
    using mk by (auto simp: prev_ok_def marked_def)
  have local: "s_pure (i_op i) \<and> i_op i \<noteq> OP_assign \<longrightarrow> (\<forall>d. rd i = Some d \<longrightarrow> \<not> is_global (vs d))"
    "i_op i = OP_load_constant \<longrightarrow> operands i = {}"
    using pl by (auto simp: pure_local_def)
  obtain w j c where cf: "const_folding host vs ?prev i = Some (w, j, c)"
    using opt unfolding optimize_insn_def simplify_insn_def by (auto split: bind_splits)
  note cc = const_folding_cases [OF cf prev ops host local(2)]
  show ?thesis
  proof (cases "i_op i = OP_load_constant")
    case True
    have "\<not> good env vs i (w, j) \<or> (w, j) = (vs, i)" if c
    proof -
      from True local(2) have "const_of vs (rs1 i) = None" "const_of vs (rs2 i) = None" for vs
        by (auto simp: operands_def const_of_def)
      with cf True that show ?thesis
        by (auto simp: const_folding_def mark_const_def eval_const_arithmetic_def eval_const_unary_def split: bind_splits)
    qed
    with cc have j: "j = i" by (auto split: if_split_asm)
    obtain d where d: "rd i = Some d" "w = vs(d := (vs d)\<lparr>is_const := True\<rparr>)" "\<not> c"
      using cf True local(2)
      by (auto simp: const_folding_def mark_const_def eval_const_arithmetic_def eval_const_unary_def
          operands_def const_of_def split: bind_splits)
    have n: "rs1 i = None" "rs2 i = None"
      using True local(2) by (auto simp: operands_def)
    have "optimize_insn host vs before i = Some (w, i)"
      using cf True n d j
      by (simp add: optimize_insn_def simplify_insn_def cse_binary_def is_self_assign_def opt_self_div_def opt_self_ops_def
          opt_identity_def opt_strength_def const_of_def)
    then have r: "vs1 = w" "i1 = i"
      using opt by simp_all
    have "e1 d = init_val (vs d)" "\<not> is_global (vs d)"
      using step True d(1) local(1) by (auto simp: s_step_def s_pure_def s_value_def)
    moreover have "w = set_const d (init_val (vs d)) vs"
      by (simp add: d(2) set_const_def)
    moreover have "s_step ext ws i env = Some e1" if "ws d = w d" for ws
      using step that d by (simp add: s_step_def s_pure_def s_value_def True)
    ultimately show ?thesis
      using r True d(1) by (auto simp: step_good_def is_cse_candidate_def)
  next
    case ne: False
    note gs = good_step [OF _ step local(1) ne]
    show ?thesis
    proof (cases c)
      case True
      with cc have "good env vs i (w, j)" by simp
      moreover have "vs1 = w" "i1 = j"
        using opt cf True by (auto simp: optimize_insn_def simplify_insn_def)
      ultimately show ?thesis using gs by simp
    next
      case False
      with cc ne have j: "j = i" "w = vs" by auto
      obtain i2 found where cse: "cse_binary vs before i = (i2, found)"
        by fastforce
      show ?thesis
      proof (cases found)
        case True
        then obtain a b d r where x: "rs1 i = Some a" "rs2 i = Some b" "rd i = Some d" "is_cse_candidate i"
          "\<not> is_global (vs a)" "\<not> is_global (vs b)" "cse_match before i = Some r"
          "i2 = i\<lparr>i_op := OP_assign, rs1 := Some r, rs2 := None\<rparr>"
          using cse by (auto simp: cse_binary_def split: option.split_asm if_split_asm)
        have "s_bin (i_op i) (env a) (env b) = Some (env r)"
          using cse_match_value [OF x(7) av x(4,1,2)] x(5,6) by simp
        moreover have bin: "s_is_bin (i_op i)"
          by (rule candidate_bin [OF x(4)])
        ultimately have e1: "e1 = env(d := env r)"
          using step x(1-3) s_value_bin [OF bin x(1,2), of vs env]
          by (auto simp: s_step_def s_pure_def)
        have "vs1 = vs" "i1 = i2"
          using opt cf False cse True j by (auto simp: optimize_insn_def simplify_insn_def)
        then show ?thesis
          using x(3,8) e1
          by (auto simp: step_good_def s_step_def s_pure_def s_value_def ph2_un_def is_cse_candidate_def)
      next
        case nf: False
        then have i2: "i2 = i"
          using cse by (auto simp: cse_binary_def split: option.split_asm if_split_asm)
        show ?thesis
        proof (cases "is_self_assign i")
          case True
          then obtain d where d: "i_op i = OP_assign" "rd i = Some d" "rs1 i = Some d"
            by (cases "rd i") (auto simp: is_self_assign_def)
          then have "e1 = env"
            using step by (auto simp: s_step_def s_pure_def s_value_def ph2_un_def)
          moreover have "vs1 = vs" "i1 = i\<lparr>rd := None, rs1 := None\<rparr>"
            using opt cf False cse nf i2 True j by (auto simp: optimize_insn_def simplify_insn_def)
          ultimately show ?thesis
            using d(1) by (auto simp: step_good_def s_step_def s_pure_def is_cse_candidate_def)
        next
          case nsa: False
          obtain w3 i3 w4 i4 w5 i5 where st: "opt_self_div vs i = (w3, i3)" "opt_self_ops w3 i3 = (w4, i4)"
            "opt_identity w4 i4 = (w5, i5)"
            by (metis surj_pair)
          have fin: "opt_strength w5 i5 = Some (vs1, i1)"
            using opt cf False cse nf i2 nsa j st by (simp add: optimize_insn_def simplify_insn_def)
          have g: "good env vs i (w5, i5)"
          proof (cases "rd i")
            case None
            then show ?thesis
              using st by (auto simp: opt_self_div_def opt_self_ops_def opt_identity_def split: option.split_asm)
          next
            case (Some d)
            have "s_is_bin (i_op i) \<longrightarrow> rs1 i \<noteq> None"
            proof
              assume "s_is_bin (i_op i)"
              then have "s_value vs i env \<noteq> None" "i_op i \<noteq> OP_load_constant" "\<not> is_un (i_op i)"
                using step Some by (auto simp: s_step_def s_pure_def s_is_bin_def is_bin_def is_un_def)
              then show "rs1 i \<noteq> None"
                by (auto simp: s_value_def split: option.split_asm)
            qed
            from opt_stages_good [OF ops this st(1,2)] st(3) show ?thesis by simp
          qed
          have "no_strength w5 i5"
            using cf False cse nf i2 nsa j st by (intro ns) (simp add: simplify_insn_def)
          from opt_strength_skip [OF this fin] gs g show ?thesis by simp
        qed
      qed
    qed
  qed
qed

text \<open>The run of the optimizer, where no instruction comes to the strength reduction that it applies to.\<close>

fun no_strength_run :: "host_ops \<Rightarrow> vars \<Rightarrow> sinsn list \<Rightarrow> sinsn list \<Rightarrow> bool" where
  "no_strength_run host vs before [] = True"
| "no_strength_run host vs before (insn # rest) =
     ((case simplify_insn host vs before insn of
         Some (vs1, i1, False) \<Rightarrow> no_strength vs1 i1
       | _ \<Rightarrow> True)
      \<and> (case optimize_insn host vs before insn of
           None \<Rightarrow> True
         | Some (vs1, i1) \<Rightarrow> no_strength_run host vs1 (before @ [i1]) rest))"

lemma avail_step:
  assumes "avail g before (rds (i # rest)) env" "step_good ext env e1 vs i vs1 i1"
    and "ssa g (i # rest)" "frame ext g" "s_step ext vs i env = Some e1" "g = is_global \<circ> vs"
    and "s_pure (i_op i) \<and> i_op i \<noteq> OP_assign \<longrightarrow> (\<forall>d. rd i = Some d \<longrightarrow> \<not> g d)"
  shows "avail g (before @ [i1]) (rds rest) e1"
  unfolding avail_def
proof (intro ballI allI impI, elim conjE)
  fix p d a b
  assume p: "p \<in> set (before @ [i1])" "is_cse_candidate p" "rd p = Some d" "rs1 p = Some a" "rs2 p = Some b"
    "\<not> g a" "\<not> g b"
  show "\<not> g d \<and> d \<notin> rds rest \<and> a \<notin> rds rest \<and> b \<notin> rds rest \<and> s_bin (i_op p) (e1 a) (e1 b) = Some (e1 d)"
  proof (cases "p \<in> set before")
    case True
    with assms(1) p have av: "\<not> g d" "d \<notin> rds (i # rest)" "a \<notin> rds (i # rest)" "b \<notin> rds (i # rest)"
      "s_bin (i_op p) (env a) (env b) = Some (env d)"
      unfolding avail_def by blast+
    have "e1 x = env x" if "x \<notin> rds (i # rest)" "\<not> g x" for x
      using s_step_frame [OF assms(4,5), of x] that by auto
    with av p(6,7) show ?thesis by simp
  next
    case False
    with p(1) have i1: "p = i1" by simp
    with assms(2) p(2) have i: "i1 = i"
      by (simp add: step_good_def)
    have bin: "s_is_bin (i_op i)"
      using p(2) i1 i candidate_bin by blast
    have gd: "\<not> g d"
      using assms(7) bin p(3) i1 i by (auto simp: s_pure_def s_is_bin_def is_bin_def)
    have ops: "a \<notin> rds (i # rest)" "b \<notin> rds (i # rest)"
      using assms(3) p(4-7) i1 i by (auto simp: operands_def)
    have "e1 = env(d := the (s_bin (i_op i) (env a) (env b)))" "s_bin (i_op i) (env a) (env b) \<noteq> None"
      using assms(5) p(3-5) bin i1 i s_value_bin [OF bin, of a b vs env]
      by (auto simp: s_step_def s_pure_def)
    moreover have "a \<noteq> d" "b \<noteq> d"
      using ops p(3) i1 i by auto
    moreover have "d \<notin> rds rest"
      using assms(3) p(3) gd i1 i by auto
    ultimately show ?thesis
      using gd ops i1 i by auto
  qed
qed

lemma optimize_insns_sound:
  assumes "optimize_insns host vs before is = Some (vs', out)" "ssa (is_global \<circ> vs) is" "marks_ok vs is"
    and "pure_local (is_global \<circ> vs) is" "holds vs env (rds is)"
    and "avail (is_global \<circ> vs) before (rds is) env" "marked vs before" "host_wraps host"
    and "no_strength_run host vs before is" "frame ext (is_global \<circ> vs)"
    and "s_run ext vs is env = Some env'"
  shows "\<exists>tail. out = before @ tail \<and> s_run ext vs' tail env = Some env' \<and> holds vs' env' {}
    \<and> (\<forall>v. v \<notin> rds is \<or> is_global (vs v) \<longrightarrow> vs' v = vs v) \<and> rds tail \<subseteq> rds is"
  using assms
proof (induction "is" arbitrary: vs before env)
  case Nil
  then show ?case by auto
next
  case (Cons i "is")
  let ?g = "is_global \<circ> vs"
  obtain vs1 i1 where o: "optimize_insn host vs before i = Some (vs1, i1)"
    and rest: "optimize_insns host vs1 (before @ [i1]) is = Some (vs', out)"
    using Cons.prems(1) by (auto split: bind_splits)
  obtain e1 where e1: "s_step ext vs i env = Some e1" "s_run ext vs is e1 = Some env'"
    using Cons.prems(11) by (auto split: option.split_asm)
  have ns: "no_strength w j" if "simplify_insn host vs before i = Some (w, j, False)" for w j
    using Cons.prems(9) that by simp
  have sg: "step_good ext env e1 vs i vs1 i1"
    by (rule optimize_insn_step [OF o Cons.prems(2-8) ns e1(1)])
  have sgd: "vs1 = vs \<or> (\<exists>d c. rd i = Some d \<and> \<not> is_global (vs d) \<and> vs1 = set_const d c vs \<and> e1 d = c)"
    using sg unfolding step_good_def by blast
  have eff: "\<forall>v. v \<notin> set_option (rd i) \<or> is_global (vs v) \<longrightarrow> vs1 v = vs v" "is_global \<circ> vs1 = ?g"
    using sgd set_const_global by (auto simp: set_const_def)
  have fresh: "x \<notin> set_option (rd i) \<or> is_global (vs x)" if "x \<in> rds is" for x
    using Cons.prems(2) that by auto
  have run1: "s_run ext vs1 is e1 = Some env'"
    using e1(2) s_run_cong [of "is" vs1 vs ext e1] eff(1) fresh by auto
  have h0: "holds vs e1 (rds is)"
    using holds_step [OF _ Cons.prems(3,10) e1(1) Cons.prems(2)] Cons.prems(5) by simp
  have h1: "holds vs1 e1 (rds is)"
    using sgd h0 by (auto simp: holds_def)
  have m1: "marks_ok vs1 is"
  proof -
    have "marks_ok vs is"
      using Cons.prems(3) by (simp add: marks_ok_def)
    moreover have "d \<notin> rds is" if "rd i = Some d" "\<not> is_global (vs d)" for d
      using Cons.prems(2) that by auto
    ultimately show ?thesis
      using sgd by (auto simp: marks_ok_def rds_def)
  qed
  have pl1: "pure_local (is_global \<circ> vs1) is"
    using Cons.prems(4) by (simp add: eff(2) pure_local_def)
  have loc: "s_pure (i_op i) \<and> i_op i \<noteq> OP_assign \<longrightarrow> (\<forall>d. rd i = Some d \<longrightarrow> \<not> ?g d)"
    using Cons.prems(4) by (auto simp: pure_local_def)
  have av1: "avail (is_global \<circ> vs1) (before @ [i1]) (rds is) e1"
    unfolding eff(2) by (rule avail_step [OF Cons.prems(6) sg Cons.prems(2,10) e1(1) refl loc])
  have mk1: "marked vs1 (before @ [i1])"
  proof -
    have "\<forall>d. i_op i1 = OP_load_constant \<and> rd i1 = Some d \<longrightarrow> is_const (vs1 d)"
      using sg unfolding step_good_def by blast
    then show ?thesis
      using Cons.prems(7) sgd by (auto simp: marked_def)
  qed
  have ns1: "no_strength_run host vs1 (before @ [i1]) is"
    using Cons.prems(9) o by simp
  have ssa1: "ssa (is_global \<circ> vs1) is" "frame ext (is_global \<circ> vs1)"
    using Cons.prems(2,10) unfolding eff(2) by (simp_all add: o_def)
  from Cons.IH [OF rest ssa1(1) m1 pl1 h1 av1 mk1 Cons.prems(8) ns1 ssa1(2) run1] obtain tail where
    t: "out = (before @ [i1]) @ tail" "s_run ext vs' tail e1 = Some env'" "holds vs' env' {}"
      "\<forall>v. v \<notin> rds is \<or> is_global (vs1 v) \<longrightarrow> vs' v = vs1 v" "rds tail \<subseteq> rds is"
    by blast
  have gl: "is_global (vs1 v) = is_global (vs v)" for v
    using eff(2) by (auto simp: fun_eq_iff)
  have "s_step ext vs' i1 env = Some e1"
  proof -
    have "vs' d = vs1 d" if "rd i1 = Some d" for d
    proof -
      have "rd i = Some d"
        using sg that by (auto simp: step_good_def)
      then have "d \<notin> rds is \<or> is_global (vs d)"
        using Cons.prems(2) by auto
      with t(4) gl show ?thesis by blast
    qed
    with sg show ?thesis
      by (simp add: step_good_def)
  qed
  moreover have "rds (i1 # tail) \<subseteq> rds (i # is)"
    using t(5) sg by (auto simp: step_good_def)
  moreover have "\<forall>v. v \<notin> rds (i # is) \<or> is_global (vs v) \<longrightarrow> vs' v = vs v"
    using t(4) eff(1) gl by auto
  ultimately show ?case
    using t by (intro exI [of _ "i1 # tail"]) simp
qed

end
