(* ===== verification/SsaProps.thy ===== *)
theory SsaProps
  imports SsaFold
begin

text \<open>
  The properties of the SSA-level optimizations: constant propagation and the instruction
  rewrites of \<open>optimize()\<close> keep what a block computes, under the conditions stated, and
  the rewrites that do not.
\<close>

definition mk :: "opcode \<Rightarrow> var_ref option \<Rightarrow> var_ref option \<Rightarrow> var_ref option \<Rightarrow> sinsn" where
  "mk oc d a b = \<lparr>i_op = oc, rd = d, rs1 = a, rs2 = b, sz = 0\<rparr>"

definition no_ext :: "sinsn \<Rightarrow> senv \<Rightarrow> senv option" where
  "no_ext i env = Some env"

lemma frame_no_ext: "frame no_ext g"
  by (simp add: frame_def no_ext_def)

lemma control_no_ext: "control_keeps no_ext"
  by (simp add: control_keeps_def no_ext_def)

text \<open>Variable 1 is initialized with 5, variable 2 with 8; variable 9 is global.\<close>

definition vars0 :: vars where
  "vars0 v = \<lparr>is_const = False, init_val = (if v = 1 then 5 else if v = 2 then 8 else if v = 12 then 1 else 0), is_global = (v = 9)\<rparr>"

definition vars1 :: vars where
  "vars1 = vars0(1 := (vars0 1)\<lparr>is_const := True\<rparr>)"

definition senv0 :: senv where
  "senv0 v = (if v = 1 then 5 else if v = 7 then -1 else if v = 8 then 6 else 0)"

section \<open>Constant propagation\<close>

text \<open>
  C8. The constant propagation over a block in SSA form, where branches and jumps change no variable and
  other instructions change only their destination and globals. If the variables marked constant
  have their values on entry, no global is marked and no assignment to a global is reached
  whose operand is marked constant, then the instructions of the rewritten block, its
  folded branch included, compute the same environment into the same destinations, the marks
  hold at the end, and the successor is the same: a branch that is folded has become a jump whose
  only target is the block that would have been taken.
\<close>

theorem sccp_block_correct:
  assumes "sccp_block vs bb = (vs', bb', ch)" "ssa (is_global \<circ> vs) (s_insns bb)" "marks_ok vs (s_insns bb)"
    and "no_global_const vs (s_insns bb)" "holds vs env (rds (s_insns bb))"
    and "frame ext (is_global \<circ> vs)" "control_keeps ext" "s_run ext vs (s_insns bb) env = Some env'"
  shows "s_run ext vs' (s_insns bb') env = Some env' \<and> holds vs' env' {}
    \<and> map rd (s_insns bb') = map rd (s_insns bb) \<and> s_next bb' = s_next bb
    \<and> (s_succ bb' env' = s_succ bb env' \<and> s_then bb' = s_then bb \<and> s_else bb' = s_else bb
       \<or> i_op (last (s_insns bb')) = OP_jump \<and> s_then bb' = s_succ bb env' \<and> s_else bb' = None)"
proof -
  obtain is1 c1 c2 where s: "sccp_insns vs (s_insns bb) = (vs', is1, c1)" "s_run ext vs' is1 env = Some env'"
    "holds vs' env' {}" "fold_branch vs' (bb\<lparr>s_insns := is1\<rparr>) = (bb', c2)"
    by (rule sccp_block_sound [OF assms(1-6,8)]) blast
  have rd: "map rd is1 = map rd (s_insns bb)" using sccp_insns_keep [OF s(1)] by blast
  show ?thesis
  proof (cases c2)
    case True
    then have "fold_branch vs' (bb\<lparr>s_insns := is1\<rparr>) = (bb', True)" using s(4) by simp
    note f = fold_branch_taken [OF this s(3)]
    show ?thesis
      using f(1,2) f(3) [OF assms(7), of vs' env] s(2,3) rd sccp_succ [OF s(1), of env'] by simp
  next
    case False
    then have "bb' = bb\<lparr>s_insns := is1\<rparr>"
      using s(4) by (auto simp: fold_branch_def split: if_split_asm option.split_asm)
    then show ?thesis using s(2,3) rd sccp_succ [OF s(1), of env'] by simp
  qed
qed

text \<open>\<open>v3 = v1; v4 = v3 + v3; if (v4) goto 20; else goto 21\<close>, with \<open>v1\<close> constant.\<close>

definition blk0 :: sblock where
  "blk0 = \<lparr>s_insns = [mk OP_assign (Some 3) (Some 1) None, mk OP_add (Some 4) (Some 3) (Some 3),
     mk OP_branch None (Some 4) None], s_next = None, s_then = Some 20, s_else = Some 21\<rparr>"

lemma sccp_block_correct_witness:
  "\<exists>vs' bb' (env' :: senv). sccp_block vars1 blk0 = (vs', bb', True) \<and> env' 4 = 10
     \<and> s_run no_ext vs' (s_insns bb') senv0 = Some env' \<and> s_then bb' = Some 20 \<and> s_else bb' = None"
proof -
  have ch: "(case sccp_block vars1 blk0 of (_, bb', ch) \<Rightarrow> (ch, s_then bb', s_else bb')) = (True, Some 20, None)"
    by code_simp
  then obtain vs' bb' where r: "sccp_block vars1 blk0 = (vs', bb', True)" "s_then bb' = Some 20" "s_else bb' = None"
    by (auto split: prod.split_asm)
  have h: "ssa (is_global \<circ> vars1) (s_insns blk0)" "marks_ok vars1 (s_insns blk0)"
    "holds vars1 senv0 (rds (s_insns blk0))"
    by (auto simp: blk0_def mk_def operands_def marks_ok_def holds_def vars1_def vars0_def senv0_def)
  have ng: "no_global_const vars1 (s_insns blk0)"
    by code_simp
  have "map_option (\<lambda>e. e 4) (s_run no_ext vars1 (s_insns blk0) senv0) = Some 10"
    by code_simp
  then obtain env' where e: "s_run no_ext vars1 (s_insns blk0) senv0 = Some env'" "env' 4 = 10"
    by auto
  from sccp_block_correct [OF r(1) h(1,2) ng h(3) frame_no_ext control_no_ext e(1)] r e(2) show ?thesis
    by blast
qed

text \<open>
  When no variable is marked constant, constant propagation changes nothing at all.
  The parser marks a variable only when an operand is marked already, so this is the state
  the pass is first run in.
\<close>

theorem simple_sccp_unmarked:
  assumes "\<forall>v. \<not> is_const (vs v)"
  shows "simple_sccp vs blocks = (vs, blocks, False)"
  using assms by (intro no_const_sccp) simp

lemma simple_sccp_unmarked_witness:
  "simple_sccp vars0 [blk0] = (vars0, [blk0], False)"
  by (rule simple_sccp_unmarked) (simp add: vars0_def)

text \<open>\<open>g = v1; g = v8; v3 = g + v1\<close>, with \<open>g\<close> global.\<close>

definition blk_g :: "sinsn list" where
  "blk_g = [mk OP_assign (Some 9) (Some 1) None, mk OP_assign (Some 9) (Some 8) None,
     mk OP_add (Some 3) (Some 9) (Some 1)]"

text \<open>
  The condition on globals is needed: an assignment of a constant to a global marks the
  global constant, and later reads are folded to that value although the global has been
  assigned again. Here 6 + 5 becomes 5 + 5.
\<close>

theorem sccp_marks_global:
  "map_option (\<lambda>e. e 3) (s_run no_ext vars1 blk_g senv0) = Some 11
   \<and> (case sccp_insns vars1 blk_g of (vs', out, _) \<Rightarrow>
        is_const (vs' 9) \<and> map_option (\<lambda>e. e 3) (s_run no_ext vs' out senv0) = Some 10)"
  by code_simp

section \<open>Instruction rewrites\<close>

text \<open>
  C9. The rewrites of \<open>optimize()\<close> over a block in SSA form: constant folding, common
  subexpressions, self assignments and algebraic identities, among them the products,
  quotients and remainders by 1. If the marked constants hold on entry, arithmetic writes no
  global, other instructions change only their destination and globals, and the compiler's host
  wraps \<open>-2^31 / -1\<close> as the target does, the rewritten block computes the same environment and its
  marks hold, as long as no instruction is left, after the other rewrites, for the unsound reduction of
  powers of two: a product, quotient or remainder by a constant power of two.
\<close>

theorem optimize_block_correct:
  assumes "optimize_insns host vs [] is = Some (vs', out)" "ssa (is_global \<circ> vs) is" "marks_ok vs is"
    and "pure_local (is_global \<circ> vs) is" "holds vs env (rds is)" "host_wraps host"
    and "no_strength_run host vs [] is" "frame ext (is_global \<circ> vs)"
    and "s_run ext vs is env = Some env'"
  shows "s_run ext vs' out env = Some env' \<and> holds vs' env' {}"
proof -
  have "avail (is_global \<circ> vs) [] (rds is) env" "marked vs []"
    by (simp_all add: avail_def marked_def)
  from optimize_insns_sound [OF assms(1-5) this assms(6-9)] show ?thesis
    by auto
qed

definition host0 :: host_ops where
  "host0 oc l r = (if oc = OP_div then 0x80000000 else 0)"

text \<open>\<open>v1 = 5; v3 = v1; v4 = v3 + v1; v5 = v7 * v8; v6 = v8 * v7; v10 = v6 - v6; v12 = 1; v11 = v8 % v12; v13 = v8 * v12\<close>\<close>

definition blk1 :: "sinsn list" where
  "blk1 = [mk OP_load_constant (Some 1) None None, mk OP_assign (Some 3) (Some 1) None,
     mk OP_add (Some 4) (Some 3) (Some 1), mk OP_mul (Some 5) (Some 7) (Some 8),
     mk OP_mul (Some 6) (Some 8) (Some 7), mk OP_sub (Some 10) (Some 6) (Some 6),
     mk OP_load_constant (Some 12) None None, mk OP_mod (Some 11) (Some 8) (Some 12),
     mk OP_mul (Some 13) (Some 8) (Some 12)]"

lemma optimize_block_correct_witness:
  "\<exists>vs' out (env' :: senv). optimize_insns host0 vars0 [] blk1 = Some (vs', out)
     \<and> map i_op out = [OP_load_constant, OP_load_constant, OP_load_constant, OP_mul, OP_assign, OP_load_constant,
       OP_load_constant, OP_load_constant, OP_assign]
     \<and> s_run no_ext vs' out senv0 = Some env' \<and> env' 4 = 10 \<and> env' 6 = -6 \<and> env' 10 = 0 \<and> env' 11 = 0 \<and> env' 13 = 6"
proof -
  have "map_option (\<lambda>(_, out). map i_op out) (optimize_insns host0 vars0 [] blk1)
      = Some [OP_load_constant, OP_load_constant, OP_load_constant, OP_mul, OP_assign, OP_load_constant,
       OP_load_constant, OP_load_constant, OP_assign]"
    by code_simp
  then obtain vs' out where r: "optimize_insns host0 vars0 [] blk1 = Some (vs', out)"
    and ops: "map i_op out = [OP_load_constant, OP_load_constant, OP_load_constant, OP_mul, OP_assign, OP_load_constant,
       OP_load_constant, OP_load_constant, OP_assign]"
    by auto
  have h: "ssa (is_global \<circ> vars0) blk1" "marks_ok vars0 blk1" "pure_local (is_global \<circ> vars0) blk1"
    "holds vars0 senv0 (rds blk1)" "host_wraps host0"
    by (auto simp: blk1_def mk_def operands_def marks_ok_def pure_local_def holds_def
        vars0_def senv0_def host_wraps_def host0_def)
  have ns: "no_strength_run host0 vars0 [] blk1"
    by code_simp
  have "map_option (\<lambda>e. (e 4, e 6, e 10, e 11, e 13)) (s_run no_ext vars0 blk1 senv0) = Some (10, -6, 0, 0, 6)"
    by code_simp
  then obtain env' where e: "s_run no_ext vars0 blk1 senv0 = Some env'" "env' 4 = 10" "env' 6 = -6"
    "env' 10 = 0 \<and> env' 11 = 0 \<and> env' 13 = 6"
    by auto
  from optimize_block_correct [OF r h ns frame_no_ext e(1)] r ops e(2-4) show ?thesis
    by (intro exI [of _ vs'] exI [of _ out] exI [of _ env']) simp
qed

text \<open>\<open>v2 = 8; v3 = v8 * v2; v4 = v8 + v2\<close> and \<open>v2 = 8; v3 = v7 / v2\<close>\<close>

definition blk2 :: "sinsn list" where
  "blk2 = [mk OP_load_constant (Some 2) None None, mk OP_mul (Some 3) (Some 8) (Some 2),
     mk OP_add (Some 4) (Some 8) (Some 2)]"

definition blk3 :: "sinsn list" where
  "blk3 = [mk OP_load_constant (Some 2) None None, mk OP_div (Some 3) (Some 7) (Some 2)]"

text \<open>
  The reduction of powers of two is not sound. It overwrites the constant behind the
  operand with the shift amount, so that another use of the same variable sees 3 instead
  of 8 (6 + 8 becomes 6 + 3), and it replaces a signed division by an arithmetic shift,
  so that -1 / 8 becomes -1.
\<close>

theorem optimize_strength_wrong:
  "map_option (\<lambda>e. (e 3, e 4)) (s_run no_ext vars0 blk2 senv0) = Some (48, 14)
   \<and> map_option (\<lambda>(vs', out). map_option (\<lambda>e. (e 3, e 4)) (s_run no_ext vs' out senv0))
       (optimize_insns host0 vars0 [] blk2) = Some (Some (48, 9))
   \<and> map_option (\<lambda>e. e 3) (s_run no_ext vars0 blk3 senv0) = Some 0
   \<and> map_option (\<lambda>(vs', out). map_option (\<lambda>e. e 3) (s_run no_ext vs' out senv0))
       (optimize_insns host0 vars0 [] blk3) = Some (Some (-1))"
  by code_simp

end
