(* ===== verification/HashMap.thy ===== *)
theory HashMap
  imports Machine
begin

text \<open>
  The string-keyed hash map of \<^verbatim>\<open>src/globals.c\<close>: open addressing with linear probing
  in a table whose capacity is a power of two, doubled when it is half full.

  The table is a list of optional entries (\<open>occupied\<close>); a key is its characters, since
  the code compares and copies strings. \<open>alloc\<close> tells whether \<open>calloc\<close> gives a table of
  the size asked for; nothing is known of it but that a size that is not positive as an
  \<open>int\<close> fails. A call of \<open>abort()\<close> is \<open>None\<close>. The probe loops take the capacity as
  fuel, which is shown to be enough.
\<close>

record 'v hashmap =
  hsize :: nat
  hcap :: nat
  htable :: "(string \<times> 'v) option list"

section \<open>Hashing\<close>

text \<open>The value of a (signed) \<open>char\<close> as an \<open>int\<close>.\<close>

definition char_int :: "char \<Rightarrow> cint" where
  "char_int c = sext 8 (of_char c)"

fun hash_loop :: "cint \<Rightarrow> string \<Rightarrow> cint" where
  "hash_loop hash [] = hash"
| "hash_loop hash (c # key) = hash_loop ((hash XOR char_int c) * 0x01000193) key"

fun hashmap_hash_index :: "nat \<Rightarrow> string option \<Rightarrow> nat" where
  "hashmap_hash_index sz None = 0"
| "hashmap_hash_index sz (Some key) =
     (let hash = hash_loop 0x811c9dc5 key; mask = sar hash 31
      in unat (((hash XOR mask) - mask) AND (of_nat sz - 1)))"

definition round_up_pow2 :: "cint \<Rightarrow> cint" where
  "round_up_pow2 v =
     (let v = v - 1; v = v OR sar v 1; v = v OR sar v 2; v = v OR sar v 4; v = v OR sar v 8;
          v = v OR sar v 16
      in v + 1)"

section \<open>Operations\<close>

definition hashmap_create :: "(cint \<Rightarrow> bool) \<Rightarrow> cint \<Rightarrow> 'v hashmap option" where
  "hashmap_create alloc cap =
     (let c = round_up_pow2 cap
      in if lt_s 0 c \<and> alloc c
         then Some \<lparr>hsize = 0, hcap = unat c, htable = replicate (unat c) None\<rparr> else None)"

definition next_index :: "nat \<Rightarrow> nat \<Rightarrow> nat" where
  "next_index cap i = unat ((of_nat i + 1) AND (of_nat cap - 1 :: cint))"

datatype probe = Free nat | Hit nat | Full

fun probe_key :: "nat \<Rightarrow> 'v hashmap \<Rightarrow> string \<Rightarrow> nat \<Rightarrow> nat \<Rightarrow> probe option" where
  "probe_key 0 m key start i = None"
| "probe_key (Suc n) m key start i =
     (case htable m ! i of
        None \<Rightarrow> Some (Free i)
      | Some (k, _) \<Rightarrow>
          if k = key then Some (Hit i)
          else let i1 = next_index (hcap m) i
               in if i1 = start then Some Full else probe_key n m key start i1)"

fun probe_free :: "nat \<Rightarrow> 'v hashmap \<Rightarrow> nat \<Rightarrow> nat \<Rightarrow> probe option" where
  "probe_free 0 m start i = None"
| "probe_free (Suc n) m start i =
     (case htable m ! i of
        None \<Rightarrow> Some (Free i)
      | Some _ \<Rightarrow>
          let i1 = next_index (hcap m) i
          in if i1 = start then Some Full else probe_free n m start i1)"

definition put_at :: "nat \<Rightarrow> string \<Rightarrow> 'v \<Rightarrow> 'v hashmap \<Rightarrow> 'v hashmap" where
  "put_at i key val m = m\<lparr>htable := (htable m)[i := Some (key, val)], hsize := hsize m + 1\<rparr>"

fun rehash_loop :: "(string \<times> 'v) option list \<Rightarrow> 'v hashmap \<Rightarrow> 'v hashmap option" where
  "rehash_loop [] m = Some m"
| "rehash_loop (None # old) m = rehash_loop old m"
| "rehash_loop (Some (key, val) # old) m =
     (let index = hashmap_hash_index (hcap m) (Some key)
      in case probe_free (hcap m) m index index of
           Some (Free i) \<Rightarrow> rehash_loop old (put_at i key val m)
         | _ \<Rightarrow> None)"

definition hashmap_rehash :: "(cint \<Rightarrow> bool) \<Rightarrow> 'v hashmap \<Rightarrow> 'v hashmap option" where
  "hashmap_rehash alloc m =
     (let c = shl (of_nat (hcap m)) 1
      in if lt_s 0 c \<and> alloc c
         then rehash_loop (htable m) \<lparr>hsize = 0, hcap = unat c, htable = replicate (unat c) None\<rparr>
         else Some m)"

definition hashmap_put :: "(cint \<Rightarrow> bool) \<Rightarrow> 'v hashmap \<Rightarrow> string \<Rightarrow> 'v \<Rightarrow> 'v hashmap option" where
  "hashmap_put alloc m key val =
     (case (if hcap m div 2 \<le> hsize m then hashmap_rehash alloc m else Some m) of
        None \<Rightarrow> None
      | Some m1 \<Rightarrow>
          (let index = hashmap_hash_index (hcap m1) (Some key)
           in case probe_key (hcap m1) m1 key index index of
                Some (Free i) \<Rightarrow> Some (put_at i key val m1)
              | Some (Hit i) \<Rightarrow>
                  Some (m1\<lparr>htable := (htable m1)[i := map_option (\<lambda>(k, _). (k, val)) (htable m1 ! i)]\<rparr>)
              | _ \<Rightarrow> None))"

definition hashmap_get_node :: "'v hashmap \<Rightarrow> string \<Rightarrow> nat option" where
  "hashmap_get_node m key =
     (let index = hashmap_hash_index (hcap m) (Some key)
      in case probe_key (hcap m) m key index index of
           Some (Hit i) \<Rightarrow> Some i
         | _ \<Rightarrow> None)"

definition hashmap_get :: "'v hashmap \<Rightarrow> string \<Rightarrow> 'v option" where
  "hashmap_get m key =
     (case hashmap_get_node m key of None \<Rightarrow> None | Some i \<Rightarrow> map_option snd (htable m ! i))"

definition hashmap_contains :: "'v hashmap \<Rightarrow> string \<Rightarrow> bool" where
  "hashmap_contains m key \<longleftrightarrow> hashmap_get_node m key \<noteq> None"

section \<open>Indices\<close>

definition cap_ok :: "nat \<Rightarrow> bool" where
  "cap_ok c \<longleftrightarrow> (\<exists>k. k < 31 \<and> c = 2 ^ k)"

lemma cap_ok_pos: "cap_ok c \<Longrightarrow> 0 < c"
  by (auto simp: cap_ok_def)

lemma cap_ok_less: "cap_ok c \<Longrightarrow> c < 2 ^ 31"
  unfolding cap_ok_def by (elim exE conjE) (simp only: power_strict_increasing_iff one_less_numeral_iff semiring_norm)

lemma and_cap_mod:
  assumes "cap_ok c"
  shows "unat (w AND (of_nat c - 1 :: cint)) = unat w mod c"
proof -
  obtain k where k: "k < 31" "c = 2 ^ k"
    using assms by (auto simp: cap_ok_def)
  have "(of_nat c - 1 :: cint) = mask k"
    by (simp add: k(2) mask_eq_decr_exp)
  then have "unat (w AND (of_nat c - 1 :: cint)) = unat (take_bit k w)"
    by (simp add: take_bit_eq_mask)
  also have "\<dots> = take_bit k (unat w)"
    by (rule unsigned_take_bit_eq)
  finally show ?thesis
    by (simp add: take_bit_eq_mod k(2))
qed

lemma hash_index_less: "cap_ok c \<Longrightarrow> hashmap_hash_index c key < c"
  using cap_ok_pos [of c] by (cases key) (simp_all add: Let_def and_cap_mod)

declare hashmap_hash_index.simps [simp del]

lemma next_index_mod:
  assumes "cap_ok c" "i < c"
  shows "next_index c i = Suc i mod c"
proof -
  have "Suc i < 2 ^ 32"
    using assms(2) cap_ok_less [OF assms(1)] by simp
  then have "unat (of_nat (Suc i) :: cint) = Suc i"
    by (simp add: unat_of_nat del: of_nat_Suc)
  then show ?thesis
    using and_cap_mod [OF assms(1), of "of_nat (Suc i)"] by (simp add: next_index_def add.commute)
qed

lemma next_index_offset:
  assumes "cap_ok c" "start < c" "Suc d < c"
  shows "next_index c ((start + d) mod c) = (start + Suc d) mod c" "(start + Suc d) mod c \<noteq> start"
proof -
  have "(start + d) mod c < c"
    using cap_ok_pos [OF assms(1)] by simp
  then show "next_index c ((start + d) mod c) = (start + Suc d) mod c"
    by (simp add: next_index_mod [OF assms(1)] mod_Suc_eq)
  show "(start + Suc d) mod c \<noteq> start"
  proof (cases "start + Suc d < c")
    case False
    then have "(start + Suc d) mod c = start + Suc d - c"
      using assms(2,3) by (simp add: le_mod_geq)
    then show ?thesis
      using assms(3) False by linarith
  qed simp
qed

lemma next_index_last:
  assumes "cap_ok c" "start < c" "Suc d = c"
  shows "next_index c ((start + d) mod c) = start"
proof -
  have "(start + d) mod c < c"
    using cap_ok_pos [OF assms(1)] by simp
  then have "next_index c ((start + d) mod c) = (start + Suc d) mod c"
    by (simp add: next_index_mod [OF assms(1)] mod_Suc_eq)
  then show ?thesis
    using assms(2,3) by simp
qed

section \<open>Invariant and abstraction\<close>

text \<open>
  The slot \<open>d\<close> steps after where the search for a key starts. Every entry is reached from
  its start over occupied slots, no key occurs twice, and the size counts the entries.
\<close>

definition slot :: "'v hashmap \<Rightarrow> nat \<Rightarrow> nat \<Rightarrow> (string \<times> 'v) option" where
  "slot m start d = htable m ! ((start + d) mod hcap m)"

definition hm_start :: "'v hashmap \<Rightarrow> string \<Rightarrow> nat" where
  "hm_start m key = hashmap_hash_index (hcap m) (Some key)"

definition entries :: "'v hashmap \<Rightarrow> (string \<times> 'v) list" where
  "entries m = concat (map (\<lambda>x. case x of None \<Rightarrow> [] | Some kv \<Rightarrow> [kv]) (htable m))"

definition hm_inv :: "'v hashmap \<Rightarrow> bool" where
  "hm_inv m \<longleftrightarrow> cap_ok (hcap m) \<and> length (htable m) = hcap m \<and> hsize m = length (entries m)
     \<and> distinct (map fst (entries m))
     \<and> (\<forall>i<hcap m. \<forall>key v. htable m ! i = Some (key, v) \<longrightarrow>
          (\<exists>d<hcap m. i = (hm_start m key + d) mod hcap m \<and> (\<forall>e<d. slot m (hm_start m key) e \<noteq> None)))"

definition hm_abs :: "'v hashmap \<Rightarrow> string \<rightharpoonup> 'v" where
  "hm_abs m = map_of (entries m)"

lemma set_entries: "(key, v) \<in> set (entries m) \<longleftrightarrow> (\<exists>i<length (htable m). htable m ! i = Some (key, v))"
  by (force simp: entries_def in_set_conv_nth split: option.splits)

lemma hm_abs_iff: "hm_inv m \<Longrightarrow> hm_abs m key = Some v \<longleftrightarrow> (\<exists>i<hcap m. htable m ! i = Some (key, v))"
  by (simp add: hm_abs_def hm_inv_def map_of_eq_Some_iff set_entries)

text \<open>The entries before and after the slot \<open>i\<close>.\<close>

definition opt_list :: "'a option \<Rightarrow> 'a list" where
  "opt_list x = (case x of None \<Rightarrow> [] | Some y \<Rightarrow> [y])"

lemma entries_at:
  assumes "i < length (htable m)"
  shows "\<exists>xs ys. entries m = xs @ opt_list (htable m ! i) @ ys
    \<and> (\<forall>x n. entries (m\<lparr>htable := (htable m)[i := x], hsize := n\<rparr>) = xs @ opt_list x @ ys)"
proof -
  have e: "entries m' = concat (map opt_list (htable m'))" for m' :: "'a hashmap"
    unfolding entries_def by (rule arg_cong [of _ _ concat], rule map_cong) (simp_all add: opt_list_def)
  have t: "htable m = take i (htable m) @ htable m ! i # drop (Suc i) (htable m)"
    using assms by (rule id_take_nth_drop)
  show ?thesis
  proof (intro exI conjI allI)
    show "entries m = concat (map opt_list (take i (htable m))) @ opt_list (htable m ! i)
        @ concat (map opt_list (drop (Suc i) (htable m)))"
      unfolding e by (subst t) simp
    show "entries (m\<lparr>htable := (htable m)[i := x], hsize := n\<rparr>)
      = concat (map opt_list (take i (htable m))) @ opt_list x
        @ concat (map opt_list (drop (Suc i) (htable m)))" for x n
      unfolding e using assms by (simp add: upd_conv_take_nth_drop)
  qed
qed

section \<open>The probe loops\<close>

definition passed :: "'v hashmap \<Rightarrow> string \<Rightarrow> nat \<Rightarrow> nat \<Rightarrow> nat \<Rightarrow> bool" where
  "passed m key start d e \<longleftrightarrow>
     (\<forall>x. d \<le> x \<and> x < e \<longrightarrow> (\<exists>k v. slot m start x = Some (k, v) \<and> k \<noteq> key))"

fun probe_ok :: "'v hashmap \<Rightarrow> string \<Rightarrow> nat \<Rightarrow> nat \<Rightarrow> probe \<Rightarrow> bool" where
  "probe_ok m key start d (Free j) \<longleftrightarrow>
     (\<exists>e. d \<le> e \<and> e < hcap m \<and> j = (start + e) mod hcap m \<and> slot m start e = None \<and> passed m key start d e)"
| "probe_ok m key start d (Hit j) \<longleftrightarrow>
     (\<exists>e v. d \<le> e \<and> e < hcap m \<and> j = (start + e) mod hcap m \<and> slot m start e = Some (key, v))"
| "probe_ok m key start d Full \<longleftrightarrow> passed m key start d (hcap m)"

lemma passed_Suc:
  "passed m key start (Suc d) e \<Longrightarrow> slot m start d = Some (k, v) \<Longrightarrow> k \<noteq> key \<Longrightarrow> passed m key start d e"
  unfolding passed_def by (metis Suc_leI le_neq_implies_less)

lemma probe_ok_Suc:
  "probe_ok m key start (Suc d) r \<Longrightarrow> slot m start d = Some (k, v) \<Longrightarrow> k \<noteq> key \<Longrightarrow> probe_ok m key start d r"
  by (cases r) (auto dest: passed_Suc Suc_leD)

lemma probe_key_spec:
  assumes "cap_ok (hcap m)" "start < hcap m" "d < hcap m" "hcap m - d \<le> n"
  shows "\<exists>r. probe_key n m key start ((start + d) mod hcap m) = Some r \<and> probe_ok m key start d r"
  using assms(3,4)
proof (induction n arbitrary: d)
  case (Suc n)
  let ?i = "(start + d) mod hcap m"
  show ?case
  proof (cases "htable m ! ?i")
    case None
    then have "probe_ok m key start d (Free ?i)"
      using Suc.prems by (auto simp: slot_def passed_def intro!: exI [of _ d])
    with None show ?thesis by simp
  next
    case (Some kv)
    obtain k v where kv: "kv = (k, v)" by fastforce
    have s: "slot m start d = Some (k, v)"
      using Some kv by (simp add: slot_def)
    show ?thesis
    proof (cases "k = key")
      case True
      then have "probe_ok m key start d (Hit ?i)"
        using Suc.prems s by (auto intro!: exI [of _ d])
      with Some kv True show ?thesis by simp
    next
      case False
      show ?thesis
      proof (cases "Suc d < hcap m")
        case True
        have "hcap m - Suc d \<le> n"
          using Suc.prems(2) by simp
        from Suc.IH [OF True this] obtain r where
          r: "probe_key n m key start ((start + Suc d) mod hcap m) = Some r" "probe_ok m key start (Suc d) r"
          by blast
        have "probe_key (Suc n) m key start ?i = Some r"
          using Some kv False r(1) next_index_offset [OF assms(1,2) True] by (simp add: Let_def)
        then show ?thesis
          using probe_ok_Suc [OF r(2) s False] by blast
      next
        case last: False
        then have d: "Suc d = hcap m"
          using Suc.prems(1) by simp
        have "probe_key (Suc n) m key start ?i = Some Full"
          using Some kv False next_index_last [OF assms(1,2) d] by (simp add: Let_def)
        moreover have "passed m key start (Suc d) (hcap m)"
          using d by (auto simp: passed_def)
        ultimately show ?thesis
          using passed_Suc [OF _ s False] by fastforce
      qed
    qed
  qed
qed simp

lemma probe_key_start:
  assumes "hm_inv m"
  shows "\<exists>r. probe_key (hcap m) m key (hm_start m key) (hm_start m key) = Some r
    \<and> probe_ok m key (hm_start m key) 0 r"
proof -
  have c: "cap_ok (hcap m)"
    using assms by (simp add: hm_inv_def)
  have "hm_start m key < hcap m"
    by (simp add: hm_start_def hash_index_less [OF c])
  with probe_key_spec [OF c this, of 0 "hcap m" key] cap_ok_pos [OF c] show ?thesis
    by simp
qed

text \<open>A key that is present is hit; where an entry for an absent key goes.\<close>

lemma probe_hit_iff:
  assumes "hm_inv m" "probe_ok m key (hm_start m key) 0 r"
  shows "hm_abs m key = (case r of Hit j \<Rightarrow> map_option snd (htable m ! j) | _ \<Rightarrow> None)"
proof -
  have pos: "0 < hcap m"
    using assms(1) cap_ok_pos by (auto simp: hm_inv_def)
  have absent: "hm_abs m key = None" if "\<forall>e<hcap m. (\<forall>x<e. slot m (hm_start m key) x \<noteq> None)
      \<longrightarrow> (\<forall>v. slot m (hm_start m key) e \<noteq> Some (key, v))"
  proof (rule ccontr)
    assume "hm_abs m key \<noteq> None"
    then obtain i v where i: "i < hcap m" "htable m ! i = Some (key, v)"
      using hm_abs_iff [OF assms(1)] by blast
    with assms(1) obtain d where d: "d < hcap m" "i = (hm_start m key + d) mod hcap m"
      "\<forall>e<d. slot m (hm_start m key) e \<noteq> None"
      unfolding hm_inv_def by meson
    with i(2) have "slot m (hm_start m key) d = Some (key, v)"
      by (simp add: slot_def)
    with that d show False by blast
  qed
  show ?thesis
  proof (cases r)
    case (Free j)
    with assms(2) obtain e where e: "slot m (hm_start m key) e = None" "passed m key (hm_start m key) 0 e"
      by auto
    have "\<forall>v. slot m (hm_start m key) x \<noteq> Some (key, v)"
      if "\<forall>y<x. slot m (hm_start m key) y \<noteq> None" for x
    proof (cases "x < e")
      case True
      with e(2) show ?thesis by (force simp: passed_def)
    next
      case False
      then have "x = e"
        using that e(1) by (metis linorder_neqE_nat)
      with e(1) show ?thesis by simp
    qed
    with absent Free show ?thesis by simp
  next
    case (Hit j)
    with assms(2) obtain e v where e: "e < hcap m" "j = (hm_start m key + e) mod hcap m"
      "slot m (hm_start m key) e = Some (key, v)"
      by auto
    then have "htable m ! j = Some (key, v)" "j < hcap m"
      using pos by (simp_all add: slot_def)
    with hm_abs_iff [OF assms(1), of key v] Hit show ?thesis by auto
  next
    case Full
    with assms(2) have "passed m key (hm_start m key) 0 (hcap m)"
      by simp
    with absent Full show ?thesis
      by (force simp: passed_def)
  qed
qed

lemma hashmap_get_abs: "hm_inv m \<Longrightarrow> hashmap_get m key = hm_abs m key"
proof -
  assume inv: "hm_inv m"
  obtain r where r: "probe_key (hcap m) m key (hm_start m key) (hm_start m key) = Some r"
    "probe_ok m key (hm_start m key) 0 r"
    using probe_key_start [OF inv] by blast
  from probe_hit_iff [OF inv r(2)] r(1) show ?thesis
    by (simp add: hashmap_get_def hashmap_get_node_def hm_start_def Let_def split: probe.split)
qed

section \<open>Insertion\<close>

lemma map_of_insert:
  "key \<notin> fst ` set xs \<Longrightarrow> map_of (xs @ (key, v) # ys) = (map_of (xs @ ys))(key \<mapsto> v)"
proof (induction xs)
  case (Cons x xs)
  then show ?case
    by (cases x) (auto simp: fun_upd_twist)
qed simp

lemma map_of_replace:
  "key \<notin> fst ` set xs \<Longrightarrow> map_of (xs @ (key, v) # ys) = (map_of (xs @ (key, u) # ys))(key \<mapsto> v)"
  by (subst (1 2) map_of_insert) simp_all

lemma put_at_free:
  assumes "hm_inv m" "probe_ok m key (hm_start m key) 0 (Free j)"
  shows "hm_inv (put_at j key v m)" "hm_abs (put_at j key v m) = (hm_abs m)(key \<mapsto> v)"
    "hcap (put_at j key v m) = hcap m" "length (entries (put_at j key v m)) = Suc (length (entries m))"
proof -
  let ?m = "put_at j key v m" and ?s = "hm_start m key"
  obtain e where e: "e < hcap m" "j = (?s + e) mod hcap m" "slot m ?s e = None" "passed m key ?s 0 e"
    using assms(2) by auto
  have len: "length (htable m) = hcap m" and pos: "0 < hcap m"
    using assms(1) cap_ok_pos by (auto simp: hm_inv_def)
  have j: "j < length (htable m)" "htable m ! j = None"
    using e pos len by (simp_all add: slot_def)
  have none: "hm_abs m key = None"
    using probe_hit_iff [OF assms] by simp
  obtain xs ys where xy: "entries m = xs @ opt_list (htable m ! j) @ ys"
    "\<forall>x n. entries (m\<lparr>htable := (htable m)[j := x], hsize := n\<rparr>) = xs @ opt_list x @ ys"
    using entries_at [OF j(1)] by blast
  have ent: "entries m = xs @ ys" "entries ?m = xs @ [(key, v)] @ ys"
    using xy j(2) by (simp_all add: put_at_def opt_list_def)
  have notin: "key \<notin> fst ` set (entries m)"
    using none by (simp add: hm_abs_def map_of_eq_None_iff)
  have slots: "slot m s x \<noteq> None \<Longrightarrow> slot ?m s x \<noteq> None" for s x
    using j pos len by (auto simp: slot_def put_at_def nth_list_update)
  have st: "hm_start ?m k = hm_start m k" for k
    by (simp add: hm_start_def put_at_def)
  have cap: "hcap ?m = hcap m"
    by (simp add: put_at_def)
  have chain: "\<exists>d<hcap m. i = (hm_start m k + d) mod hcap m \<and> (\<forall>x<d. slot ?m (hm_start m k) x \<noteq> None)"
    if i: "i < hcap m" "htable ?m ! i = Some (k, u)" for i k u
  proof (cases "i = j")
    case True
    then have "k = key"
      using i(2) j(1) by (simp add: put_at_def)
    then show ?thesis
      using e True slots by (intro exI [of _ e]) (force simp: passed_def)
  next
    case False
    then have "htable m ! i = Some (k, u)"
      using i(2) by (simp add: put_at_def)
    then obtain d where "d < hcap m" "i = (hm_start m k + d) mod hcap m"
      "\<forall>x<d. slot m (hm_start m k) x \<noteq> None"
      using assms(1) i(1) unfolding hm_inv_def by meson
    with slots show ?thesis by blast
  qed
  show "hm_inv ?m"
    unfolding hm_inv_def cap st
    using assms(1) ent notin chain len by (auto simp: hm_inv_def put_at_def)
  show "hm_abs ?m = (hm_abs m)(key \<mapsto> v)"
  proof -
    have "key \<notin> fst ` set xs"
      using notin ent(1) by auto
    then show ?thesis
      by (simp only: hm_abs_def ent append_Cons append_Nil map_of_insert not_False_eq_True)
  qed
 show "hcap ?m = hcap m" by (rule cap)
  show "length (entries ?m) = Suc (length (entries m))"
    by (simp add: ent)
qed

lemma put_hit:
  fixes m :: "'v hashmap" and v :: 'v
  assumes "hm_inv m" "probe_ok m key (hm_start m key) 0 (Hit j)"
  defines "m' \<equiv> m\<lparr>htable := (htable m)[j := map_option (\<lambda>(k, _). (k, v)) (htable m ! j)]\<rparr>"
  shows "hm_inv m'" "hm_abs m' = (hm_abs m)(key \<mapsto> v)" "hcap m' = hcap m"
proof -
  let ?s = "hm_start m key"
  have len: "length (htable m) = hcap m" and pos: "0 < hcap m"
    using assms(1) cap_ok_pos by (auto simp: hm_inv_def)
  obtain u where j: "j < length (htable m)" "htable m ! j = Some (key, u)"
    using assms(2) pos len by (auto simp: slot_def)
  have m': "m' = m\<lparr>htable := (htable m)[j := Some (key, v)], hsize := hsize m\<rparr>"
    using j(2) by (simp add: m'_def)
  obtain xs ys where xy: "entries m = xs @ opt_list (htable m ! j) @ ys"
    "\<forall>x n. entries (m\<lparr>htable := (htable m)[j := x], hsize := n\<rparr>) = xs @ opt_list x @ ys"
    using entries_at [OF j(1)] by blast
  have ent: "entries m = xs @ (key, u) # ys" "entries m' = xs @ (key, v) # ys"
    using xy j(2) by (simp_all only: m' opt_list_def option.case append_Cons append_Nil)
  have slots: "slot m s x \<noteq> None \<Longrightarrow> slot m' s x \<noteq> None" for s x
    using j pos len by (auto simp: slot_def m' nth_list_update)
  have st: "hm_start m' k = hm_start m k" for k
    by (simp add: hm_start_def m')
  have chain: "\<exists>d<hcap m. i = (hm_start m k + d) mod hcap m \<and> (\<forall>x<d. slot m' (hm_start m k) x \<noteq> None)"
    if i: "i < hcap m" "htable m' ! i = Some (k, w)" for i k w
  proof -
    obtain w' where "htable m ! i = Some (k, w')"
      using i(2) j by (cases "i = j") (simp_all add: m')
    then obtain d where "d < hcap m" "i = (hm_start m k + d) mod hcap m"
      "\<forall>x<d. slot m (hm_start m k) x \<noteq> None"
      using assms(1) i(1) unfolding hm_inv_def by meson
    with slots show ?thesis by blast
  qed
  show "hcap m' = hcap m"
    by (simp add: m')
  then show "hm_inv m'"
    unfolding hm_inv_def st
    using assms(1) ent chain len by (auto simp: hm_inv_def m')
  have d: "key \<notin> fst ` set xs"
    using assms(1) ent(1) by (auto simp: hm_inv_def)
  show "hm_abs m' = (hm_abs m)(key \<mapsto> v)"
    by (simp only: hm_abs_def ent map_of_replace [OF d])
qed

section \<open>Growing\<close>

lemma probe_free_key:
  assumes "cap_ok (hcap m)" "length (htable m) = hcap m" "key \<notin> fst ` set (entries m)" "i < hcap m"
  shows "probe_free n m start i = probe_key n m key start i"
  using assms(4)
proof (induction n arbitrary: i)
  case (Suc n)
  have "next_index (hcap m) i < hcap m"
    using cap_ok_pos [OF assms(1)] by (simp add: next_index_mod [OF assms(1) Suc.prems])
  moreover have "htable m ! i = Some (k, v) \<Longrightarrow> k \<noteq> key" for k v
    using assms(2,3) Suc.prems set_entries [of k v m] by force
  ultimately show ?case
    using Suc.IH by (auto simp: Let_def split: option.split)
qed simp

lemma entries_le: "length (entries m) \<le> length (htable m)"
proof -
  have "length (concat (map (\<lambda>x. case x of None \<Rightarrow> [] | Some kv \<Rightarrow> [kv]) xs)) \<le> length xs" for xs :: "(string \<times> 'a) option list"
    by (induction xs) (auto split: option.split)
  then show ?thesis
    by (simp add: entries_def)
qed

lemma full_entries:
  assumes "hm_inv m" "passed m key (hm_start m key) 0 (hcap m)"
  shows "length (entries m) = hcap m"
proof -
  have len: "length (htable m) = hcap m" and pos: "0 < hcap m"
    using assms(1) cap_ok_pos by (auto simp: hm_inv_def)
  have "x \<noteq> None" if p: "x \<in> set (htable m)" for x
  proof -
    let ?s = "hm_start m key"
    obtain i where i: "i < hcap m" "x = htable m ! i"
      using p len by (auto simp: in_set_conv_nth)
    have s: "?s < hcap m"
      using assms(1) hash_index_less by (auto simp: hm_start_def hm_inv_def)
    let ?d = "(i + hcap m - ?s) mod hcap m"
    have "(?s + ?d) mod hcap m = (?s + (i + hcap m - ?s)) mod hcap m"
      by (simp add: mod_add_right_eq)
    also have "\<dots> = i"
      using s i(1) by simp
    finally have "slot m ?s ?d = x"
      by (simp add: slot_def i(2))
    moreover have "?d < hcap m"
      using pos by simp
    ultimately show ?thesis
      using assms(2) by (force simp: passed_def)
  qed
  moreover have "length (concat (map (\<lambda>x. case x of None \<Rightarrow> [] | Some kv \<Rightarrow> [kv]) xs)) = length xs"
    if "\<forall>x\<in>set xs. x \<noteq> None" for xs :: "(string \<times> 'a) option list"
    using that by (induction xs) auto
  ultimately show ?thesis
    using len by (simp add: entries_def)
qed

text \<open>The table a map of a power of two slots starts from.\<close>

definition fresh :: "nat \<Rightarrow> 'v hashmap" where
  "fresh c = \<lparr>hsize = 0, hcap = c, htable = replicate c None\<rparr>"

lemma entries_fresh: "entries (fresh c) = []"
  by (simp add: entries_def fresh_def)

lemma fresh_inv: "cap_ok c \<Longrightarrow> hm_inv (fresh c)" "hm_abs (fresh c) = Map.empty" "hcap (fresh c) = c"
proof -
  show "cap_ok c \<Longrightarrow> hm_inv (fresh c)"
    unfolding hm_inv_def entries_fresh by (simp add: fresh_def)
qed (simp_all add: hm_abs_def entries_fresh, simp add: fresh_def)

text \<open>An insertion of an absent key into a table with room for it.\<close>

lemma probe_room:
  assumes "hm_inv m" "length (entries m) < hcap m"
  shows "(\<exists>j. probe_key (hcap m) m key (hm_start m key) (hm_start m key) = Some (Free j)
            \<and> probe_ok m key (hm_start m key) 0 (Free j))
    \<or> (\<exists>j. probe_key (hcap m) m key (hm_start m key) (hm_start m key) = Some (Hit j)
            \<and> probe_ok m key (hm_start m key) 0 (Hit j))"
proof -
  obtain r where r: "probe_key (hcap m) m key (hm_start m key) (hm_start m key) = Some r"
    "probe_ok m key (hm_start m key) 0 r"
    using probe_key_start [OF assms(1)] by blast
  have "r \<noteq> Full"
    using full_entries [OF assms(1)] r(2) assms(2) by auto
  with r show ?thesis by (cases r) blast+
qed

lemma opt_list_simps: "opt_list None = []" "opt_list (Some x) = [x]"
  by (simp_all add: opt_list_def)

lemma entries_opt_list: "entries m = concat (map opt_list (htable m))"
  unfolding entries_def by (rule arg_cong [of _ _ concat], rule map_cong) (simp_all add: opt_list_def)

lemma rehash_loop_ok:
  assumes "hm_inv m" "length (concat (map opt_list old)) + length (entries m) < hcap m"
    "distinct (map fst (concat (map opt_list old)))"
    "fst ` set (concat (map opt_list old)) \<inter> fst ` set (entries m) = {}"
  shows "\<exists>m'. rehash_loop old m = Some m' \<and> hm_inv m' \<and> hcap m' = hcap m
    \<and> length (entries m') = length (concat (map opt_list old)) + length (entries m)
    \<and> hm_abs m' = hm_abs m ++ map_of (concat (map opt_list old))"
  using assms
proof (induction old arbitrary: m)
  case (Cons x old)
  show ?case
  proof (cases x)
    case None
    with Cons show ?thesis by (simp add: opt_list_simps)
  next
    case (Some kv)
    obtain key v where kv: "kv = (key, v)" by fastforce
    let ?old = "concat (map opt_list old)"
    have c: "cap_ok (hcap m)" "length (htable m) = hcap m"
      using Cons.prems(1) by (auto simp: hm_inv_def)
    have s: "hm_start m key < hcap m"
      by (simp add: hm_start_def hash_index_less [OF c(1)])
    have notin: "key \<notin> fst ` set (entries m)"
      using Cons.prems(4) by (auto simp: Some kv opt_list_simps)
    have room: "length (entries m) < hcap m"
      using Cons.prems(2) by simp
    have none: "hm_abs m key = None"
      using notin by (simp add: hm_abs_def map_of_eq_None_iff)
    have nohit: False if p: "probe_ok m key (hm_start m key) 0 (Hit j)" for j
    proof -
      from p obtain u where "htable m ! j = Some (key, u)"
        by (auto simp: slot_def)
      with probe_hit_iff [OF Cons.prems(1) p] none show False by simp
    qed
    obtain j where j: "probe_key (hcap m) m key (hm_start m key) (hm_start m key) = Some (Free j)"
      "probe_ok m key (hm_start m key) 0 (Free j)"
      using probe_room [OF Cons.prems(1) room, of key] nohit by blast
    let ?m = "put_at j key v m"
    note put = put_at_free [OF Cons.prems(1) j(2), of v]
    have step: "rehash_loop (x # old) m = rehash_loop old ?m"
      using j(1) by (simp add: Some kv hm_start_def probe_free_key [OF c notin] s [unfolded hm_start_def] Let_def)
    have ents: "fst ` set (entries ?m) = insert key (fst ` set (entries m))"
      using arg_cong [OF put(2), of dom] by (simp add: hm_abs_def dom_map_of_conv_image_fst)
    have "\<exists>m'. rehash_loop old ?m = Some m' \<and> hm_inv m' \<and> hcap m' = hcap ?m
        \<and> length (entries m') = length ?old + length (entries ?m) \<and> hm_abs m' = hm_abs ?m ++ map_of ?old"
    proof (rule Cons.IH [OF put(1)])
      show "length ?old + length (entries ?m) < hcap ?m"
        using Cons.prems(2) by (simp add: put(3,4) Some kv opt_list_simps)
      show "distinct (map fst ?old)"
        using Cons.prems(3) by (simp add: Some opt_list_simps)
      show "fst ` set ?old \<inter> fst ` set (entries ?m) = {}"
        using Cons.prems(3,4) unfolding ents by (auto simp: Some kv opt_list_simps)
    qed
    moreover have "key \<notin> dom (map_of ?old)"
      using Cons.prems(3) by (simp add: Some kv opt_list_simps dom_map_of_conv_image_fst)
    then have e: "(hm_abs m)(key \<mapsto> v) ++ map_of ?old = hm_abs m ++ map_of (concat (map opt_list (x # old)))"
      by (simp add: Some kv opt_list_simps map_add_upd_left)
    ultimately show ?thesis
      unfolding step put(2,3,4) e by (simp add: Some kv opt_list_simps fun_upd_def)
  qed
qed (simp add: opt_list_simps)

lemma shl_cap:
  assumes "cap_ok c" "lt_s 0 (shl (of_nat c) 1)"
  shows "unat (shl (of_nat c) 1) = 2 * c" "cap_ok (2 * c)"
proof -
  obtain k where k: "k < 31" "c = 2 ^ k"
    using assms(1) by (auto simp: cap_ok_def)
  have w: "shl (of_nat c) 1 = (2 ^ Suc k :: cint)"
    by (simp add: k(2) push_bit_eq_mult)
  have "k \<noteq> 30"
  proof
    assume "k = 30"
    moreover have "\<not> lt_s 0 (2 ^ Suc 30)"
      by code_simp
    ultimately show False
      using assms(2) unfolding w by simp
  qed
  then have k': "Suc k < 31"
    using k(1) by simp
  then show "cap_ok (2 * c)"
    unfolding cap_ok_def k(2) by (intro exI [of _ "Suc k"]) simp
  show "unat (shl (of_nat c) 1) = 2 * c"
    using k' unat_of_nat [of "2 ^ Suc k", where 'a = 32]
      power_strict_increasing [of "Suc k" 32 "2::nat"] by (simp add: w k(2) mult.commute)
qed

lemma rehash_ok:
  assumes "hm_inv m"
  shows "\<exists>m'. hashmap_rehash alloc m = Some m' \<and> hm_inv m' \<and> hm_abs m' = hm_abs m
    \<and> (hcap m' = 2 * hcap m \<and> length (entries m') = length (entries m) \<or> m' = m)"
proof (cases "lt_s 0 (shl (of_nat (hcap m)) 1) \<and> alloc (shl (of_nat (hcap m)) 1)")
  case True
  have c: "cap_ok (hcap m)"
    using assms by (simp add: hm_inv_def)
  note cap = shl_cap [OF c conjunct1 [OF True]]
  let ?m = "fresh (2 * hcap m) :: 'a hashmap"
  have "hashmap_rehash alloc m = rehash_loop (htable m) ?m"
    using True by (simp only: hashmap_rehash_def Let_def cap(1) fresh_def simp_thms if_True)
  moreover have "\<exists>m'. rehash_loop (htable m) ?m = Some m' \<and> hm_inv m' \<and> hcap m' = hcap ?m
      \<and> length (entries m') = length (concat (map opt_list (htable m))) + length (entries ?m)
      \<and> hm_abs m' = hm_abs ?m ++ map_of (concat (map opt_list (htable m)))"
  proof (rule rehash_loop_ok [OF fresh_inv(1) [OF cap(2)]])
    show "length (concat (map opt_list (htable m))) + length (entries ?m) < hcap ?m"
      using entries_le [of m] assms cap_ok_pos [OF c]
      by (simp add: entries_opt_list [symmetric] entries_fresh fresh_inv(3) hm_inv_def)
    show "distinct (map fst (concat (map opt_list (htable m))))"
      using assms by (simp add: entries_opt_list [symmetric] hm_inv_def)
    show "fst ` set (concat (map opt_list (htable m))) \<inter> fst ` set (entries ?m) = {}"
      by (simp add: entries_fresh)
  qed
  ultimately show ?thesis
    by (auto simp: entries_opt_list [symmetric] entries_fresh fresh_inv(2,3) hm_abs_def)
next
  case False
  then have "hashmap_rehash alloc m = Some m"
    by (simp only: hashmap_rehash_def Let_def if_False)
  with assms show ?thesis by blast
qed

section \<open>The operations against partial maps\<close>

lemma put_grown:
  assumes "hm_inv m"
  obtains m1 where "(if hcap m div 2 \<le> hsize m then hashmap_rehash alloc m else Some m) = Some m1"
    "hm_inv m1" "hm_abs m1 = hm_abs m" "length (entries m1) < hcap m1 \<or> m1 = m"
proof (cases "hcap m div 2 \<le> hsize m")
  case True
  obtain m1 where m1: "hashmap_rehash alloc m = Some m1" "hm_inv m1" "hm_abs m1 = hm_abs m"
    "hcap m1 = 2 * hcap m \<and> length (entries m1) = length (entries m) \<or> m1 = m"
    using rehash_ok [OF assms, of alloc] by blast
  have "length (entries m) < 2 * hcap m"
    using entries_le [of m] assms cap_ok_pos [of "hcap m"] by (auto simp: hm_inv_def)
  then show thesis
    using that [of m1] m1 True by auto
next
  case False
  then show thesis
    using that [of m] assms by (simp add: hm_inv_def)
qed

lemma put_none:
  assumes "hm_inv m" "probe_ok m key (hm_start m key) 0 Full"
  shows "hsize m = hcap m" "hm_abs m key = None"
  using full_entries [OF assms(1)] probe_hit_iff [OF assms] assms by (simp_all add: hm_inv_def)

lemma hashmap_put_ok:
  assumes "hm_inv m"
  shows "case hashmap_put alloc m key v of
      Some m' \<Rightarrow> hm_inv m' \<and> hm_abs m' = (hm_abs m)(key \<mapsto> v)
    | None \<Rightarrow> hsize m = hcap m \<and> hm_abs m key = None"
proof -
  obtain m1 where m1: "(if hcap m div 2 \<le> hsize m then hashmap_rehash alloc m else Some m) = Some m1"
    "hm_inv m1" "hm_abs m1 = hm_abs m" "length (entries m1) < hcap m1 \<or> m1 = m"
    by (rule put_grown [OF assms])
  obtain r where r: "probe_key (hcap m1) m1 key (hm_start m1 key) (hm_start m1 key) = Some r"
    "probe_ok m1 key (hm_start m1 key) 0 r"
    using probe_key_start [OF m1(2)] by blast
  have eq: "hashmap_put alloc m key v =
      (case r of Free i \<Rightarrow> Some (put_at i key v m1)
       | Hit i \<Rightarrow> Some (m1\<lparr>htable := (htable m1)[i := map_option (\<lambda>(k, _). (k, v)) (htable m1 ! i)]\<rparr>)
       | Full \<Rightarrow> None)"
    unfolding hashmap_put_def m1(1) using r(1) by (simp add: hm_start_def Let_def split: probe.split)
  show ?thesis
  proof (cases r)
    case (Free i)
    with r(2) have p: "probe_ok m1 key (hm_start m1 key) 0 (Free i)" by simp
    show ?thesis
      using put_at_free(1,2) [OF m1(2) p, of v] m1(3) by (simp add: eq Free)
  next
    case (Hit i)
    with r(2) have p: "probe_ok m1 key (hm_start m1 key) 0 (Hit i)" by simp
    show ?thesis
      using put_hit(1,2) [OF m1(2) p, of v] m1(3) by (simp add: eq Hit)
  next
    case Full
    with r(2) have p: "probe_ok m1 key (hm_start m1 key) 0 Full" by simp
    then have "m1 = m"
      using full_entries [OF m1(2)] m1(4) by auto
    with put_none [OF m1(2) p] show ?thesis
      by (simp add: eq Full)
  qed
qed

section \<open>Creating a map\<close>

text \<open>The capacity is the least power of two that is at least the one asked for.\<close>

section \<open>Creating a map\<close>

text \<open>The capacity is the least power of two that is at least the one asked for.\<close>

lemma bit_sar:
  fixes w :: cint
  assumes "\<not> bit w 31"
  shows "bit (sar w n) i \<longleftrightarrow> bit w (i + n)"
proof (cases "i + n < 32")
  case True
  then show ?thesis
    by (cases "32 - n \<le> i") (auto simp: bit_signed_drop_bit_iff add.commute)
next
  case False
  then have "\<not> bit w (i + n)"
    by (simp add: impossible_bit)
  with False assms show ?thesis
    by (cases "i < 32") (simp_all add: bit_signed_drop_bit_iff impossible_bit)
qed

lemma ex_less_split: "(\<exists>d<n + m. P d) \<longleftrightarrow> (\<exists>d<n. P d) \<or> (\<exists>d<m. P (n + d))" for n m :: nat
proof (intro iffI)
  assume "\<exists>d<n + m. P d"
  then obtain d where d: "d < n + m" "P d" by blast
  show "(\<exists>d<n. P d) \<or> (\<exists>d<m. P (n + d))"
  proof (cases "d < n")
    case False
    with d show ?thesis by (intro disjI2 exI [of _ "d - n"]) simp
  qed (use d in blast)
next
  assume "(\<exists>d<n. P d) \<or> (\<exists>d<m. P (n + d))"
  then show "\<exists>d<n + m. P d"
    using trans_less_add1 add_less_cancel_left by blast
qed

lemma smear_bit:
  fixes v w :: cint
  assumes "\<forall>i. bit v i \<longleftrightarrow> (\<exists>d<n. bit w (i + d))" "\<not> bit w 31" "n + n = m"
  shows "\<forall>i. bit (v OR sar v n) i \<longleftrightarrow> (\<exists>d<m. bit w (i + d))"
proof -
  have "\<not> bit w (31 + d)" for d
    using assms(2) by (cases d) (simp_all add: impossible_bit)
  then have "\<not> bit v 31"
    using assms(1) by simp
  then show ?thesis
    unfolding assms(3) [symmetric] ex_less_split by (simp add: bit_or_iff bit_sar assms(1) add.assoc)
qed

lemma round_up_pow2_mask:
  fixes w :: cint
  assumes "n \<le> 31" "unat w < 2 ^ n" "n = 0 \<or> 2 ^ (n - 1) \<le> unat w"
  shows "round_up_pow2 (w + 1) = 2 ^ n"
proof -
  have hi: "i < n" if b: "bit w i" for i
  proof (rule ccontr)
    assume "\<not> i < n"
    then have "unat w < 2 ^ i"
      using assms(2) power_increasing [of n i "2::nat"] by linarith
    then have "\<not> bit (unat w) i"
      by (simp add: bit_iff_odd)
    with b show False
      by (simp add: bit_unsigned_iff)
  qed
  have top: "bit w (n - 1)" if p: "0 < n"
  proof -
    obtain l where l: "n = Suc l"
      using p gr0_implies_Suc by blast
    have b: "2 ^ l \<le> unat w" "unat w < 2 * 2 ^ l"
      using assms(2,3) unfolding l by simp_all
    have "unat w div 2 ^ l = 1"
      by (rule div_nat_eqI) (use b in simp_all)
    then have "bit (unat w) l"
      by (simp add: bit_iff_odd)
    then have "bit w l"
      by (simp add: bit_unsigned_iff)
    with l show ?thesis by simp
  qed
  have n31: "\<not> bit w 31"
    using hi [of 31] assms(1) by auto
  have 0: "\<forall>i. bit w i \<longleftrightarrow> (\<exists>d<1. bit w (i + d))"
    by simp
  have d: "1 + 1 = (2::nat)" "2 + 2 = (4::nat)" "4 + 4 = (8::nat)" "8 + 8 = (16::nat)" "16 + 16 = (32::nat)"
    by simp_all
  note 16 = smear_bit [OF smear_bit [OF smear_bit [OF smear_bit [OF smear_bit [OF 0 n31 d(1)]
    n31 d(2)] n31 d(3)] n31 d(4)] n31 d(5)]
  have "(\<exists>d<32. bit w (i + d)) \<longleftrightarrow> i < n" for i
  proof
    assume "i < n"
    then have "bit w (i + (n - 1 - i))" "n - 1 - i < 32"
      using top assms(1) by simp_all
    then show "\<exists>d<32. bit w (i + d)" by blast
  qed (auto dest: hi)
  then have "round_up_pow2 (w + 1) - 1 = mask n"
    unfolding round_up_pow2_def Let_def add_diff_cancel_right' using 16 assms(1)
    by (intro bit_eqI) (simp only: bit_mask_iff, auto)
  then show ?thesis
    by (simp add: mask_eq_decr_exp)
qed

lemma bit_length_ex: "\<exists>n. u < 2 ^ n \<and> (n = 0 \<or> 2 ^ (n - 1) \<le> u)" for u :: nat
proof -
  obtain n where n: "u < 2 ^ n" "\<forall>i<n. \<not> u < 2 ^ i"
    using ex_least_nat_le [of "\<lambda>n. u < 2 ^ n" u, OF less_exp] by blast
  have "2 ^ (n - 1) \<le> u" if z: "n \<noteq> 0"
  proof -
    have "n - 1 < n"
      using z by simp
    with n(2) have "\<not> u < 2 ^ (n - 1)" by blast
    then show ?thesis by (simp only: not_less)
  qed
  then have "n = 0 \<or> 2 ^ (n - 1) \<le> u" by metis
  with n(1) show ?thesis by (intro exI conjI)
qed

lemma hashmap_create_ok:
  assumes "0 < sint cap" "sint cap \<le> 2 ^ 30"
  shows "\<exists>n\<le>30. hashmap_create alloc cap = (if alloc (2 ^ n) then Some (fresh (2 ^ n)) else None)
    \<and> sint cap \<le> 2 ^ n \<and> (n = 0 \<or> 2 ^ (n - 1) < sint cap)"
proof -
  let ?u = "unat (cap - 1)"
  have u: "int ?u = sint cap - 1"
  proof -
    have "int (unat cap) = sint cap"
      using assms(1) by (simp add: sint_nonneg_uint)
    moreover from this have "1 \<le> unat cap"
      using assms(1) by linarith
    ultimately show ?thesis
      by (subst unat_sub) (simp_all add: word_le_nat_alt)
  qed
  obtain n where n: "?u < 2 ^ n" "n = 0 \<or> 2 ^ (n - 1) \<le> ?u"
    using bit_length_ex by blast
  have "int ?u < 2 ^ 30"
    using u assms(2) by linarith
  then have "?u < 2 ^ 30"
    by (metis of_nat_less_iff of_nat_numeral of_nat_power)
  then have "n = 0 \<or> (2::nat) ^ (n - 1) < 2 ^ 30"
    using n(2) le_less_trans by blast
  then have "n - 1 < 30"
    using power_less_imp_less_exp [of "2::nat" "n - 1" 30] by auto
  then have n30: "n \<le> 30" by simp
  have pow: "round_up_pow2 cap = 2 ^ n"
    using round_up_pow2_mask [OF _ n] n30 by simp
  have "unat (2 ^ n :: cint) = 2 ^ n"
    using n30 unat_of_nat [of "2 ^ n", where 'a = 32] power_strict_increasing [of n 32 "2::nat"] by simp
  moreover have "lt_s 0 (2 ^ n)"
    using n30 sint_power [of n] by (simp add: lt_s_sint)
  ultimately have "hashmap_create alloc cap = (if alloc (2 ^ n) then Some (fresh (2 ^ n)) else None)"
    by (simp add: hashmap_create_def pow fresh_def Let_def)
  moreover have "sint cap \<le> 2 ^ n"
    using n(1) u of_nat_less_iff [of ?u "2 ^ n", where 'a = int] by simp
  moreover have "n = 0 \<or> 2 ^ (n - 1) < sint cap"
    using n(2) u of_nat_le_iff [of "2 ^ (n - 1)" ?u, where 'a = int] by auto
  ultimately show ?thesis
    using n30 by blast
qed

section \<open>The map as its clients see it\<close>

text \<open>
  What the callers of the hash map rely on: a lookup reads the abstract map, an insertion
  that returns updates it.
\<close>

locale string_map =
  fixes inv :: "'m \<Rightarrow> bool"
    and abs :: "'m \<Rightarrow> string \<rightharpoonup> 'v"
    and get :: "'m \<Rightarrow> string \<Rightarrow> 'v option"
    and put :: "'m \<Rightarrow> string \<Rightarrow> 'v \<Rightarrow> 'm option"
  assumes get_abs: "inv m \<Longrightarrow> get m k = abs m k"
    and put_inv: "inv m \<Longrightarrow> put m k v = Some m' \<Longrightarrow> inv m'"
    and put_abs: "inv m \<Longrightarrow> put m k v = Some m' \<Longrightarrow> abs m' = (abs m)(k \<mapsto> v)"
begin

lemma get_put:
  assumes "inv m" "put m k v = Some m'"
  shows "get m' l = (if l = k then Some v else get m l)"
  using put_abs [OF assms] put_inv [OF assms] assms(1) by (simp add: get_abs)

lemma put_put:
  assumes "inv m" "put m k v = Some m1" "put m1 l w = Some m2"
  shows "get m2 k = (if l = k then Some w else Some v)"
  using get_put [OF put_inv [OF assms(1,2)] assms(3)] get_put [OF assms(1,2)] by simp

lemma put_dom:
  assumes "inv m" "put m k v = Some m'"
  shows "dom (abs m') = insert k (dom (abs m))"
  using put_abs [OF assms] by auto

end

interpretation hm: string_map hm_inv hm_abs hashmap_get "hashmap_put alloc" for alloc
proof
  show "hm_inv m \<Longrightarrow> hashmap_get m k = hm_abs m k" for m :: "'v hashmap" and k
    by (rule hashmap_get_abs)
  show "hm_inv m'" "hm_abs m' = (hm_abs m)(k \<mapsto> v)"
    if "hm_inv m" "hashmap_put alloc m k v = Some m'" for m m' :: "'v hashmap" and k v
    using hashmap_put_ok [OF that(1), where alloc = alloc and key = k and v = v] that(2) by simp_all
qed

lemma hashmap_contains_abs: "hm_inv m \<Longrightarrow> hashmap_contains m key \<longleftrightarrow> key \<in> dom (hm_abs m)"
proof -
  assume inv: "hm_inv m"
  have "hashmap_get m key = hm_abs m key"
    by (rule hashmap_get_abs [OF inv])
  moreover have "hashmap_get m key \<noteq> None" if node: "hashmap_get_node m key = Some i" for i
  proof -
    obtain r where r: "probe_key (hcap m) m key (hm_start m key) (hm_start m key) = Some r"
      "probe_ok m key (hm_start m key) 0 r"
      using probe_key_start [OF inv] by blast
    with node have "r = Hit i"
      by (simp add: hashmap_get_node_def hm_start_def Let_def split: probe.splits)
    with r(2) node show ?thesis by (auto simp: slot_def hashmap_get_def)
  qed
  ultimately have "hm_abs m key \<noteq> None \<longleftrightarrow> hashmap_get_node m key \<noteq> None"
    by (cases "hashmap_get_node m key") (metis hashmap_get_def option.simps(4), metis option.distinct(1))
  then show ?thesis
    by (simp add: hashmap_contains_def domIff)
qed

end
