(* ===== verification/Symbols.thy ===== *)
theory Symbols
  imports HashMap
begin

text \<open>
  The tables of \<^verbatim>\<open>src/globals.c\<close> that are kept in hash maps: the pool of interned
  strings, the constants and the functions.

  An interned string is identified by where it is stored; the strings stored are a list,
  so the address of one is its position. The functions are numbered in the order of their
  creation, and \<open>FUNC_LIST\<close> is the list of those that are not synthesized. An operation that
  calls \<open>abort()\<close> in \<open>hashmap_put\<close> is \<open>None\<close>.

  Not modelled: the early returns of \<^verbatim>\<open>intern_string\<close> for a \<^verbatim>\<open>NULL\<close> string and before the pool is
  set up, and what \<^verbatim>\<open>add_func\<close> does with the new object besides entering it in the tables: the
  start value of its \<^verbatim>\<open>stack_size\<close> and the interning of its name.
\<close>

section \<open>String interning\<close>

record string_pool =
  strings :: "nat hashmap"
  contents :: "string list"

definition intern_string :: "(cint \<Rightarrow> bool) \<Rightarrow> string_pool \<Rightarrow> string \<Rightarrow> (nat \<times> string_pool) option" where
  "intern_string alloc p str =
     (case hashmap_get (strings p) str of
        Some existing \<Rightarrow> Some (existing, p)
      | None \<Rightarrow>
          let interned = length (contents p)
          in case hashmap_put alloc (strings p) str interned of
               None \<Rightarrow> None
             | Some m \<Rightarrow> Some (interned, p\<lparr>strings := m, contents := contents p @ [str]\<rparr>))"

text \<open>The map holds exactly the stored strings, each under its own address.\<close>

definition pool_inv :: "string_pool \<Rightarrow> bool" where
  "pool_inv p \<longleftrightarrow> hm_inv (strings p)
     \<and> (\<forall>str a. hm_abs (strings p) str = Some a \<longleftrightarrow> a < length (contents p) \<and> contents p ! a = str)"

lemma intern_string_ok:
  assumes "pool_inv p" "intern_string alloc p str = Some (a, p')"
  shows "pool_inv p'" "a < length (contents p')" "contents p' ! a = str"
    "contents p' = contents p @ (if hashmap_get (strings p) str = None then [str] else [])"
proof -
  have inv: "hm_inv (strings p)"
    using assms(1) by (simp add: pool_inv_def)
  have "pool_inv p' \<and> a < length (contents p') \<and> contents p' ! a = str
    \<and> contents p' = contents p @ (if hashmap_get (strings p) str = None then [str] else [])"
  proof (cases "hashmap_get (strings p) str")
    case (Some b)
    with assms(2) have "b = a" "p' = p"
      by (simp_all add: intern_string_def)
    with assms(1) Some show ?thesis
      by (auto simp: hm.get_abs [OF inv] pool_inv_def)
  next
    case None
    with assms(2) obtain m where m: "hashmap_put alloc (strings p) str (length (contents p)) = Some m"
      "a = length (contents p)" "p' = p\<lparr>strings := m, contents := contents p @ [str]\<rparr>"
      by (auto simp: intern_string_def Let_def split: option.splits)
    have new: "hm_abs (strings p) str = None"
      using None by (simp add: hm.get_abs [OF inv])
    have old: "hm_abs (strings p) t = Some b \<longleftrightarrow> b < length (contents p) \<and> contents p ! b = t" for t b
      using assms(1) by (simp add: pool_inv_def)
    have "contents p ! b \<noteq> str" if "b < length (contents p)" for b
      using old [of str b] new that by auto
    then have "hm_abs m t = Some b \<longleftrightarrow> b < length (contents p @ [str]) \<and> (contents p @ [str]) ! b = t" for t b
      by (auto simp: hm.put_abs [OF inv m(1)] old nth_append less_Suc_eq)
    with hm.put_inv [OF inv m(1)] m(2,3) None show ?thesis
      by (simp add: pool_inv_def)
  qed
  then show "pool_inv p'" "a < length (contents p')" "contents p' ! a = str"
    "contents p' = contents p @ (if hashmap_get (strings p) str = None then [str] else [])" by blast+
qed

lemma intern_string_other:
  assumes "pool_inv p" "intern_string alloc p str = Some (a, p')" "t \<noteq> str"
  shows "hashmap_get (strings p') t = hashmap_get (strings p) t"
proof -
  note ok = intern_string_ok [OF assms(1,2)]
  have "hm_abs (strings p') t = Some b \<longleftrightarrow> hm_abs (strings p) t = Some b" for b
    using assms(1,3) ok(1,4) by (auto simp: pool_inv_def nth_append split: if_splits)
  then have "hm_abs (strings p') t = hm_abs (strings p) t"
    by (metis not_None_eq)
  then show ?thesis
    using assms(1) ok(1) by (simp add: pool_inv_def hm.get_abs)
qed

lemma pool_distinct: "pool_inv p \<Longrightarrow> distinct (contents p)"
  unfolding pool_inv_def distinct_conv_nth by (metis option.inject)

lemma intern_string_again:
  assumes "pool_inv p" "intern_string alloc p str = Some (a, p')" "contents q = contents p' @ xs" "pool_inv q"
  shows "intern_string alloc' q str = Some (a, q)"
proof -
  have "hm_abs (strings q) str = Some a"
    using intern_string_ok(2,3) [OF assms(1,2)] assms(3,4) by (simp add: pool_inv_def nth_append)
  moreover have "hm_inv (strings q)"
    using assms(4) by (simp add: pool_inv_def)
  ultimately show ?thesis
    by (simp add: intern_string_def hm.get_abs)
qed

section \<open>Constants\<close>

definition add_constant :: "(cint \<Rightarrow> bool) \<Rightarrow> cint hashmap \<Rightarrow> string \<Rightarrow> cint \<Rightarrow> cint hashmap option" where
  "add_constant alloc m alias value = hashmap_put alloc m alias value"

definition find_constant :: "cint hashmap \<Rightarrow> string \<Rightarrow> cint option" where
  "find_constant m alias = hashmap_get m alias"

section \<open>Functions\<close>

record func_table =
  func_map :: "nat hashmap"
  func_names :: "string list"
  func_list :: "nat list"

definition add_func :: "(cint \<Rightarrow> bool) \<Rightarrow> func_table \<Rightarrow> string \<Rightarrow> bool \<Rightarrow> (nat \<times> func_table) option" where
  "add_func alloc t func_name synthesize =
     (case hashmap_get (func_map t) func_name of
        Some func \<Rightarrow> Some (func, t)
      | None \<Rightarrow>
          let func = length (func_names t)
          in case hashmap_put alloc (func_map t) func_name func of
               None \<Rightarrow> None
             | Some m \<Rightarrow>
                 let t = t\<lparr>func_map := m, func_names := func_names t @ [func_name]\<rparr>
                 in if synthesize then Some (func, t)
                    else Some (func, t\<lparr>func_list := func_list t @ [func]\<rparr>))"

definition find_func :: "func_table \<Rightarrow> string \<Rightarrow> nat option" where
  "find_func t func_name = hashmap_get (func_map t) func_name"

definition funcs_inv :: "func_table \<Rightarrow> bool" where
  "funcs_inv t \<longleftrightarrow> pool_inv \<lparr>strings = func_map t, contents = func_names t\<rparr>
     \<and> sorted_wrt (<) (func_list t) \<and> (\<forall>f\<in>set (func_list t). f < length (func_names t))"

text \<open>Adding a function is interning its name, and appending it to the list.\<close>

lemma add_func_intern:
  "add_func alloc t name syn =
     (case intern_string alloc \<lparr>strings = func_map t, contents = func_names t\<rparr> name of
        None \<Rightarrow> None
      | Some (f, p) \<Rightarrow> Some (f, t\<lparr>func_map := strings p, func_names := contents p,
          func_list := func_list t @ (if syn \<or> f < length (func_names t) then [] else [f])\<rparr>))"
  if "funcs_inv t"
proof (cases "hashmap_get (func_map t) name")
  case None
  then show ?thesis
    by (simp add: add_func_def intern_string_def Let_def split: option.split)
next
  case (Some f)
  have "hm_inv (func_map t)"
    using that by (simp add: funcs_inv_def pool_inv_def)
  with Some have "hm_abs (func_map t) name = Some f"
    by (simp add: hm.get_abs)
  then have "f < length (func_names t)"
    using that by (simp add: funcs_inv_def pool_inv_def)
  with Some show ?thesis
    by (simp add: add_func_def intern_string_def)
qed

lemma funcs_distinct:
  assumes "funcs_inv t"
  shows "distinct (map (\<lambda>g. func_names t ! g) (func_list t))"
proof -
  have "distinct (func_names t)"
    using pool_distinct [of "\<lparr>strings = func_map t, contents = func_names t\<rparr>"] assms by (simp add: funcs_inv_def)
  then have "inj_on (\<lambda>g. func_names t ! g) (set (func_list t))"
    using assms by (auto simp: funcs_inv_def intro!: inj_on_nth)
  moreover have "distinct (func_list t)"
    using assms by (simp add: funcs_inv_def strict_sorted_iff)
  ultimately show ?thesis
    by (simp add: distinct_map)
qed

lemma add_func_ok:
  assumes "funcs_inv t" "add_func alloc t name syn = Some (f, t')"
  shows "funcs_inv t'" "find_func t' name = Some f" "func_names t' ! f = name"
    "other \<noteq> name \<Longrightarrow> find_func t' other = find_func t other"
    "func_list t' = func_list t @ (if syn \<or> find_func t name \<noteq> None then [] else [f])"
proof -
  obtain p where p: "intern_string alloc \<lparr>strings = func_map t, contents = func_names t\<rparr> name = Some (f, p)"
    "t' = t\<lparr>func_map := strings p, func_names := contents p,
       func_list := func_list t @ (if syn \<or> f < length (func_names t) then [] else [f])\<rparr>"
    using assms(2) unfolding add_func_intern [OF assms(1)] by (auto split: option.splits prod.splits)
  have pi: "pool_inv \<lparr>strings = func_map t, contents = func_names t\<rparr>"
    using assms(1) by (simp add: funcs_inv_def)
  note ok = intern_string_ok [OF pi p(1)]
  obtain xs where xs: "contents p = func_names t @ xs"
    using ok(4) by simp
  have p': "\<lparr>strings = strings p, contents = contents p\<rparr> = p"
    by simp
  have "sorted_wrt (<) (func_list t')" "\<forall>g\<in>set (func_list t'). g < length (func_names t')"
    using assms(1) ok(2) xs by (auto simp: p(2) funcs_inv_def sorted_wrt_append)
  then show "funcs_inv t'"
    using ok(1) by (simp add: funcs_inv_def p(2) p')
  show "func_names t' ! f = name"
    using ok(3) by (simp add: p(2))
  show "find_func t' name = Some f"
    using ok(1-3) by (simp add: p(2) find_func_def pool_inv_def hm.get_abs)
  show "other \<noteq> name \<Longrightarrow> find_func t' other = find_func t other"
    using intern_string_other [OF pi p(1)] by (simp add: p(2) find_func_def)
  have "f < length (func_names t) \<longleftrightarrow> find_func t name \<noteq> None"
  proof (cases "find_func t name")
    case None
    then have "intern_string alloc \<lparr>strings = func_map t, contents = func_names t\<rparr> name = Some (f, p)
      \<Longrightarrow> f = length (func_names t)"
      by (auto simp: find_func_def intern_string_def Let_def split: option.splits)
    with p(1) None show ?thesis by simp
  next
    case (Some g)
    with p(1) have "g = f"
      by (simp add: find_func_def intern_string_def)
    with Some pi show ?thesis
      by (auto simp: find_func_def pool_inv_def hm.get_abs)
  qed
  then show "func_list t' = func_list t @ (if syn \<or> find_func t name \<noteq> None then [] else [f])"
    by (simp add: p(2))
qed

end
