(* ===== verification/SymbolProps.thy ===== *)
theory SymbolProps
  imports Symbols
begin

text \<open>
  The properties of the hash map and of the tables kept in it. The witnesses use a map of
  four slots.
\<close>

definition map4 :: "cint hashmap" where
  "map4 = fresh 4"

definition pool4 :: string_pool where
  "pool4 = \<lparr>strings = fresh 4, contents = []\<rparr>"

definition funcs4 :: func_table where
  "funcs4 = \<lparr>func_map = fresh 4, func_names = [], func_list = []\<rparr>"

lemma cap_ok_4: "cap_ok 4"
  unfolding cap_ok_def by (rule exI [of _ 2]) simp

lemma map4_inv: "hm_inv map4"
  unfolding map4_def by (rule fresh_inv(1) [OF cap_ok_4])

lemma pool4_inv: "pool_inv pool4"
  by (simp add: pool_inv_def pool4_def fresh_inv cap_ok_4)

lemma funcs4_inv: "funcs_inv funcs4"
  using pool4_inv by (simp add: funcs_inv_def funcs4_def pool4_def)

section \<open>The hash map\<close>

text \<open>
  C10. A hash map in which every entry is reached from its hash over occupied slots is a
  partial map: \<^verbatim>\<open>hashmap_put\<close> keeps that invariant through a growth of the table and binds
  exactly its key for \<^verbatim>\<open>hashmap_get\<close> and \<^verbatim>\<open>hashmap_contains\<close>; it aborts only where the table
  has no free slot and the key is absent.\<close>
theorem hashmap_put_refines:
  assumes "hm_inv m"
  shows "case hashmap_put alloc m key v of
      Some m' \<Rightarrow> hm_inv m' \<and> (\<forall>k. hashmap_get m' k = (if k = key then Some v else hashmap_get m k))
        \<and> (\<forall>k. hashmap_contains m' k = (k = key \<or> hashmap_contains m k))
    | None \<Rightarrow> hsize m = hcap m \<and> \<not> hashmap_contains m key"
proof (cases "hashmap_put alloc m key v")
  case None
  then show ?thesis
    using hashmap_put_ok [OF assms, where alloc = alloc and key = key and v = v]
      hashmap_contains_abs [OF assms] by auto
next
  case (Some m')
  note inv = hm.put_inv [OF assms Some]
  show ?thesis
    using inv hm.get_put [OF assms Some] hashmap_contains_abs [OF assms] hashmap_contains_abs [OF inv]
      hm.put_dom [OF assms Some] by (simp add: Some)
qed

theorem hashmap_put_refines_witness:
  "case hashmap_put (\<lambda>_. True) map4 ''main'' 7 of
      Some m' \<Rightarrow> hm_inv m' \<and> (\<forall>k. hashmap_get m' k = (if k = ''main'' then Some 7 else hashmap_get map4 k))
        \<and> (\<forall>k. hashmap_contains m' k = (k = ''main'' \<or> hashmap_contains map4 k))
    | None \<Rightarrow> hsize map4 = hcap map4 \<and> \<not> hashmap_contains map4 ''main''"
  by (rule hashmap_put_refines [OF map4_inv])

text \<open>
  C37. Growing the table neither aborts nor loses an entry: \<^verbatim>\<open>hashmap_rehash\<close> keeps the
  invariant, the number of entries and what every lookup returns, whether or not there is
  memory for the larger table.\<close>
theorem hashmap_rehash_keeps:
  assumes "hm_inv m"
  shows "\<exists>m'. hashmap_rehash alloc m = Some m' \<and> hm_inv m' \<and> hsize m' = hsize m
    \<and> (\<forall>k. hashmap_get m' k = hashmap_get m k) \<and> (hcap m' = 2 * hcap m \<or> m' = m)"
proof -
  obtain m' where m': "hashmap_rehash alloc m = Some m'" "hm_inv m'" "hm_abs m' = hm_abs m"
    "hcap m' = 2 * hcap m \<and> length (entries m') = length (entries m) \<or> m' = m"
    using rehash_ok [OF assms, of alloc] by blast
  then show ?thesis
    using assms by (auto simp: hm.get_abs hm_inv_def)
qed

theorem hashmap_rehash_keeps_witness:
  "\<exists>m'. hashmap_rehash (\<lambda>_. True) map4 = Some m' \<and> hm_inv m' \<and> hsize m' = hsize map4
    \<and> (\<forall>k. hashmap_get m' k = hashmap_get map4 k) \<and> (hcap m' = 2 * hcap map4 \<or> m' = map4)"
  by (rule hashmap_rehash_keeps [OF map4_inv])

text \<open>
  For a positive capacity of at most \<open>2 ^ 30\<close>, \<^verbatim>\<open>hashmap_create\<close> gives an empty map that
  satisfies the invariant, whose capacity is the least power of two that is large enough.\<close>
theorem hashmap_create_empty:
  fixes m :: "'v hashmap"
  assumes "0 < sint cap" "sint cap \<le> 2 ^ 30" "hashmap_create alloc cap = Some m"
  shows "hm_inv m \<and> (\<forall>k. hashmap_get m k = None)
    \<and> (\<exists>n. hcap m = 2 ^ n \<and> n = (LEAST i. sint cap \<le> 2 ^ i) \<and> sint cap \<le> int (hcap m))"
proof -
  obtain n where n: "n \<le> 30" "sint cap \<le> 2 ^ n" "n = 0 \<or> 2 ^ (n - 1) < sint cap"
    "hashmap_create alloc cap = (if alloc (2 ^ n) then Some (fresh (2 ^ n) :: 'v hashmap) else None)"
    using hashmap_create_ok [OF assms(1,2), of alloc] by blast
  have m: "m = fresh (2 ^ n)"
    using n(4) assms(3) by (cases "alloc (2 ^ n)") simp_all
  have inv: "hm_inv m"
    using n(1) unfolding m by (intro fresh_inv(1)) (auto simp: cap_ok_def)
  have "n \<le> i" if i: "sint cap \<le> 2 ^ i" for i
  proof (rule ccontr)
    assume "\<not> n \<le> i"
    then have "(2::int) ^ i \<le> 2 ^ (n - 1)" "n \<noteq> 0"
      by (auto intro: power_increasing)
    with n(3) i show False by linarith
  qed
  with n(2) have "n = (LEAST i. sint cap \<le> 2 ^ i)"
    by (intro Least_equality [symmetric]) auto
  then show ?thesis
    using inv n(2) hm.get_abs [OF inv] by (simp add: m fresh_inv(2,3))
qed

theorem hashmap_create_empty_witness:
  "hm_inv (fresh 8 :: cint hashmap) \<and> (\<forall>k. hashmap_get (fresh 8 :: cint hashmap) k = None)
    \<and> (\<exists>n. hcap (fresh 8 :: cint hashmap) = 2 ^ n \<and> n = (LEAST i. sint (5::cint) \<le> 2 ^ i)
      \<and> sint (5::cint) \<le> int (hcap (fresh 8 :: cint hashmap)))"
proof (rule hashmap_create_empty)
  show "0 < sint (5::cint)" "sint (5::cint) \<le> 2 ^ 30" by simp_all
  have "round_up_pow2 5 = 8" "lt_s 0 8" by code_simp+
  then show "hashmap_create (\<lambda>_. True) 5 = Some (fresh 8)"
    by (simp add: hashmap_create_def fresh_def)
qed

section \<open>The tables\<close>

text \<open>
  C35. Interned strings can be compared by address: two strings interned one after the
  other get the same address exactly when they are equal, and interning one of them again
  gives its address and changes nothing.
\<close>

theorem intern_string_unique:
  assumes "pool_inv p" "intern_string alloc p s = Some (a, p1)" "intern_string alloc p1 t = Some (b, p2)"
  shows "pool_inv p2 \<and> (a = b \<longleftrightarrow> s = t) \<and> intern_string alloc p2 s = Some (a, p2)
    \<and> intern_string alloc p2 t = Some (b, p2)"
proof -
  note s = intern_string_ok [OF assms(1,2)]
  note t = intern_string_ok [OF s(1) assms(3)]
  obtain xs where xs: "contents p2 = contents p1 @ xs"
    using t(4) by simp
  have "contents p2 ! a = s"
    using s(2,3) xs by (simp add: nth_append)
  then have "a = b \<Longrightarrow> s = t"
    using t(3) by simp
  moreover have "s = t \<Longrightarrow> a = b"
    using intern_string_again [OF assms(1,2), of p1 "[]" alloc] s(1) assms(3) by simp
  ultimately show ?thesis
    using t(1) intern_string_again [OF assms(1,2) xs t(1)]
      intern_string_again [OF s(1) assms(3), of p2 "[]"] by auto
qed

definition pool_a :: string_pool where
  "pool_a = \<lparr>strings = \<lparr>hsize = 1, hcap = 4, htable = [Some (''a'', 0), None, None, None]\<rparr>,
     contents = [''a'']\<rparr>"

definition pool_ab :: string_pool where
  "pool_ab = \<lparr>strings = \<lparr>hsize = 2, hcap = 4, htable = [Some (''a'', 0), None, None, Some (''b'', 1)]\<rparr>,
     contents = [''a'', ''b'']\<rparr>"

theorem intern_string_unique_witness:
  "pool_inv pool_ab \<and> ((0::nat) = 1 \<longleftrightarrow> ''a'' = ''b'')
    \<and> intern_string (\<lambda>_. True) pool_ab ''a'' = Some (0, pool_ab)
    \<and> intern_string (\<lambda>_. True) pool_ab ''b'' = Some (1, pool_ab)"
proof (rule intern_string_unique [OF pool4_inv])
  show "intern_string (\<lambda>_. True) pool4 ''a'' = Some (0, pool_a)"
    by code_simp
  show "intern_string (\<lambda>_. True) pool_a ''b'' = Some (1, pool_ab)"
    by code_simp
qed

text \<open>
  C36. Adding a function finds it afterwards under its name and no other name changes its
  meaning, \<^verbatim>\<open>FUNC_LIST\<close> stays free of duplicates, and a function that is not synthesized and
  was not known before is appended to it.\<close>
theorem add_func_find:
  assumes "funcs_inv t" "add_func alloc t name syn = Some (f, t')"
  shows "funcs_inv t' \<and> (\<forall>other. find_func t' other = (if other = name then Some f else find_func t other))
    \<and> distinct (map (\<lambda>g. func_names t' ! g) (func_list t'))
    \<and> func_list t' = func_list t @ (if syn \<or> find_func t name \<noteq> None then [] else [f])"
proof -
  note ok = add_func_ok [OF assms]
  show ?thesis
    using ok(1,2,4) funcs_distinct [OF ok(1)] ok(5) by simp
qed

definition funcs_main :: func_table where
  "funcs_main = \<lparr>func_map = \<lparr>hsize = 1, hcap = 4, htable = [Some (''main'', 0), None, None, None]\<rparr>,
     func_names = [''main''], func_list = [0]\<rparr>"

theorem add_func_find_witness:
  "funcs_inv funcs_main
    \<and> (\<forall>other. find_func funcs_main other = (if other = ''main'' then Some 0 else find_func funcs4 other))
    \<and> distinct (map (\<lambda>g. func_names funcs_main ! g) (func_list funcs_main))
    \<and> func_list funcs_main
      = func_list funcs4 @ (if False \<or> find_func funcs4 ''main'' \<noteq> None then [] else [0])"
proof (rule add_func_find [OF funcs4_inv])
  show "add_func (\<lambda>_. True) funcs4 ''main'' False = Some (0, funcs_main)"
    by code_simp
qed

end
