(* ===== verification/CFormat.thy ===== *)
theory CFormat
  imports Machine
begin

text \<open>
  Formatted output of the C library that is compiled into programs, \<^verbatim>\<open>src/lib/c.c\<close>:
  the conversion of numbers to base 8, 10 and 16 and the \<open>printf\<close> family.

  A \<open>char\<close> is a byte. The digit buffer \<open>pb\<close> is a list of its 16 bytes. A \<open>fmtbuf_t\<close> has, for
  the pointer \<open>buf\<close>, the bytes written from the start of the caller's buffer up to it, so
  a write at \<open>buf[0]\<close> that advances \<open>buf\<close> appends. A format is the bytes before its NUL;
  \<open>strs\<close> gives the bytes before the NUL of the string at an address, \<open>args\<close> the words of the
  variable arguments. \<open>None\<close> is \<open>abort()\<close> or an access outside an array.
\<close>

type_synonym cbyte = "8 word"

definition ch :: "char \<Rightarrow> cbyte" where
  "ch c = of_char c"

definition str :: "string \<Rightarrow> cbyte list" where
  "str s = map ch s"

section \<open>Digits\<close>

text \<open>The bytes \<open>strncpy\<close> writes for a source that ends after the bytes given.\<close>

fun strncpy_bytes :: "cbyte list \<Rightarrow> nat \<Rightarrow> cbyte list" where
  "strncpy_bytes src 0 = []"
| "strncpy_bytes [] (Suc n) = replicate (Suc n) 0"
| "strncpy_bytes (c # src) (Suc n) = (if c = 0 then replicate (Suc n) 0 else c # strncpy_bytes src n)"

definition write_at :: "cbyte list \<Rightarrow> nat \<Rightarrow> cbyte list \<Rightarrow> cbyte list" where
  "write_at pb i bs = take i pb @ bs @ drop (i + length bs) pb"

text \<open>One round of the division by ten, without a division: quotient and remainder.\<close>

definition div10 :: "cint \<Rightarrow> cint \<times> cint" where
  "div10 val =
     (let q = sar val 1 + sar val 2;
          q = q + sar q 4;
          q = q + sar q 8;
          q = q + sar q 16;
          q = sar q 3;
          r = val - shl (shl q 2 + q) 1;
          t = sar (r + 6) 4;
          q = q + t;
          r = r - shl (shl t 2 + t) 1
      in (q, r))"

text \<open>The loop, with \<open>i + 1\<close> for the index \<open>i\<close>.\<close>

fun base10_loop :: "nat \<Rightarrow> cint \<Rightarrow> cbyte list \<Rightarrow> (nat \<times> cbyte list) option" where
  "base10_loop 0 val pb = (if val = 0 then Some (0, pb) else None)"
| "base10_loop (Suc i) val pb =
     (if val = 0 then Some (Suc i, pb)
      else let (q, r) = div10 val in base10_loop i q (pb[i := pb ! i + ucast r]))"

definition str_base10 :: "cbyte list \<Rightarrow> cint \<Rightarrow> cbyte list option" where
  "str_base10 pb val =
     (if val = 0x80000000 then Some (write_at pb (16 - 11) (strncpy_bytes (str ''-2147483648'') 11))
      else let neg = lt_s val 0
           in case base10_loop 16 (if neg then - val else val) pb of
                None \<Rightarrow> None
              | Some (i1, pb1) \<Rightarrow>
                  if neg then (if i1 = 0 then None else Some (pb1[i1 - 1 := ch CHR ''-'']))
                  else Some pb1)"

fun base8_loop :: "nat \<Rightarrow> nat \<Rightarrow> cint \<Rightarrow> cbyte list \<Rightarrow> nat \<times> cint \<times> cbyte list" where
  "base8_loop 0 c val pb = (c, val, pb)"
| "base8_loop (Suc n) c val pb =
     base8_loop n (c - 1) (sar val 3) (pb[c := ch CHR ''0'' + ucast (val AND 0x7)])"

definition str_base8 :: "cbyte list \<Rightarrow> cint \<Rightarrow> cbyte list" where
  "str_base8 pb val =
     (let (c, v, pb1) = base8_loop 10 15 val pb in pb1[c := ch CHR ''0'' + ucast (v AND 0x3)])"

definition hex_digit :: "cint \<Rightarrow> cbyte option" where
  "hex_digit v =
     (if lt_s v 10 then Some (ch CHR ''0'' + ucast v)
      else if lt_s v 16 then Some (ch CHR ''a'' + ucast v - 10)
      else None)"

fun base16_loop :: "nat \<Rightarrow> nat \<Rightarrow> cint \<Rightarrow> cbyte list \<Rightarrow> cbyte list option" where
  "base16_loop 0 c val pb = Some pb"
| "base16_loop (Suc n) c val pb =
     (case hex_digit (val AND 0xf) of
        None \<Rightarrow> None
      | Some d \<Rightarrow> base16_loop n (c - 1) (sar val 4) (pb[c := d]))"

definition str_base16 :: "cbyte list \<Rightarrow> cint \<Rightarrow> cbyte list option" where
  "str_base16 pb val = base16_loop 8 15 val pb"

section \<open>The output buffer\<close>

record fmtbuf =
  out :: "cbyte list"
  room :: cint
  flen :: cint

definition fmtbuf_write_char :: "fmtbuf \<Rightarrow> cint \<Rightarrow> fmtbuf" where
  "fmtbuf_write_char fb val =
     (let fb = fb\<lparr>flen := flen fb + 1\<rparr>
      in if le_s (room fb) 1 then fb
         else fb\<lparr>out := out fb @ [ucast (val AND 0xFF)], room := room fb - 1\<rparr>)"

definition fmtbuf_write_str :: "fmtbuf \<Rightarrow> cbyte list \<Rightarrow> cint \<Rightarrow> fmtbuf" where
  "fmtbuf_write_str fb s l =
     (let fb = fb\<lparr>flen := flen fb + l\<rparr>
      in if le_s (room fb) 1 then fb
         else let size = room fb - 1; l = (if le_s l size then l else size)
              in fb\<lparr>out := out fb @ strncpy_bytes s (unat l), room := room fb - l\<rparr>)"

section \<open>Numbers\<close>

function skip_zeros :: "cbyte list \<Rightarrow> nat \<Rightarrow> nat" where
  "skip_zeros pb i = (if pb ! i = ch CHR ''0'' \<and> i < 15 then skip_zeros pb (Suc i) else i)"
  by auto
termination
  by (relation "measure (\<lambda>(pb, i). 15 - i)") auto

fun pad_loop :: "nat \<Rightarrow> cint \<Rightarrow> fmtbuf \<Rightarrow> fmtbuf" where
  "pad_loop 0 c fb = fb"
| "pad_loop (Suc width) c fb = pad_loop width c (fmtbuf_write_char fb c)"

definition char_c :: "char \<Rightarrow> cint" where
  "char_c c = ucast (ch c)"

text \<open>\<open>pb[--pbi] = c\<close>\<close>

definition push_front :: "char \<Rightarrow> cbyte list \<times> nat \<Rightarrow> (cbyte list \<times> nat) option" where
  "push_front c r = (case r of (pb, 0) \<Rightarrow> None | (pb, Suc i) \<Rightarrow> Some (pb[i := ch c], i))"

text \<open>The prefix: a sign or the mark of the base.\<close>

definition format_prefix ::
  "fmtbuf \<Rightarrow> cint \<Rightarrow> bool \<Rightarrow> nat \<Rightarrow> bool \<Rightarrow> cbyte list \<Rightarrow> nat \<Rightarrow> (fmtbuf \<times> cint \<times> cbyte list \<times> nat) option"
where
  "format_prefix fb width zeropad base alternate_form pb pbi =
     (if base = 8 \<and> alternate_form then
        (if width \<noteq> 0 \<and> zeropad \<and> pb ! pbi \<noteq> ch CHR ''0''
         then Some (fmtbuf_write_char fb (char_c CHR ''0''), width - 1, pb, pbi)
         else if pb ! pbi \<noteq> ch CHR ''0''
         then do { (pb, pbi) \<leftarrow> push_front CHR ''0'' (pb, pbi); Some (fb, width, pb, pbi) }
         else Some (fb, width, pb, pbi))
      else if base = 10 then
        (if width \<noteq> 0 \<and> zeropad \<and> pb ! pbi = ch CHR ''-''
         then Some (fmtbuf_write_char fb (char_c CHR ''-''), width - 1, pb, pbi + 1)
         else Some (fb, width, pb, pbi))
      else if base = 16 \<and> alternate_form then
        (if width \<noteq> 0 \<and> zeropad \<and> pb ! pbi \<noteq> ch CHR ''0''
         then Some (fmtbuf_write_char (fmtbuf_write_char fb (char_c CHR ''0'')) (char_c CHR ''x''), width - 2, pb, pbi)
         else if pb ! pbi \<noteq> ch CHR ''0''
         then do { r \<leftarrow> push_front CHR ''x'' (pb, pbi); (pb, pbi) \<leftarrow> push_front CHR ''0'' r;
                   Some (fb, width, pb, pbi) }
         else Some (fb, width, pb, pbi))
      else Some (fb, width, pb, pbi))"

definition format_val :: "fmtbuf \<Rightarrow> cint \<Rightarrow> cint \<Rightarrow> bool \<Rightarrow> nat \<Rightarrow> bool \<Rightarrow> fmtbuf option" where
  "format_val fb val width zeropad base alternate_form =
     do {
       let pb0 = replicate 16 (ch CHR ''0'');
       pb \<leftarrow> (if base = 8 then Some (str_base8 pb0 val)
              else if base = 10 then str_base10 pb0 val
              else if base = 16 then str_base16 pb0 val
              else None);
       (fb, width, pb, pbi) \<leftarrow> format_prefix fb width zeropad base alternate_form pb (skip_zeros pb 0);
       let width = width - of_nat (16 - pbi);
       let width = (if lt_s width 0 then 0 else width);
       let fb = pad_loop (unat width) (char_c (if zeropad then CHR ''0'' else CHR '' '')) fb;
       Some (fmtbuf_write_str fb (drop pbi pb) (of_nat (16 - pbi)))
     }"

section \<open>Formats\<close>

definition is_digit_b :: "cbyte \<Rightarrow> bool" where
  "is_digit_b c \<longleftrightarrow> ch CHR ''0'' \<le> c \<and> c \<le> ch CHR ''9''"

fun parse_digits :: "cint \<Rightarrow> cbyte list \<Rightarrow> cint \<times> cbyte list" where
  "parse_digits w (c # fmt) =
     (if is_digit_b c then parse_digits (w * 10 + (ucast c - char_c CHR ''0'')) fmt else (w, c # fmt))"
| "parse_digits w [] = (w, [])"

definition skip_flag :: "char \<Rightarrow> cbyte list \<Rightarrow> bool \<times> cbyte list" where
  "skip_flag f fmt = (case fmt of [] \<Rightarrow> (False, []) | c # rest \<Rightarrow> if c = ch f then (True, rest) else (False, fmt))"

definition parse_width :: "cbyte list \<Rightarrow> cint \<times> cbyte list" where
  "parse_width fmt =
     (case fmt of
        [] \<Rightarrow> (0, [])
      | c # rest \<Rightarrow>
          if is_digit_b c \<and> c \<noteq> ch CHR ''0'' then parse_digits (ucast c - char_c CHR ''0'') rest else (0, fmt))"

text \<open>The flags and the width after a \<open>%\<close>: \<open>pp\<close>, \<open>zp\<close>, \<open>w\<close> and the rest.\<close>

definition parse_flags :: "cbyte list \<Rightarrow> bool \<times> bool \<times> cint \<times> cbyte list" where
  "parse_flags fmt =
     (let (pp, fmt) = skip_flag CHR ''#'' fmt; (zp, fmt) = skip_flag CHR ''0'' fmt; (w, fmt) = parse_width fmt
      in (pp, zp, w, fmt))"

definition convert ::
  "(cint \<Rightarrow> cbyte list) \<Rightarrow> cint \<Rightarrow> bool \<Rightarrow> bool \<Rightarrow> cint \<Rightarrow> cbyte \<Rightarrow> fmtbuf \<Rightarrow> fmtbuf option"
where
  "convert strs v pp zp w c fb =
     (if c = ch CHR ''s'' then Some (fmtbuf_write_str fb (strs v) (of_nat (length (strs v))))
      else if c = ch CHR ''c'' then Some (fmtbuf_write_char fb (ucast (ucast v :: cbyte)))
      else if c = ch CHR ''o'' then format_val fb v w zp 8 pp
      else if c = ch CHR ''d'' then format_val fb v w zp 10 False
      else if c = ch CHR ''x'' then format_val fb v w zp 16 pp
      else Some fb)"

lemma parse_digits_length: "length (snd (parse_digits w fmt)) \<le> length fmt"
  by (induction w fmt rule: parse_digits.induct) auto

lemma parse_flags_length: "parse_flags fmt = (pp, zp, w, rest) \<Longrightarrow> length rest \<le> length fmt"
  using parse_digits_length
  by (auto simp: parse_flags_def skip_flag_def parse_width_def le_Suc_eq
      split: list.splits if_splits prod.splits) (metis snd_conv le_SucI le_trans)+

text \<open>
  The loop over the format, from the position of the rest given. A conversion that is cut
  off by the end of the format makes \<open>si\<close> step over the NUL.
\<close>

function format_to_buf ::
  "(cint \<Rightarrow> cbyte list) \<Rightarrow> (nat \<Rightarrow> cint) \<Rightarrow> nat \<Rightarrow> cbyte list \<Rightarrow> fmtbuf \<Rightarrow> fmtbuf option"
where
  "format_to_buf strs args pi [] fb = Some (if room fb \<noteq> 0 then fb\<lparr>out := out fb @ [0]\<rparr> else fb)"
| "format_to_buf strs args pi (c # fmt) fb =
     (if c \<noteq> ch CHR ''%'' then format_to_buf strs args pi fmt (fmtbuf_write_char fb (ucast c))
      else (case parse_flags fmt of
              (pp, zp, w, []) \<Rightarrow> None
            | (pp, zp, w, d # rest) \<Rightarrow>
                if d = ch CHR ''%'' then format_to_buf strs args pi rest (fmtbuf_write_char fb (char_c CHR ''%''))
                else (case convert strs (args pi) pp zp w d fb of
                        None \<Rightarrow> None
                      | Some fb \<Rightarrow> format_to_buf strs args (Suc pi) rest fb)))"
  by pat_completeness auto
termination
  by (relation "measure (\<lambda>(strs, args, pi, fmt, fb). length fmt)") (auto dest: parse_flags_length [OF sym])

text \<open>The final contents of the buffer and the value returned.\<close>

definition snprintf :: "(cint \<Rightarrow> cbyte list) \<Rightarrow> cint \<Rightarrow> cbyte list \<Rightarrow> (nat \<Rightarrow> cint) \<Rightarrow> (cbyte list \<times> cint) option" where
  "snprintf strs n fmt args =
     map_option (\<lambda>fb. (out fb, flen fb)) (format_to_buf strs args 0 fmt \<lparr>out = [], room = n, flen = 0\<rparr>)"

definition sprintf :: "(cint \<Rightarrow> cbyte list) \<Rightarrow> cbyte list \<Rightarrow> (nat \<Rightarrow> cint) \<Rightarrow> (cbyte list \<times> cint) option" where
  "sprintf strs fmt args = snprintf strs 0x7fffffff fmt args"

end
