(* ===== verification/CFormatSpec.thy ===== *)
theory CFormatSpec
  imports CFormat
begin

text \<open>
  What the formatted output computes: the digits of a number in a base, a conversion with
  its sign, mark and padding, and the text of a whole format. The code is shown to write
  this text, cut off at the space of the buffer, and to return its length.
\<close>

section \<open>Division by ten\<close>

lemma uint_sar: "uint v < 2 ^ 31 \<Longrightarrow> uint (sar v k) = uint v div 2 ^ k"
proof -
  assume "uint v < 2 ^ 31"
  then have s: "sint v = uint v"
    by (simp add: sint_uint_if)
  have "sint (sar v k) = uint v div 2 ^ k"
    by (simp add: sint_signed_drop_bit_eq drop_bit_eq_div s)
  moreover have "0 \<le> uint v div 2 ^ k"
    by (simp add: pos_imp_zdiv_nonneg_iff)
  ultimately show ?thesis
    by (metis sint_nonneg_uint)
qed

lemma uint_plus: "uint a + uint b < 2 ^ 32 \<Longrightarrow> uint (a + b) = uint a + uint b" for a b :: cint
  by (simp add: uint_word_arith_bintrs take_bit_int_eq_self)

lemma uint_minus: "uint b \<le> uint a \<Longrightarrow> uint (a - b) = uint a - uint b" for a b :: cint
proof -
  assume "uint b \<le> uint a"
  moreover from this have "uint a - uint b < 2 ^ 32"
    using order.strict_trans1 [OF _ uint_lt2p [of a], of "uint a - uint b"] uint_ge_0 [of b] by simp
  ultimately show ?thesis
    by (simp add: uint_word_arith_bintrs take_bit_int_eq_self_iff)
qed

lemma uint_times10:
  assumes "10 * uint q < 2 ^ 32"
  shows "uint (shl (shl q 2 + q) 1) = 10 * uint q"
proof -
  have "shl (shl q 2 + q) 1 = of_int (10 * uint q)"
    by (simp add: push_bit_eq_mult algebra_simps)
  then show ?thesis
    using assms by (simp add: unsigned_of_int take_bit_int_eq_self del: of_int_mult)
qed

lemma div10_bound:
  fixes n :: int
  assumes "0 \<le> n" "n < 2 ^ 31"
    and q0_def: "q0 = n div 2 + n div 4" and q1_def: "q1 = q0 + q0 div 16"
    and q2_def: "q2 = q1 + q1 div 256" and q3_def: "q3 = q2 + q2 div 65536"
  shows "0 \<le> n - 10 * (q3 div 8)" "n - 10 * (q3 div 8) \<le> 19" "q3 < 2 ^ 31"
    "0 \<le> q0" "q0 \<le> q1" "q1 \<le> q2" "q2 \<le> q3"
proof -
  have n: "n \<le> 2147483647"
    using assms(2) by simp
  have a: "4 * q0 \<le> 3 * n" "3 * n \<le> 4 * q0 + 5"
    by (unfold q0_def) presburger+
  have b1: "16 * q1 \<le> 17 * q0" "17 * q0 \<le> 16 * q1 + 15"
    by (unfold q1_def) presburger+
  have b2: "256 * q2 \<le> 257 * q1" "257 * q1 \<le> 256 * q2 + 255"
    by (unfold q2_def) presburger+
  have b3: "65536 * q3 \<le> 65537 * q2" "65537 * q2 \<le> 65536 * q3 + 65535"
    by (unfold q3_def) presburger+
  have b4: "8 * (q3 div 8) \<le> q3" "q3 \<le> 8 * (q3 div 8) + 7"
    by linarith+
  have c1: "64 * q1 \<le> 51 * n" "51 * n \<le> 64 * q1 + 145"
    using a b1 by linarith+
  have c2: "16384 * q2 \<le> 13107 * n" "13107 * n \<le> 16384 * q2 + 53585"
    using c1 b2 by linarith+
  have c3: "1073741824 * q3 \<le> 858993459 * n" "858993459 * n \<le> 1073741824 * q3 + 4585525585"
    using c2 b3 by linarith+
  show q0: "0 \<le> q0"
    using assms(1) by (simp add: q0_def)
  show q1: "q0 \<le> q1"
    using q0 by (simp add: q1_def)
  show q2: "q1 \<le> q2"
    using q0 q1 by (simp add: q2_def)
  show "q2 \<le> q3"
    using q0 q1 q2 by (simp add: q3_def)
  show "0 \<le> n - 10 * (q3 div 8)"
    using c3(1) b4(1) assms(1) by linarith
  show "n - 10 * (q3 div 8) \<le> 19"
    using c3(2) b4(2) n by linarith
  show "q3 < 2 ^ 31"
    using c3(1) n assms(1) by simp
qed

lemma sixteenth: "0 \<le> x \<Longrightarrow> x \<le> 19 \<Longrightarrow> (x + 6) div 16 = x div (10::int)"
proof -
  assume x: "0 \<le> x" "x \<le> 19"
  show ?thesis
  proof (cases "x < 10")
    case True
    then have "(x + 6) div 16 = 0" "x div 10 = 0"
      using x by (simp_all add: div_pos_pos_trivial)
    then show ?thesis by simp
  next
    case False
    then have "(x + 6) div 16 = 1" "x div 10 = 1"
      using x by (intro int_div_pos_eq [where r = "x - 10"]; simp)+
    then show ?thesis by simp
  qed
qed
lemma remainder_split:
  fixes n w :: int
  assumes "r = n - 10 * w"
  shows "w + r div 10 = n div 10" "r - 10 * (r div 10) = n mod 10"
proof -
  have "n = r + w * 10"
    using assms by simp
  then have "n div 10 = r div 10 + w" "n mod 10 = r mod 10"
    by simp_all
  then show "w + r div 10 = n div 10" "r - 10 * (r div 10) = n mod 10"
    by (simp_all add: minus_mult_div_eq_mod)
qed

lemma div10_correct:
  assumes "uint val < 2 ^ 31"
  shows "div10 val = (of_int (uint val div 10), of_int (uint val mod 10))"
proof -
  let ?n = "uint val"
  define w0 where "w0 = sar val 1 + sar val 2"
  define w1 where "w1 = w0 + sar w0 4"
  define w2 where "w2 = w1 + sar w1 8"
  define w3 where "w3 = w2 + sar w2 16"
  define w4 where "w4 = sar w3 3"
  define r where "r = val - shl (shl w4 2 + w4) 1"
  define t where "t = sar (r + 6) 4"
  define q0 where "q0 = ?n div 2 + ?n div 4"
  define q1 where "q1 = q0 + q0 div 16"
  define q2 where "q2 = q1 + q1 div 256"
  define q3 where "q3 = q2 + q2 div 65536"
  note B = div10_bound [OF uint_ge_0 assms q0_def q1_def q2_def q3_def]
  have u0: "uint w0 = q0"
    using B(3-7) by (simp add: w0_def uint_plus uint_sar [OF assms] q0_def)
  have u1: "uint w1 = q1"
    using B(3-7) u0 by (simp add: w1_def uint_plus uint_sar q1_def)
  have u2: "uint w2 = q2"
    using B(3-7) u1 by (simp add: w2_def uint_plus uint_sar q2_def)
  have u3: "uint w3 = q3"
    using B(3-7) u2 by (simp add: w3_def uint_plus uint_sar q3_def)
  have u4: "uint w4 = q3 div 8"
    unfolding w4_def using B(3) u3 by (simp add: uint_sar)
  have m10: "uint (shl (shl w4 2 + w4) 1) = 10 * uint w4"
  proof (rule uint_times10)
    have "10 * uint w4 \<le> uint val"
      using B(1) u4 by linarith
    then show "10 * uint w4 < 2 ^ 32"
      using assms by simp
  qed
  have ur: "uint r = ?n - 10 * uint w4"
    unfolding r_def using B(1) u4 m10 by (subst uint_minus) simp_all
  have rb: "0 \<le> uint r" "uint r \<le> 19"
    using B(1,2) ur u4 by linarith+
  have r6: "uint (r + 6) = uint r + 6"
    using rb by (subst uint_plus) simp_all
  have ut: "uint t = (uint r + 6) div 16"
    unfolding t_def using rb r6 by (simp add: uint_sar)
  have t10: "uint (shl (shl t 2 + t) 1) = 10 * uint t"
    using rb ut by (intro uint_times10) simp
  have tr: "uint t = uint r div 10"
    unfolding ut by (rule sixteenth [OF rb])
  have "uint (w4 + t) = uint w4 + uint t"
  proof (rule uint_plus)
    have "q3 div 8 < 2 ^ 31" "uint t \<le> 1"
      using B(3) rb ut by simp_all
    then show "uint w4 + uint t < 2 ^ 32"
      unfolding u4 by simp
  qed
  moreover have "uint (r - shl (shl t 2 + t) 1) = uint r - 10 * uint t"
  proof (subst uint_minus)
    show "uint (shl (shl t 2 + t) 1) \<le> uint r"
      unfolding t10 tr using rb(1) by simp
  qed (simp only: t10)
  ultimately have "uint (w4 + t) = ?n div 10" "uint (r - shl (shl t 2 + t) 1) = ?n mod 10"
    using remainder_split [OF ur] tr by simp_all
  then show ?thesis
    unfolding div10_def Let_def w0_def [symmetric] w1_def [symmetric] w2_def [symmetric] w3_def [symmetric]
      w4_def [symmetric] r_def [symmetric] t_def [symmetric]
    by (metis word_of_int_uint)
qed

section \<open>Digits\<close>

definition digit :: "nat \<Rightarrow> cbyte" where
  "digit d = (if d < 10 then of_nat (48 + d) else of_nat (87 + d))"

text \<open>The digits of a number, none for zero, and the last \<open>k\<close> digits.\<close>

function digits :: "nat \<Rightarrow> nat \<Rightarrow> cbyte list" where
  "digits b n = (if n = 0 \<or> b \<le> 1 then [] else digits b (n div b) @ [digit (n mod b)])"
  by auto
termination
  by (relation "measure snd") (auto intro: div_less_dividend)

declare digits.simps [simp del]

fun last_digits :: "nat \<Rightarrow> nat \<Rightarrow> nat \<Rightarrow> cbyte list" where
  "last_digits b 0 n = []"
| "last_digits b (Suc k) n = last_digits b k (n div b) @ [digit (n mod b)]"

lemma digits_0 [simp]: "digits b 0 = []"
  by (simp add: digits.simps)

lemma digits_length: "1 < b \<Longrightarrow> n < b ^ k \<Longrightarrow> length (digits b n) \<le> k"
proof (induction k arbitrary: n)
  case (Suc k)
  then have "n div b < b ^ k"
    by (simp add: less_mult_imp_div_less mult.commute)
  with Suc show ?case
    by (subst digits.simps) simp
qed simp

lemma last_digits_eq:
  assumes "1 < b" "n < b ^ k"
  shows "last_digits b k n = replicate (k - length (digits b n)) (digit 0) @ digits b n"
  using assms(2)
proof (induction k arbitrary: n)
  case (Suc k)
  then have d: "n div b < b ^ k"
    by (simp add: less_mult_imp_div_less mult.commute)
  show ?case
  proof (cases "n = 0")
    case True
    with Suc.IH [of 0] assms(1) show ?thesis
      by (simp add: replicate_append_same)
  next
    case False
    then have "digits b n = digits b (n div b) @ [digit (n mod b)]"
      using assms(1) by (subst digits.simps) simp
    with Suc.IH [OF d] show ?thesis by simp
  qed
qed simp

lemma digit_eq_0: "d < 16 \<Longrightarrow> digit d = digit 0 \<longleftrightarrow> d = 0"
proof -
  assume "d < 16"
  then have "d \<in> set [0..<16]"
    by simp
  moreover have "\<forall>d\<in>set [0..<16]. digit d = digit 0 \<longleftrightarrow> d = 0"
    by code_simp
  ultimately show ?thesis by blast
qed

lemma hd_digits: "1 < b \<Longrightarrow> b \<le> 16 \<Longrightarrow> 0 < n \<Longrightarrow> digits b n \<noteq> [] \<and> hd (digits b n) \<noteq> digit 0"
proof (induction b n rule: digits.induct)
  case (1 b n)
  show ?case
  proof (cases "n div b = 0")
    case True
    then have "n mod b = n" "n < b"
      using 1(2,4) by (auto simp: div_eq_0_iff)
    with True 1 digit_eq_0 [of n] show ?thesis
      by (subst (1 2) digits.simps) simp
  next
    case False
    with 1 show ?thesis
      by (subst (1 2) digits.simps) auto
  qed
qed

lemma ch_digit [simp]: "ch CHR ''0'' = digit 0"
  by code_simp

section \<open>The digit buffer\<close>

declare skip_zeros.simps [simp del]

lemma skip_zeros_eq:
  assumes "ds \<noteq> [] \<Longrightarrow> hd ds \<noteq> digit 0" "j + length ds = 16" "i \<le> j" "i \<le> 15"
  shows "skip_zeros (replicate j (digit 0) @ ds) i = (if ds = [] then 15 else j)"
  using assms(3,4)
proof (induction "j - i" arbitrary: i)
  case 0
  then have i: "i = j" by simp
  with 0 assms(2) have "ds \<noteq> []" by auto
  with assms(1) have "(replicate j (digit 0) @ ds) ! i \<noteq> digit 0"
    by (simp add: i nth_append hd_conv_nth)
  with \<open>ds \<noteq> []\<close> i show ?case
    by (subst skip_zeros.simps) simp
next
  case (Suc x)
  then have "i < j" by simp
  show ?case
  proof (cases "i < 15")
    case True
    then have "skip_zeros (replicate j (digit 0) @ ds) i = skip_zeros (replicate j (digit 0) @ ds) (Suc i)"
      using \<open>i < j\<close> by (subst skip_zeros.simps) (simp add: nth_append)
    with Suc(1) [of "Suc i"] Suc(2) \<open>i < j\<close> True show ?thesis by simp
  next
    case False
    then have "i = 15" "length ds = 0"
      using assms(2) \<open>i < j\<close> Suc.prems by linarith+
    then have "i = 15" "ds = []" by simp_all
    then show ?thesis
      by (subst skip_zeros.simps) simp
  qed
qed

lemma digit_add: "d < 10 \<Longrightarrow> digit 0 + of_nat d = digit d"
  by (simp add: digit_def)

lemma list_update_zeros: "(replicate (Suc i) x @ ds)[i := y] = replicate i x @ y # ds"
  by (induction i) simp_all

lemma div10_nat:
  assumes "unat val < 2 ^ 31"
  shows "div10 val = (of_nat (unat val div 10), of_nat (unat val mod 10))"
    "unat (of_nat (unat val div 10) :: cint) = unat val div 10"
    "ucast (of_nat (unat val mod 10) :: cint) = (of_nat (unat val mod 10) :: cbyte)"
proof -
  have "uint val < 2 ^ 31"
    using assms unfolding uint_eq_unat by (metis of_nat_less_iff of_nat_numeral of_nat_power)
  from div10_correct [OF this] show "div10 val = (of_nat (unat val div 10), of_nat (unat val mod 10))"
    unfolding uint_eq_unat by (metis of_int_of_nat_eq of_nat_numeral zdiv_int zmod_int)
  show "unat (of_nat (unat val div 10) :: cint) = unat val div 10"
    using assms by (simp add: unat_of_nat)
  show "ucast (of_nat (unat val mod 10) :: cint) = (of_nat (unat val mod 10) :: cbyte)"
    by (simp add: unsigned_of_nat take_bit_nat_eq_self)
qed

lemma base10_loop_eq:
  "unat val < 10 ^ k \<Longrightarrow> unat val < 2 ^ 31 \<Longrightarrow> base10_loop k val (replicate k (digit 0) @ ds) =
     Some (k - length (digits 10 (unat val)),
           replicate (k - length (digits 10 (unat val))) (digit 0) @ digits 10 (unat val) @ ds)"
proof (induction k arbitrary: val ds)
  case 0
  then have "val = 0" by (simp add: unat_eq_zero)
  then show ?case by simp
next
  case (Suc k)
  show ?case
  proof (cases "val = 0")
    case False
    let ?q = "of_nat (unat val div 10) :: cint"
    note d = div10_nat [OF Suc.prems(2)]
    have "unat ?q < 10 ^ k" "unat ?q < 2 ^ 31"
      unfolding d(2) using Suc.prems by (simp_all add: less_mult_imp_div_less mult.commute)
    note IH = Suc.IH [OF this]
    have "base10_loop (Suc k) val (replicate (Suc k) (digit 0) @ ds)
      = base10_loop k ?q (replicate k (digit 0) @ digit (unat val mod 10) # ds)"
      using False by (simp add: d(1,3) nth_append list_update_zeros digit_add del: replicate_Suc)
    moreover have "digits 10 (unat val) = digits 10 (unat val div 10) @ [digit (unat val mod 10)]"
      using False by (subst digits.simps) (simp add: unat_eq_zero)
    ultimately show ?thesis
      by (simp add: IH d(2))
  qed simp
qed

text \<open>The buffer each conversion leaves: zeros, a minus sign for a negative number, and the digits.\<close>

definition minus_sign :: "bool \<Rightarrow> cbyte list" where
  "minus_sign neg = (if neg then [ch CHR ''-''] else [])"

lemma abs_word:
  assumes "val \<noteq> 0x80000000"
  shows "unat (if lt_s val 0 then - val else val) = nat \<bar>sint val\<bar>" "nat \<bar>sint val\<bar> < 2 ^ 31"
proof -
  have min: "sint val \<noteq> - (2 ^ 31)"
  proof
    assume "sint val = - (2 ^ 31)"
    then have "(of_int (sint val) :: cint) = of_int (- (2 ^ 31))" by simp
    with assms show False by simp
  qed
  show "unat (if lt_s val 0 then - val else val) = nat \<bar>sint val\<bar>"
  proof (cases "sint val < 0")
    case True
    then have s: "sint val = uint val - 2 ^ 32" "0 < uint val"
      using uint_lt2p [of val] by (simp_all add: sint_uint_if split: if_splits)
    have "uint (- val) = 2 ^ 32 - uint val"
      using s(2) uint_lt2p [of val] by (simp add: uint_word_ariths zmod_zminus1_eq_if)
    with True s(1) show ?thesis
      by (simp add: lt_s_sint flip: nat_uint_eq)
  next
    case False
    then have "sint val = uint val"
      by (simp add: sint_nonneg_uint)
    with False show ?thesis
      by (simp add: lt_s_sint)
  qed
  show "nat \<bar>sint val\<bar> < 2 ^ 31"
    using sint_range [of val] min by simp
qed

lemma str_base10_eq:
  "str_base10 (replicate 16 (digit 0)) val =
     (let ds = minus_sign (lt_s val 0) @ digits 10 (nat \<bar>sint val\<bar>) in Some (replicate (16 - length ds) (digit 0) @ ds))"
proof (cases "val = 0x80000000")
  case True
  have "str_base10 (replicate 16 (digit 0)) 0x80000000 =
    Some (replicate 5 (digit 0) @ str ''-2147483648'')"
    by code_simp
  moreover have "minus_sign (lt_s 0x80000000 0) @ digits 10 2147483648 = str ''-2147483648''"
    by (simp add: digits.simps minus_sign_def digit_def) code_simp
  moreover have "sint (0x80000000 :: cint) = - 2147483648" "length (str ''-2147483648'') = 11"
    by code_simp+
  ultimately show ?thesis
    by (simp add: True)
next
  case False
  let ?v = "if lt_s val 0 then - val else val"
  let ?n = "nat \<bar>sint val\<bar>"
  have v: "unat ?v = ?n" "?n < 2 ^ 31"
    using abs_word [OF False] by blast+
  have "unat ?v < 10 ^ 16" "unat ?v < 2 ^ 31"
    using v by simp_all
  from base10_loop_eq [OF this, of "[]"]
  have l: "base10_loop 16 ?v (replicate 16 (digit 0)) =
    Some (16 - length (digits 10 ?n), replicate (16 - length (digits 10 ?n)) (digit 0) @ digits 10 ?n)"
    by (simp only: v append_Nil2)
  have "length (digits 10 ?n) \<le> 10"
    by (rule digits_length) (use v(2) in simp_all)
  then obtain k where k: "16 - length (digits 10 ?n) = Suc k"
    by (cases "16 - length (digits 10 ?n)") simp_all
  show ?thesis
  proof (cases "lt_s val 0")
    case True
    with False l k show ?thesis
      by (simp add: str_base10_def minus_sign_def list_update_zeros del: replicate_Suc) 
  next
    case nonneg: False
    with False l show ?thesis
      by (simp add: str_base10_def minus_sign_def Let_def)
  qed
qed

lemma unat_bound: "unat (v :: cint) < 2 ^ 32"
proof -
  have "unat v < 2 ^ LENGTH(32)"
    by (rule unsigned_less)
  then show ?thesis by simp
qed

lemma sar_low_bits:
  assumes "j + m \<le> 32"
  shows "unat (sar v j AND mask m) = unat v div 2 ^ j mod 2 ^ m"
proof -
  have "sar v j AND mask m = take_bit m (drop_bit j v)"
    using assms by (intro bit_eqI) (auto simp: bit_signed_drop_bit_iff bit_simps)
  then have "unat (sar v j AND mask m) = take_bit m (drop_bit j (unat v))"
    using unat_bound [of v] by (simp add: unsigned_take_bit_eq unsigned_drop_bit_eq take_bit_nat_eq_self)
  then show ?thesis
    by (simp only: take_bit_eq_mod drop_bit_eq_div)
qed

lemma last_digits_front: "last_digits b (Suc k) n = digit (n div b ^ k mod b) # last_digits b k n"
proof (induction k arbitrary: n)
  case (Suc k)
  have "last_digits b (Suc (Suc k)) n = last_digits b (Suc k) (n div b) @ [digit (n mod b)]"
    by (rule last_digits.simps(2))
  also have "last_digits b (Suc k) (n div b) = digit (n div b div b ^ k mod b) # last_digits b k (n div b)"
    by (rule Suc.IH)
  finally show ?case
    by (simp add: div_mult2_eq)
qed simp

lemma and_7: "sar v j AND 7 = of_nat (unat v div 2 ^ j mod 8)" if "j + 3 \<le> 32"
proof -
  have "unat (sar v j AND 7) = unat v div 2 ^ j mod 8"
    using sar_low_bits [OF that, of v] by (simp add: mask_eq_exp_minus_1)
  from arg_cong [OF this, of "of_nat :: nat \<Rightarrow> cint"] show ?thesis
    by simp
qed

lemma octal_digit: "j + 3 \<le> 32 \<Longrightarrow> digit 0 + ucast (sar v j AND 7) = digit (unat v div 2 ^ j mod 8)"
  by (simp add: and_7 unsigned_of_nat digit_def take_bit_nat_eq_self)

lemma base8_loop_eq:
  "j + 3 * n \<le> 32 \<Longrightarrow> n \<le> c \<Longrightarrow> base8_loop n c (sar v j) (replicate (Suc c) (digit 0) @ ds) =
     (c - n, sar v (j + 3 * n), replicate (Suc c - n) (digit 0) @ last_digits 8 n (unat v div 2 ^ j) @ ds)"
proof (induction n arbitrary: c j ds)
  case (Suc n)
  then obtain c' where c: "c = Suc c'"
    by (cases c) simp_all
  have l: "last_digits 8 (Suc n) (unat v div 2 ^ j)
      = last_digits 8 n (unat v div 2 ^ (j + 3)) @ [digit (unat v div 2 ^ j mod 8)]"
    by (simp add: div_mult2_eq power_add)
  show ?case
    using Suc.IH [of "j + 3" c' "digit (unat v div 2 ^ j mod 8) # ds"] Suc.prems
    by (simp add: c octal_digit list_update_zeros l add.assoc [symmetric] del: replicate_Suc last_digits.simps)
       (simp add: algebra_simps)
qed simp

lemma str_base8_eq: "str_base8 (replicate 16 (digit 0)) v = replicate 5 (digit 0) @ last_digits 8 11 (unat v)"
proof -
  have "(16::nat) = Suc 15" by simp
  then have r: "replicate 16 (digit 0) = replicate (Suc 15) (digit 0)"
    by (simp only:)
  have l: "base8_loop 10 15 v (replicate 16 (digit 0))
      = (5, sar v 30, replicate 6 (digit 0) @ last_digits 8 10 (unat v))"
    using base8_loop_eq [of 0 10 15 v "[]"] unfolding r [symmetric] by simp
  have "unat v div 2 ^ 30 < 4"
    using unat_bound [of v] by (simp add: less_mult_imp_div_less)
  moreover have "sar v 30 AND 3 = of_nat (unat v div 2 ^ 30 mod 4)"
  proof -
    have "unat (sar v 30 AND 3) = unat v div 2 ^ 30 mod 4"
      using sar_low_bits [of 30 2 v] by (simp add: mask_eq_exp_minus_1)
    from arg_cong [OF this, of "of_nat :: nat \<Rightarrow> cint"] show ?thesis
      by simp
  qed
  ultimately have d: "digit 0 + ucast (sar v 30 AND 3) = digit (unat v div 8 ^ 10 mod 8)"
    by (simp add: unsigned_of_nat digit_def take_bit_nat_eq_self)
  have "last_digits 8 11 (unat v) = digit (unat v div 8 ^ 10 mod 8) # last_digits 8 10 (unat v)"
    using last_digits_front [of 8 10 "unat v"] by simp
  moreover have "(6::nat) = Suc 5" by simp
  then have "(replicate 6 (digit 0) @ xs)[5 := y] = replicate 5 (digit 0) @ y # xs" for xs y
    by (simp only: list_update_zeros)
  ultimately show ?thesis
    by (simp add: str_base8_def l d)
qed

lemma hex_digit_eq: "hex_digit (sar v j AND 15) = Some (digit (unat v div 2 ^ j mod 16))" if "j + 4 \<le> 32"
proof -
  let ?d = "unat v div 2 ^ j mod 16"
  have "unat (sar v j AND 15) = ?d"
    using sar_low_bits [OF that, of v] by (simp add: mask_eq_exp_minus_1)
  from arg_cong [OF this, of "of_nat :: nat \<Rightarrow> cint"] have "sar v j AND 15 = of_nat ?d"
    by simp
  moreover have "\<forall>d\<in>set [0..<16]. hex_digit (of_nat d) = Some (digit d)"
    by code_simp
  moreover have "?d \<in> set [0..<16]"
    by simp
  ultimately show ?thesis
    by metis
qed

lemma base16_loop_eq:
  "j + 4 * n \<le> 32 \<Longrightarrow> n \<le> c \<Longrightarrow> base16_loop n c (sar v j) (replicate (Suc c) (digit 0) @ ds) =
     Some (replicate (Suc c - n) (digit 0) @ last_digits 16 n (unat v div 2 ^ j) @ ds)"
proof (induction n arbitrary: c j ds)
  case (Suc n)
  then obtain c' where c: "c = Suc c'"
    by (cases c) simp_all
  have l: "last_digits 16 (Suc n) (unat v div 2 ^ j)
      = last_digits 16 n (unat v div 2 ^ (j + 4)) @ [digit (unat v div 2 ^ j mod 16)]"
    by (simp add: div_mult2_eq power_add)
  show ?case
    using Suc.IH [of "j + 4" c' "digit (unat v div 2 ^ j mod 16) # ds"] Suc.prems
    by (simp add: c hex_digit_eq list_update_zeros l add.commute [of 4 j] del: replicate_Suc last_digits.simps)
qed simp

lemma str_base16_eq:
  "str_base16 (replicate 16 (digit 0)) v = Some (replicate 8 (digit 0) @ last_digits 16 8 (unat v))"
proof -
  have "(16::nat) = Suc 15" by simp
  then have r: "replicate 16 (digit 0) = replicate (Suc 15) (digit 0)"
    by (simp only:)
  show ?thesis
    using base16_loop_eq [of 0 8 15 v "[]"] unfolding r [symmetric] by (simp add: str_base16_def)
qed

text \<open>All three in the same form: zeros, then the number.\<close>

definition num :: "nat \<Rightarrow> cint \<Rightarrow> cbyte list" where
  "num base val = (if base = 10 then minus_sign (lt_s val 0) @ digits 10 (nat \<bar>sint val\<bar>) else digits base (unat val))"

definition str_base :: "nat \<Rightarrow> cint \<Rightarrow> cbyte list option" where
  "str_base base val =
     (let pb0 = replicate 16 (ch CHR ''0'')
      in if base = 8 then Some (str_base8 pb0 val)
              else if base = 10 then str_base10 pb0 val
              else if base = 16 then str_base16 pb0 val
              else None)"

lemma num_length: "base \<in> {8, 10, 16} \<Longrightarrow> length (num base val) \<le> 11"
proof -
  assume b: "base \<in> {8, 10, 16}"
  have "length (digits 8 (unat val)) \<le> 11" "length (digits 16 (unat val)) \<le> 8"
    using unat_bound [of val] by (intro digits_length; simp)+
  moreover have "\<bar>sint val\<bar> \<le> 2 ^ 31"
    using sint_range [of val] by linarith
  then have "nat \<bar>sint val\<bar> < 10 ^ 10"
    by simp
  then have "length (digits 10 (nat \<bar>sint val\<bar>)) \<le> 10"
    by (intro digits_length) simp_all
  ultimately show ?thesis
    using b by (auto simp: num_def minus_sign_def)
qed

lemma str_base_eq:
  assumes "base \<in> {8, 10, 16}"
  shows "str_base base val = Some (replicate (16 - length (num base val)) (digit 0) @ num base val)"
proof -
  have fill: "replicate a (digit 0) @ last_digits b k n = replicate (a + k - length (digits b n)) (digit 0) @ digits b n"
    if p: "1 < b" "n < b ^ k" for a b k n
  proof -
    have "a + k - length (digits b n) = a + (k - length (digits b n))"
      using digits_length [OF p] by simp
    then show ?thesis
      by (simp add: last_digits_eq [OF p] replicate_add)
  qed
  show ?thesis
    using assms unat_bound [of val]
    by (auto simp: str_base_def num_def str_base8_eq str_base10_eq str_base16_eq fill Let_def)
qed

section \<open>The text of a conversion\<close>

definition mark :: "nat \<Rightarrow> bool \<Rightarrow> cint \<Rightarrow> cbyte list" where
  "mark base alternate_form val =
     (if base = 10 then minus_sign (lt_s val 0)
      else if alternate_form \<and> val \<noteq> 0 then (if base = 8 then str ''0'' else str ''0x'')
      else [])"

definition magnitude :: "nat \<Rightarrow> cint \<Rightarrow> cbyte list" where
  "magnitude base val =
     (if val = 0 then [digit 0] else digits base (if base = 10 then nat \<bar>sint val\<bar> else unat val))"

definition padding :: "cint \<Rightarrow> nat \<Rightarrow> nat" where
  "padding width l = (let w = width - of_nat l in if lt_s w 0 then 0 else unat w)"

definition formatted :: "cint \<Rightarrow> bool \<Rightarrow> nat \<Rightarrow> bool \<Rightarrow> cint \<Rightarrow> cbyte list" where
  "formatted width zeropad base alternate_form val =
     (let m = mark base alternate_form val; ds = magnitude base val; p = padding width (length m + length ds)
      in if zeropad then m @ replicate p (ch CHR ''0'') @ ds else replicate p (ch CHR '' '') @ m @ ds)"

text \<open>Appending a text to the output, as much of it as there is room for.\<close>

definition fb_write :: "fmtbuf \<Rightarrow> cbyte list \<Rightarrow> fmtbuf" where
  "fb_write fb s =
     (let k = min (length s) (nat (sint (room fb) - 1))
      in fb\<lparr>out := out fb @ take k s, room := room fb - of_nat k, flen := flen fb + of_nat (length s)\<rparr>)"

lemma sint_minus_nat:
  assumes "int k < sint w" shows "sint (w - of_nat k :: cint) = sint w - int k"
proof -
  have w: "sint w = uint w"
    using assms by (intro sint_nonneg_uint) linarith
  have k: "uint (of_nat k :: cint) = int k"
    using assms sint_range(2) [of w] by (simp add: unsigned_of_nat take_bit_nat_eq_self)
  have "uint (w - of_nat k) = uint w - int k"
    using assms w k by (subst uint_minus) simp_all
  then show ?thesis
    using assms w sint_range(2) [of w] by (simp add: sint_uint_if)
qed

lemma room_after: "nat (sint (room (fb_write fb s)) - 1) = nat (sint (room fb) - 1) - length s"
proof (cases "sint (room fb) \<le> 1")
  case True
  then show ?thesis
    by (simp add: fb_write_def Let_def)
next
  case False
  let ?k = "min (length s) (nat (sint (room fb) - 1))"
  have "int ?k < sint (room fb)"
    using False by linarith
  from sint_minus_nat [OF this] show ?thesis
    using False by (simp add: fb_write_def Let_def)
qed

lemma fb_write_write: "fb_write (fb_write fb s) t = fb_write fb (s @ t)"
proof -
  let ?m = "nat (sint (room fb) - 1)"
  have "min (length t) (?m - length s) + min (length s) ?m = min (length (s @ t)) ?m"
    by simp
  moreover have "room fb - of_nat a - of_nat b = room fb - of_nat (b + a)" for a b
    by simp
  ultimately have r: "room fb - of_nat (min (length s) ?m) - of_nat (min (length t) (?m - length s))
    = room fb - of_nat (min (length (s @ t)) ?m)"
    by (simp only:)
  have "fb_write (fb_write fb s) t = (fb_write fb s)\<lparr>out := out (fb_write fb s) @ take (min (length t) (?m - length s)) t,
    room := room (fb_write fb s) - of_nat (min (length t) (?m - length s)),
    flen := flen (fb_write fb s) + of_nat (length t)\<rparr>"
    by (subst fb_write_def) (simp only: room_after Let_def)
  with r show ?thesis
    by (simp add: fb_write_def Let_def take_append min_def)
qed

lemma write_char_eq: "fmtbuf_write_char fb v = fb_write fb [ucast v]"
proof -
  have "(0xFF :: cint) = mask 8"
    by (simp add: mask_eq_exp_minus_1)
  then have "ucast (v AND 0xFF) = (ucast (v AND mask 8) :: cbyte)"
    by (simp only:)
  also have "\<dots> = ucast v"
    by (intro bit_eqI) (auto simp: bit_simps)
  finally have "ucast (v AND 0xFF) = (ucast v :: cbyte)" .
  then show ?thesis
    by (auto simp: fmtbuf_write_char_def fb_write_def Let_def le_s_sint min_def)
qed

lemma strncpy_bytes_take: "0 \<notin> set s \<Longrightarrow> k \<le> length s \<Longrightarrow> strncpy_bytes s k = take k s"
proof (induction s k rule: strncpy_bytes.induct)
  case (3 c src n)
  then show ?case by auto
qed auto

lemma write_str_eq:
  assumes "0 \<notin> set s" "length s < 2 ^ 31"
  shows "fmtbuf_write_str fb s (of_nat (length s)) = fb_write fb s"
proof -
  have l: "unat (of_nat (length s) :: cint) = length s" "sint (of_nat (length s) :: cint) = int (length s)"
    using assms(2) by (simp_all add: unat_of_nat sint_uint_if unsigned_of_nat take_bit_nat_eq_self)
  show ?thesis
  proof (cases "sint (room fb) \<le> 1")
    case True
    then show ?thesis
      by (simp add: fmtbuf_write_str_def fb_write_def Let_def le_s_sint)
  next
    case False
    have m: "sint (room fb - 1) = sint (room fb) - 1" "unat (room fb - 1) = nat (sint (room fb) - 1)"
    proof -
      show m: "sint (room fb - 1) = sint (room fb) - 1"
        using sint_minus_nat [of 1 "room fb"] False by simp
      then have "sint (room fb - 1) = uint (room fb - 1)"
        using False by (intro sint_nonneg_uint) linarith
      with m show "unat (room fb - 1) = nat (sint (room fb) - 1)"
        by (simp flip: nat_uint_eq)
    qed
    show ?thesis
    proof (cases "int (length s) \<le> sint (room fb) - 1")
      case True
      with False l show ?thesis
        by (simp add: fmtbuf_write_str_def fb_write_def Let_def le_s_sint m strncpy_bytes_take [OF assms(1)])
    next
      case small: False
      then have "min (length s) (nat (sint (room fb) - 1)) = nat (sint (room fb) - 1)"
        by linarith
      moreover have "of_nat (nat (sint (room fb) - 1)) = room fb - 1"
        using m(2) [symmetric] by simp
      ultimately show ?thesis
        using False small
        by (simp add: fmtbuf_write_str_def fb_write_def Let_def le_s_sint m l strncpy_bytes_take [OF assms(1)])
    qed
  qed
qed

lemma pad_loop_eq: "pad_loop n c fb = fb_write fb (replicate n (ucast c))"
proof (induction n arbitrary: fb)
  case 0
  show ?case by (simp add: fb_write_def)
next
  case (Suc n)
  then show ?case
    by (simp add: write_char_eq fb_write_write)
qed

lemma in_digits: "1 < b \<Longrightarrow> x \<in> set (digits b n) \<Longrightarrow> \<exists>d<b. x = digit d"
proof (induction b n rule: digits.induct)
  case (1 b n)
  show ?case
  proof (cases "n = 0")
    case False
    then have "digits b n = digits b (n div b) @ [digit (n mod b)]"
      using 1(2) by (subst digits.simps) simp
    then consider "x = digit (n mod b)" | "x \<in> set (digits b (n div b))"
      using 1(3) by auto
    then show ?thesis
    proof cases
      case 1
      then show ?thesis
        using \<open>1 < b\<close> by (intro exI [of _ "n mod b"]) simp
    next
      case 2
      then show ?thesis
        using 1 False by simp
    qed
  qed (use 1 in simp)
qed

lemma digit_plain: "d < 16 \<Longrightarrow> digit d \<noteq> 0 \<and> digit d \<noteq> ch CHR ''-''"
proof -
  assume "d < 16"
  then have "d \<in> set [0..<16]"
    by simp
  moreover have "\<forall>d\<in>set [0..<16]. digit d \<noteq> 0 \<and> digit d \<noteq> ch CHR ''-''"
    by code_simp
  ultimately show ?thesis by blast
qed

lemma magnitude_plain:
  assumes "base \<in> {8, 10, 16}" "x \<in> set (magnitude base val)"
  shows "x \<noteq> 0" "x \<noteq> ch CHR ''-''"
proof -
  have "\<exists>d<base. x = digit d"
  proof (cases "val = 0")
    case True
    then show ?thesis
      using assms by (intro exI [of _ 0]) (auto simp: magnitude_def)
  next
    case False
    then show ?thesis
      using assms in_digits [of base x] by (auto simp: magnitude_def split: if_splits)
  qed
  then obtain d where "d < base" "x = digit d" by blast
  moreover have "base \<le> 16"
    using assms(1) by auto
  ultimately have d: "d < 16" "x = digit d"
    by simp_all
  show "x \<noteq> 0" "x \<noteq> ch CHR ''-''"
    using digit_plain [OF d(1)] d(2) by simp_all
qed

lemma hd_magnitude:
  assumes "base \<in> {8, 10, 16}"
  shows "magnitude base val \<noteq> []" "hd (magnitude base val) = digit 0 \<longleftrightarrow> val = 0"
proof -
  have "val \<noteq> 0 \<Longrightarrow> 0 < unat val"
    by (simp add: unat_gt_0)
  moreover have "sint val = 0 \<Longrightarrow> val = 0"
    by (metis of_int_0 of_int_sint scast_id)
  then have "val \<noteq> 0 \<Longrightarrow> 0 < nat \<bar>sint val\<bar>"
    by auto
  ultimately show "magnitude base val \<noteq> []" "hd (magnitude base val) = digit 0 \<longleftrightarrow> val = 0"
    using assms hd_digits [of base "unat val"] hd_digits [of 10 "nat \<bar>sint val\<bar>"]
    by (auto simp: magnitude_def)
qed

text \<open>What the code prints of the buffer, before the mark of the base.\<close>

definition num_text :: "nat \<Rightarrow> cint \<Rightarrow> cbyte list" where
  "num_text base val = mark base False val @ magnitude base val"

lemma num_text_num:
  assumes "base \<in> {8, 10, 16}"
  shows "num_text base val = (if val = 0 then [digit 0] else num base val)"
proof -
  have "\<not> lt_s 0 0"
    by (simp add: lt_s_sint)
  then show ?thesis
    using assms by (auto simp: num_text_def num_def mark_def magnitude_def minus_sign_def)
qed

lemma num_0: "base \<in> {8, 10, 16} \<Longrightarrow> num base 0 = []"
  by (auto simp: num_def minus_sign_def lt_s_sint)

lemma hd_num_text:
  assumes "base \<in> {8, 10, 16}"
  shows "num_text base val \<noteq> []" "hd (num_text base val) = digit 0 \<longleftrightarrow> val = 0"
    "hd (num_text base val) = ch CHR ''-'' \<longleftrightarrow> base = 10 \<and> lt_s val 0"
proof -
  have m: "ch CHR ''-'' \<noteq> digit 0"
    by code_simp
  have v: "lt_s val 0 \<Longrightarrow> val \<noteq> 0"
    by (auto simp: lt_s_sint)
  have "hd (magnitude base val) \<noteq> ch CHR ''-''"
    by (rule magnitude_plain(2) [OF assms hd_in_set [OF hd_magnitude(1) [OF assms]]])
  with m v hd_magnitude [OF assms] show "num_text base val \<noteq> []"
    "hd (num_text base val) = digit 0 \<longleftrightarrow> val = 0"
    "hd (num_text base val) = ch CHR ''-'' \<longleftrightarrow> base = 10 \<and> lt_s val 0"
    by (auto simp: num_text_def mark_def minus_sign_def)
qed

lemma buffer_eq:
  assumes "base \<in> {8, 10, 16}"
  shows "str_base base val = Some (replicate (16 - length (num_text base val)) (digit 0) @ num_text base val)"
    "skip_zeros (replicate (16 - length (num_text base val)) (digit 0) @ num_text base val) 0
      = 16 - length (num_text base val)"
    "length (num_text base val) \<le> 11"
proof -
  show len: "length (num_text base val) \<le> 11"
    using num_length [OF assms, of val] by (simp add: num_text_num [OF assms])
  show s: "str_base base val = Some (replicate (16 - length (num_text base val)) (digit 0) @ num_text base val)"
  proof (cases "val = 0")
    case True
    have "replicate 16 (digit 0) = replicate 15 (digit 0) @ [digit 0]"
      by code_simp
    with True show ?thesis
      using str_base_eq [OF assms, of 0] by (simp add: num_0 [OF assms] num_text_num [OF assms])
  next
    case False
    then show ?thesis
      using str_base_eq [OF assms, of val] by (simp add: num_text_num [OF assms])
  qed
  show "skip_zeros (replicate (16 - length (num_text base val)) (digit 0) @ num_text base val) 0
      = 16 - length (num_text base val)"
  proof (cases "val = 0")
    case True
    have "replicate 15 (digit 0) @ [digit 0] = replicate 16 (digit 0) @ []"
      by code_simp
    then have "skip_zeros (replicate 15 (digit 0) @ [digit 0]) 0 = 15"
      using skip_zeros_eq [of "[]" 16 0] by (simp only:) simp
    with True show ?thesis
      by (simp add: num_text_num [OF assms])
  next
    case False
    with hd_num_text [OF assms] len show ?thesis
      by (subst skip_zeros_eq) auto
  qed
qed

lemma sp: "ucast (char_c c) = ch c"
  by (intro bit_eqI) (auto simp: char_c_def bit_simps)

lemma fb_write_Nil [simp]: "fb_write fb [] = fb"
  by (simp add: fb_write_def)

lemma push_front_eq:
  "push_front c (replicate (Suc i) (digit 0) @ ns, Suc i) = Some (replicate i (digit 0) @ ch c # ns, i)"
  by (simp add: push_front_def list_update_zeros del: replicate_Suc)

lemma prefix_eq:
  assumes "base \<in> {8, 10, 16}"
    and m_def: "m = mark base alt val" and ds_def: "ds = magnitude base val" and ns_def: "ns = num_text base val"
  shows "\<exists>pb. format_prefix fb width zp base alt (replicate (16 - length ns) (digit 0) @ ns) (16 - length ns)
      = Some (if zp \<and> width \<noteq> 0 then (fb_write fb m, width - of_nat (length m), pb, 16 - length ds)
              else (fb, width, pb, 16 - length (m @ ds)))
    \<and> drop (if zp \<and> width \<noteq> 0 then 16 - length ds else 16 - length (m @ ds)) pb
      = (if zp \<and> width \<noteq> 0 then ds else m @ ds)"
proof -
  let ?pb = "replicate (16 - length ns) (digit 0) @ ns"
  have len: "length ns \<le> 11" and ne: "ns \<noteq> []"
    using buffer_eq(3) [OF assms(1)] hd_num_text(1) [OF assms(1)] by (simp_all add: ns_def)
  have at: "?pb ! (16 - length ns) = hd ns"
    using ne by (simp add: nth_append hd_conv_nth)
  note h = hd_num_text(2,3) [OF assms(1), of val, folded ns_def]
  define i where "i = 14 - length ns"
  have i: "16 - length ns = Suc (Suc i)"
    using len by (simp add: i_def)
  have pb: "?pb = replicate (Suc (Suc i)) (digit 0) @ ns"
    by (simp only: i)
  have p1: "push_front c (?pb, 16 - length ns) = Some (replicate (Suc i) (digit 0) @ ch c # ns, Suc i)" for c
    unfolding i by (rule push_front_eq)
  have strs: "str ''0'' = [ch CHR ''0'']" "str ''0x'' = [ch CHR ''0'', ch CHR ''x'']"
    by (simp_all add: str_def)
  consider (ten) "base = 10" | (plain) "base \<noteq> 10" "\<not> alt \<or> val = 0"
    | (eight) "base = 8" "alt" "val \<noteq> 0" | (sixteen) "base = 16" "alt" "val \<noteq> 0"
    using assms(1) by auto
  then show ?thesis
  proof cases
    case ten
    then have ns: "ns = m @ ds"
      by (simp add: ns_def m_def ds_def num_text_def mark_def)
    show ?thesis
    proof (cases "lt_s val 0")
      case True
      then have m: "m = [ch CHR ''-'']" and hd: "hd ns = ch CHR ''-''"
        using ten h by (simp_all add: m_def mark_def minus_sign_def)
      have "16 - length ns + 1 = 16 - length ds"
        using len by (simp add: ns m)
      with ten m hd at ns show ?thesis
        by (intro exI [of _ ?pb]) (simp add: format_prefix_def write_char_eq sp)
    next
      case False
      then have m: "m = []" and hd: "hd ns \<noteq> ch CHR ''-''"
        using ten h by (simp_all add: m_def mark_def minus_sign_def)
      with ten at ns len show ?thesis
        by (intro exI [of _ ?pb]) (simp add: format_prefix_def)
    qed
  next
    case plain
    then have "m = []" "ns = ds" "alt \<Longrightarrow> hd ns = digit 0"
      using h assms(1) by (auto simp: m_def ns_def ds_def num_text_def mark_def)
    with plain at show ?thesis
      by (intro exI [of _ ?pb]) (auto simp: format_prefix_def)
  next
    case eight
    then have "m = [ch CHR ''0'']" "ns = ds" "hd ns \<noteq> digit 0"
      using h strs by (auto simp: m_def ns_def ds_def num_text_def mark_def)
    then have f: "m = [ch CHR ''0'']" "ns = ds" "hd ns \<noteq> ch CHR ''0''" "16 - length (m @ ds) = Suc i"
      using i by simp_all
    show ?thesis
    proof (cases "zp \<and> width \<noteq> 0")
      case True
      with eight at f show ?thesis
        by (intro exI [of _ ?pb]) (simp add: format_prefix_def write_char_eq sp del: ch_digit)
    next
      case False
      with eight at f p1 [of "CHR ''0''"] show ?thesis
        by (intro exI [of _ "replicate (Suc i) (digit 0) @ ch CHR ''0'' # ns"], cases zp)
          (simp_all add: format_prefix_def del: ch_digit replicate_Suc)
    qed
  next
    case sixteen
    then have "m = [ch CHR ''0'', ch CHR ''x'']" "ns = ds" "hd ns \<noteq> digit 0"
      using h strs by (auto simp: m_def ns_def ds_def num_text_def mark_def)
    then have f: "m = [ch CHR ''0'', ch CHR ''x'']" "ns = ds" "hd ns \<noteq> ch CHR ''0''" "16 - length (m @ ds) = i"
      using i by simp_all
    show ?thesis
    proof (cases "zp \<and> width \<noteq> 0")
      case True
      with sixteen at f show ?thesis
        by (intro exI [of _ ?pb]) (simp add: format_prefix_def write_char_eq sp fb_write_write del: ch_digit)
    next
      case False
      with sixteen at f p1 [of "CHR ''x''"] push_front_eq [of "CHR ''0''" i "ch CHR ''x'' # ns"] show ?thesis
        by (intro exI [of _ "replicate i (digit 0) @ ch CHR ''0'' # ch CHR ''x'' # ns"], cases zp)
          (simp_all add: format_prefix_def del: ch_digit replicate_Suc)
    qed
  qed
qed

lemma padding_0: "0 < l \<Longrightarrow> l < 2 ^ 31 \<Longrightarrow> padding 0 l = 0"
proof -
  assume l: "0 < l" "l < 2 ^ 31"
  have "uint (of_nat l :: cint) = int l"
    using l by (simp add: unsigned_of_nat take_bit_nat_eq_self)
  then have "uint (- of_nat l :: cint) = 2 ^ 32 - int l"
    using l by (simp add: uint_word_ariths zmod_zminus1_eq_if)
  then have "lt_s (- of_nat l) 0"
    using l by (simp add: lt_s_sint sint_uint_if)
  then show ?thesis
    by (simp add: padding_def)
qed

lemma format_val_eq:
  assumes "base \<in> {8, 10, 16}"
  shows "format_val fb val width zp base alt = Some (fb_write fb (formatted width zp base alt val))"
proof -
  let ?m = "mark base alt val" and ?ds = "magnitude base val"
  note b = buffer_eq [OF assms, of val]
  have ds: "0 \<notin> set ?ds" "length ?ds \<le> 11"
    using magnitude_plain(1) [OF assms] b(3) by (auto simp: num_text_def)
  have "0 \<notin> set (minus_sign True)" "0 \<notin> set (str ''0'')" "0 \<notin> set (str ''0x'')"
    "length (minus_sign True) = 1" "length (str ''0'') = 1" "length (str ''0x'') = 2"
    by code_simp+
  then have m: "0 \<notin> set ?m" "length ?m \<le> 2"
    by (simp_all add: mark_def minus_sign_def)
  obtain pb where pb: "format_prefix fb width zp base alt (replicate (16 - length (num_text base val)) (digit 0) @ num_text base val)
       (16 - length (num_text base val))
      = Some (if zp \<and> width \<noteq> 0 then (fb_write fb ?m, width - of_nat (length ?m), pb, 16 - length ?ds)
              else (fb, width, pb, 16 - length (?m @ ?ds)))"
    "drop (if zp \<and> width \<noteq> 0 then 16 - length ?ds else 16 - length (?m @ ?ds)) pb
      = (if zp \<and> width \<noteq> 0 then ?ds else ?m @ ?ds)"
    using prefix_eq [OF assms refl refl refl] by blast
  have start: "format_val fb val width zp base alt = do {
       (fb, width, pb, pbi) \<leftarrow> Some (if zp \<and> width \<noteq> 0 then (fb_write fb ?m, width - of_nat (length ?m), pb, 16 - length ?ds)
              else (fb, width, pb, 16 - length (?m @ ?ds)));
       let width = width - of_nat (16 - pbi);
       let width = (if lt_s width 0 then 0 else width);
       let fb = pad_loop (unat width) (char_c (if zp then CHR ''0'' else CHR '' '')) fb;
       Some (fmtbuf_write_str fb (drop pbi pb) (of_nat (16 - pbi))) }"
    using b(1) unfolding str_base_def format_val_def Let_def
    by (simp only: ch_digit b(2) pb(1) bind.bind_lunit)
  show ?thesis
  proof (cases "zp \<and> width \<noteq> 0")
    case True
    then have "format_val fb val width zp base alt
      = Some (fb_write (fb_write (fb_write fb ?m) (replicate (padding width (length ?m + length ?ds)) (digit 0))) ?ds)"
      using pb(2) ds unfolding start
      by (simp add: Let_def pad_loop_eq sp padding_def write_str_eq diff_diff_eq)
    then show ?thesis
      using True by (simp add: fb_write_write formatted_def Let_def)
  next
    case False
    have "0 \<notin> set (?m @ ?ds)" "length (?m @ ?ds) < 2 ^ 31" "16 - (16 - length (?m @ ?ds)) = length (?m @ ?ds)"
      using ds m by simp_all
    moreover have c: "(zp \<and> width \<noteq> 0) = False"
      using False by simp
    note start' = start [unfolded c if_False] and pb' = pb(2) [unfolded c if_False]
    have "char_c (if zp then CHR ''0'' else CHR '' '') = (if zp then char_c CHR ''0'' else char_c CHR '' '')"
      by simp
    ultimately have "format_val fb val width zp base alt
      = Some (fb_write (fb_write fb (replicate (padding width (length ?m + length ?ds)) (ch (if zp then CHR ''0'' else CHR '' '')))) (?m @ ?ds))"
      using write_str_eq [of "?m @ ?ds"] pb' unfolding start'
      by (simp add: Let_def pad_loop_eq sp padding_def)
    moreover have "zp \<Longrightarrow> padding width (length ?m + length ?ds) = 0"
      using False padding_0 [of "length ?m + length ?ds"] hd_magnitude(1) [OF assms] ds(2) m(2) by auto
    ultimately show ?thesis
      by (cases zp) (simp_all add: fb_write_write formatted_def Let_def)
  qed
qed


section \<open>The text of a format\<close>

definition conversion :: "(cint \<Rightarrow> cbyte list) \<Rightarrow> cint \<Rightarrow> bool \<Rightarrow> bool \<Rightarrow> cint \<Rightarrow> cbyte \<Rightarrow> cbyte list" where
  "conversion strs v pp zp w c =
     (if c = ch CHR ''s'' then strs v
      else if c = ch CHR ''c'' then [ucast v]
      else if c = ch CHR ''o'' then formatted w zp 8 pp v
      else if c = ch CHR ''d'' then formatted w zp 10 False v
      else if c = ch CHR ''x'' then formatted w zp 16 pp v
      else [])"

function format_text :: "(cint \<Rightarrow> cbyte list) \<Rightarrow> (nat \<Rightarrow> cint) \<Rightarrow> nat \<Rightarrow> cbyte list \<Rightarrow> cbyte list option" where
  "format_text strs args pi [] = Some []"
| "format_text strs args pi (c # fmt) =
     (if c \<noteq> ch CHR ''%'' then map_option ((#) c) (format_text strs args pi fmt)
      else (case parse_flags fmt of
              (pp, zp, w, []) \<Rightarrow> None
            | (pp, zp, w, d # rest) \<Rightarrow>
                if d = ch CHR ''%'' then map_option ((#) d) (format_text strs args pi rest)
                else map_option ((@) (conversion strs (args pi) pp zp w d)) (format_text strs args (Suc pi) rest)))"
  by pat_completeness auto
termination
  by (relation "measure (\<lambda>(strs, args, pi, fmt). length fmt)") (auto dest: parse_flags_length [OF sym])

text \<open>The strings a program passes: none has a NUL inside, none is longer than an \<open>int\<close>.\<close>

definition c_strings :: "(cint \<Rightarrow> cbyte list) \<Rightarrow> bool" where
  "c_strings strs \<longleftrightarrow> (\<forall>a. 0 \<notin> set (strs a) \<and> length (strs a) < 2 ^ 31)"

lemma convert_eq:
  assumes "c_strings strs"
  shows "convert strs v pp zp w c fb = Some (fb_write fb (conversion strs v pp zp w c))"
proof -
  have "fmtbuf_write_str fb (strs v) (of_nat (length (strs v))) = fb_write fb (strs v)"
    using assms by (intro write_str_eq) (auto simp: c_strings_def)
  moreover have "ucast (ucast (ucast v :: cbyte) :: cint) = (ucast v :: cbyte)"
    by (intro bit_eqI) (auto simp: bit_simps)
  ultimately show ?thesis
    by (simp add: convert_def conversion_def write_char_eq format_val_eq)
qed

definition terminate :: "fmtbuf \<Rightarrow> fmtbuf" where
  "terminate fb = (if room fb \<noteq> 0 then fb\<lparr>out := out fb @ [0]\<rparr> else fb)"

lemma format_to_buf_eq:
  "c_strings strs \<Longrightarrow> format_to_buf strs args pi fmt fb
    = map_option (\<lambda>t. terminate (fb_write fb t)) (format_text strs args pi fmt)"
proof (induction strs args pi fmt fb rule: format_to_buf.induct)
  case (1 strs args pi fb)
  show ?case
    by (simp add: terminate_def)
next
  case (2 strs args pi c fmt fb)
  have byte: "ucast (ucast c :: cint) = c"
    by (intro bit_eqI) (auto simp: bit_simps)
  show ?case
  proof (cases "c = ch CHR ''%''")
    case False
    then show ?thesis
      using 2(1,4) by (simp add: write_char_eq byte fb_write_write option.map_comp comp_def)
  next
    case c: True
    obtain pp zp w ds where f: "parse_flags fmt = (pp, zp, w, ds)"
      by (metis prod_cases4)
    show ?thesis
    proof (cases ds)
      case Nil
      with c f show ?thesis by simp
    next
      case (Cons d rest)
      show ?thesis
      proof (cases "d = ch CHR ''%''")
        case True
        show ?thesis
          using 2(2) [of pp "(zp, w, ds)" zp "(w, ds)" w ds d rest] c f Cons True 2(4)
          by (simp add: write_char_eq sp fb_write_write option.map_comp comp_def)
      next
        case False
        note conv = convert_eq [OF 2(4), of "args pi" pp zp w d fb]
        show ?thesis
          using 2(3) [of pp "(zp, w, ds)" zp "(w, ds)" w ds d rest] c f Cons False 2(4)
          by (simp add: conv fb_write_write option.map_comp comp_def)
      qed
    qed
  qed
qed

lemma out_fb_write: "out (fb_write fb t) = out fb @ take (nat (sint (room fb) - 1)) t"
  by (simp add: fb_write_def Let_def min_def)

lemma room_fb_write: "0 \<le> sint (room fb) \<Longrightarrow> room (fb_write fb t) = 0 \<longleftrightarrow> room fb = 0"
proof -
  assume nonneg: "0 \<le> sint (room fb)"
  have z: "room fb = 0 \<longleftrightarrow> sint (room fb) = 0"
    by (metis of_int_0 of_int_sint scast_id signed_0)
  show ?thesis
  proof (cases "sint (room fb) \<le> 1")
    case True
    then show ?thesis
      by (simp add: fb_write_def Let_def)
  next
    case False
    let ?k = "min (length t) (nat (sint (room fb) - 1))"
    have "sint (room fb - of_nat ?k) = sint (room fb) - int ?k"
      using False by (intro sint_minus_nat) linarith
    moreover have "int ?k < sint (room fb)"
      using False by linarith
    ultimately have "sint (room (fb_write fb t)) \<noteq> 0"
      by (simp add: fb_write_def Let_def)
    then show ?thesis
      using False z by auto
  qed
qed

lemma snprintf_eq:
  assumes "c_strings strs" "0 \<le> sint n"
  shows "snprintf strs n fmt args =
    map_option (\<lambda>t. ((if n = 0 then [] else take (nat (sint n) - 1) t @ [0]), of_nat (length t)))
      (format_text strs args 0 fmt)"
proof -
  let ?fb = "\<lparr>out = [], room = n, flen = 0\<rparr>"
  have r: "room (fb_write ?fb t) = 0 \<longleftrightarrow> n = 0" for t
    using room_fb_write [of ?fb t] assms(2) by simp
  have o: "out (fb_write ?fb t) = take (nat (sint n) - 1) t" for t
  proof -
    have "nat (sint n - 1) = nat (sint n) - 1" by linarith
    then show ?thesis by (simp add: out_fb_write)
  qed
  have f: "flen (fb_write ?fb t) = of_nat (length t)" for t
    by (simp add: fb_write_def Let_def)
  have "(out (terminate (fb_write ?fb t)), flen (terminate (fb_write ?fb t)))
    = ((if n = 0 then [] else take (nat (sint n) - 1) t @ [0]), of_nat (length t))" for t
    using r [of t] o [of t] f [of t] by (cases "n = 0") (simp_all add: terminate_def)
  then show ?thesis
    by (simp add: snprintf_def format_to_buf_eq [OF assms(1)] option.map_comp comp_def)
qed

end
