(* ===== verification/Literals.thy ===== *)
theory Literals
  imports CFormatSpec
begin

text \<open>
  Literals as \<^verbatim>\<open>src/globals.c\<close> reads them: the value of a numeric constant and the
  characters of a string literal.

  A buffer is the bytes before its NUL. Characters are signed, as on the hosts the compiler
  is built on; only bytes below 128 occur in the literals the lexer hands over.
\<close>

section \<open>Numbers\<close>

definition c_int :: "cbyte \<Rightarrow> cint" where
  "c_int c = scast c"

definition char_in :: "char \<Rightarrow> cint \<Rightarrow> char \<Rightarrow> bool" where
  "char_in a c b \<longleftrightarrow> le_s (char_c a) c \<and> le_s c (char_c b)"

fun parse_hex :: "cint \<Rightarrow> cbyte list \<Rightarrow> cint" where
  "parse_hex value [] = value"
| "parse_hex value (c # buffer) =
     (let value = shl value 4;
          value = (if char_in CHR ''0'' (c_int c) CHR ''9'' then value + (c_int c - char_c CHR ''0'') else value);
          c = c_int c OR 32;
          value = (if char_in CHR ''a'' c CHR ''f'' then value + ((c - char_c CHR ''a'') + 10) else value)
      in parse_hex value buffer)"

fun parse_bin :: "cint \<Rightarrow> cbyte list \<Rightarrow> cint" where
  "parse_bin value [] = value"
| "parse_bin value (c # buffer) = parse_bin (shl value 1 + of_bool_c (c = ch CHR ''1'')) buffer"

text \<open>The loop at index \<open>i\<close>, for the rest of the buffer.\<close>

fun parse_num_loop :: "bool \<Rightarrow> nat \<Rightarrow> cint \<Rightarrow> cbyte list \<Rightarrow> cint" where
  "parse_num_loop octal i value [] = value"
| "parse_num_loop octal i value (c # buffer) =
     (if i = 1 \<and> c_int c OR 32 = char_c CHR ''x'' then parse_hex 0 buffer
      else if i = 1 \<and> c_int c OR 32 = char_c CHR ''b'' then parse_bin 0 buffer
      else if octal then parse_num_loop octal (Suc i) (value * 8 + c_int c - char_c CHR ''0'') buffer
      else parse_num_loop octal (Suc i) (value * 10 + c_int c - char_c CHR ''0'') buffer)"

definition parse_numeric_constant :: "cbyte list \<Rightarrow> cint" where
  "parse_numeric_constant buffer = parse_num_loop (buffer \<noteq> [] \<and> hd buffer = ch CHR ''0'') 0 0 buffer"

section \<open>Strings\<close>

definition hex_digit_value :: "cbyte \<Rightarrow> cint" where
  "hex_digit_value c =
     (if char_in CHR ''0'' (c_int c) CHR ''9'' then c_int c - char_c CHR ''0''
      else if char_in CHR ''a'' (c_int c) CHR ''f'' then c_int c - char_c CHR ''a'' + 10
      else if char_in CHR ''A'' (c_int c) CHR ''F'' then c_int c - char_c CHR ''A'' + 10
      else -1)"

definition is_xdigit :: "cbyte \<Rightarrow> bool" where
  "is_xdigit c \<longleftrightarrow> char_in CHR ''0'' (c_int c) CHR ''9'' \<or> char_in CHR ''a'' (c_int c) CHR ''f''
     \<or> char_in CHR ''A'' (c_int c) CHR ''F''"

text \<open>At most \<open>n\<close> more digits: the value and the rest.\<close>

fun hex_escape :: "nat \<Rightarrow> cint \<Rightarrow> cbyte list \<Rightarrow> cint \<times> cbyte list" where
  "hex_escape (Suc n) value (c # input) =
     (if is_xdigit c then hex_escape n (shl value 4 + hex_digit_value c) input else (value, c # input))"
| "hex_escape n value input = (value, input)"

fun oct_escape :: "nat \<Rightarrow> cint \<Rightarrow> cbyte list \<Rightarrow> cint \<times> cbyte list" where
  "oct_escape (Suc n) value (c # input) =
     (if char_in CHR ''0'' (c_int c) CHR ''7''
      then oct_escape n (value * 8 + (c_int c - char_c CHR ''0'')) input else (value, c # input))"
| "oct_escape n value input = (value, input)"

definition simple_escape :: "cbyte \<Rightarrow> cbyte option" where
  "simple_escape c =
     (if c = ch CHR ''a'' then Some 7
      else if c = ch CHR ''b'' then Some 8
      else if c = ch CHR ''f'' then Some 12
      else if c = ch CHR ''e'' then Some 27
      else if c = ch CHR ''n'' then Some 10
      else if c = ch CHR ''r'' then Some 13
      else if c = ch CHR ''t'' then Some 9
      else if c = ch CHR ''v'' then Some 11
      else if c = ch CHR 0x5C then Some (ch CHR 0x5C)
      else if c = ch CHR 0x27 then Some (ch CHR 0x27)
      else if c = ch CHR 0x22 then Some (ch CHR 0x22)
      else if c = ch CHR ''?'' then Some (ch CHR ''?'')
      else None)"

text \<open>
  The results: the characters written before the final NUL, the error value \<open>-1\<close>, or a read
  beyond the NUL of the input, after a backslash at its end.
\<close>

datatype unescaped = Done "cbyte list" | Error | Beyond

text \<open>What follows a backslash: the character written and the rest of the input.\<close>

definition escape :: "cbyte list \<Rightarrow> (unescaped + cbyte \<times> cbyte list)" where
  "escape input =
     (case input of
        [] \<Rightarrow> Inl Beyond
      | c # rest \<Rightarrow>
          (case simple_escape c of
             Some d \<Rightarrow> Inr (d, rest)
           | None \<Rightarrow>
               if c = ch CHR ''x'' then
                 (if rest = [] \<or> \<not> is_xdigit (hd rest) then Inl Error
                  else let (value, rest) = hex_escape 2 0 rest in Inr (ucast value, rest))
               else if char_in CHR ''0'' (c_int c) CHR ''7'' then
                 (let (value, rest) = oct_escape 3 0 input in Inr (ucast value, rest))
               else Inr (c, rest)))"

lemma hex_escape_length: "length (snd (hex_escape n v input)) \<le> length input"
  by (induction n v input rule: hex_escape.induct) auto

lemma oct_escape_length: "length (snd (oct_escape n v input)) \<le> length input"
  by (induction n v input rule: oct_escape.induct) auto

lemma escape_length: "escape input = Inr (d, rest) \<Longrightarrow> length rest < length input"
proof -
  assume e: "escape input = Inr (d, rest)"
  then obtain c input' where i: "input = c # input'"
    by (cases input) (simp_all add: escape_def)
  have "length (snd (oct_escape 3 0 input)) < length input" if "char_in CHR ''0'' (c_int c) CHR ''7''"
    using that oct_escape_length [of 2] by (simp add: i eval_nat_numeral le_imp_less_Suc)
  moreover have "length (snd (hex_escape 2 0 input')) < length input"
    using hex_escape_length [of 2 0 input'] by (simp add: i le_imp_less_Suc)
  ultimately show ?thesis
    using e by (auto simp: escape_def i split: option.splits if_splits prod.splits)
qed

text \<open>The loop, with what has been written.\<close>

function unescape_loop :: "cint \<Rightarrow> cbyte list \<Rightarrow> cbyte list \<Rightarrow> unescaped" where
  "unescape_loop output_size input written =
     (case input of
        [] \<Rightarrow> Done written
      | c # rest \<Rightarrow>
          if \<not> lt_s (of_nat (length written)) (output_size - 1) then Error
          else if c \<noteq> ch CHR 0x5C then unescape_loop output_size rest (written @ [c])
          else (case escape rest of
                  Inl r \<Rightarrow> r
                | Inr (d, rest) \<Rightarrow> unescape_loop output_size rest (written @ [d])))"
  by auto
termination
  by (relation "measure (\<lambda>(n, input, written). length input)") (auto dest: escape_length)

definition unescape_string :: "cbyte list \<Rightarrow> cint \<Rightarrow> unescaped" where
  "unescape_string input output_size = (if output_size = 0 then Error else unescape_loop output_size input [])"

declare unescape_loop.simps [simp del]

section \<open>Reading what was printed\<close>

lemma digit_facts:
  assumes "d < 16"
  shows "is_xdigit (digit d)" "hex_digit_value (digit d) = of_nat d"
    "d < 10 \<Longrightarrow> c_int (digit d) = char_c CHR ''0'' + of_nat d"
    "c_int (digit d) OR 32 \<noteq> char_c CHR ''x''" "d < 10 \<Longrightarrow> c_int (digit d) OR 32 \<noteq> char_c CHR ''b''"
    "parse_hex v (digit d # buffer) = parse_hex (shl v 4 + of_nat d) buffer"
proof -
  have d: "d \<in> set [0..<16]"
    using assms by simp
  have "\<forall>d\<in>set [0..<16]. is_xdigit (digit d) \<and> hex_digit_value (digit d) = of_nat d
      \<and> (d < 10 \<longrightarrow> c_int (digit d) = char_c CHR ''0'' + of_nat d)
      \<and> c_int (digit d) OR 32 \<noteq> char_c CHR ''x'' \<and> (d < 10 \<longrightarrow> c_int (digit d) OR 32 \<noteq> char_c CHR ''b'')"
    by code_simp
  with d show "is_xdigit (digit d)" "hex_digit_value (digit d) = of_nat d"
    "d < 10 \<Longrightarrow> c_int (digit d) = char_c CHR ''0'' + of_nat d"
    "c_int (digit d) OR 32 \<noteq> char_c CHR ''x''" "d < 10 \<Longrightarrow> c_int (digit d) OR 32 \<noteq> char_c CHR ''b''"
    by blast+
  have "\<forall>d\<in>set [0..<16].
      (if char_in CHR ''0'' (c_int (digit d)) CHR ''9'' then c_int (digit d) - char_c CHR ''0'' else 0)
      + (if char_in CHR ''a'' (c_int (digit d) OR 32) CHR ''f''
         then ((c_int (digit d) OR 32) - char_c CHR ''a'') + 10 else 0) = of_nat d"
    by code_simp
  with d have "(if char_in CHR ''0'' (c_int (digit d)) CHR ''9'' then c_int (digit d) - char_c CHR ''0'' else 0)
      + (if char_in CHR ''a'' (c_int (digit d) OR 32) CHR ''f''
         then ((c_int (digit d) OR 32) - char_c CHR ''a'') + 10 else 0) = of_nat d"
    by blast
  moreover have "parse_hex v (c # buffer) = parse_hex (shl v 4
      + ((if char_in CHR ''0'' (c_int c) CHR ''9'' then c_int c - char_c CHR ''0'' else 0)
      + (if char_in CHR ''a'' (c_int c OR 32) CHR ''f'' then ((c_int c OR 32) - char_c CHR ''a'') + 10 else 0))) buffer"
    for c
    by (simp add: Let_def algebra_simps)
  ultimately show "parse_hex v (digit d # buffer) = parse_hex (shl v 4 + of_nat d) buffer"
    by simp
qed

lemma parse_num_snoc:
  assumes "\<forall>x\<in>set xs. \<exists>e<10. x = digit e" "d < 10"
  shows "parse_num_loop oc i v (xs @ [digit d])
    = parse_num_loop oc i v xs * (if oc then 8 else 10) + of_nat d"
  using assms(1)
proof (induction xs arbitrary: i v)
  case Nil
  then show ?case
    using assms(2) digit_facts(3-5) [of d] by simp
next
  case (Cons x xs)
  then obtain e where e: "x = digit e" "e < 10" by auto
  have "\<forall>x\<in>set xs. \<exists>e<10. x = digit e"
    using Cons.prems by simp
  from Cons.IH [OF this] show ?case
    using digit_facts(4,5) [of e] e by (cases oc) simp_all
qed

lemma parse_num_digits:
  assumes "1 < b" "b = (if oc then 8 else 10)"
  shows "parse_num_loop oc i 0 (digits b n) = of_nat n"
  using assms
proof (induction b n rule: digits.induct)
  case (1 b n)
  show ?case
  proof (cases "n = 0")
    case False
    then have d: "digits b n = digits b (n div b) @ [digit (n mod b)]"
      using 1(2) by (subst digits.simps) simp
    have b10: "b \<le> 10" "n mod b < 10"
      using 1(2,3) mod_less_divisor [of b n] by (auto split: if_splits)
    have "\<forall>x\<in>set (digits b (n div b)). \<exists>e<10. x = digit e"
    proof
      fix x
      assume "x \<in> set (digits b (n div b))"
      then obtain e where "e < b" "x = digit e"
        using in_digits [OF 1(2)] by blast
      with b10 show "\<exists>e<10. x = digit e"
        by (intro exI [of _ e]) simp
    qed
    from parse_num_snoc [OF this b10(2), of oc i 0]
    have "parse_num_loop oc i 0 (digits b n) = of_nat (n div b) * of_nat b + of_nat (n mod b)"
      using 1(1) [OF _ 1(2,3)] 1(2) False unfolding d by (simp add: 1(3))
    also have "\<dots> = of_nat (n div b * b + n mod b)"
      by (simp only: of_nat_add of_nat_mult)
    finally show ?thesis
      by (simp only: div_mult_mod_eq)
  qed simp
qed

lemma parse_hex_digits: "parse_hex 0 (digits 16 n) = of_nat n"
proof -
  have app: "parse_hex v (xs @ ys) = parse_hex (parse_hex v xs) ys" for v xs ys
    by (induction v xs rule: parse_hex.induct) (simp_all add: Let_def)
  show ?thesis
  proof (induction n rule: less_induct)
    case (less n)
    show ?case
    proof (cases "n = 0")
      case False
      then have "digits 16 n = digits 16 (n div 16) @ [digit (n mod 16)]"
        by (subst digits.simps) simp
      then have "parse_hex 0 (digits 16 n) = of_nat (n div 16) * 16 + of_nat (n mod 16)"
        using less False by (simp add: app digit_facts(6) push_bit_eq_mult del: parse_hex.simps(2))
      also have "\<dots> = of_nat n"
        by (metis div_mult_mod_eq of_nat_add of_nat_mult of_nat_numeral)
      finally show ?thesis .
    qed simp
  qed
qed

lemma formatted_plain:
  "base \<in> {8, 10, 16} \<Longrightarrow> formatted 0 False base alt v = mark base alt v @ magnitude base v"
proof -
  assume b: "base \<in> {8, 10, 16}"
  have "length (magnitude base v) \<le> 11" "magnitude base v \<noteq> []"
    using buffer_eq(3) [OF b, of v] hd_magnitude(1) [OF b] by (simp_all add: num_text_def)
  moreover have "length (mark base alt v) \<le> 2"
    by (simp add: mark_def minus_sign_def str_def)
  ultimately have "padding 0 (length (mark base alt v) + length (magnitude base v)) = 0"
    by (intro padding_0) auto
  then show ?thesis
    by (simp add: formatted_def Let_def)
qed

text \<open>Bytes written as hexadecimal escapes.\<close>

definition hex_escaped :: "cbyte \<Rightarrow> cbyte list" where
  "hex_escaped c = [ch CHR 0x5C, ch CHR ''x'', digit (unat c div 16), digit (unat c mod 16)]"

lemma escape_hex: "escape (ch CHR ''x'' # digit (unat c div 16) # digit (unat c mod 16) # rest) = Inr (c, rest)"
proof -
  have "unat c < 2 ^ LENGTH(8)"
    by (rule unsigned_less)
  then have d: "unat c div 16 < 16" "unat c mod 16 < 16"
    by (simp_all add: less_mult_imp_div_less)
  have "of_nat (unat c div 16) * 16 + of_nat (unat c mod 16) = (of_nat (unat c div 16 * 16 + unat c mod 16) :: cint)"
    by (simp only: of_nat_add of_nat_mult of_nat_numeral)
  also have "\<dots> = ucast c"
    by (simp only: div_mult_mod_eq of_nat_unat)
  finally have v: "of_nat (unat c div 16) * 16 + of_nat (unat c mod 16) = (ucast c :: cint)" .
  have "hex_escape (Suc (Suc 0)) 0 (digit (unat c div 16) # digit (unat c mod 16) # rest)
      = (shl (of_nat (unat c div 16)) 4 + of_nat (unat c mod 16), rest)"
    by (simp only: hex_escape.simps digit_facts(1,2) [OF d(1)] digit_facts(1,2) [OF d(2)] if_True push_bit_of_0 add_0_left)
  also have "\<dots> = (ucast c, rest)"
    by (simp only: push_bit_eq_mult) (use v in simp)
  finally have "hex_escape 2 0 (digit (unat c div 16) # digit (unat c mod 16) # rest) = (ucast c, rest)"
    by (simp only: numeral_2_eq_2)
  moreover have "simple_escape (ch CHR ''x'') = None"
    by code_simp
  ultimately show ?thesis
    using digit_facts(1) [OF d(1)] by (simp add: escape_def ucast_up_ucast_id is_up)
qed

lemma lt_s_length:
  assumes "int k < sint n"
  shows "lt_s (of_nat k) (n - 1) \<longleftrightarrow> int (Suc k) < sint n"
proof -
  have "sint (n - of_nat 1) = sint n - 1" if "1 < sint n"
    using that by (subst sint_minus_nat) simp_all
  moreover have "sint (n - of_nat 1) = 0" if "sint n = 1"
  proof -
    have "n = of_int (sint n)"
      by simp
    also have "\<dots> = 1"
      by (simp only: that of_int_1)
    finally have "n = 1" .
    then show ?thesis by simp
  qed
  moreover have "sint (of_nat k :: cint) = int k"
  proof -
    have "uint (of_nat k :: cint) = int k"
      using assms sint_range(2) [of n] by (simp add: unsigned_of_nat take_bit_nat_eq_self)
    then show ?thesis
      using assms sint_range(2) [of n] sint_nonneg_uint [of "of_nat k :: cint"]
      by (simp add: signed_of_nat signed_take_bit_int_eq_self)
  qed
  moreover have "sint n = 1 \<or> 1 < sint n"
    using assms by linarith
  ultimately show ?thesis
    using assms by (auto simp: word_sless_alt)
qed

lemma unescape_hex:
  assumes "int (length written + length s) < sint n"
  shows "unescape_loop n (concat (map hex_escaped s)) written = Done (written @ s)"
  using assms
proof (induction s arbitrary: written)
  case Nil
  show ?case
    by (subst unescape_loop.simps) simp
next
  case (Cons c s)
  have "lt_s (of_nat (length written)) (n - 1)"
    using Cons.prems lt_s_length [of "length written" n] by simp
  moreover have "unescape_loop n (concat (map hex_escaped s)) (written @ [c]) = Done ((written @ [c]) @ s)"
    using Cons.prems by (intro Cons.IH) simp
  ultimately show ?case
    by (subst unescape_loop.simps) (simp add: hex_escaped_def escape_hex)
qed

lemma escape_not_done: "escape input \<noteq> Inl (Done s)"
  by (simp add: escape_def split: list.split option.split prod.split)

lemma unescape_bound:
  "unescape_loop n input written = Done s \<Longrightarrow> int (length written) < sint n \<Longrightarrow> int (length s) < sint n"
proof (induction n input written rule: unescape_loop.induct)
  case (1 n input written)
  show ?case
  proof (cases input)
    case Nil
    then show ?thesis
      using 1(3,4) unescape_loop.simps [of n "[]" written] by simp
  next
    case (Cons c rest)
    from 1(3) have run: "(if \<not> lt_s (of_nat (length written)) (n - 1) then Error
        else if c \<noteq> ch CHR 0x5C then unescape_loop n rest (written @ [c])
        else (case escape rest of
                Inl r \<Rightarrow> r | Inr (d, rest) \<Rightarrow> unescape_loop n rest (written @ [d]))) = Done s"
      by (subst (asm) unescape_loop.simps) (simp add: Cons)
    then have lt: "lt_s (of_nat (length written)) (n - 1)"
      by (simp split: if_splits)
    then have room: "int (length (written @ [d])) < sint n" for d
      using lt_s_length [OF 1(4)] by simp
    show ?thesis
    proof (cases "c = ch CHR 0x5C")
      case False
      then show ?thesis
        using 1(1) [OF Cons _ _ _ room] run lt by simp
    next
      case True
      then obtain d rest' where "escape rest = Inr (d, rest')" "unescape_loop n rest' (written @ [d]) = Done s"
        using run lt escape_not_done [of rest s] by (auto split: sum.splits)
      then show ?thesis
        using 1(2) [OF Cons _ _ _ _ _ room] lt True by simp
    qed
  qed
qed

end
