(* ===== verification/LibProps.thy ===== *)
theory LibProps
  imports Literals "HOL-Library.Sublist"
begin

text \<open>
  The properties of the formatted output of \<^verbatim>\<open>lib/c.c\<close> and of the reading of literals in
  \<^verbatim>\<open>src/globals.c\<close>.
\<close>

section \<open>Formatted output\<close>

text \<open>
  C19. The decimal conversion, which divides by shifts and additions only, is right for every
  \<^verbatim>\<open>int\<close>, the smallest one included: from a buffer of zeros it leaves the decimal digits of the
  absolute value, most significant first, with a minus sign before them for a negative number.
\<close>
theorem str_base10_decimal:
  "str_base10 (replicate 16 (digit 0)) val =
     (let ds = minus_sign (lt_s val 0) @ digits 10 (nat \<bar>sint val\<bar>)
      in Some (replicate (16 - length ds) (digit 0) @ ds))"
  by (rule str_base10_eq)

text \<open>
  C15. \<^verbatim>\<open>snprintf\<close> is the formatted text cut off: of the text that the format and the arguments
  denote it writes the first \<open>n - 1\<close> bytes and a NUL, and it returns the length of the whole text;
  it reads beyond the format exactly where the text is undefined.
\<close>
theorem snprintf_text:
  assumes "c_strings strs" "0 < sint n"
  shows "snprintf strs n fmt args =
    (case format_text strs args 0 fmt of
       None \<Rightarrow> None
     | Some t \<Rightarrow> Some (take (nat (sint n) - 1) t @ [0], of_nat (length t)))"
proof -
  have "n \<noteq> 0"
    using assms(2) by auto
  then show ?thesis
    using assms by (simp add: snprintf_eq split: option.split)
qed

lemma c_strings_none: "c_strings (\<lambda>_. [])"
  by (simp add: c_strings_def)

theorem snprintf_text_witness:
  "snprintf (\<lambda>_. []) 6 (str ''%d'') (\<lambda>_. 255) =
    (case format_text (\<lambda>_. []) (\<lambda>_. 255) 0 (str ''%d'') of
       None \<Rightarrow> None
     | Some t \<Rightarrow> Some (take (nat (sint (6 :: cint)) - 1) t @ [0], of_nat (length t)))"
  by (rule snprintf_text) (simp_all add: c_strings_none)

text \<open>
  C20. \<^verbatim>\<open>snprintf\<close> never writes more than \<open>n\<close> bytes, and none at all where \<open>n\<close> is 0.
\<close>
theorem snprintf_bounded:
  assumes "c_strings strs" "0 \<le> sint n" "snprintf strs n fmt args = Some (buf, r)"
  shows "length buf \<le> nat (sint n)"
proof -
  have "0 < sint n" if "n \<noteq> 0"
    using that assms(2) by (metis order_less_le signed_eq_0_iff)
  then show ?thesis
    using assms by (auto simp: snprintf_eq split: if_splits)
qed

theorem snprintf_bounded_witness:
  "length (fst (the (snprintf (\<lambda>_. []) 3 (str ''%d'') (\<lambda>_. 12345)))) \<le> nat (sint (3 :: cint))"
proof -
  have "snprintf (\<lambda>_. []) 3 (str ''%d'') (\<lambda>_. 12345) = Some ([49, 50, 0], 5)"
    by code_simp
  then show ?thesis
    using snprintf_bounded [OF c_strings_none, of 3 "str ''%d''" "\<lambda>_. 12345" "[49, 50, 0]" 5] by simp
qed

section \<open>Literals\<close>

text \<open>
  C16. Reading back what was printed: a number formatted in the alternate form, in base 8 with its
  \<open>0\<close> or in base 16 with its \<open>0x\<close>, is read by \<^verbatim>\<open>parse_numeric_constant\<close> as that number, whatever
  its sign; so is a decimal that is not negative.
\<close>
theorem parse_formatted:
  assumes "base = 8 \<or> base = 16 \<or> base = 10 \<and> 0 \<le> sint v"
  shows "parse_numeric_constant (formatted 0 False base True v) = v"
proof (cases "v = 0")
  case True
  have "parse_numeric_constant [digit 0] = 0"
    by code_simp
  then show ?thesis
    using assms True by (subst formatted_plain) (auto simp: mark_def magnitude_def minus_sign_def)
next
  case False
  have plain: "formatted 0 False base True v = mark base True v @ digits base (if base = 10 then nat \<bar>sint v\<bar> else unat v)"
    using assms False by (subst formatted_plain) (auto simp: magnitude_def)
  have hd_n: "hd (magnitude base v) = digit 0 \<longleftrightarrow> v = 0" "magnitude base v \<noteq> []"
    using assms hd_magnitude [of base v] by auto
  have z: "ch CHR ''0'' = digit 0" "c_int (ch CHR ''0'') OR 32 \<noteq> char_c CHR ''x''" "c_int (ch CHR ''0'') OR 32 \<noteq> char_c CHR ''b''"
    "c_int (ch CHR ''0'') - char_c CHR ''0'' = 0" "c_int (ch CHR ''x'') OR 32 = char_c CHR ''x''"
    by code_simp+
  consider "base = 8" | "base = 16" | "base = 10" "0 \<le> sint v"
    using assms by blast
  then show ?thesis
  proof cases
    case 1
    then have "formatted 0 False base True v = ch CHR ''0'' # digits 8 (unat v)"
      using False plain by (simp add: mark_def str_def)
    then show ?thesis
      using parse_num_digits [of 8 True "Suc 0" "unat v"] z by (simp add: parse_numeric_constant_def)
  next
    case 2
    then have "formatted 0 False base True v = ch CHR ''0'' # ch CHR ''x'' # digits 16 (unat v)"
      using False plain by (simp add: mark_def str_def)
    then show ?thesis
      using parse_hex_digits [of "unat v"] z by (simp add: parse_numeric_constant_def)
  next
    case 3
    then have "formatted 0 False base True v = digits 10 (nat (sint v))"
      using plain by (simp add: mark_def minus_sign_def word_sless_alt)
    moreover have "hd (digits 10 (nat (sint v))) \<noteq> ch CHR ''0''"
      using hd_n 3 False by (simp add: magnitude_def z)
    moreover have "of_nat (nat (sint v)) = v"
      using 3(2) by simp
    ultimately show ?thesis
      using parse_num_digits [of 10 False 0 "nat (sint v)"] by (simp add: parse_numeric_constant_def)
  qed
qed

theorem parse_formatted_witness:
  "parse_numeric_constant (formatted 0 False 16 True (- 2)) = - 2"
  by (rule parse_formatted) simp

text \<open>
  C17. A string in which every byte is written as a hexadecimal escape is unescaped to those
  bytes, if they and the NUL fit into the output.
\<close>
theorem unescape_escaped:
  assumes "int (length s) < sint n"
  shows "unescape_string (concat (map hex_escaped s)) n = Done s"
proof -
  have "n \<noteq> 0"
    using assms by auto
  then show ?thesis
    using unescape_hex [of "[]" s n] assms by (simp add: unescape_string_def)
qed

theorem unescape_escaped_witness: "unescape_string (concat (map hex_escaped [0, 92, 255])) 4 = Done [0, 92, 255]"
  by (rule unescape_escaped) simp

lemma hex_escape_suffix: "suffix (snd (hex_escape n v input)) input"
  by (induction n v input rule: hex_escape.induct) (auto intro: suffix_ConsI)

lemma oct_escape_suffix: "suffix (snd (oct_escape n v input)) input"
  by (induction n v input rule: oct_escape.induct) (auto intro: suffix_ConsI)

lemma escape_suffix: "escape input = Inr (d, rest) \<Longrightarrow> suffix rest input"
  using hex_escape_suffix [of 2 0 "tl input"] oct_escape_suffix [of 3 0 input]
  by (auto simp: escape_def split: list.splits option.splits if_splits prod.splits intro: suffix_ConsI)

lemma escape_beyond: "escape input = Inl Beyond \<Longrightarrow> input = []"
  by (auto simp: escape_def split: list.splits option.splits if_splits prod.splits)

lemma unescape_beyond:
  "unescape_loop n input written = Beyond \<Longrightarrow> \<exists>pre. input = pre @ [ch CHR 0x5C]"
proof (induction n input written rule: unescape_loop.induct)
  case (1 n input written)
  show ?case
  proof (cases input)
    case Nil
    then show ?thesis
      using 1(3) unescape_loop.simps [of n "[]" written] by simp
  next
    case (Cons c rest)
    from 1(3) have run: "lt_s (of_nat (length written)) (n - 1)"
      "(if c \<noteq> ch CHR 0x5C then unescape_loop n rest (written @ [c])
        else (case escape rest of
                Inl r \<Rightarrow> r | Inr (d, rest) \<Rightarrow> unescape_loop n rest (written @ [d]))) = Beyond"
      by (subst (asm) unescape_loop.simps, simp add: Cons split: if_splits)+
    show ?thesis
    proof (cases "c = ch CHR 0x5C")
      case False
      then have "\<exists>pre. rest = pre @ [ch CHR 0x5C]"
        using run by (intro 1(1) [OF Cons]) simp_all
      then show ?thesis
        using Cons by (auto intro: exI [of _ "c # _"])
    next
      case True
      then consider "rest = []"
        | d rest' where "escape rest = Inr (d, rest')" "unescape_loop n rest' (written @ [d]) = Beyond"
        using run escape_beyond [of rest] by (auto split: sum.splits)
      then show ?thesis
      proof cases
        case 1
        then show ?thesis
          using Cons True by simp
      next
        case 2
        then have "\<exists>pre. rest' = pre @ [ch CHR 0x5C]"
          using run True "1.IH"(2) [OF Cons] by simp
        with escape_suffix [OF 2(1)] Cons show ?thesis
          by (auto simp: suffix_def)
      qed
    qed
  qed
qed

text \<open>
  C18. What \<^verbatim>\<open>unescape_string\<close> can do to its buffers: an accepted string leaves room for its NUL
  in the \<open>n\<close> bytes of the output, an output of no bytes is refused, and the input is read past its
  NUL only where it ends in a backslash.
\<close>
theorem unescape_string_results:
  assumes "0 \<le> sint n"
  shows "case unescape_string input n of
      Done s \<Rightarrow> int (length s) < sint n
    | Beyond \<Rightarrow> (\<exists>pre. input = pre @ [ch CHR 0x5C])
    | Error \<Rightarrow> n = 0 \<or> input \<noteq> []"
proof (cases "n = 0")
  case True
  then show ?thesis
    by (simp add: unescape_string_def)
next
  case False
  then have n: "0 < sint n"
    using assms by (metis order_less_le signed_eq_0_iff)
  show ?thesis
    using unescape_bound [of n input "[]"] unescape_beyond [of n input "[]"] unescape_loop.simps [of n "[]" "[]"] n False
    by (auto simp: unescape_string_def split: unescaped.split)
qed

theorem unescape_string_results_witness:
  "case unescape_string (str ''a'' @ [ch CHR 0x5C]) 8 of
      Done s \<Rightarrow> int (length s) < sint (8 :: cint)
    | Beyond \<Rightarrow> (\<exists>pre. str ''a'' @ [ch CHR 0x5C] = pre @ [ch CHR 0x5C])
    | Error \<Rightarrow> (8 :: cint) = 0 \<or> str ''a'' @ [ch CHR 0x5C] \<noteq> []"
  by (rule unescape_string_results) simp

text \<open>
  A backslash at the end of a string that is long enough makes \<^verbatim>\<open>unescape_string\<close> read past the NUL.
\<close>
theorem unescape_trailing_backslash: "unescape_string [ch CHR 0x5C] 8 = Beyond"
  by code_simp

end
