(* ===== verification/Lexer.thy ===== *)
theory Lexer
  imports Symbols Token
begin

text \<open>
  The lexer of \<^verbatim>\<open>src/lexer.c\<close>: from the bytes of a file to tokens with their source
  locations.

  The buffer is the byte array \<open>elements\<close> with the read index \<open>bsize\<close> (the code borrows
  \<open>size\<close> for it); the capacity is the length of the array. \<open>lexer\<close> gathers the state that
  \<open>lex_token\<close> reads and changes: the buffer, the current location, the string pool and the two
  lazily created keyword maps. A literal is the address of an interned string.

  An outcome is a value, a call of \<open>error_at\<close> (which prints the location and aborts), \<open>fatal\<close>
  or \<open>abort()\<close> in the tables, a write beyond \<open>token_buffer\<close> (\<open>Overflow\<close>), a read beyond the
  array (\<open>Beyond\<close>) or a loop that reads the last byte of the array for ever (\<open>Endless\<close>).
  Positions, lines and columns are natural numbers: a file is smaller than 2 GiB.
\<close>

section \<open>Tokens\<close>

record source_location =
  pos :: nat
  len :: nat
  line :: nat
  column :: nat
  filename :: string

record token =
  kind :: token_kind
  literal :: "nat option"
  location :: source_location

record strbuf =
  elements :: string
  bsize :: nat

record lexer =
  buf :: strbuf
  loc :: source_location
  pool :: string_pool
  directive_map :: "token_kind hashmap option"
  keyword_map :: "token_kind hashmap option"

datatype 'a outcome = Val 'a | Error_at string source_location | Fatal string | Abort | Overflow | Beyond | Endless

fun bind_outcome :: "'a outcome \<Rightarrow> ('a \<Rightarrow> 'b outcome) \<Rightarrow> 'b outcome" where
  "bind_outcome (Val x) f = f x"
| "bind_outcome (Error_at msg l) f = Error_at msg l"
| "bind_outcome (Fatal msg) f = Fatal msg"
| "bind_outcome Abort f = Abort"
| "bind_outcome Overflow f = Overflow"
| "bind_outcome Beyond f = Beyond"
| "bind_outcome Endless f = Endless"

lemma bind_outcome_cong [fundef_cong]:
  "m = m' \<Longrightarrow> (\<And>x. m' = Val x \<Longrightarrow> f x = f' x) \<Longrightarrow> bind_outcome m f = bind_outcome m' f'"
  by (cases m') auto

definition or_abort :: "'a option \<Rightarrow> 'a outcome" where
  "or_abort x = (case x of None \<Rightarrow> Abort | Some y \<Rightarrow> Val y)"

section \<open>Characters\<close>

definition is_between :: "char \<Rightarrow> cint \<Rightarrow> char \<Rightarrow> bool" where
  "is_between a c b \<longleftrightarrow> le_s (char_int a) c \<and> le_s c (char_int b)"

definition isdigit :: "cint \<Rightarrow> bool" where
  "isdigit c \<longleftrightarrow> is_between CHR ''0'' c CHR ''9''"

definition isalpha :: "cint \<Rightarrow> bool" where
  "isalpha c \<longleftrightarrow> is_between CHR ''a'' c CHR ''z'' \<or> is_between CHR ''A'' c CHR ''Z''"

definition isalnum :: "cint \<Rightarrow> bool" where
  "isalnum c \<longleftrightarrow> isalpha c \<or> isdigit c"

definition isxdigit :: "cint \<Rightarrow> bool" where
  "isxdigit c \<longleftrightarrow> isdigit c \<or> is_between CHR ''a'' c CHR ''f'' \<or> is_between CHR ''A'' c CHR ''F''"

abbreviation name_char :: "char \<Rightarrow> bool" where
  "name_char c \<equiv> isalnum (char_int c) \<or> c = CHR ''_''"

section \<open>The buffer\<close>

definition peek_char :: "strbuf \<Rightarrow> nat \<Rightarrow> char" where
  "peek_char b offset =
     (if length (elements b) \<le> bsize b + offset then CHR 0x00 else elements b ! (bsize b + offset))"

definition read_char :: "strbuf \<Rightarrow> char \<times> strbuf" where
  "read_char b =
     (if length (elements b) \<le> bsize b + 1 then (elements b ! (length (elements b) - 1), b)
      else (elements b ! (bsize b + 1), b\<lparr>bsize := bsize b + 1\<rparr>))"

abbreviation advance :: "strbuf \<Rightarrow> strbuf" where
  "advance b \<equiv> snd (read_char b)"

section \<open>The keyword maps\<close>

definition directive_mappings :: "(string \<times> token_kind) list" where
  "directive_mappings =
     [(''#define'', T_cppd_define), (''#elif'', T_cppd_elif), (''#else'', T_cppd_else),
      (''#endif'', T_cppd_endif), (''#error'', T_cppd_error), (''#if'', T_cppd_if),
      (''#ifdef'', T_cppd_ifdef), (''#ifndef'', T_cppd_ifndef), (''#include'', T_cppd_include),
      (''#pragma'', T_cppd_pragma), (''#undef'', T_cppd_undef)]"

definition keyword_mappings :: "(string \<times> token_kind) list" where
  "keyword_mappings =
     [(''if'', T_if), (''while'', T_while), (''for'', T_for), (''do'', T_do), (''else'', T_else),
      (''return'', T_return), (''typedef'', T_typedef), (''enum'', T_enum), (''struct'', T_struct),
      (''sizeof'', T_sizeof), (''switch'', T_switch), (''case'', T_case), (''break'', T_break),
      (''default'', T_default), (''continue'', T_continue), (''goto'', T_goto), (''union'', T_union),
      (''const'', T_const)]"

fun put_all :: "(cint \<Rightarrow> bool) \<Rightarrow> (string \<times> token_kind) list \<Rightarrow> token_kind hashmap \<Rightarrow> token_kind hashmap option" where
  "put_all alloc [] m = Some m"
| "put_all alloc ((name, tk) # mappings) m =
     (case hashmap_put alloc m name tk of None \<Rightarrow> None | Some m \<Rightarrow> put_all alloc mappings m)"

text \<open>An initialisation, and then a lookup; the map is created by the first lookup.\<close>

definition lex_init :: "(cint \<Rightarrow> bool) \<Rightarrow> cint \<Rightarrow> (string \<times> token_kind) list
    \<Rightarrow> token_kind hashmap option \<Rightarrow> token_kind hashmap outcome" where
  "lex_init alloc cap mappings the_map =
     (case the_map of
        Some m \<Rightarrow> Val m
      | None \<Rightarrow> or_abort (Option.bind (hashmap_create alloc cap) (put_all alloc mappings)))"

definition lookup_directive :: "(cint \<Rightarrow> bool) \<Rightarrow> string \<Rightarrow> lexer \<Rightarrow> (token_kind \<times> lexer) outcome" where
  "lookup_directive alloc tk s =
     bind_outcome (lex_init alloc 16 directive_mappings (directive_map s)) (\<lambda>m.
       Val (case hashmap_get m tk of Some result \<Rightarrow> result | None \<Rightarrow> T_identifier, s\<lparr>directive_map := Some m\<rparr>))"

definition lookup_keyword :: "(cint \<Rightarrow> bool) \<Rightarrow> string \<Rightarrow> lexer \<Rightarrow> (token_kind \<times> lexer) outcome" where
  "lookup_keyword alloc tk s =
     bind_outcome (lex_init alloc 32 keyword_mappings (keyword_map s)) (\<lambda>m.
       Val (case hashmap_get m tk of Some result \<Rightarrow> result | None \<Rightarrow> T_identifier, s\<lparr>keyword_map := Some m\<rparr>))"

section \<open>Scanning loops\<close>

definition max_token_len :: nat where
  "max_token_len = 256"

text \<open>
  \<open>do { check the length; append ch; read } while (p(ch))\<close>, which collects names, directives
  and hexadecimal, binary and decimal digits: the text, the character that ended it and the
  buffer.
\<close>

function collect :: "(char \<Rightarrow> bool) \<Rightarrow> source_location \<Rightarrow> strbuf \<Rightarrow> string \<Rightarrow> char \<Rightarrow> (string \<times> char \<times> strbuf) outcome" where
  "collect p l b tb c =
     (if max_token_len - 1 \<le> length tb then Error_at ''Token too long'' (l\<lparr>len := length tb\<rparr>)
      else let tb = tb @ [c]; (c, b) = read_char b
           in if p c then collect p l b tb c else Val (tb, c, b))"
  by auto
termination
  by (relation "measure (\<lambda>(p, l, b, tb, c). max_token_len - length tb)") (auto simp: max_token_len_def)

text \<open>The same as a \<open>while\<close> loop, with the check of octal digits if \<open>octal\<close>.\<close>

function collect_digits :: "bool \<Rightarrow> source_location \<Rightarrow> strbuf \<Rightarrow> string \<Rightarrow> char \<Rightarrow> (string \<times> char \<times> strbuf) outcome" where
  "collect_digits octal l b tb c =
     (if \<not> isdigit (char_int c) then Val (tb, c, b)
      else if octal \<and> le_s (char_int CHR ''8'') (char_int c)
      then Error_at ''Invalid octal digit, must be in range 0-7''
             (l\<lparr>pos := pos l + length tb, column := column l + length tb\<rparr>)
      else if max_token_len - 1 \<le> length tb then Error_at ''Token too long'' (l\<lparr>len := length tb\<rparr>)
      else let tb = tb @ [c]; (c, b) = read_char b in collect_digits octal l b tb c)"
  by auto
termination
  by (relation "measure (\<lambda>(octal, l, b, tb, c). max_token_len - length tb)") (auto simp: max_token_len_def)

text \<open>\<open>token_buffer[sz++] = ch\<close> and the final NUL are within the buffer.\<close>

definition store :: "string \<Rightarrow> char \<Rightarrow> string outcome" where
  "store tb c = (if length tb < max_token_len then Val (tb @ [c]) else Overflow)"

definition terminated :: "string \<Rightarrow> string outcome" where
  "terminated tb = (if length tb < max_token_len then Val tb else Overflow)"

function collect_string :: "source_location \<Rightarrow> strbuf \<Rightarrow> string \<Rightarrow> bool \<Rightarrow> char \<Rightarrow> (string \<times> strbuf) outcome" where
  "collect_string l b tb special c =
     (if c = CHR 0x22 \<and> \<not> special then Val (tb, b)
      else if \<not> (0 < length tb \<and> tb ! (length tb - 1) = CHR 0x5C) \<and> max_token_len - 1 \<le> length tb
      then Error_at ''String literal too long'' (l\<lparr>len := length tb + 1\<rparr>)
      else bind_outcome (store tb c) (\<lambda>tb.
             let special = (c = CHR 0x5C); (c, b) = read_char b in collect_string l b tb special c))"
  by auto
termination
  by (relation "measure (\<lambda>(l, b, tb, special, c). max_token_len - length tb)") (auto simp: store_def split: if_splits)

text \<open>The characters after a backslash in a character literal.\<close>

function collect_escaped :: "strbuf \<Rightarrow> string \<Rightarrow> char \<Rightarrow> (string \<times> char \<times> strbuf) outcome" where
  "collect_escaped b tb c =
     bind_outcome (store tb c) (\<lambda>tb.
       let (c, b) = read_char b
       in if c \<noteq> CHR 0x00 \<and> c \<noteq> CHR 0x27 then collect_escaped b tb c else Val (tb, c, b))"
  by auto
termination
  by (relation "measure (\<lambda>(b, tb, c). max_token_len - length tb)") (auto simp: store_def split: if_splits)

text \<open>\<open>while (read_char(buf) == ' ') sz++;\<close>\<close>

function collect_spaces :: "strbuf \<Rightarrow> nat \<Rightarrow> (nat \<times> strbuf) outcome" where
  "collect_spaces b sz =
     (let (c, b1) = read_char b
      in if c \<noteq> CHR '' '' then Val (sz, b1)
         else if bsize b1 \<le> bsize b then Endless
         else collect_spaces b1 (sz + 1))"
  by auto
termination
  by (relation "measure (\<lambda>(b, sz). length (elements b) - bsize b)") (auto simp: read_char_def split: if_splits)

text \<open>The comments, which are read through the array at \<open>p\<close>.\<close>

function block_comment :: "string \<Rightarrow> nat \<Rightarrow> source_location \<Rightarrow> (nat \<times> source_location) outcome" where
  "block_comment els p l =
     (let p = p + 1; l = l\<lparr>column := column l + 1\<rparr>
      in if length els \<le> p then Beyond
         else let star = (els ! p = CHR ''*'');
                  p1 = (if star then p + 1 else p);
                  l = (if star then l\<lparr>column := column l + 1\<rparr> else l)
              in if length els \<le> p1 then Beyond
                 else let c = els ! p1
                      in if star \<and> c = CHR ''/'' then Val (p1 + 1, l\<lparr>column := column l + 2\<rparr>)
                         else let l = (if c = CHR 0x0A then l\<lparr>line := line l + 1, column := 1\<rparr> else l)
                              in if c \<noteq> CHR 0x00 then block_comment els p1 l
                                 else Error_at ''Unenclosed C-style comment'' l)"
  by auto
termination
  by (relation "measure (\<lambda>(els, p, l). length els - p)") (auto split: if_splits)

function line_comment :: "string \<Rightarrow> nat \<Rightarrow> nat outcome" where
  "line_comment els p =
     (let p = p + 1
      in if length els \<le> p then Beyond
         else let c = els ! p
              in if c \<noteq> CHR 0x00 \<and> c \<noteq> CHR 0x0D \<and> c \<noteq> CHR 0x0A then line_comment els p else Val p)"
  by auto
termination
  by (relation "measure (\<lambda>(els, p). length els - p)") auto

declare collect.simps [simp del] collect_digits.simps [simp del] collect_string.simps [simp del]
  collect_escaped.simps [simp del] collect_spaces.simps [simp del] block_comment.simps [simp del]
  line_comment.simps [simp del]

section \<open>One token\<close>

definition new_token :: "token_kind \<Rightarrow> source_location \<Rightarrow> nat \<Rightarrow> token" where
  "new_token k l n = \<lparr>kind = k, literal = None, location = l\<lparr>len := n\<rparr>\<rparr>"

text \<open>A token of \<open>n\<close> characters, at the location reached, which then moves on.\<close>

definition emit_token :: "token_kind \<Rightarrow> nat \<Rightarrow> strbuf \<Rightarrow> lexer \<Rightarrow> token \<times> lexer" where
  "emit_token k n b s =
     (new_token k (loc s) n, s\<lparr>buf := b, loc := (loc s)\<lparr>column := column (loc s) + n\<rparr>\<rparr>)"

definition emit_literal :: "(cint \<Rightarrow> bool) \<Rightarrow> token_kind \<Rightarrow> nat \<Rightarrow> string \<Rightarrow> strbuf \<Rightarrow> lexer \<Rightarrow> (token \<times> lexer) outcome" where
  "emit_literal alloc k n tb b s =
     bind_outcome (or_abort (intern_string alloc (pool s) tb)) (\<lambda>(a, p).
       let (t, s) = emit_token k n b s in Val (t\<lparr>literal := Some a\<rparr>, s\<lparr>pool := p\<rparr>))"

definition lex_directive :: "(cint \<Rightarrow> bool) \<Rightarrow> lexer \<Rightarrow> (token \<times> lexer) outcome" where
  "lex_directive alloc s =
     (if column (loc s) \<noteq> 1 then Error_at ''Directive must be on the start of line'' (loc s)
      else bind_outcome (collect (\<lambda>c. name_char c) (loc s) (buf s) [] CHR ''#'') (\<lambda>(tb, _, b).
        bind_outcome (lookup_directive alloc tb s) (\<lambda>(k, s).
          if k = T_identifier then Error_at ''Unsupported directive'' ((loc s)\<lparr>len := length tb\<rparr>)
          else Val (emit_token k (length tb) b s))))"

definition lex_newline :: "lexer \<Rightarrow> token \<times> lexer" where
  "lex_newline s =
     (new_token T_newline (loc s) 1,
      s\<lparr>buf := advance (buf s), loc := (loc s)\<lparr>line := line (loc s) + 1, column := 1\<rparr>\<rparr>)"

text \<open>After a slash: a comment leads back to the start of \<open>lex_token\<close>, which is \<open>Inl\<close>.\<close>

definition lex_slash :: "lexer \<Rightarrow> (lexer + token \<times> lexer) outcome" where
  "lex_slash s =
     (let (c, b) = read_char (buf s)
      in if c = CHR ''*'' then
           bind_outcome (block_comment (elements b) (bsize b) (loc s)) (\<lambda>(p, l).
             Val (Inl (s\<lparr>buf := b\<lparr>bsize := p\<rparr>, loc := l\<rparr>)))
         else if c = CHR ''/'' then
           bind_outcome (line_comment (elements b) (bsize b)) (\<lambda>p.
             Val (Inl (s\<lparr>buf := b\<lparr>bsize := p\<rparr>,
               loc := (loc s)\<lparr>column := column (loc s) + (p - bsize b + 1)\<rparr>\<rparr>)))
         else if c = CHR ''='' then Val (Inr (emit_token T_divideeq 2 (advance b) s))
         else Val (Inr (emit_token T_divide 1 b s)))"

definition lex_spaces :: "lexer \<Rightarrow> (token \<times> lexer) outcome" where
  "lex_spaces s = bind_outcome (collect_spaces (buf s) 1) (\<lambda>(sz, b). Val (emit_token T_whitespace sz b s))"

definition lex_number :: "(cint \<Rightarrow> bool) \<Rightarrow> char \<Rightarrow> lexer \<Rightarrow> (token \<times> lexer) outcome" where
  "lex_number alloc c0 s =
     (let (c, b) = read_char (buf s); tb = [c0]
      in bind_outcome
           (if c0 = CHR ''0'' \<and> char_int c OR 32 = char_int CHR ''x'' then
              (let tb = tb @ [c]; (c, b) = read_char b
               in if \<not> isxdigit (char_int c)
                  then Error_at ''Invalid hex literal: expected hex digit after 0x'' ((loc s)\<lparr>len := 3\<rparr>)
                  else collect (\<lambda>c. isxdigit (char_int c)) (loc s) b tb c)
            else if c0 = CHR ''0'' \<and> char_int c OR 32 = char_int CHR ''b'' then
              (let tb = tb @ [c]; (c, b) = read_char b
               in if c \<noteq> CHR ''0'' \<and> c \<noteq> CHR ''1''
                  then Error_at ''Binary literal expects 0 or 1 after 0b'' ((loc s)\<lparr>len := 3\<rparr>)
                  else collect (\<lambda>c. c = CHR ''0'' \<or> c = CHR ''1'') (loc s) b tb c)
            else collect_digits (c0 = CHR ''0'') (loc s) b tb c)
           (\<lambda>(tb, _, b). emit_literal alloc T_numeric (length tb) tb b s))"

definition lex_string :: "(cint \<Rightarrow> bool) \<Rightarrow> lexer \<Rightarrow> (token \<times> lexer) outcome" where
  "lex_string alloc s =
     (let (c, b) = read_char (buf s)
      in bind_outcome (collect_string (loc s) b [] False c) (\<lambda>(tb, b).
           bind_outcome (terminated tb) (\<lambda>tb.
             emit_literal alloc T_string (length tb + 2) tb (advance b) s)))"

definition lex_char :: "(cint \<Rightarrow> bool) \<Rightarrow> lexer \<Rightarrow> (token \<times> lexer) outcome" where
  "lex_char alloc s =
     (let (c, b) = read_char (buf s)
      in bind_outcome
           (if c = CHR 0x5C then (let (c1, b) = read_char b in collect_escaped b [c] c1)
            else (let (c1, b) = read_char b in Val ([c], c1, b)))
           (\<lambda>(tb, c, b).
              bind_outcome (terminated tb) (\<lambda>tb.
                if c \<noteq> CHR 0x27 then Error_at ''Unenclosed character literal'' ((loc s)\<lparr>len := 2\<rparr>)
                else emit_literal alloc T_char (length tb + 2) tb (advance b) s)))"

text \<open>The punctuators: kind, length and the buffer after it.\<close>

definition lex_punctuator :: "char \<Rightarrow> strbuf \<Rightarrow> (token_kind \<times> nat \<times> strbuf) option" where
  "lex_punctuator ch b0 =
     (let (c, b) = read_char b0
      in if ch = CHR ''('' then Some (T_open_bracket, 1, b)
         else if ch = CHR '')'' then Some (T_close_bracket, 1, b)
         else if ch = CHR ''{'' then Some (T_open_curly, 1, b)
         else if ch = CHR ''}'' then Some (T_close_curly, 1, b)
         else if ch = CHR ''['' then Some (T_open_square, 1, b)
         else if ch = CHR '']'' then Some (T_close_square, 1, b)
         else if ch = CHR '','' then Some (T_comma, 1, b)
         else if ch = CHR ''^'' then
           (if c = CHR ''='' then Some (T_xoreq, 2, advance b) else Some (T_bit_xor, 1, b))
         else if ch = CHR ''~'' then Some (T_bit_not, 1, b)
         else None)"

definition lex_operator :: "char \<Rightarrow> strbuf \<Rightarrow> (token_kind \<times> nat \<times> strbuf) option" where
  "lex_operator ch b0 =
     (let (c, b) = read_char b0
      in if ch = CHR ''*'' then
           (if c = CHR ''='' then Some (T_asteriskeq, 2, advance b) else Some (T_asterisk, 1, b))
         else if ch = CHR ''&'' then
           (if c = CHR ''&'' then Some (T_log_and, 2, advance b)
            else if c = CHR ''='' then Some (T_andeq, 2, advance b)
            else Some (T_ampersand, 1, b))
         else if ch = CHR ''|'' then
           (if c = CHR ''|'' then Some (T_log_or, 2, advance b)
            else if c = CHR ''='' then Some (T_oreq, 2, advance b)
            else Some (T_bit_or, 1, b))
         else if ch = CHR ''<'' then
           (if c = CHR ''='' then Some (T_le, 2, advance b)
            else if c = CHR ''<'' then
              (let (c, b) = read_char b
               in if c = CHR ''='' then Some (T_lshifteq, 3, advance b) else Some (T_lshift, 2, b))
            else Some (T_lt, 1, b))
         else if ch = CHR ''%'' then
           (if c = CHR ''='' then Some (T_modeq, 2, advance b) else Some (T_mod, 1, b))
         else if ch = CHR ''>'' then
           (if c = CHR ''='' then Some (T_ge, 2, advance b)
            else if c = CHR ''>'' then
              (let (c, b) = read_char b
               in if c = CHR ''='' then Some (T_rshifteq, 3, advance b) else Some (T_rshift, 2, b))
            else Some (T_gt, 1, b))
         else if ch = CHR ''!'' then
           (if c = CHR ''='' then Some (T_noteq, 2, advance b) else Some (T_log_not, 1, b))
         else if ch = CHR ''.'' then
           (if c = CHR ''.'' \<and> peek_char b 1 = CHR ''.'' then Some (T_elipsis, 3, b\<lparr>bsize := bsize b + 2\<rparr>)
            else Some (T_dot, 1, b))
         else if ch = CHR ''-'' then
           (if c = CHR ''>'' then Some (T_arrow, 2, advance b)
            else if c = CHR ''-'' then Some (T_decrement, 2, advance b)
            else if c = CHR ''='' then Some (T_minuseq, 2, advance b)
            else Some (T_minus, 1, b))
         else if ch = CHR ''+'' then
           (if c = CHR ''+'' then Some (T_increment, 2, advance b)
            else if c = CHR ''='' then Some (T_pluseq, 2, advance b)
            else Some (T_plus, 1, b))
         else if ch = CHR '';'' then Some (T_semicolon, 1, b)
         else if ch = CHR ''?'' then Some (T_question, 1, b)
         else if ch = CHR '':'' then Some (T_colon, 1, b)
         else if ch = CHR ''='' then
           (if c = CHR ''='' then Some (T_eq, 2, advance b) else Some (T_assign, 1, b))
         else None)"

text \<open>The fast path for keywords, by the length and the first characters.\<close>

definition common_keyword :: "string \<Rightarrow> token_kind" where
  "common_keyword tb =
     (let sz = length tb
      in if sz = 2 then
           (if tb ! 0 = CHR ''i'' \<and> tb ! 1 = CHR ''f'' then T_if
            else if tb ! 0 = CHR ''d'' \<and> tb ! 1 = CHR ''o'' then T_do else T_identifier)
         else if sz = 3 then
           (if tb ! 0 = CHR ''f'' \<and> tb ! 1 = CHR ''o'' \<and> tb ! 2 = CHR ''r'' then T_for else T_identifier)
         else if sz = 4 then
           (if tb ! 0 = CHR ''e'' then
              (if tb = ''else'' then T_else else if tb = ''enum'' then T_enum else T_identifier)
            else if tb = ''case'' then T_case
            else if tb = ''goto'' then T_goto else T_identifier)
         else if sz = 5 then
           (if tb ! 0 = CHR ''w'' \<and> tb = ''while'' then T_while
            else if tb ! 0 = CHR ''b'' \<and> tb = ''break'' then T_break
            else if tb ! 0 = CHR ''u'' \<and> tb = ''union'' then T_union
            else if tb ! 0 = CHR ''c'' \<and> tb = ''const'' then T_const else T_identifier)
         else if sz = 6 then
           (if tb ! 0 = CHR ''r'' \<and> tb = ''return'' then T_return
            else if tb ! 0 = CHR ''s'' then
              (if tb = ''struct'' then T_struct else if tb = ''switch'' then T_switch
               else if tb = ''sizeof'' then T_sizeof else T_identifier)
            else T_identifier)
         else if sz = 7 then
           (if tb = ''typedef'' then T_typedef else if tb = ''default'' then T_default else T_identifier)
         else if sz = 8 then (if tb = ''continue'' then T_continue else T_identifier)
         else T_identifier)"

definition lex_name :: "(cint \<Rightarrow> bool) \<Rightarrow> char \<Rightarrow> lexer \<Rightarrow> (token \<times> lexer) outcome" where
  "lex_name alloc ch s =
     bind_outcome (collect (\<lambda>c. name_char c) (loc s) (buf s) [] ch) (\<lambda>(tb, _, b).
       bind_outcome
         (if common_keyword tb = T_identifier then lookup_keyword alloc tb s else Val (common_keyword tb, s))
         (\<lambda>(k, s). emit_literal alloc k (length tb) tb b s))"

text \<open>\<open>lex_token\<close> up to its recursive calls, which follow a comment.\<close>

definition lex_step :: "(cint \<Rightarrow> bool) \<Rightarrow> lexer \<Rightarrow> (lexer + token \<times> lexer) outcome" where
  "lex_step alloc s0 =
     (let ch = peek_char (buf s0) 0;
          s = s0\<lparr>loc := (loc s0)\<lparr>pos := bsize (buf s0)\<rparr>\<rparr>;
          done = (\<lambda>r. bind_outcome r (\<lambda>t. Val (Inr t)))
      in if ch = CHR ''#'' then done (lex_directive alloc s)
         else if ch = CHR 0x5C then Val (Inr (emit_token T_backslash 1 (advance (buf s)) s))
         else if ch = CHR 0x0A then Val (Inr (lex_newline s))
         else if ch = CHR ''/'' then lex_slash s
         else if ch = CHR '' '' then done (lex_spaces s)
         else if ch = CHR 0x09 then Val (Inr (emit_token T_tab 1 (advance (buf s)) s))
         else if ch = CHR 0x00 then Val (Inr (emit_token T_eof 1 (advance (buf s)) s))
         else if isdigit (char_int ch) then done (lex_number alloc ch s)
         else if ch = CHR 0x22 then done (lex_string alloc s)
         else if ch = CHR 0x27 then done (lex_char alloc s)
         else case lex_punctuator ch (buf s) of
           Some (k, n, b) \<Rightarrow> Val (Inr (emit_token k n b s))
         | None \<Rightarrow>
           (case lex_operator ch (buf s) of
              Some (k, n, b) \<Rightarrow> Val (Inr (emit_token k n b s))
            | None \<Rightarrow>
                if name_char ch then done (lex_name alloc ch s)
                else Error_at ''Unexpected token'' (loc s)))"

text \<open>A comment moves the read index forward, within the array.\<close>

lemma block_comment_end: "block_comment els p l = Val (p', l') \<Longrightarrow> p + 2 < p' \<and> p' \<le> length els"
proof (induction "length els - p" arbitrary: p l rule: less_induct)
  case less
  from less.prems show ?case
    by (subst (asm) block_comment.simps) (auto simp: Let_def split: if_splits dest!: less.hyps [rotated])
qed

lemma line_comment_end: "line_comment els p = Val p' \<Longrightarrow> p < p' \<and> p' < length els"
proof (induction "length els - p" arbitrary: p rule: less_induct)
  case less
  from less.prems show ?case
    by (subst (asm) line_comment.simps) (auto simp: Let_def split: if_splits dest!: less.hyps [rotated])
qed

lemma bind_Val: "bind_outcome m f = Val y \<longleftrightarrow> (\<exists>x. m = Val x \<and> f x = Val y)"
  by (cases m) auto

lemma lex_slash_skip:
  assumes "lex_slash s = Val (Inl s')"
  shows "elements (buf s') = elements (buf s)" "bsize (buf s) < bsize (buf s')" "bsize (buf s') \<le> length (elements (buf s))"
proof -
  obtain c b where r: "read_char (buf s) = (c, b)" by fastforce
  then have b: "elements b = elements (buf s)" "bsize (buf s) \<le> bsize b"
    by (auto simp: read_char_def split: if_splits)
  show "elements (buf s') = elements (buf s)" "bsize (buf s) < bsize (buf s')" "bsize (buf s') \<le> length (elements (buf s))"
    using assms b by (auto simp: lex_slash_def r bind_Val split: if_splits dest!: block_comment_end line_comment_end)
qed

lemma lex_step_skip:
  assumes "lex_step alloc s = Val (Inl s')"
  shows "elements (buf s') = elements (buf s)" "bsize (buf s) < bsize (buf s')" "bsize (buf s') \<le> length (elements (buf s))"
proof -
  have "lex_slash (s\<lparr>loc := (loc s)\<lparr>pos := bsize (buf s)\<rparr>\<rparr>) = Val (Inl s')"
    using assms by (auto simp: lex_step_def Let_def bind_Val split: if_splits option.splits)
  from lex_slash_skip [OF this]
  show "elements (buf s') = elements (buf s)" "bsize (buf s) < bsize (buf s')" "bsize (buf s') \<le> length (elements (buf s))"
    by simp_all
qed

lemma lex_skip_measure:
  "lex_step alloc s = Val (Inl s')
    \<Longrightarrow> length (elements (buf s')) - bsize (buf s') < length (elements (buf s)) - bsize (buf s)"
  using lex_step_skip [of alloc s s'] by simp

function lex_token :: "(cint \<Rightarrow> bool) \<Rightarrow> lexer \<Rightarrow> (token \<times> lexer) outcome" where
  "lex_token alloc s =
     bind_outcome (lex_step alloc s) (\<lambda>r. case r of Inl s \<Rightarrow> lex_token alloc s | Inr t \<Rightarrow> Val t)"
  by auto
termination
  by (relation "measure (\<lambda>(alloc, s). length (elements (buf s)) - bsize (buf s))")
    (auto dest!: lex_skip_measure)

declare lex_token.simps [simp del]

end
