(* ===== verification/LexSpec.thy ===== *)
theory LexSpec
  imports Lexer
begin

text \<open>
  What the lexer reads: the text from the read index to the final NUL, the spelling of every
  kind of token, and the scanning loops as functions of the text.
\<close>

section \<open>Characters\<close>

definition digit_chars :: string where
  "digit_chars = ''0123456789''"

definition alpha_chars :: string where
  "alpha_chars = ''abcdefghijklmnopqrstuvwxyzABCDEFGHIJKLMNOPQRSTUVWXYZ''"

lemma sint_char:
  assumes "n < 256"
  shows "sint (sext 8 n) = (if n < 128 then int n else int n - 256)"
proof -
  have "sint (of_int (int n) :: cint) = int n" "sint (of_int (int n - 256) :: cint) = int n - 256"
    using assms by (simp_all add: signed_of_int signed_take_bit_int_eq_self del: of_int_of_nat_eq of_int_diff)
  then show ?thesis
    by (simp add: sext_def)
qed

lemma is_between_iff:
  assumes "(of_char a :: nat) < 128" "(of_char b :: nat) < 128"
  shows "is_between a (char_int c) b \<longleftrightarrow> c \<in> set (map char_of [of_char a..<Suc (of_char b)])"
proof -
  obtain n :: nat where n: "of_char c = n" "n < 256"
    using nat_of_char_less_256 [of c] by blast
  have "is_between a (char_int c) b \<longleftrightarrow> of_char a \<le> n \<and> n \<le> (of_char b :: nat)"
    using assms n(2) by (cases "n < 128") (simp_all add: is_between_def char_int_def word_sle_eq sint_char n(1))
  then have "is_between a (char_int c) b \<longleftrightarrow> of_char a \<le> (of_char c :: nat) \<and> of_char c \<le> (of_char b :: nat)"
    by (simp only: n(1))
  also have "\<dots> \<longleftrightarrow> (of_char c :: nat) \<in> set [of_char a..<Suc (of_char b)]"
    by (simp only: set_upt atLeastLessThan_iff less_Suc_eq_le)
  also have "\<dots> \<longleftrightarrow> c \<in> set (map char_of [of_char a..<Suc (of_char b)])"
  proof -
    have "of_char (char_of k :: char) = k" if "k \<in> set [of_char a..<Suc (of_char b)]" for k :: nat
    proof -
      have "k < 256"
        using that assms(2) by (simp only: set_upt atLeastLessThan_iff) linarith
      then show ?thesis
        by (simp add: of_char_of)
    qed
    then have "c \<in> char_of ` set [of_char a..<Suc (of_char b)] \<Longrightarrow> (of_char c :: nat) \<in> set [of_char a..<Suc (of_char b)]"
      by (metis imageE)
    moreover have "(of_char c :: nat) \<in> set [of_char a..<Suc (of_char b)] \<Longrightarrow> c \<in> char_of ` set [of_char a..<Suc (of_char b)]"
      by (rule image_eqI [of _ _ "of_char c"]) simp_all
    ultimately show ?thesis
      by (metis list.set_map)
  qed
  finally show ?thesis .
qed

lemma char_ranges:
  "map char_of [of_char CHR ''0''..<Suc (of_char CHR ''9'')] = digit_chars"
  "map char_of [of_char CHR ''a''..<Suc (of_char CHR ''f'')] = ''abcdef''"
  "map char_of [of_char CHR ''A''..<Suc (of_char CHR ''F'')] = ''ABCDEF''"
  "map char_of [of_char CHR ''a''..<Suc (of_char CHR ''z'')] @ map char_of [of_char CHR ''A''..<Suc (of_char CHR ''Z'')]
    = alpha_chars"
  by code_simp+

lemma char_classes:
  "isdigit (char_int c) \<longleftrightarrow> c \<in> set digit_chars"
  "isalnum (char_int c) \<longleftrightarrow> c \<in> set digit_chars \<or> c \<in> set alpha_chars"
  "isxdigit (char_int c) \<longleftrightarrow> c \<in> set digit_chars \<or> c \<in> set ''abcdefABCDEF''"
proof -
  have "of_char CHR ''0'' < (128 :: nat)" "of_char CHR ''9'' < (128 :: nat)" "of_char CHR ''a'' < (128 :: nat)"
    "of_char CHR ''z'' < (128 :: nat)" "of_char CHR ''A'' < (128 :: nat)" "of_char CHR ''Z'' < (128 :: nat)"
    "of_char CHR ''f'' < (128 :: nat)" "of_char CHR ''F'' < (128 :: nat)"
    by simp_all
  note between = is_between_iff [OF this(1,2), of c, unfolded char_ranges(1)]
    is_between_iff [OF this(3,4), of c] is_between_iff [OF this(5,6), of c]
    is_between_iff [OF this(3,7), of c, unfolded char_ranges(2)]
    is_between_iff [OF this(5,8), of c, unfolded char_ranges(3)]
  show d: "isdigit (char_int c) \<longleftrightarrow> c \<in> set digit_chars"
    unfolding isdigit_def by (rule between(1))
  show "isalnum (char_int c) \<longleftrightarrow> c \<in> set digit_chars \<or> c \<in> set alpha_chars"
    unfolding isalnum_def isalpha_def d between(2,3) char_ranges(4) [symmetric] set_append by blast
  show "isxdigit (char_int c) \<longleftrightarrow> c \<in> set digit_chars \<or> c \<in> set ''abcdefABCDEF''"
    unfolding isxdigit_def d between(4,5) by auto
qed

section \<open>The text that is left\<close>

definition text_at :: "strbuf \<Rightarrow> string \<Rightarrow> bool" where
  "text_at b u \<longleftrightarrow> drop (bsize b) (elements b) = u @ [CHR 0x00] \<and> CHR 0x00 \<notin> set u"

definition forward :: "nat \<Rightarrow> strbuf \<Rightarrow> strbuf" where
  "forward n b = b\<lparr>bsize := bsize b + n\<rparr>"

abbreviation next_char :: "string \<Rightarrow> char" where
  "next_char u \<equiv> (case u of [] \<Rightarrow> CHR 0x00 | c # _ \<Rightarrow> c)"

lemma forward_simps [simp]:
  "forward 0 b = b" "forward m (forward n b) = forward (n + m) b" "bsize (forward n b) = bsize b + n"
  "elements (forward n b) = elements b"
  by (simp_all add: forward_def)

lemma text_at_length: "text_at b u \<Longrightarrow> length (elements b) = bsize b + length u + 1"
  by (drule arg_cong [of _ _ length, OF text_at_def [THEN iffD1, THEN conjunct1]]) simp

lemma text_at_nth: "text_at b u \<Longrightarrow> k \<le> length u \<Longrightarrow> elements b ! (bsize b + k) = (u @ [CHR 0x00]) ! k"
proof -
  assume t: "text_at b u" "k \<le> length u"
  then have "drop (bsize b) (elements b) ! k = (u @ [CHR 0x00]) ! k"
    by (simp add: text_at_def)
  then show ?thesis
    using text_at_length [OF t(1)] by simp
qed

lemma text_at_forward: "text_at b (v @ u) \<Longrightarrow> text_at (forward (length v) b) u"
proof -
  assume t: "text_at b (v @ u)"
  have "drop (length v + bsize b) (elements b) = drop (length v) ((v @ u) @ [CHR 0x00])"
    using t by (metis drop_drop text_at_def)
  then show ?thesis
    using t by (simp add: text_at_def add.commute)
qed

lemma peek_char_text: "text_at b u \<Longrightarrow> peek_char b n = next_char (drop n u)"
proof (cases "n < length u")
  case True
  assume "text_at b u"
  with True show ?thesis
    using text_at_nth [of b u n] text_at_length [of b u]
    by (cases "drop n u") (auto simp: peek_char_def nth_append nth_via_drop)
next
  case False
  assume t: "text_at b u"
  show ?thesis
  proof (cases "n = length u")
    case True
    then show ?thesis
      using text_at_nth [OF t, of n] by (simp add: peek_char_def)
  next
    case False
    then show ?thesis
      using \<open>\<not> n < length u\<close> text_at_length [OF t] by (simp add: peek_char_def)
  qed
qed

lemma read_char_text: "text_at b (c # u) \<Longrightarrow> read_char b = (next_char u, forward 1 b)"
proof -
  assume t: "text_at b (c # u)"
  then show ?thesis
    using text_at_nth [OF t, of 1] text_at_length [OF t]
    by (cases u) (simp_all add: read_char_def forward_def)
qed

lemma read_char_end: "text_at b [] \<Longrightarrow> read_char b = (CHR 0x00, b)"
  using text_at_nth [of b "[]" 0] text_at_length [of b "[]"] by (simp add: read_char_def)

lemma text_at_step: "text_at b (c # u) \<Longrightarrow> text_at (forward 1 b) u"
  using text_at_forward [of b "[c]" u] by simp

section \<open>The scanning loops\<close>

lemma collect_text:
  assumes "text_at b (c # u)" "\<not> p (CHR 0x00)"
  shows "collect p l b tb c =
    (let w = takeWhile p u
     in if max_token_len \<le> length tb + 1 + length w
        then Error_at ''Token too long'' (l\<lparr>len := max (length tb) (max_token_len - 1)\<rparr>)
        else Val (tb @ c # w, next_char (drop (length w) u), forward (1 + length w) b))"
  using assms(1)
proof (induction u arbitrary: b tb c)
  case Nil
  then show ?case
    using assms(2) by (subst collect.simps) (auto simp: read_char_text max_token_len_def)
next
  case (Cons d u)
  show ?case
    using Cons.IH [OF text_at_step [OF Cons.prems], of "tb @ [c]"] Cons.prems
    by (subst collect.simps) (auto simp: read_char_text max_token_len_def Let_def)
qed

lemma collect_digits_text:
  assumes "text_at b u" "tb \<noteq> []"
  shows "case collect_digits octal l b tb (next_char u) of
     Val (tb', c', b') \<Rightarrow> (\<exists>w u'. u = w @ u' \<and> tb' = tb @ w \<and> (\<forall>c\<in>set w. c \<in> set digit_chars)
        \<and> next_char u' \<notin> set digit_chars \<and> c' = next_char u' \<and> b' = forward (length w) b)
   | Error_at _ _ \<Rightarrow> True
   | _ \<Rightarrow> False"
  using assms
proof (induction u arbitrary: b tb)
  case Nil
  then show ?case
    by (subst collect_digits.simps) (simp add: char_classes digit_chars_def)
next
  case (Cons c u)
  show ?case
  proof (cases "isdigit (char_int c)")
    case False
    then show ?thesis
      by (subst collect_digits.simps) (auto simp: char_classes intro!: exI [of _ "[]"])
  next
    case True
    let ?r = "collect_digits octal l (forward 1 b) (tb @ [c]) (next_char u)"
    have run: "collect_digits octal l b tb (next_char (c # u)) = ?r
        \<or> (\<exists>msg l'. collect_digits octal l b tb (next_char (c # u)) = Error_at msg l')"
      using True Cons.prems by (subst (1 2) collect_digits.simps) (simp add: read_char_text)
    show ?thesis
    proof (cases ?r)
      case (Val x)
      then obtain w u' where w: "u = w @ u'" "x = (tb @ c # w, next_char u', forward (1 + length w) b)"
        "\<forall>c\<in>set w. c \<in> set digit_chars" "next_char u' \<notin> set digit_chars"
        using Cons.IH [OF text_at_step [OF Cons.prems(1)], of "tb @ [c]"] by (auto simp: add.commute)
      then have "c # u = (c # w) @ u'" "\<forall>c\<in>set (c # w). c \<in> set digit_chars"
        using True by (simp_all add: char_classes)
      then show ?thesis
        using run w Val by (auto intro!: exI [of _ "c # w"])
    qed (use run Cons.IH [OF text_at_step [OF Cons.prems(1)], of "tb @ [c]"] in \<open>auto\<close>)
  qed
qed

text \<open>Neither a read beyond the array nor an endless loop.\<close>

fun proper :: "'a outcome \<Rightarrow> bool" where
  "proper Beyond \<longleftrightarrow> False"
| "proper Endless \<longleftrightarrow> False"
| "proper _ \<longleftrightarrow> True"

lemma proper_bind: "proper m \<Longrightarrow> (\<And>x. m = Val x \<Longrightarrow> proper (f x)) \<Longrightarrow> proper (bind_outcome m f)"
  by (cases m) auto

lemma proper_collect: "proper (collect p l b tb c)"
  by (induction p l b tb c rule: collect.induct) (subst collect.simps, simp add: Let_def split: prod.split)

lemma proper_digits: "proper (collect_digits octal l b tb c)"
  by (induction octal l b tb c rule: collect_digits.induct) (subst collect_digits.simps, simp add: Let_def split: prod.split)

lemma proper_store: "proper (store tb c)" "proper (terminated tb)"
  by (simp_all add: store_def terminated_def)

lemma proper_string: "proper (collect_string l b tb special c)"
  by (induction l b tb special c rule: collect_string.induct)
    (subst collect_string.simps, auto simp: proper_store Let_def intro!: proper_bind split: prod.split)

lemma proper_escaped: "proper (collect_escaped b tb c)"
  by (induction b tb c rule: collect_escaped.induct)
    (subst collect_escaped.simps, auto simp: proper_store Let_def intro!: proper_bind split: prod.split)

lemma store_Val: "store tb c = Val tb' \<longleftrightarrow> tb' = tb @ [c] \<and> length tb < max_token_len"
  "terminated tb = Val tb' \<longleftrightarrow> tb' = tb \<and> length tb < max_token_len"
  by (auto simp: store_def terminated_def)

lemma collect_string_end: "text_at b [] \<Longrightarrow> collect_string l b tb special (CHR 0x00) \<noteq> Val r"
proof (induction "2 * max_token_len - length tb" arbitrary: tb special rule: less_induct)
  case less
  show ?case
  proof
    assume v: "collect_string l b tb special (CHR 0x00) = Val r"
    then have "length tb < max_token_len" "collect_string l b (tb @ [CHR 0x00]) False (CHR 0x00) = Val r"
      by (subst (asm) collect_string.simps; auto simp: bind_Val store_Val read_char_end [OF less.prems] split: if_splits)+
    with less.hyps [of "tb @ [CHR 0x00]"] less.prems show False
      by simp
  qed
qed

lemma collect_string_text:
  assumes "text_at b u" "collect_string l b tb special (next_char u) = Val (tb', b')"
  shows "\<exists>w u'. u = w @ CHR 0x22 # u' \<and> tb' = tb @ w \<and> b' = forward (length w) b"
  using assms
proof (induction u arbitrary: b tb special)
  case Nil
  then show ?case
    using collect_string_end [of b] by simp
next
  case (Cons c u)
  show ?case
  proof (cases "c = CHR 0x22 \<and> \<not> special")
    case True
    with Cons.prems(2) have "tb' = tb" "b' = b"
      by (simp_all add: collect_string.simps)
    then show ?thesis
      using True by (intro exI [of _ "[]"] exI [of _ u]) simp
  next
    case False
    with Cons.prems have "collect_string l (forward 1 b) (tb @ [c]) (c = CHR 0x5C) (next_char u) = Val (tb', b')"
      by (subst (asm) collect_string.simps) (auto simp: bind_Val store_Val read_char_text split: if_splits)
    from Cons.IH [OF text_at_step [OF Cons.prems(1)] this] obtain w u' where
      "u = w @ CHR 0x22 # u'" "tb' = tb @ c # w" "b' = forward (Suc (length w)) b" by auto
    then show ?thesis
      by (intro exI [of _ "c # w"] exI [of _ u']) simp
  qed
qed

lemma collect_escaped_text:
  assumes "text_at b u" "collect_escaped b tb (next_char u) = Val (tb', c', b')"
  shows "c' = CHR 0x00 \<or> (\<exists>w u'. u = w @ c' # u' \<and> tb' = tb @ w \<and> b' = forward (length w) b)"
  using assms
proof (induction u arbitrary: b tb)
  case Nil
  then have "c' = CHR 0x00"
    by (subst (asm) collect_escaped.simps) (auto simp: bind_Val store_Val read_char_end)
  then show ?case ..
next
  case (Cons c u)
  let ?d = "next_char u"
  show ?case
  proof (cases "?d = CHR 0x00 \<or> ?d = CHR 0x27")
    case True
    with Cons.prems have r: "tb' = tb @ [c]" "c' = ?d" "b' = forward 1 b"
      by (subst (asm) collect_escaped.simps, auto simp: bind_Val store_Val read_char_text)+
    show ?thesis
    proof (cases u)
      case Nil
      then show ?thesis
        using r by simp
    next
      case (Cons d u')
      then show ?thesis
        using r by (intro disjI2 exI [of _ "[c]"] exI [of _ u']) simp
    qed
  next
    case False
    with Cons.prems have "collect_escaped (forward 1 b) (tb @ [c]) (next_char u) = Val (tb', c', b')"
      by (subst (asm) collect_escaped.simps) (auto simp: bind_Val store_Val read_char_text)
    from Cons.IH [OF text_at_step [OF Cons.prems(1)] this]
    consider "c' = CHR 0x00" | w u' where "u = w @ c' # u'" "tb' = tb @ c # w" "b' = forward (Suc (length w)) b"
      by auto
    then show ?thesis
    proof cases
      case 2
      then show ?thesis
        by (intro disjI2 exI [of _ "c # w"] exI [of _ u']) simp
    qed simp
  qed
qed

lemma collect_spaces_text:
  assumes "text_at b (c # u)"
  shows "collect_spaces b sz =
    (let w = takeWhile (\<lambda>c. c = CHR '' '') u in Val (sz + length w, forward (Suc (length w)) b))"
  using assms
proof (induction u arbitrary: b sz c)
  case Nil
  then show ?case
    by (subst collect_spaces.simps) (simp add: read_char_text)
next
  case (Cons d u)
  show ?case
    using Cons.IH [OF text_at_step [OF Cons.prems]] Cons.prems
    by (subst collect_spaces.simps) (simp add: read_char_text Let_def)
qed

text \<open>The comments: \<open>p\<close> is the position of the character before the rest \<open>u\<close>.\<close>

definition els_at :: "string \<Rightarrow> nat \<Rightarrow> string \<Rightarrow> bool" where
  "els_at els p u \<longleftrightarrow> text_at \<lparr>elements = els, bsize = p\<rparr> u"

lemma els_at_step: "els_at els p (c # u) \<Longrightarrow> els_at els (Suc p) u"
  using text_at_step [of "\<lparr>elements = els, bsize = p\<rparr>" c u] by (simp add: els_at_def forward_def)

lemma els_at_next:
  assumes "els_at els p (c # u)"
  shows "Suc p < length els" "els ! Suc p = next_char u"
  using text_at_length [OF assms [unfolded els_at_def]] text_at_nth [OF assms [unfolded els_at_def], of 1]
  by (cases u; simp)+

lemma els_at_nul: "els_at els p (c # u) \<Longrightarrow> c \<noteq> CHR 0x00"
  by (auto simp: els_at_def text_at_def)

lemma block_comment_text:
  assumes "els_at els p (c # u)"
  shows "case block_comment els p l of
      Val (p', l') \<Rightarrow> (\<exists>w u'. u = w @ ''*/'' @ u' \<and> p' = p + length w + 3)
    | r \<Rightarrow> proper r"
  using assms
proof (induction "length u" arbitrary: p c u l rule: less_induct)
  case less
  note n = els_at_next [OF less.prems] and t = els_at_step [OF less.prems]
  show ?case
  proof (cases u)
    case Nil
    then show ?thesis
      using n by (subst block_comment.simps) (simp add: Let_def)
  next
    case (Cons d u2)
    show ?thesis
    proof (cases "d = CHR ''*''")
      case False
      define l1 where "l1 = (if d = CHR 0x0A then l\<lparr>column := column l + 1, line := line l + 1, column := 1\<rparr>
        else l\<lparr>column := column l + 1\<rparr>)"
      have "block_comment els p l = block_comment els (Suc p) l1"
        using n Cons False els_at_nul [of els "Suc p" d u2] t
        by (subst block_comment.simps) (simp add: Let_def l1_def)
      moreover note less.hyps [of u2 "Suc p" d l1]
      ultimately show ?thesis
        using Cons t by (auto split: outcome.splits) (metis append_Cons add_Suc_right add_Suc length_Cons)
    next
      case True
      note t2 = t [unfolded Cons]
      note n2 = els_at_next [OF t2]
      show ?thesis
      proof (cases "next_char u2 = CHR ''/''")
        case slash: True
        then obtain u3 where "u2 = CHR ''/'' # u3"
          by (cases u2) auto
        then show ?thesis
          using n n2 Cons True by (subst block_comment.simps) (auto simp: Let_def intro!: exI [of _ "[]"])
      next
        case slash: False
        show ?thesis
        proof (cases u2)
          case Nil
          then show ?thesis
            using n n2 Cons True by (subst block_comment.simps) (simp add: Let_def)
        next
          case (Cons e u3)
          define l1 where "l1 = (if e = CHR 0x0A
            then l\<lparr>column := column l + 1, column := column l + 1 + 1, line := line l + 1, column := 1\<rparr>
            else l\<lparr>column := column l + 1, column := column l + 1 + 1\<rparr>)"
          have t3: "els_at els (Suc (Suc p)) (e # u3)"
            using els_at_step [OF t2] Cons by simp
          have "block_comment els p l = block_comment els (Suc (Suc p)) l1"
            using n n2 \<open>u = d # u2\<close> True slash Cons els_at_nul [OF t3]
            by (subst block_comment.simps) (simp add: Let_def l1_def)
          moreover note less.hyps [OF _ t3, of l1]
          ultimately show ?thesis
            using \<open>u = d # u2\<close> Cons
            by (auto split: outcome.splits) (metis append_Cons add_Suc_right add_Suc length_Cons)
        qed
      qed
    qed
  qed
qed

lemma line_comment_text:
  assumes "els_at els p (c # u)"
  shows "\<exists>w u'. line_comment els p = Val (p + length w + 1) \<and> u = w @ u' \<and> CHR 0x0A \<notin> set w
    \<and> (u' = [] \<or> hd u' = CHR 0x0A \<or> hd u' = CHR 0x0D)"
  using assms
proof (induction u arbitrary: p c)
  case Nil
  then show ?case
    using els_at_next [OF Nil] by (subst line_comment.simps) simp
next
  case (Cons d u)
  note n = els_at_next [OF Cons.prems] and t = els_at_step [OF Cons.prems]
  show ?case
  proof (cases "d = CHR 0x0A \<or> d = CHR 0x0D")
    case True
    then show ?thesis
      using n by (subst line_comment.simps) (auto simp: Let_def intro!: exI [of _ "[]"])
  next
    case False
    then have "line_comment els p = line_comment els (Suc p)"
      using n els_at_nul [OF t] by (subst line_comment.simps) (simp add: Let_def)
    moreover obtain w u' where "line_comment els (Suc p) = Val (Suc p + length w + 1)" "u = w @ u'" "CHR 0x0A \<notin> set w"
      "u' = [] \<or> hd u' = CHR 0x0A \<or> hd u' = CHR 0x0D"
      using Cons.IH [OF t] by blast
    ultimately show ?thesis
      using False by (intro exI [of _ "d # w"] exI [of _ u']) auto
  qed
qed

end
