(* ===== verification/LexTiles.thy ===== *)
theory LexTiles
  imports LexSpec
begin

text \<open>
  Every token stands for the text it covers: what one call of \<open>lex_token\<close> consumes is comments
  and then the spelling of the token it returns.
\<close>

section \<open>Spelling\<close>

definition punctuators :: "(string \<times> token_kind) list" where
  "punctuators =
     [(''('', T_open_bracket), ('')'', T_close_bracket), (''{'', T_open_curly), (''}'', T_close_curly),
      (''['', T_open_square), ('']'', T_close_square), ('','', T_comma), (''^='', T_xoreq), (''^'', T_bit_xor),
      (''~'', T_bit_not), (''*='', T_asteriskeq), (''*'', T_asterisk), (''&&'', T_log_and), (''&='', T_andeq),
      (''&'', T_ampersand), (''||'', T_log_or), (''|='', T_oreq), (''|'', T_bit_or), (''<='', T_le),
      (''<<='', T_lshifteq), (''<<'', T_lshift), (''<'', T_lt), (''%='', T_modeq), (''%'', T_mod),
      (''>='', T_ge), (''>>='', T_rshifteq), (''>>'', T_rshift), (''>'', T_gt), (''!='', T_noteq),
      (''!'', T_log_not), (''...'', T_elipsis), (''.'', T_dot), (''->'', T_arrow), (''--'', T_decrement),
      (''-='', T_minuseq), (''-'', T_minus), (''++'', T_increment), (''+='', T_pluseq), (''+'', T_plus),
      ('';'', T_semicolon), (''?'', T_question), ('':'', T_colon), (''=='', T_eq), (''='', T_assign),
      (''/='', T_divideeq), (''/'', T_divide),
      ([CHR 0x5C], T_backslash), ([CHR 0x0A], T_newline), ([CHR 0x09], T_tab)]"

definition word_kind :: "string \<Rightarrow> token_kind" where
  "word_kind v = (case map_of keyword_mappings v of Some k \<Rightarrow> k | None \<Rightarrow> T_identifier)"

text \<open>The text \<open>v\<close> of a token, where \<open>strs\<close> are the interned strings.\<close>

definition spells :: "string list \<Rightarrow> token \<Rightarrow> string \<Rightarrow> bool" where
  "spells strs t v \<longleftrightarrow>
     (case literal t of
        Some a \<Rightarrow> a < length strs \<and>
          (if kind t = T_string then v = CHR 0x22 # strs ! a @ [CHR 0x22]
           else if kind t = T_char then v = CHR 0x27 # strs ! a @ [CHR 0x27]
           else v = strs ! a \<and> kind t = (if hd v \<in> set digit_chars then T_numeric else word_kind v))
      | None \<Rightarrow>
          (if kind t = T_eof then v = []
           else if kind t = T_whitespace then v = replicate (length v) (CHR '' '') \<and> v \<noteq> []
           else map_of (directive_mappings @ punctuators) v = Some (kind t)))"

definition is_comment :: "string \<Rightarrow> bool" where
  "is_comment v \<longleftrightarrow> (\<exists>w. v = ''/*'' @ w @ ''*/'') \<or> (\<exists>w. v = ''//'' @ w \<and> CHR 0x0A \<notin> set w)"

section \<open>The keyword maps\<close>

definition map_ok :: "(string \<times> token_kind) list \<Rightarrow> token_kind hashmap option \<Rightarrow> bool" where
  "map_ok mappings the_map \<longleftrightarrow> (case the_map of None \<Rightarrow> True | Some m \<Rightarrow> hm_inv m \<and> hm_abs m = map_of mappings)"

definition lexer_ok :: "lexer \<Rightarrow> bool" where
  "lexer_ok s \<longleftrightarrow> pool_inv (pool s) \<and> map_ok directive_mappings (directive_map s) \<and> map_ok keyword_mappings (keyword_map s)"

lemma put_all_ok:
  "hm_inv m \<Longrightarrow> put_all alloc mappings m = Some m'
    \<Longrightarrow> hm_inv m' \<and> hm_abs m' = hm_abs m ++ map_of (rev mappings)"
proof (induction alloc mappings m rule: put_all.induct)
  case (2 alloc name tk mappings m)
  then obtain m1 where m1: "hashmap_put alloc m name tk = Some m1" "put_all alloc mappings m1 = Some m'"
    by (auto split: option.splits)
  from "2.IH" [OF m1(1) hm.put_inv [OF 2(2) m1(1)] m1(2)] hm.put_abs [OF 2(2) m1(1)] show ?case
    by (simp add: map_add_upd_left map_of_append fun_eq_iff map_add_def split: option.split)
qed simp

lemma mappings_rev:
  "map_of (rev directive_mappings) = map_of directive_mappings"
  "map_of (rev keyword_mappings) = map_of keyword_mappings"
proof -
  have "distinct (map fst directive_mappings)" "distinct (map fst keyword_mappings)"
    by code_simp+
  then show "map_of (rev directive_mappings) = map_of directive_mappings"
    "map_of (rev keyword_mappings) = map_of keyword_mappings"
    by (simp_all add: map_of_inject_set rev_map [symmetric])
qed

lemma lex_init_ok:
  assumes "map_ok mappings the_map" "map_of (rev mappings) = map_of mappings" "0 < sint cap" "sint cap \<le> 2 ^ 30"
    "lex_init alloc cap mappings the_map = Val m"
  shows "hm_inv m \<and> hm_abs m = map_of mappings"
proof (cases the_map)
  case None
  obtain n where n: "n \<le> 30" "hashmap_create alloc cap = (if alloc (2 ^ n) then Some (fresh (2 ^ n) :: token_kind hashmap) else None)"
    using hashmap_create_ok [OF assms(3,4), of alloc] by blast
  have "cap_ok (2 ^ n)"
    using n(1) by (auto simp: cap_ok_def)
  moreover have "put_all alloc mappings (fresh (2 ^ n)) = Some m"
    using assms(5) None n(2) by (simp add: lex_init_def or_abort_def split: option.splits if_splits)
  ultimately show ?thesis
    using put_all_ok [OF fresh_inv(1), of "2 ^ n" alloc mappings m] by (simp add: fresh_inv(2) assms(2))
qed (use assms in \<open>simp add: lex_init_def map_ok_def\<close>)

lemma proper_or_abort: "proper (or_abort x)"
  by (simp add: or_abort_def split: option.split)

lemma proper_init: "proper (lex_init alloc cap mappings the_map)"
  by (simp add: lex_init_def proper_or_abort split: option.split)

lemma lookup_directive_ok:
  assumes "lexer_ok s" "lookup_directive alloc tb s = Val (k, s')"
  shows "k = (case map_of directive_mappings tb of Some k \<Rightarrow> k | None \<Rightarrow> T_identifier)"
    "\<exists>m. s' = s\<lparr>directive_map := Some m\<rparr> \<and> lexer_ok s'"
proof -
  obtain m where m: "lex_init alloc 16 directive_mappings (directive_map s) = Val m"
    "k = (case hashmap_get m tb of Some k \<Rightarrow> k | None \<Rightarrow> T_identifier)" "s' = s\<lparr>directive_map := Some m\<rparr>"
    using assms(2) by (auto simp: lookup_directive_def bind_Val)
  have inv: "hm_inv m \<and> hm_abs m = map_of directive_mappings"
    using assms(1) by (intro lex_init_ok [OF _ mappings_rev(1) _ _ m(1)]) (simp_all add: lexer_ok_def)
  then show "k = (case map_of directive_mappings tb of Some k \<Rightarrow> k | None \<Rightarrow> T_identifier)"
    using m(2) by (simp add: hm.get_abs)
  show "\<exists>m. s' = s\<lparr>directive_map := Some m\<rparr> \<and> lexer_ok s'"
    using assms(1) inv m(3) by (auto simp: lexer_ok_def map_ok_def)
qed

lemma lookup_keyword_ok:
  assumes "lexer_ok s" "lookup_keyword alloc tb s = Val (k, s')"
  shows "k = word_kind tb" "\<exists>m. s' = s\<lparr>keyword_map := Some m\<rparr> \<and> lexer_ok s'"
proof -
  obtain m where m: "lex_init alloc 32 keyword_mappings (keyword_map s) = Val m"
    "k = (case hashmap_get m tb of Some k \<Rightarrow> k | None \<Rightarrow> T_identifier)" "s' = s\<lparr>keyword_map := Some m\<rparr>"
    using assms(2) by (auto simp: lookup_keyword_def bind_Val)
  have inv: "hm_inv m \<and> hm_abs m = map_of keyword_mappings"
    using assms(1) by (intro lex_init_ok [OF _ mappings_rev(2) _ _ m(1)]) (simp_all add: lexer_ok_def)
  then show "k = word_kind tb"
    using m(2) by (simp add: hm.get_abs word_kind_def)
  show "\<exists>m. s' = s\<lparr>keyword_map := Some m\<rparr> \<and> lexer_ok s'"
    using assms(1) inv m(3) by (auto simp: lexer_ok_def map_ok_def)
qed

text \<open>The fast path agrees with the map.\<close>

lemma common_keyword_ok: "common_keyword tb \<noteq> T_identifier \<Longrightarrow> common_keyword tb = word_kind tb"
proof -
  assume c: "common_keyword tb \<noteq> T_identifier"
  have two: "length tb = 2 \<Longrightarrow> tb = [tb ! 0, tb ! 1]" "length tb = 3 \<Longrightarrow> tb = [tb ! 0, tb ! 1, tb ! 2]"
    by (auto simp: numeral_2_eq_2 numeral_3_eq_3 length_Suc_conv)
  from c have "tb \<in> set (map fst keyword_mappings)"
    using two by (auto simp: common_keyword_def keyword_mappings_def Let_def split: if_splits)
  moreover have "\<forall>v\<in>set (map fst keyword_mappings). common_keyword v = word_kind v"
    by code_simp
  ultimately show ?thesis
    by blast
qed

section \<open>One step\<close>

text \<open>A token for the text \<open>u\<close>, in the state \<open>s\<close> with the position already noted.\<close>

definition lexed :: "lexer \<Rightarrow> string \<Rightarrow> token \<times> lexer \<Rightarrow> bool" where
  "lexed s u = (\<lambda>(t, s').
     \<exists>v u' ext. u = v @ u' \<and> spells (contents (pool s')) t v
       \<and> pos (location t) = pos (loc s) \<and> filename (location t) = filename (loc s)
       \<and> (if kind t = T_eof then v = [] \<and> u = [] else v \<noteq> [] \<and> len (location t) = length v)
       \<and> buf s' = forward (length v) (buf s) \<and> filename (loc s') = filename (loc s)
       \<and> contents (pool s') = contents (pool s) @ ext \<and> lexer_ok s')"

lemma lexedI:
  assumes "u = v @ u'" "spells (contents (pool s')) t v" "pos (location t) = pos (loc s)"
    "filename (location t) = filename (loc s)" "if kind t = T_eof then v = [] \<and> u = [] else v \<noteq> [] \<and> len (location t) = length v"
    "buf s' = forward (length v) (buf s)" "filename (loc s') = filename (loc s)"
    "contents (pool s') = contents (pool s) @ ext" "lexer_ok s'"
  shows "lexed s u (t, s')"
  unfolding lexed_def prod.case
  by (rule exI [of _ v], rule exI [of _ u'], rule exI [of _ ext]) (use assms in simp)

lemma spells_emit:
  assumes "v \<noteq> []" "k \<noteq> T_eof" "literal t = None" "kind t = k"
    "k = T_whitespace \<and> v = replicate (length v) (CHR '' '') \<or> k \<noteq> T_whitespace \<and> map_of (directive_mappings @ punctuators) v = Some k"
  shows "spells strs t v"
  using assms by (auto simp: spells_def simp del: map_of_append)

lemma emit_lexed:
  assumes "lexer_ok s" "u = v @ u'" "v \<noteq> []" "length v = n" "k \<noteq> T_eof"
    "k = T_whitespace \<and> v = replicate (length v) (CHR '' '') \<or> k \<noteq> T_whitespace \<and> map_of (directive_mappings @ punctuators) v = Some k"
    "b = forward n (buf s)"
  shows "lexed s u (emit_token k n b s)"
  unfolding emit_token_def
  by (rule lexedI [OF assms(2) spells_emit [OF assms(3,5) _ _ assms(6)], where ext = "[]"])
    (use assms(1,3-5,7) in \<open>simp_all add: new_token_def lexer_ok_def\<close>)

lemma literal_lexed:
  assumes "lexer_ok s" "u = v @ u'" "v \<noteq> []" "length v = n" "k \<noteq> T_eof" "b = forward n (buf s)"
    "v = (if k = T_string then CHR 0x22 # tb @ [CHR 0x22] else if k = T_char then CHR 0x27 # tb @ [CHR 0x27] else tb)"
    "k = T_string \<or> k = T_char \<or> k = (if hd v \<in> set digit_chars then T_numeric else word_kind v)"
    "emit_literal alloc k n tb b s = Val r"
  shows "lexed s u r"
proof -
  obtain a p' where a: "intern_string alloc (pool s) tb = Some (a, p')"
    "r = ((new_token k (loc s) n)\<lparr>literal := Some a\<rparr>,
      s\<lparr>buf := b, loc := (loc s)\<lparr>column := column (loc s) + n\<rparr>, pool := p'\<rparr>)"
    using assms(9) by (auto simp: emit_literal_def bind_Val or_abort_def emit_token_def split: option.splits)
  have inv: "pool_inv (pool s)"
    using assms(1) by (simp add: lexer_ok_def)
  note i = intern_string_ok [OF inv a(1)]
  have "spells (contents p') ((new_token k (loc s) n)\<lparr>literal := Some a\<rparr>) v"
    using i(2,3) assms(7,8) by (auto simp: spells_def new_token_def split: if_splits)
  then show ?thesis
    unfolding a(2) using assms(1,3-6) i(1,4)
    by (intro lexedI [OF assms(2), where ext = "if hashmap_get (strings (pool s)) tb = None then [tb] else []"])
      (simp_all add: new_token_def lexer_ok_def)
qed

lemma proper_literal: "proper (emit_literal alloc k n tb b s)"
  by (auto simp: emit_literal_def proper_or_abort Let_def split: prod.split intro!: proper_bind)

definition good :: "lexer \<Rightarrow> string \<Rightarrow> (token \<times> lexer) outcome \<Rightarrow> bool" where
  "good s u r \<longleftrightarrow> (case r of Val x \<Rightarrow> lexed s u x | _ \<Rightarrow> proper r)"

lemma good_bind: "proper m \<Longrightarrow> (\<And>x. m = Val x \<Longrightarrow> good s u (f x)) \<Longrightarrow> good s u (bind_outcome m f)"
  by (cases m) (auto simp: good_def)

lemma good_Val: "lexed s u x \<Longrightarrow> good s u (Val x)"
  by (simp add: good_def)

lemma good_Error: "good s u (Error_at msg l)"
  by (simp add: good_def)

lemma good_literal: "(\<And>r. emit_literal alloc k n tb b s = Val r \<Longrightarrow> lexed s u r) \<Longrightarrow> good s u (emit_literal alloc k n tb b s)"
  using proper_literal [of alloc k n tb b s] by (auto simp: good_def split: outcome.split)

lemma good_map:
  "good (s\<lparr>directive_map := m\<rparr>) u r = good s u r" "good (s\<lparr>keyword_map := m\<rparr>) u r = good s u r"
  by (simp_all add: good_def lexed_def split: outcome.split)

lemma kinds:
  "map_of directive_mappings v = Some k \<Longrightarrow> k \<notin> {T_eof, T_whitespace, T_identifier}"
  "word_kind v \<notin> {T_eof, T_string, T_char, T_whitespace, T_numeric}"
proof -
  have "\<forall>(v, k)\<in>set directive_mappings. k \<notin> {T_eof, T_whitespace, T_identifier}"
    "\<forall>(v, k)\<in>set keyword_mappings. k \<notin> {T_eof, T_string, T_char, T_whitespace, T_numeric}"
    by code_simp+
  then show "map_of directive_mappings v = Some k \<Longrightarrow> k \<notin> {T_eof, T_whitespace, T_identifier}"
    "word_kind v \<notin> {T_eof, T_string, T_char, T_whitespace, T_numeric}"
    by (auto simp: word_kind_def dest!: map_of_SomeD split: option.split)
qed

lemma next_char_eq: "next_char u = c \<Longrightarrow> c \<noteq> CHR 0x00 \<Longrightarrow> \<exists>u'. u = c # u'"
  by (cases u) auto

lemma not_nul:
  "\<not> isalnum (char_int CHR 0x00)" "\<not> isxdigit (char_int CHR 0x00)" "\<not> isdigit (char_int CHR 0x00)"
  by code_simp+

lemma takeWhile_split: "u = takeWhile p u @ drop (length (takeWhile p u)) u"
  by (simp add: dropWhile_eq_drop [symmetric])

lemma lex_directive_good:
  assumes "lexer_ok s" "text_at (buf s) (CHR ''#'' # u)"
  shows "good s (CHR ''#'' # u) (lex_directive alloc s)"
proof (cases "column (loc s) = 1")
  case True
  let ?w = "takeWhile (\<lambda>c. name_char c) u"
  have look: "good s (CHR ''#'' # u) (bind_outcome (lookup_directive alloc tb s) (\<lambda>(k, s1).
      if k = T_identifier then Error_at ''Unsupported directive'' ((loc s1)\<lparr>len := length tb\<rparr>)
      else Val (emit_token k (length tb) (forward (Suc (length ?w)) (buf s)) s1)))"
    if tb: "tb = CHR ''#'' # ?w" for tb
  proof (rule good_bind)
    show "proper (lookup_directive alloc tb s)"
      by (auto simp: lookup_directive_def proper_init intro!: proper_bind)
    fix x
    assume "lookup_directive alloc tb s = Val x"
    then obtain k s' where x: "x = (k, s')" "lookup_directive alloc tb s = Val (k, s')"
      by (cases x) auto
    from lookup_directive_ok [OF assms(1) x(2)] obtain m where
      l: "k = (case map_of directive_mappings tb of Some k \<Rightarrow> k | None \<Rightarrow> T_identifier)"
      "s' = s\<lparr>directive_map := Some m\<rparr>" "lexer_ok s'" by blast
    show "good s (CHR ''#'' # u) (case x of (k, s1) \<Rightarrow>
        if k = T_identifier then Error_at ''Unsupported directive'' ((loc s1)\<lparr>len := length tb\<rparr>)
        else Val (emit_token k (length tb) (forward (Suc (length ?w)) (buf s)) s1))"
    proof (cases "k = T_identifier")
      case False
      then have k: "map_of directive_mappings tb = Some k"
        using l(1) by (simp split: option.splits)
      have split: "CHR ''#'' # u = tb @ drop (length ?w) u"
        using takeWhile_split [of u "\<lambda>c. name_char c"] tb by simp
      have "lexed s' (CHR ''#'' # u) (emit_token k (length tb) (forward (length tb) (buf s')) s')"
        using k kinds(1) [OF k] tb by (intro emit_lexed [OF l(3) split]) auto
      then have "good s' (CHR ''#'' # u) (Val (emit_token k (length tb) (forward (length tb) (buf s')) s'))"
        by (rule good_Val)
      then show ?thesis
        using False by (simp add: x(1) l(2) good_map tb)
    qed (simp add: x(1) good_Error)
  qed
  show ?thesis
    using True look [OF refl] collect_text [OF assms(2), of "\<lambda>c. name_char c" "loc s" "[]"]
    by (auto simp: lex_directive_def not_nul Let_def good_Error)
qed (simp add: lex_directive_def good_def)

lemma lex_newline_good:
  assumes "lexer_ok s" "text_at (buf s) (CHR 0x0A # u)"
  shows "lexed s (CHR 0x0A # u) (lex_newline s)"
  unfolding lex_newline_def
proof (rule lexedI [where v = "[CHR 0x0A]" and u' = u and ext = "[]"])
  have "map_of (directive_mappings @ punctuators) [CHR 0x0A] = Some T_newline"
    by code_simp
  then show "spells strs (new_token T_newline (loc s) 1) [CHR 0x0A]" for strs
    by (intro spells_emit [where k = T_newline]) (simp_all add: new_token_def del: map_of_append)
qed (use assms in \<open>simp_all add: new_token_def read_char_text lexer_ok_def\<close>)

lemma lex_spaces_good:
  assumes "lexer_ok s" "text_at (buf s) (CHR '' '' # u)"
  shows "good s (CHR '' '' # u) (lex_spaces s)"
proof -
  let ?w = "takeWhile (\<lambda>c. c = CHR '' '') u"
  have w: "CHR '' '' # ?w = replicate (length (CHR '' '' # ?w)) (CHR '' '')"
    by (rule replicate_length_same [symmetric]) (auto dest: set_takeWhileD)
  have split: "CHR '' '' # u = (CHR '' '' # ?w) @ drop (length ?w) u"
    using takeWhile_split [of u "\<lambda>c. c = CHR '' ''"] by simp
  have "lexed s (CHR '' '' # u) (emit_token T_whitespace (Suc (length ?w)) (forward (Suc (length ?w)) (buf s)) s)"
    using w by (intro emit_lexed [OF assms(1) split]) auto
  then show ?thesis
    by (simp add: lex_spaces_def collect_spaces_text [OF assms(2)] Let_def good_Val)
qed

lemma collect_good:
  assumes "lexer_ok s" "text_at (buf s) (v @ c # u)" "\<not> p (CHR 0x00)" "v \<noteq> []" "hd v \<in> set digit_chars"
  shows "good s (v @ c # u) (bind_outcome (collect p l (forward (length v) (buf s)) v c)
    (\<lambda>(tb, _, b). emit_literal alloc T_numeric (length tb) tb b s))"
proof -
  let ?w = "takeWhile p u"
  have "good s (v @ c # u) (emit_literal alloc T_numeric (length (v @ c # ?w)) (v @ c # ?w)
      (forward (length (v @ c # ?w)) (buf s)) s)"
  proof (rule good_literal)
    fix r
    assume r: "emit_literal alloc T_numeric (length (v @ c # ?w)) (v @ c # ?w)
      (forward (length (v @ c # ?w)) (buf s)) s = Val r"
    have split: "v @ c # u = (v @ c # ?w) @ drop (length ?w) u"
      using takeWhile_split [of u p] by simp
    show "lexed s (v @ c # u) r"
      by (rule literal_lexed [OF assms(1) split _ refl _ refl _ _ r]) (use assms(4,5) in auto)
  qed
  then show ?thesis
    using collect_text [OF text_at_forward [OF assms(2)], where p = p and l = l and tb = v] assms(3)
    by (auto simp: Let_def good_Error)
qed

lemma lex_number_good:
  assumes "lexer_ok s" "text_at (buf s) (c0 # u)" "isdigit (char_int c0)"
  shows "good s (c0 # u) (lex_number alloc c0 s)"
proof -
  have c0: "c0 \<in> set digit_chars"
    using assms(3) by (simp add: char_classes)
  let ?k = "\<lambda>(tb, _, b). emit_literal alloc T_numeric (length tb) tb b s"
  have digits: "good s (c0 # u) (bind_outcome (collect_digits octal (loc s) (forward 1 (buf s)) [c0] (next_char u)) ?k)" for octal
  proof (rule good_bind [OF proper_digits])
    fix x
    assume x: "collect_digits octal (loc s) (forward 1 (buf s)) [c0] (next_char u) = Val x"
    then obtain w u' where w: "u = w @ u'" "x = (c0 # w, next_char u', forward (length (c0 # w)) (buf s))"
      using collect_digits_text [OF text_at_step [OF assms(2)], of "[c0]" octal "loc s"] by auto
    show "good s (c0 # u) (?k x)"
      unfolding w(2) prod.case
    proof (rule good_literal)
      fix r
      assume r: "emit_literal alloc T_numeric (length (c0 # w)) (c0 # w) (forward (length (c0 # w)) (buf s)) s = Val r"
      show "lexed s (c0 # u) r"
        by (rule literal_lexed [OF assms(1) _ _ refl _ refl _ _ r, where u' = u']) (use w c0 in auto)
    qed
  qed
  have prefixed: "good s (c0 # u) (bind_outcome
      (let (c, b) = read_char (forward 1 (buf s))
       in if \<not> p c then Error_at msg l else collect p (loc s) b [c0, next_char u] c) ?k)"
    if nz: "next_char u \<noteq> CHR 0x00" "\<not> p (CHR 0x00)" for p msg l
  proof -
    obtain u2 where u: "u = next_char u # u2"
      using next_char_eq [of u, OF refl nz(1)] by blast
    have t: "text_at (buf s) ([c0, next_char u] @ u2)"
      using assms(2) u by simp
    have r: "read_char (forward 1 (buf s)) = (next_char u2, forward 2 (buf s))"
      using read_char_text [of "forward 1 (buf s)" "next_char u" u2] text_at_step [OF assms(2)] u
      by (simp add: numeral_2_eq_2)
    show ?thesis
    proof (cases u2)
      case Nil
      then show ?thesis
        using r nz(2) by (simp add: good_Error)
    next
      case (Cons d u3)
      then show ?thesis
        using r collect_good [of s "[c0, next_char u]" d u3 p "loc s" alloc] t u c0 assms(1) nz(2)
        by (simp add: good_Error numeral_2_eq_2)
    qed
  qed
  have nul: "char_int (CHR 0x00) OR 32 \<noteq> char_int CHR ''x''" "char_int (CHR 0x00) OR 32 \<noteq> char_int CHR ''b''"
    by code_simp+
  consider (hex) "c0 = CHR ''0''" "char_int (next_char u) OR 32 = char_int CHR ''x''"
    | (bin) "c0 = CHR ''0''" "char_int (next_char u) OR 32 \<noteq> char_int CHR ''x''" "char_int (next_char u) OR 32 = char_int CHR ''b''"
    | (dec) "\<not> (c0 = CHR ''0'' \<and> char_int (next_char u) OR 32 = char_int CHR ''x'')"
        "\<not> (c0 = CHR ''0'' \<and> char_int (next_char u) OR 32 = char_int CHR ''b'')"
    by blast
  then show ?thesis
  proof cases
    case hex
    then have "lex_number alloc c0 s = bind_outcome
      (let (c, b) = read_char (forward 1 (buf s))
       in if \<not> isxdigit (char_int c) then Error_at ''Invalid hex literal: expected hex digit after 0x'' ((loc s)\<lparr>len := 3\<rparr>)
          else collect (\<lambda>c. isxdigit (char_int c)) (loc s) b [c0, next_char u] c) ?k"
      by (simp add: lex_number_def read_char_text [OF assms(2)] Let_def split: prod.split)
    moreover have "next_char u \<noteq> CHR 0x00"
      using hex(2) nul(1) by auto
    ultimately show ?thesis
      using prefixed [of "\<lambda>c. isxdigit (char_int c)"] not_nul(2) by simp
  next
    case bin
    then have "lex_number alloc c0 s = bind_outcome
      (let (c, b) = read_char (forward 1 (buf s))
       in if \<not> (c = CHR ''0'' \<or> c = CHR ''1'') then Error_at ''Binary literal expects 0 or 1 after 0b'' ((loc s)\<lparr>len := 3\<rparr>)
          else collect (\<lambda>c. c = CHR ''0'' \<or> c = CHR ''1'') (loc s) b [c0, next_char u] c) ?k"
      by (simp add: lex_number_def read_char_text [OF assms(2)] Let_def split: prod.split)
    moreover have "next_char u \<noteq> CHR 0x00"
      using bin(3) nul(2) by auto
    moreover have "\<not> (CHR 0x00 = CHR ''0'' \<or> CHR 0x00 = CHR ''1'')"
      by simp
    ultimately show ?thesis
      using prefixed [of "\<lambda>c. c = CHR ''0'' \<or> c = CHR ''1''"] by (simp only: not_False_eq_True)
  next
    case dec
    then have "lex_number alloc c0 s = bind_outcome
      (collect_digits (c0 = CHR ''0'') (loc s) (forward 1 (buf s)) [c0] (next_char u)) ?k"
      by (auto simp: lex_number_def read_char_text [OF assms(2)] Let_def)
    then show ?thesis
      using digits by simp
  qed
qed

lemma lex_string_good:
  assumes "lexer_ok s" "text_at (buf s) (CHR 0x22 # u)"
  shows "good s (CHR 0x22 # u) (lex_string alloc s)"
proof -
  note t = text_at_step [OF assms(2)]
  have "good s (CHR 0x22 # u) (bind_outcome (collect_string (loc s) (forward 1 (buf s)) [] False (next_char u)) (\<lambda>(tb, b).
      bind_outcome (terminated tb) (\<lambda>tb. emit_literal alloc T_string (length tb + 2) tb (advance b) s)))"
  proof (rule good_bind [OF proper_string])
    fix x
    assume "collect_string (loc s) (forward 1 (buf s)) [] False (next_char u) = Val x"
    then obtain w u' where w: "u = w @ CHR 0x22 # u'" "x = (w, forward (length (CHR 0x22 # w)) (buf s))"
      using collect_string_text [OF t, of "loc s" "[]" False] by (cases x) fastforce
    have split: "CHR 0x22 # u = (CHR 0x22 # w @ [CHR 0x22]) @ u'"
      by (simp add: w(1))
    have a: "advance (forward (length (CHR 0x22 # w)) (buf s)) = forward (length w + 2) (buf s)"
      using read_char_text [OF text_at_forward [of "buf s" "CHR 0x22 # w" "CHR 0x22 # u'"]] assms(2) w(1) by simp
    show "good s (CHR 0x22 # u) (case x of (tb, b) \<Rightarrow>
        bind_outcome (terminated tb) (\<lambda>tb. emit_literal alloc T_string (length tb + 2) tb (advance b) s))"
      unfolding w(2) prod.case
    proof (rule good_bind [OF proper_store(2)])
      fix tb
      assume "terminated w = Val tb"
      then have tb: "tb = w"
        by (simp add: store_Val)
      show "good s (CHR 0x22 # u) (emit_literal alloc T_string (length tb + 2) tb
          (advance (forward (length (CHR 0x22 # w)) (buf s))) s)"
        unfolding tb a by (rule good_literal, rule literal_lexed [OF assms(1) split]) simp_all
    qed
  qed
  then show ?thesis
    by (simp add: lex_string_def read_char_text [OF assms(2)])
qed

lemma lex_char_good:
  assumes "lexer_ok s" "text_at (buf s) (CHR 0x27 # u)"
  shows "good s (CHR 0x27 # u) (lex_char alloc s)"
proof -
  note t = text_at_step [OF assms(2)]
  have fin: "good s (CHR 0x27 # u) (bind_outcome (terminated tb) (\<lambda>tb.
      if c \<noteq> CHR 0x27 then Error_at ''Unenclosed character literal'' ((loc s)\<lparr>len := 2\<rparr>)
      else emit_literal alloc T_char (length tb + 2) tb (advance b) s))"
    if f: "c = CHR 0x27 \<Longrightarrow> \<exists>u'. u = tb @ CHR 0x27 # u' \<and> b = forward (length (CHR 0x27 # tb)) (buf s)" for c tb b
  proof (rule good_bind [OF proper_store(2)])
    fix tb'
    assume "terminated tb = Val tb'"
    then have tb: "tb' = tb"
      by (simp add: store_Val)
    show "good s (CHR 0x27 # u) (if c \<noteq> CHR 0x27 then Error_at ''Unenclosed character literal'' ((loc s)\<lparr>len := 2\<rparr>)
        else emit_literal alloc T_char (length tb' + 2) tb' (advance b) s)"
    proof (cases "c = CHR 0x27")
      case True
      then obtain u' where u: "u = tb @ CHR 0x27 # u'" "b = forward (length (CHR 0x27 # tb)) (buf s)"
        using f by blast
      have split: "CHR 0x27 # u = (CHR 0x27 # tb @ [CHR 0x27]) @ u'"
        by (simp add: u(1))
      have a: "advance b = forward (length tb + 2) (buf s)"
        using read_char_text [OF text_at_forward [of "buf s" "CHR 0x27 # tb" "CHR 0x27 # u'"]] assms(2) u by simp
      have "good s (CHR 0x27 # u) (emit_literal alloc T_char (length tb + 2) tb (advance b) s)"
        unfolding a by (rule good_literal, rule literal_lexed [OF assms(1) split]) simp_all
      then show ?thesis
        using True by (simp add: tb)
    qed (simp add: good_Error)
  qed
  show ?thesis
  proof (cases u)
    case Nil
    then show ?thesis
      using t fin [of "CHR 0x00" "[CHR 0x00]"]
      by (simp add: lex_char_def read_char_text [OF assms(2)] read_char_end)
  next
    case (Cons c u2)
    note t2 = t [unfolded Cons]
    have r: "read_char (buf s) = (c, forward 1 (buf s))" "read_char (forward 1 (buf s)) = (next_char u2, forward 2 (buf s))"
      using read_char_text [OF assms(2)] read_char_text [OF t2] Cons by (simp_all add: numeral_2_eq_2)
    show ?thesis
    proof (cases "c = CHR 0x5C")
      case False
      have "good s (CHR 0x27 # u) (bind_outcome (terminated [c]) (\<lambda>tb.
          if next_char u2 \<noteq> CHR 0x27 then Error_at ''Unenclosed character literal'' ((loc s)\<lparr>len := 2\<rparr>)
          else emit_literal alloc T_char (length tb + 2) tb (advance (forward 2 (buf s))) s))"
      proof (rule fin)
        assume "next_char u2 = CHR 0x27"
        then obtain u' where "u2 = CHR 0x27 # u'"
          using next_char_eq [of u2 "CHR 0x27"] by auto
        then show "\<exists>u'. u = [c] @ CHR 0x27 # u' \<and> forward 2 (buf s) = forward (length (CHR 0x27 # [c])) (buf s)"
          using Cons by (simp add: numeral_2_eq_2)
      qed
      then show ?thesis
        using False by (simp add: lex_char_def r [simplified])
    next
      case True
      have t3: "text_at (forward 2 (buf s)) u2"
        using text_at_step [OF t2] by (simp add: numeral_2_eq_2)
      have "good s (CHR 0x27 # u) (bind_outcome (collect_escaped (forward 2 (buf s)) [c] (next_char u2)) (\<lambda>(tb, c, b).
        bind_outcome (terminated tb) (\<lambda>tb.
          if c \<noteq> CHR 0x27 then Error_at ''Unenclosed character literal'' ((loc s)\<lparr>len := 2\<rparr>)
          else emit_literal alloc T_char (length tb + 2) tb (advance b) s)))"
      proof (rule good_bind [OF proper_escaped])
        fix x
        assume e: "collect_escaped (forward 2 (buf s)) [c] (next_char u2) = Val x"
        obtain tb c' b where x: "x = (tb, c', b)" by (cases x)
        have "\<exists>u'. u = tb @ CHR 0x27 # u' \<and> b = forward (length (CHR 0x27 # tb)) (buf s)" if "c' = CHR 0x27"
          using collect_escaped_text [OF t3 e [unfolded x]] that Cons by (auto simp: numeral_2_eq_2)
        then show "good s (CHR 0x27 # u) (case x of (tb, c, b) \<Rightarrow> bind_outcome (terminated tb) (\<lambda>tb.
            if c \<noteq> CHR 0x27 then Error_at ''Unenclosed character literal'' ((loc s)\<lparr>len := 2\<rparr>)
            else emit_literal alloc T_char (length tb + 2) tb (advance b) s))"
          unfolding x prod.case by (rule fin)
      qed
      then show ?thesis
        using True by (simp add: lex_char_def r [simplified])
    qed
  qed
qed

lemma punctuators_ok:
  "(v, k) \<in> set punctuators \<Longrightarrow> map_of (directive_mappings @ punctuators) v = Some k"
  "(v, k) \<in> set punctuators \<Longrightarrow> v \<noteq> [] \<and> k \<noteq> T_eof \<and> k \<noteq> T_whitespace"
proof -
  have "\<forall>(v, k)\<in>set punctuators. map_of (directive_mappings @ punctuators) v = Some k
      \<and> v \<noteq> [] \<and> k \<noteq> T_eof \<and> k \<noteq> T_whitespace"
    by code_simp
  then show "(v, k) \<in> set punctuators \<Longrightarrow> map_of (directive_mappings @ punctuators) v = Some k"
    "(v, k) \<in> set punctuators \<Longrightarrow> v \<noteq> [] \<and> k \<noteq> T_eof \<and> k \<noteq> T_whitespace"
    by blast+
qed

lemma punct_lexed:
  assumes "lexer_ok s" "u = v @ u'" "(v, k) \<in> set punctuators" "b = forward (length v) (buf s)" "n = length v"
  shows "lexed s u (emit_token k n b s)"
  using punctuators_ok [OF assms(3)] assms by (intro emit_lexed [OF assms(1,2)]) auto

text \<open>The punctuator \<open>v\<close> of kind \<open>k\<close> is read off the text \<open>u\<close>.\<close>

definition punct_of :: "strbuf \<Rightarrow> string \<Rightarrow> token_kind \<times> nat \<times> strbuf \<Rightarrow> bool" where
  "punct_of b u = (\<lambda>(k, n, b'). \<exists>v u'. u = v @ u' \<and> (v, k) \<in> set punctuators \<and> n = length v \<and> b' = forward n b)"

lemma punct_ofI: "u = v @ u' \<Longrightarrow> (v, k) \<in> set punctuators \<Longrightarrow> punct_of b u (k, length v, forward (length v) b)"
  by (auto simp: punct_of_def)

lemma punct_1: "([c], k) \<in> set punctuators \<Longrightarrow> punct_of b (c # u) (k, 1, forward 1 b)"
  using punct_ofI [of "c # u" "[c]" u k b] by simp

lemma punct_2:
  assumes "next_char u = d" "d \<noteq> CHR 0x00" "([c, d], k) \<in> set punctuators" "text_at b (c # u)"
  shows "punct_of b (c # u) (k, 2, advance (forward 1 b))"
proof -
  obtain u' where u: "u = d # u'"
    using next_char_eq [OF assms(1,2)] by blast
  then have "advance (forward 1 b) = forward 2 b"
    using read_char_text [OF text_at_step [OF assms(4) [unfolded u]]] by simp
  then show ?thesis
    using punct_ofI [of "c # u" "[c, d]" u' k b] assms(3) u by (simp add: numeral_2_eq_2)
qed

lemma punct_3:
  assumes "next_char u = d" "d \<noteq> CHR 0x00" "text_at b (c # u)"
    and "read_char (forward 1 b) = (e, b')"
  shows "e \<noteq> CHR 0x00 \<Longrightarrow> ([c, d, e], k) \<in> set punctuators \<Longrightarrow> punct_of b (c # u) (k, 3, advance b')"
    "([c, d], l) \<in> set punctuators \<Longrightarrow> punct_of b (c # u) (l, 2, b')"
proof -
  obtain u' where u: "u = d # u'"
    using next_char_eq [OF assms(1,2)] by blast
  note t = text_at_step [OF assms(3) [unfolded u]]
  have e: "e = next_char u'" "b' = forward 2 b"
    using read_char_text [OF t] assms(4) by (simp_all add: numeral_2_eq_2)
  then show "([c, d], l) \<in> set punctuators \<Longrightarrow> punct_of b (c # u) (l, 2, b')"
    using punct_ofI [of "c # u" "[c, d]" u' l b] u by (simp add: numeral_2_eq_2)
  assume k: "e \<noteq> CHR 0x00" "([c, d, e], k) \<in> set punctuators"
  then obtain u2 where u2: "u' = e # u2"
    using next_char_eq [of u' e] e(1) by auto
  have "advance b' = forward 3 b"
    using read_char_text [OF text_at_step [OF t [unfolded u2]]] e(2) by (simp add: numeral_2_eq_2 numeral_3_eq_3)
  then show "punct_of b (c # u) (k, 3, advance b')"
    using punct_ofI [of "c # u" "[c, d, e]" u2 k b] k(2) u u2 by (simp add: numeral_3_eq_3)
qed

lemma punctuators_all: "xs = punctuators \<Longrightarrow> list_all (\<lambda>p. p \<in> set punctuators) xs"
  by (simp add: list_all_iff)

lemmas punct_mem = punctuators_all [OF punctuators_def [symmetric], unfolded list.pred_inject simp_thms]

end
