(* ===== verification/LexStep.thy ===== *)
theory LexStep
  imports LexTiles
begin

text \<open>
  One call of \<^verbatim>\<open>lex_token\<close> without directives: the branches for punctuation, operators, names,
  numbers, literals and comments each consume the text that their token stands for.
\<close>

lemma punct_of_Some: "Some x = Some y \<Longrightarrow> punct_of b u x \<Longrightarrow> punct_of b u y"
  by simp

lemma lex_punctuator_text:
  assumes "text_at b (c # u)" "lex_punctuator c b = Some r"
  shows "punct_of b (c # u) r"
proof -
  have nonzero: "CHR ''='' \<noteq> CHR 0x00"
    by simp
  show ?thesis
    by - (insert assms,
      unfold lex_punctuator_def read_char_text [OF assms(1)] Let_def prod.case,
      simp only: split: if_split_asm, (elim conjE)?,
      ((erule punct_of_Some, (rule punct_1, simp only: punct_mem))
        | (erule punct_of_Some, (rule punct_2, assumption, rule nonzero, simp only: punct_mem, assumption))
        | simp only: option.distinct)+)
qed

lemma lex_operator_text:
  assumes "text_at b (c # u)" "lex_operator c b = Some r"
  shows "punct_of b (c # u) r"
proof -
  have dots: "punct_of b (CHR ''.'' # u) (T_elipsis, 3, (forward 1 b)\<lparr>bsize := bsize (forward 1 b) + 2\<rparr>)"
    if c: "text_at b (CHR ''.'' # u)" "next_char u = CHR ''.''" "peek_char (forward 1 b) 1 = CHR ''.''"
  proof -
    obtain u1 where u1: "u = CHR ''.'' # u1"
      using next_char_eq [OF c(2)] by auto
    have "next_char u1 = CHR ''.''"
      using peek_char_text [OF text_at_step [OF c(1)], of 1] c(3) u1 by simp
    then obtain u2 where u2: "u1 = CHR ''.'' # u2"
      using next_char_eq [of u1 "CHR ''.''"] by auto
    have "(''...'', T_elipsis) \<in> set punctuators"
      by (simp only: punct_mem)
    then show ?thesis
      using punct_ofI [of "CHR ''.'' # u" "''...''" u2 T_elipsis b] u1 u2 by (simp add: forward_def numeral_3_eq_3)
  qed
  have nonzero: "CHR ''='' \<noteq> CHR 0x00" "CHR ''&'' \<noteq> CHR 0x00" "CHR ''|'' \<noteq> CHR 0x00" "CHR ''<'' \<noteq> CHR 0x00"
    "CHR ''>'' \<noteq> CHR 0x00" "CHR ''-'' \<noteq> CHR 0x00" "CHR ''+'' \<noteq> CHR 0x00"
    by simp_all
  show ?thesis
    by - (insert assms,
      unfold lex_operator_def read_char_text [OF assms(1)] Let_def prod.case,
      simp only: split: if_split_asm prod.split_asm, (elim conjE)?,
      ((erule punct_of_Some, (rule punct_1, simp only: punct_mem))
        | (erule punct_of_Some, (rule punct_2, assumption, rule nonzero, simp only: punct_mem, assumption))
        | (erule punct_of_Some, (rule punct_3(1), assumption, rule nonzero, assumption, assumption, rule nonzero, simp only: punct_mem))
        | (erule punct_of_Some, (rule punct_3(2), assumption, rule nonzero, assumption, assumption, simp only: punct_mem))
        | (erule punct_of_Some, (rule dots, assumption, assumption, assumption))
        | simp only: option.distinct)+)
qed

lemma punct_of_lexed:
  assumes "lexer_ok s" "punct_of (buf s) u (k, n, b)"
  shows "lexed s u (emit_token k n b s)"
proof -
  obtain v u' where "u = v @ u'" "(v, k) \<in> set punctuators" "n = length v" "b = forward n (buf s)"
    using assms(2) by (auto simp: punct_of_def)
  then show ?thesis
    by (intro punct_lexed [OF assms(1), of u v u' k]) simp_all
qed

lemma lex_name_good:
  assumes "lexer_ok s" "text_at (buf s) (c # u)" "c \<notin> set digit_chars"
  shows "good s (c # u) (lex_name alloc c s)"
proof -
  let ?w = "takeWhile (\<lambda>c. name_char c) u"
  have split: "c # u = (c # ?w) @ drop (length ?w) u"
    using takeWhile_split [of u "\<lambda>c. name_char c"] by simp
  have lit: "good s (c # u) (emit_literal alloc (word_kind tb) (length tb) tb (forward (Suc (length ?w)) (buf s)) s1)"
    if tb: "tb = c # ?w" and s1: "s1 = s \<or> (\<exists>m. s1 = s\<lparr>keyword_map := Some m\<rparr>)" "lexer_ok s1" for tb s1
  proof -
    have "good s1 (c # u) (emit_literal alloc (word_kind tb) (length tb) tb (forward (Suc (length ?w)) (buf s)) s1)"
    proof (rule good_literal)
      fix r
      assume r: "emit_literal alloc (word_kind tb) (length tb) tb (forward (Suc (length ?w)) (buf s)) s1 = Val r"
      show "lexed s1 (c # u) r"
        by (rule literal_lexed [OF s1(2) split _ _ _ _ _ _ r]) (use kinds(2) [of tb] tb s1(1) assms(3) in auto)
    qed
    then show ?thesis
      using s1(1) by (auto simp: good_map)
  qed
  have "good s (c # u) (bind_outcome
      (if common_keyword tb = T_identifier then lookup_keyword alloc tb s else Val (common_keyword tb, s))
      (\<lambda>(k, s1). emit_literal alloc k (length tb) tb (forward (Suc (length ?w)) (buf s)) s1))"
    if tb: "tb = c # ?w" for tb
  proof (rule good_bind)
    show "proper (if common_keyword tb = T_identifier then lookup_keyword alloc tb s else Val (common_keyword tb, s))"
      by (auto simp: lookup_keyword_def proper_init intro!: proper_bind)
    fix x
    assume x: "(if common_keyword tb = T_identifier then lookup_keyword alloc tb s else Val (common_keyword tb, s)) = Val x"
    obtain k s1 where ks: "x = (k, s1)" by (cases x)
    have "k = word_kind tb \<and> (s1 = s \<or> (\<exists>m. s1 = s\<lparr>keyword_map := Some m\<rparr>)) \<and> lexer_ok s1"
    proof (cases "common_keyword tb = T_identifier")
      case True
      then have "lookup_keyword alloc tb s = Val (k, s1)"
        using x ks by simp
      from lookup_keyword_ok [OF assms(1) this] show ?thesis by blast
    qed (use x ks common_keyword_ok [of tb] assms(1) in auto)
    then show "good s (c # u) (case x of (k, s1) \<Rightarrow>
        emit_literal alloc k (length tb) tb (forward (Suc (length ?w)) (buf s)) s1)"
      using lit [OF tb] by (auto simp: ks)
  qed
  from this [OF refl] show ?thesis
    using collect_text [OF assms(2), of "\<lambda>c. name_char c" "loc s" "[]"]
    by (auto simp: lex_name_def not_nul Let_def good_Error)
qed

text \<open>A comment, or the token after a slash.\<close>

definition stepped :: "lexer \<Rightarrow> string \<Rightarrow> (lexer + token \<times> lexer) outcome \<Rightarrow> bool" where
  "stepped s u r \<longleftrightarrow> (case r of
      Val (Inr x) \<Rightarrow> lexed s u x
    | Val (Inl s') \<Rightarrow> (\<exists>v u' l. u = v @ u' \<and> is_comment v \<and> s' = s\<lparr>buf := forward (length v) (buf s), loc := l\<rparr>
        \<and> filename l = filename (loc s))
    | _ \<Rightarrow> proper r)"

lemma stepped_comment:
  assumes "is_comment v" "u = v @ u'" "r = Val (Inl (s\<lparr>buf := forward (length v) (buf s), loc := l\<rparr>))"
    "filename l = filename (loc s)"
  shows "stepped s u r"
  using assms by (auto simp: stepped_def)

lemma block_comment_file: "block_comment els p l = Val (p', l') \<Longrightarrow> filename l' = filename l"
proof (induction "length els - p" arbitrary: p l rule: less_induct)
  case less
  from less.prems show ?case
    by (subst (asm) block_comment.simps) (auto simp: Let_def split: if_splits dest!: less.hyps [rotated])
qed

lemma lex_slash_good:
  assumes "lexer_ok s" "text_at (buf s) (CHR ''/'' # u)"
  shows "stepped s (CHR ''/'' # u) (lex_slash s)"
proof -
  note r = read_char_text [OF assms(2)] and t = text_at_step [OF assms(2)]
  have els: "els_at (elements (buf s)) (Suc (bsize (buf s))) u"
    using t by (simp add: els_at_def text_at_def)
  have nz: "CHR ''='' \<noteq> CHR 0x00"
    by simp
  consider (block) u1 where "u = CHR ''*'' # u1" | (line) u1 where "u = CHR ''/'' # u1"
    | (eq) "next_char u = CHR ''=''" | (op) "next_char u \<notin> {CHR ''*'', CHR ''/'', CHR ''=''}"
    by (cases u) auto
  then show ?thesis
  proof cases
    case block
    let ?r = "block_comment (elements (buf s)) (Suc (bsize (buf s))) (loc s)"
    note b = block_comment_text [OF els [unfolded block], of "loc s"]
    show ?thesis
    proof (cases ?r)
      case (Val x)
      then obtain p l w u' where x: "x = (p, l)" "u1 = w @ ''*/'' @ u'" "p = Suc (bsize (buf s)) + length w + 3"
        using b by (cases x) auto
      have "is_comment (''/*'' @ w @ ''*/'')"
        by (auto simp: is_comment_def)
      moreover have "CHR ''/'' # u = (''/*'' @ w @ ''*/'') @ u'"
        by (simp add: block x(2))
      moreover have "lex_slash s = Val (Inl (s\<lparr>buf := forward (length (''/*'' @ w @ ''*/'')) (buf s), loc := l\<rparr>))"
        using Val x by (simp add: lex_slash_def r block forward_def)
      moreover have "filename l = filename (loc s)"
        using block_comment_file [of "elements (buf s)" "Suc (bsize (buf s))" "loc s"] Val x(1) by simp
      ultimately show ?thesis
        by (rule stepped_comment)
    qed (use b in \<open>simp_all add: lex_slash_def r block stepped_def\<close>)
  next
    case line
    obtain w u' where w: "line_comment (elements (buf s)) (Suc (bsize (buf s))) = Val (Suc (bsize (buf s)) + length w + 1)"
      "u1 = w @ u'" "CHR 0x0A \<notin> set w"
      using line_comment_text [OF els [unfolded line]] by blast
    have "is_comment (''//'' @ w)"
      using w(3) by (auto simp: is_comment_def)
    moreover have "CHR ''/'' # u = (''//'' @ w) @ u'"
      by (simp add: line w(2))
    moreover have "lex_slash s = Val (Inl (s\<lparr>buf := forward (length (''//'' @ w)) (buf s),
        loc := (loc s)\<lparr>column := column (loc s) + (length w + 2)\<rparr>\<rparr>))"
      using w(1) by (simp add: lex_slash_def r line forward_def)
    ultimately show ?thesis
      by (rule stepped_comment) simp
  next
    case eq
    then have "punct_of (buf s) (CHR ''/'' # u) (T_divideeq, 2, advance (forward 1 (buf s)))"
      by (intro punct_2 [OF _ nz _ assms(2)]) (simp_all only: punct_mem)
    then show ?thesis
      using punct_of_lexed [OF assms(1)] eq by (simp add: lex_slash_def r stepped_def)
  next
    case op
    have "punct_of (buf s) (CHR ''/'' # u) (T_divide, 1, forward 1 (buf s))"
      by (rule punct_1) (simp only: punct_mem)
    then show ?thesis
      using punct_of_lexed [OF assms(1)] op by (simp add: lex_slash_def r stepped_def)
  qed
qed

text \<open>All of a step, which first notes the position.\<close>

lemma emit_eof:
  assumes "lexer_ok s" "text_at (buf s) []"
  shows "lexed s [] (emit_token T_eof 1 (advance (buf s)) s)"
  unfolding emit_token_def
  by (rule lexedI [where v = "[]" and u' = "[]" and ext = "[]"])
    (use assms in \<open>simp_all add: new_token_def spells_def read_char_end lexer_ok_def\<close>)

lemma stepped_good: "good s u r \<Longrightarrow> stepped s u (bind_outcome r (\<lambda>t. Val (Inr t)))"
  by (cases r) (auto simp: good_def stepped_def)

lemma stepped_lexed: "lexed s u x \<Longrightarrow> stepped s u (Val (Inr x))"
  by (simp add: stepped_def)

lemma lex_step_good:
  assumes "lexer_ok s0" "text_at (buf s0) u" "s = s0\<lparr>loc := (loc s0)\<lparr>pos := bsize (buf s0)\<rparr>\<rparr>"
  shows "stepped s u (lex_step alloc s0)"
proof (cases u)
  case Nil
  have "lexer_ok s" "text_at (buf s) []"
    using assms Nil by (simp_all add: lexer_ok_def)
  then have "stepped s [] (Val (Inr (emit_token T_eof 1 (advance (buf s)) s)))"
    by (intro stepped_lexed emit_eof)
  moreover have "lex_step alloc s0 = Val (Inr (emit_token T_eof 1 (advance (buf s)) s))"
    using peek_char_text [OF assms(2), of 0] Nil by (simp add: lex_step_def assms(3))
  ultimately show ?thesis
    by (simp add: Nil)
next
  case (Cons c u1)
  have ok: "lexer_ok s" and t: "text_at (buf s) (c # u1)"
    using assms Cons by (simp_all add: lexer_ok_def)
  have pk: "peek_char (buf s0) 0 = c"
    using peek_char_text [OF assms(2), of 0] Cons by simp
  have nz: "c \<noteq> CHR 0x00"
    using t by (auto simp: text_at_def)
  have one: "stepped s (c # u1) (Val (Inr (emit_token k 1 (advance (buf s)) s)))" if "([c], k) \<in> set punctuators" for k
    using punct_of_lexed [OF ok punct_1 [OF that]] by (simp add: stepped_lexed read_char_text [OF t])
  note step = lex_step_def [of alloc s0, unfolded pk assms(3) [symmetric] Let_def]
  consider "c = CHR ''#''" | "c = CHR 0x5C" | "c = CHR 0x0A" | "c = CHR ''/''" | "c = CHR '' ''" | "c = CHR 0x09"
    | (digit) "isdigit (char_int c)" "c \<notin> {CHR ''#'', CHR 0x5C, CHR 0x0A, CHR ''/'', CHR '' '', CHR 0x09}"
    | (rest) "\<not> isdigit (char_int c)" "c \<notin> {CHR ''#'', CHR 0x5C, CHR 0x0A, CHR ''/'', CHR '' '', CHR 0x09}"
    by blast
  then show ?thesis
  proof cases
    case 1
    then have "lex_step alloc s0 = bind_outcome (lex_directive alloc s) (\<lambda>t. Val (Inr t))"
      by (simp add: step)
    then show ?thesis
      using stepped_good [OF lex_directive_good [OF ok]] t Cons 1 by simp
  next
    case 2
    then have "lex_step alloc s0 = Val (Inr (emit_token T_backslash 1 (advance (buf s)) s))"
      by (simp add: step)
    then show ?thesis
      using one [of T_backslash] Cons 2 by (simp only: punct_mem simp_thms)
  next
    case 3
    then have "lex_step alloc s0 = Val (Inr (lex_newline s))"
      by (simp add: step)
    then show ?thesis
      using stepped_lexed [OF lex_newline_good [OF ok]] t Cons 3 by simp
  next
    case 4
    then have "lex_step alloc s0 = lex_slash s"
      by (simp add: step)
    then show ?thesis
      using lex_slash_good [OF ok] t Cons 4 by simp
  next
    case 5
    then have "lex_step alloc s0 = bind_outcome (lex_spaces s) (\<lambda>t. Val (Inr t))"
      by (simp add: step)
    then show ?thesis
      using stepped_good [OF lex_spaces_good [OF ok]] t Cons 5 by simp
  next
    case 6
    then have "lex_step alloc s0 = Val (Inr (emit_token T_tab 1 (advance (buf s)) s))"
      by (simp add: step)
    then show ?thesis
      using one [of T_tab] Cons 6 by (simp only: punct_mem simp_thms)
  next
    case digit
    then have "lex_step alloc s0 = bind_outcome (lex_number alloc c s) (\<lambda>t. Val (Inr t))"
      using nz by (simp add: step)
    then show ?thesis
      using stepped_good [OF lex_number_good [OF ok t digit(1)]] Cons by simp
  next
    case rest
    have err: "stepped s (c # u1) (Error_at msg l)" for msg l
      by (simp add: stepped_def)
    have pun: "stepped s (c # u1) (case r of (k, n, b) \<Rightarrow> Val (Inr (emit_token k n b s)))"
      if "punct_of (buf s) (c # u1) r" for r
      using that punct_of_lexed [OF ok, of "c # u1"] by (cases r) (simp add: stepped_lexed)
    have name: "stepped s (c # u1) (bind_outcome (lex_name alloc c s) (\<lambda>t. Val (Inr t)))"
      using rest(1) by (intro stepped_good lex_name_good [OF ok t]) (simp add: char_classes)
    show ?thesis
    proof (cases "c = CHR 0x22 \<or> c = CHR 0x27")
      case True
      then show ?thesis
        using stepped_good [OF lex_string_good [OF ok]] stepped_good [OF lex_char_good [OF ok]] t Cons rest nz
        by (elim disjE) (simp_all add: step)
    next
      case False
      then have "lex_step alloc s0 =
         (case lex_punctuator c (buf s) of
             Some r \<Rightarrow> (case r of (k, n, b) \<Rightarrow> Val (Inr (emit_token k n b s)))
           | None \<Rightarrow>
             (case lex_operator c (buf s) of
                Some r \<Rightarrow> (case r of (k, n, b) \<Rightarrow> Val (Inr (emit_token k n b s)))
              | None \<Rightarrow>
                  if name_char c then bind_outcome (lex_name alloc c s) (\<lambda>t. Val (Inr t))
                  else Error_at ''Unexpected token'' (loc s)))"
        using nz rest by (simp add: step)
      then show ?thesis
        using pun name err lex_punctuator_text [OF t] lex_operator_text [OF t] Cons
        by (cases "lex_punctuator c (buf s)"; cases "lex_operator c (buf s)"; simp)
    qed
  qed
qed

end
