(* ===== verification/Tokens.thy ===== *)
theory Tokens
  imports Lexer
begin

text \<open>
  Token streams: \<open>gen_file_token_stream\<close> and \<open>gen_libc_token_stream\<close> with their caches, and the
  operations by which the parser walks along a stream.

  \<open>front\<close> is the state kept between files. \<open>files\<close> gives the bytes of a file, \<open>junk\<close> the
  contents of memory that \<open>malloc\<close> returns. The map of source files holds the bytes only: the
  \<open>size\<close> of a buffer is set to 0 before every use. The chain of tokens from a token on is a list, and
  \<open>cur_token\<close> is its head.
\<close>

section \<open>Files\<close>

record front =
  src_file_map :: "string hashmap"
  token_cache :: "token list hashmap"
  front_pool :: string_pool
  front_directives :: "token_kind hashmap option"
  front_keywords :: "token_kind hashmap option"

definition max_line_len :: nat where
  "max_line_len = 256"

text \<open>One call of \<open>fgets\<close>: at most 255 characters, up to and with a newline.\<close>

definition fgets :: "string \<Rightarrow> string \<times> string" where
  "fgets text =
     (let l = takeWhile (\<lambda>c. c \<noteq> CHR 0x0A) text; n = min (length l + 1) (max_line_len - 1)
      in (take n text, drop n text))"

lemma fgets_rest: "(buffer, rest) = fgets text \<Longrightarrow> text \<noteq> [] \<Longrightarrow> length rest < length text"
  by (simp add: fgets_def max_line_len_def Let_def)

text \<open>The loop over the lines; \<open>strbuf_puts\<close> appends a line up to its first NUL.\<close>

function read_lines :: "string \<Rightarrow> string \<Rightarrow> string" where
  "read_lines text src =
     (if text = [] then src
      else let (buffer, text) = fgets text in read_lines text (src @ takeWhile (\<lambda>c. c \<noteq> CHR 0x00) buffer))"
  by auto
termination
  by (relation "measure (\<lambda>(text, src). length text)") (auto dest: fgets_rest)

declare read_lines.simps [simp del]

definition read_file :: "(string \<Rightarrow> string option) \<Rightarrow> (nat \<Rightarrow> char) \<Rightarrow> string \<Rightarrow> string outcome" where
  "read_file files junk name =
     (case files name of
        None \<Rightarrow> Fatal ''source file cannot be found.''
      | Some text \<Rightarrow>
          let src = read_lines text []
          in Val (src @ map junk [length src..<length text] @ [CHR 0x00]))"

definition get_file_buf :: "(cint \<Rightarrow> bool) \<Rightarrow> (string \<Rightarrow> string option) \<Rightarrow> (nat \<Rightarrow> char)
    \<Rightarrow> string \<Rightarrow> front \<Rightarrow> (string \<times> front) outcome" where
  "get_file_buf alloc files junk name f =
     (if \<not> hashmap_contains (src_file_map f) name then
        bind_outcome (read_file files junk name) (\<lambda>els.
          bind_outcome (or_abort (hashmap_put alloc (src_file_map f) name els)) (\<lambda>m.
            Val (els, f\<lparr>src_file_map := m\<rparr>)))
      else case hashmap_get (src_file_map f) name of
        Some els \<Rightarrow> Val (els, f)
      | None \<Rightarrow> Beyond)"

section \<open>Streams\<close>

text \<open>
  The loop that collects tokens. Every token but the last moves the read index, so the fuel, one
  more than the capacity, is enough for a buffer that ends in a NUL.
\<close>

fun lex_all :: "(cint \<Rightarrow> bool) \<Rightarrow> nat \<Rightarrow> lexer \<Rightarrow> token list \<Rightarrow> (token list \<times> lexer) outcome" where
  "lex_all alloc 0 s tks = Endless"
| "lex_all alloc (Suc n) s tks =
     (if bsize (buf s) < length (elements (buf s)) then
        bind_outcome (lex_token alloc s) (\<lambda>(t, s).
          if kind t = T_eof then Val (tks @ [t], s) else lex_all alloc n s (tks @ [t]))
      else Val (tks, s))"

definition start_lexer :: "string \<Rightarrow> string \<Rightarrow> front \<Rightarrow> lexer" where
  "start_lexer name els f =
     \<lparr>buf = \<lparr>elements = els, bsize = 0\<rparr>,
      loc = \<lparr>pos = 0, len = 1, line = 1, column = 1, filename = name\<rparr>,
      pool = front_pool f, directive_map = front_directives f, keyword_map = front_keywords f\<rparr>"

definition end_lexer :: "lexer \<Rightarrow> front \<Rightarrow> front" where
  "end_lexer s f = f\<lparr>front_pool := pool s, front_directives := directive_map s, front_keywords := keyword_map s\<rparr>"

text \<open>An empty stream would read \<open>head.next\<close>, which is not initialised.\<close>

definition gen_file_token_stream :: "(cint \<Rightarrow> bool) \<Rightarrow> (string \<Rightarrow> string option) \<Rightarrow> (nat \<Rightarrow> char)
    \<Rightarrow> string \<Rightarrow> front \<Rightarrow> (token list \<times> front) outcome" where
  "gen_file_token_stream alloc files junk name f =
     (case hashmap_get (token_cache f) name of
        Some tks \<Rightarrow> Val (tks, f)
      | None \<Rightarrow>
          bind_outcome (get_file_buf alloc files junk name f) (\<lambda>(els, f).
            bind_outcome (lex_all alloc (length els + 1) (start_lexer name els f) []) (\<lambda>(tks, s).
              if tks = [] then Beyond
              else if kind (last tks) \<noteq> T_eof
              then Error_at ''Internal error, expected eof at the end of file'' (location (last tks))
              else bind_outcome (or_abort (hashmap_put alloc (token_cache f) name tks)) (\<lambda>m.
                     Val (tks, (end_lexer s f)\<lparr>token_cache := m\<rparr>)))))"

text \<open>The library source is lexed in the same way, and its end-of-file token is dropped.\<close>

definition gen_libc_token_stream :: "(cint \<Rightarrow> bool) \<Rightarrow> bool \<Rightarrow> string \<Rightarrow> front \<Rightarrow> (token list \<times> front) outcome" where
  "gen_libc_token_stream alloc dynlink libc_src f =
     (let name = (if dynlink then ''lib/c.h'' else ''lib/c.c'')
      in case hashmap_get (token_cache f) name of
           Some tks \<Rightarrow> Val (tks, f)
         | None \<Rightarrow>
             bind_outcome
               (if \<not> hashmap_contains (src_file_map f) name
                then bind_outcome (or_abort (hashmap_put alloc (src_file_map f) name libc_src)) (\<lambda>m.
                       Val (f\<lparr>src_file_map := m\<rparr>))
                else Val f)
               (\<lambda>f. bind_outcome (lex_all alloc (length libc_src + 1) (start_lexer name libc_src f) []) (\<lambda>(tks, s).
                  if tks = [] \<or> kind (last tks) = T_eof \<and> butlast tks = [] then Beyond
                  else if kind (last tks) \<noteq> T_eof
                  then Error_at ''Internal error, expected eof at the end of file'' (location (last tks))
                  else bind_outcome (or_abort (hashmap_put alloc (token_cache f) name (butlast tks))) (\<lambda>m.
                         Val (butlast tks, (end_lexer s f)\<lparr>token_cache := m\<rparr>)))))"

section \<open>Walking along a stream\<close>

text \<open>An operation that follows a null pointer is \<open>Beyond\<close>.\<close>

definition is_blank_token :: "token \<Rightarrow> bool" where
  "is_blank_token t \<longleftrightarrow> kind t = T_whitespace \<or> kind t = T_newline \<or> kind t = T_tab"

fun skip_unused_token :: "token list \<Rightarrow> token list" where
  "skip_unused_token (c # n # tks) = (if is_blank_token n then skip_unused_token (n # tks) else c # n # tks)"
| "skip_unused_token tks = tks"

fun cur_token_loc :: "token list \<Rightarrow> source_location outcome" where
  "cur_token_loc (c # tks) = Val (location c)"
| "cur_token_loc [] = Beyond"

definition next_token_loc :: "token list \<Rightarrow> (source_location \<times> token list) outcome" where
  "next_token_loc tks =
     (case skip_unused_token tks of
        [] \<Rightarrow> Beyond
      | c # rest \<Rightarrow>
          if kind c = T_eof then Val (location c, c # rest)
          else case rest of [] \<Rightarrow> Beyond | n # _ \<Rightarrow> Val (location n, c # rest))"

definition lex_next :: "token list \<Rightarrow> (token_kind \<times> token list) outcome" where
  "lex_next tks =
     (case skip_unused_token tks of
        [] \<Rightarrow> Beyond
      | c # rest \<Rightarrow>
          if kind c = T_eof then Val (T_eof, c # rest)
          else case rest of [] \<Rightarrow> Beyond | n # _ \<Rightarrow> Val (kind n, rest))"

definition next_is :: "token_kind \<Rightarrow> token list \<Rightarrow> bool" where
  "next_is k tks = (case tks of c # n # _ \<Rightarrow> kind n = k | _ \<Rightarrow> False)"

definition lex_accept :: "token_kind \<Rightarrow> token list \<Rightarrow> (bool \<times> token list) outcome" where
  "lex_accept k tks =
     (let tks = skip_unused_token tks
      in if tks = [] then Beyond
         else if next_is k tks then bind_outcome (lex_next tks) (\<lambda>(_, tks). Val (True, tks))
         else Val (False, tks))"

text \<open>\<open>strcpy\<close> from the literal of a token; \<open>strs\<close> are the interned strings.\<close>

definition copy_literal :: "string list \<Rightarrow> bool \<Rightarrow> token \<Rightarrow> string option outcome" where
  "copy_literal strs wanted t =
     (if \<not> wanted then Val None
      else case literal t of None \<Rightarrow> Beyond | Some a \<Rightarrow> Val (Some (strs ! a)))"

definition lex_peek :: "string list \<Rightarrow> token_kind \<Rightarrow> bool \<Rightarrow> token list \<Rightarrow> (bool \<times> string option \<times> token list) outcome" where
  "lex_peek strs k wanted tks =
     (let tks = skip_unused_token tks
      in if tks = [] then Beyond
         else if next_is k tks
         then bind_outcome (copy_literal strs wanted (tks ! 1)) (\<lambda>v. Val (True, v, tks))
         else Val (False, None, tks))"

definition unexpected :: "token list \<Rightarrow> 'a outcome" where
  "unexpected tks = Error_at ''Unexpected token'' (location (case tks of c # n # _ \<Rightarrow> n | _ \<Rightarrow> hd tks))"

definition lex_ident :: "string list \<Rightarrow> token_kind \<Rightarrow> bool \<Rightarrow> token list \<Rightarrow> (string option \<times> token list) outcome" where
  "lex_ident strs k wanted tks =
     (let tks = skip_unused_token tks
      in if tks = [] then Beyond
         else if next_is k tks
         then bind_outcome (lex_next tks) (\<lambda>(_, tks).
                bind_outcome (copy_literal strs wanted (hd tks)) (\<lambda>v. Val (v, tks)))
         else unexpected tks)"

definition lex_expect :: "token_kind \<Rightarrow> token list \<Rightarrow> token list outcome" where
  "lex_expect k tks =
     (let tks = skip_unused_token tks
      in if tks = [] then Beyond
         else if next_is k tks then bind_outcome (lex_next tks) (\<lambda>(_, tks). Val tks)
         else unexpected tks)"

end
