(* ===== verification/LexProps.thy ===== *)
theory LexProps
  imports LexStep Tokens
begin

text \<open>
  The properties of the lexer and of token streams.
\<close>

section \<open>Streams that tile a text\<close>

text \<open>
  The tokens \<open>tks\<close> and comments between them cover the text \<open>u\<close> from position \<open>p\<close> on, without a
  gap, each token by its spelling, and the last one is the end of the file.
\<close>

inductive tiled :: "string list \<Rightarrow> nat \<Rightarrow> string \<Rightarrow> token list \<Rightarrow> bool" for strs where
  tiled_eof: "kind t = T_eof \<Longrightarrow> spells strs t [] \<Longrightarrow> pos (location t) = p \<Longrightarrow> tiled strs p [] [t]"
| tiled_comment: "is_comment v \<Longrightarrow> tiled strs (p + length v) u tks \<Longrightarrow> tiled strs p (v @ u) tks"
| tiled_token: "spells strs t v \<Longrightarrow> v \<noteq> [] \<Longrightarrow> kind t \<noteq> T_eof \<Longrightarrow> pos (location t) = p
    \<Longrightarrow> len (location t) = length v \<Longrightarrow> tiled strs (p + length v) u tks \<Longrightarrow> tiled strs p (v @ u) (t # tks)"

inductive_cases tiled_NilE: "tiled strs p u []"

lemma spells_append: "spells strs t v \<Longrightarrow> spells (strs @ ext) t v"
  by (auto simp: spells_def nth_append split: option.splits if_splits)

lemma tiled_append: "tiled strs p u tks \<Longrightarrow> tiled (strs @ ext) p u tks"
  by (induction rule: tiled.induct) (auto intro: tiled.intros spells_append)

section \<open>One token\<close>

text \<open>What a call of \<open>lex_token\<close> on the text \<open>u\<close> may do.\<close>

definition lexed_token :: "lexer \<Rightarrow> string \<Rightarrow> token \<times> lexer \<Rightarrow> bool" where
  "lexed_token s u = (\<lambda>(t, s'). \<exists>v u' ext. u = v @ u' \<and> lexer_ok s' \<and> text_at (buf s') u'
     \<and> elements (buf s') = elements (buf s) \<and> contents (pool s') = contents (pool s) @ ext
     \<and> (if kind t = T_eof then u' = [] else length u' < length u)
     \<and> (\<forall>strs tks. (if kind t = T_eof then tks = [] else tiled (contents (pool s') @ strs) (bsize (buf s')) u' tks)
          \<longrightarrow> tiled (contents (pool s') @ strs) (bsize (buf s)) u (t # tks)))"

lemma lex_token_good:
  "lexer_ok s \<Longrightarrow> text_at (buf s) u
    \<Longrightarrow> case lex_token alloc s of Val x \<Rightarrow> lexed_token s u x | r \<Rightarrow> proper r"
proof (induction "length u" arbitrary: s u rule: less_induct)
  case less
  define s0 where "s0 = s\<lparr>loc := (loc s)\<lparr>pos := bsize (buf s)\<rparr>\<rparr>"
  note step = lex_step_good [OF less.prems s0_def, of alloc]
  show ?case
  proof (cases "lex_step alloc s")
    case (Val x)
    show ?thesis
    proof (cases x)
      case (Inl s')
      obtain v u' l where v: "u = v @ u'" "is_comment v" "s' = s0\<lparr>buf := forward (length v) (buf s0), loc := l\<rparr>"
        using step Val Inl by (auto simp: stepped_def)
      have "v \<noteq> []"
        using v(2) by (auto simp: is_comment_def)
      then have short: "length u' < length u"
        using v(1) by simp
      have ok: "lexer_ok s'" "text_at (buf s') u'"
        using less.prems text_at_forward [of "buf s" v u'] v by (simp_all add: s0_def lexer_ok_def)
      have run: "lex_token alloc s = lex_token alloc s'"
        using Val Inl by (subst lex_token.simps) simp
      have same: "elements (buf s') = elements (buf s)" "contents (pool s') = contents (pool s)"
        "bsize (buf s') = bsize (buf s) + length v"
        using v(3) by (simp_all add: s0_def)
      show ?thesis
      proof (cases "lex_token alloc s'")
        case (Val y)
        obtain t s2 where y: "y = (t, s2)" by (cases y)
        obtain w u2 ext where w: "u' = w @ u2" "lexer_ok s2" "text_at (buf s2) u2" "elements (buf s2) = elements (buf s')"
          "contents (pool s2) = contents (pool s') @ ext" "if kind t = T_eof then u2 = [] else length u2 < length u'"
          "\<And>strs tks. (if kind t = T_eof then tks = [] else tiled (contents (pool s2) @ strs) (bsize (buf s2)) u2 tks)
            \<Longrightarrow> tiled (contents (pool s2) @ strs) (bsize (buf s')) u' (t # tks)"
          using less.hyps [OF short ok] Val by (auto simp: lexed_token_def y)
        have "tiled (contents (pool s2) @ strs) (bsize (buf s)) u (t # tks)"
          if "if kind t = T_eof then tks = [] else tiled (contents (pool s2) @ strs) (bsize (buf s2)) u2 tks" for strs tks
          unfolding v(1) by (rule tiled_comment [OF v(2)]) (use w(7) [OF that] same in simp)
        then have "lexed_token s u (t, s2)"
          unfolding lexed_token_def prod.case
          by (intro exI [of _ "v @ w"] exI [of _ u2] exI [of _ ext]) (use w(1-6) v(1) same short in auto)
        then show ?thesis
          by (simp add: run Val y)
      qed (use less.hyps [OF short ok] run in \<open>auto split: outcome.splits\<close>)
    next
      case (Inr y)
      obtain t s' where y: "y = (t, s')" by (cases y)
      obtain v u' ext where v: "u = v @ u'" "spells (contents (pool s')) t v" "pos (location t) = bsize (buf s)"
        "if kind t = T_eof then v = [] \<and> u = [] else v \<noteq> [] \<and> len (location t) = length v"
        "buf s' = forward (length v) (buf s)" "contents (pool s') = contents (pool s) @ ext" "lexer_ok s'"
        using step Val Inr by (auto simp: stepped_def lexed_def y s0_def)
      have "tiled (contents (pool s') @ strs) (bsize (buf s)) u (t # tks)"
        if "if kind t = T_eof then tks = [] else tiled (contents (pool s') @ strs) (bsize (buf s')) u' tks" for strs tks
      proof (cases "kind t = T_eof")
        case True
        then show ?thesis
          using that v(3,4) spells_append [OF v(2)] by (auto intro: tiled_eof)
      next
        case False
        then show ?thesis
          unfolding v(1) using that v(3-5) spells_append [OF v(2)] by (intro tiled_token) simp_all
      qed
      then have "lexed_token s u (t, s')"
        unfolding lexed_token_def prod.case
        by (intro exI [of _ v] exI [of _ u'] exI [of _ ext])
          (use v(1,4-7) text_at_forward [of "buf s" v u'] less.prems(2) in auto)
      then show ?thesis
        using Val Inr by (subst lex_token.simps) (simp add: y)
    qed
  qed (use step in \<open>subst lex_token.simps, simp add: stepped_def\<close>)+
qed

section \<open>A whole file\<close>

lemma lex_all_good:
  "lexer_ok s \<Longrightarrow> text_at (buf s) u \<Longrightarrow> length u < n
    \<Longrightarrow> case lex_all alloc n s tks of
      Val (tks', s') \<Rightarrow> lexer_ok s' \<and> (\<exists>ts ext. tks' = tks @ ts \<and> ts \<noteq> [] \<and> kind (last ts) = T_eof
        \<and> contents (pool s') = contents (pool s) @ ext
        \<and> tiled (contents (pool s')) (bsize (buf s)) u ts)
    | r \<Rightarrow> proper r"
proof (induction n arbitrary: s u tks)
  case (Suc n)
  have room: "bsize (buf s) < length (elements (buf s))"
    using text_at_length [OF Suc.prems(2)] by simp
  note tok = lex_token_good [OF Suc.prems(1,2), of alloc]
  show ?case
  proof (cases "lex_token alloc s")
    case (Val x)
    obtain t s1 where x: "x = (t, s1)" by (cases x)
    obtain v u1 ext where l: "u = v @ u1" "lexer_ok s1" "text_at (buf s1) u1" "contents (pool s1) = contents (pool s) @ ext"
      "if kind t = T_eof then u1 = [] else length u1 < length u"
      "\<And>strs tks. (if kind t = T_eof then tks = [] else tiled (contents (pool s1) @ strs) (bsize (buf s1)) u1 tks)
        \<Longrightarrow> tiled (contents (pool s1) @ strs) (bsize (buf s)) u (t # tks)"
      using tok Val by (auto simp: lexed_token_def x)
    show ?thesis
    proof (cases "kind t = T_eof")
      case True
      then show ?thesis
        using room Val l(2,4) l(6) [of "[]" "[]"] by (auto simp: x)
    next
      case False
      then have "length u1 < n"
        using l(5) Suc.prems(3) by simp
      note ih = Suc.IH [OF l(2,3) this, of "tks @ [t]"]
      have run: "lex_all alloc (Suc n) s tks = lex_all alloc n s1 (tks @ [t])"
        using room Val False by (simp add: x)
      show ?thesis
      proof (cases "lex_all alloc n s1 (tks @ [t])")
        case (Val y)
        obtain tks' s' where y: "y = (tks', s')" by (cases y)
        obtain ts ext' where i: "lexer_ok s'" "tks' = (tks @ [t]) @ ts" "ts \<noteq> []" "kind (last ts) = T_eof"
          "contents (pool s') = contents (pool s1) @ ext'" "tiled (contents (pool s')) (bsize (buf s1)) u1 ts"
          using ih Val by (auto simp: y)
        have "tiled (contents (pool s1) @ ext') (bsize (buf s)) u (t # ts)"
          using l(6) [of ts ext'] i(5,6) False by simp
        then have "tks' = tks @ (t # ts) \<and> t # ts \<noteq> [] \<and> kind (last (t # ts)) = T_eof
            \<and> contents (pool s') = contents (pool s) @ (ext @ ext') \<and> tiled (contents (pool s')) (bsize (buf s)) u (t # ts)"
          using i l(4) by simp
        then show ?thesis
          using i(1) unfolding run Val y outcome.case prod.case by blast
      qed (use ih run in auto)
    qed
  qed (use tok room in auto)
qed simp

declare lex_all.simps [simp del]

lemma read_lines_text: "CHR 0x00 \<notin> set u \<Longrightarrow> read_lines u src = src @ u"
proof (induction "length u" arbitrary: u src rule: less_induct)
  case less
  show ?case
  proof (cases "u = []")
    case False
    obtain buffer rest where f: "fgets u = (buffer, rest)" by fastforce
    then have b: "u = buffer @ rest" "length rest < length u"
      using fgets_rest [of buffer rest u] False by (auto simp: fgets_def Let_def)
    have tw: "takeWhile (\<lambda>c. c \<noteq> CHR 0x00) buffer = buffer"
      using less.prems b(1) by (auto simp: takeWhile_eq_all_conv)
    then have "read_lines u src = read_lines rest (src @ buffer)"
      using False f tw by (subst read_lines.simps) (simp del: takeWhile_eq_all_conv)
    also have "\<dots> = (src @ buffer) @ rest"
      using less.prems b by (intro less.hyps) auto
    finally show ?thesis
      using b(1) by simp
  qed (simp add: read_lines.simps)
qed

definition front_ok :: "front \<Rightarrow> bool" where
  "front_ok f \<longleftrightarrow> hm_inv (src_file_map f) \<and> hm_inv (token_cache f) \<and> pool_inv (front_pool f)
     \<and> map_ok directive_mappings (front_directives f) \<and> map_ok keyword_mappings (front_keywords f)"

lemma gen_file_good:
  assumes "front_ok f" "hashmap_get (token_cache f) name = None" "\<not> hashmap_contains (src_file_map f) name"
    "files name = Some u" "CHR 0x00 \<notin> set u"
  shows "case gen_file_token_stream alloc files junk name f of
      Val (tks, f') \<Rightarrow> tiled (contents (front_pool f')) 0 u tks \<and> front_ok f'
        \<and> hashmap_get (token_cache f') name = Some tks
    | r \<Rightarrow> proper r"
proof (cases "hashmap_put alloc (src_file_map f) name (u @ [CHR 0x00])")
  case None
  then show ?thesis
    using assms by (simp add: gen_file_token_stream_def get_file_buf_def read_file_def read_lines_text or_abort_def)
next
  case (Some m)
  define f1 where "f1 = f\<lparr>src_file_map := m\<rparr>"
  let ?s = "start_lexer name (u @ [CHR 0x00]) f1"
  have buf1: "get_file_buf alloc files junk name f = Val (u @ [CHR 0x00], f1)"
    using assms Some by (simp add: get_file_buf_def read_file_def read_lines_text or_abort_def f1_def)
  have m: "hm_inv m"
    using hm.put_inv [OF _ Some] assms(1) by (simp add: front_ok_def)
  have ok: "lexer_ok ?s" "text_at (buf ?s) u"
    using assms(1,5) by (simp_all add: lexer_ok_def start_lexer_def f1_def front_ok_def text_at_def)
  note all = lex_all_good [OF ok, where n = "length (u @ [CHR 0x00]) + 1" and alloc = alloc and tks = "[]"]
  show ?thesis
  proof (cases "lex_all alloc (length (u @ [CHR 0x00]) + 1) ?s []")
    case (Val x)
    obtain tks s where x: "x = (tks, s)" by (cases x)
    have s: "lexer_ok s" "tks \<noteq> []" "kind (last tks) = T_eof" "tiled (contents (pool s)) 0 u tks"
      using all Val by (auto simp: x start_lexer_def)
    show ?thesis
    proof (cases "hashmap_put alloc (token_cache f1) name tks")
      case None
      then show ?thesis
        using s Val x buf1 assms(2) by (simp add: gen_file_token_stream_def or_abort_def)
    next
      case (Some c)
      have inv: "hm_inv (token_cache f1)"
        using assms(1) by (simp add: front_ok_def f1_def)
      have g: "gen_file_token_stream alloc files junk name f = Val (tks, (end_lexer s f1)\<lparr>token_cache := c\<rparr>)"
        using s Val x buf1 assms(2) Some by (simp add: gen_file_token_stream_def or_abort_def)
      show ?thesis
        unfolding g using s m hm.put_inv [OF inv Some] hm.get_put [OF inv Some]
        by (simp add: end_lexer_def front_ok_def lexer_ok_def f1_def)
    qed
  qed (use all buf1 assms(2) in \<open>simp_all add: gen_file_token_stream_def\<close>)
qed

section \<open>Properties\<close>

definition loc1 :: source_location where
  "loc1 = \<lparr>pos = 0, len = 1, line = 1, column = 1, filename = ''f''\<rparr>"

definition front0 :: front where
  "front0 = \<lparr>src_file_map = fresh 4, token_cache = fresh 4, front_pool = \<lparr>strings = fresh 4, contents = []\<rparr>,
     front_directives = None, front_keywords = None\<rparr>"

lemma front0_ok: "front_ok front0"
proof -
  have "cap_ok 4"
    unfolding cap_ok_def by (rule exI [of _ 2]) simp
  then show ?thesis
    by (simp add: front_ok_def front0_def pool_inv_def fresh_inv map_ok_def)
qed

lemma front0_empty: "hashmap_get (token_cache front0) name = None" "\<not> hashmap_contains (src_file_map front0) name"
proof -
  have inv: "hm_inv (token_cache front0)" "hm_inv (src_file_map front0)"
    using front0_ok by (simp_all add: front_ok_def)
  show "hashmap_get (token_cache front0) name = None" "\<not> hashmap_contains (src_file_map front0) name"
    using hm.get_abs [OF inv(1)] hashmap_contains_abs [OF inv(2)] by (simp_all add: front0_def fresh_inv(2))
qed

text \<open>
  C5. The tokens of a file tile its text: from position 0 to the end every character belongs to
  exactly one token, which lies there with its position, its length and its spelling, or to a
  comment; the last token is the end of the file, and the stream is found in the cache afterwards.
\<close>
theorem gen_file_tiles:
  assumes "front_ok f" "hashmap_get (token_cache f) name = None" "\<not> hashmap_contains (src_file_map f) name"
    "files name = Some u" "CHR 0x00 \<notin> set u"
    "gen_file_token_stream alloc files junk name f = Val (tks, f')"
  shows "tiled (contents (front_pool f')) 0 u tks
    \<and> gen_file_token_stream alloc files junk name f' = Val (tks, f')"
proof -
  have "tiled (contents (front_pool f')) 0 u tks \<and> hashmap_get (token_cache f') name = Some tks"
    using gen_file_good [where files = files, OF assms(1-5), of alloc junk] assms(6) by simp
  then show ?thesis
    by (simp add: gen_file_token_stream_def [of _ _ _ _ f'])
qed

definition file1 :: "(token list \<times> front) outcome" where
  "file1 = gen_file_token_stream (\<lambda>_. True) (\<lambda>_. Some ''1;'') (\<lambda>_. CHR 0x00) ''f'' front0"

lemma outcome_Val: "(case r of Val (x, y) \<Rightarrow> P x y | _ \<Rightarrow> False) \<Longrightarrow> \<exists>x y. r = Val (x, y) \<and> P x y"
  by (auto split: outcome.splits)

lemma file1_val: "\<exists>tks f. file1 = Val (tks, f) \<and> map kind tks = [T_numeric, T_semicolon, T_eof]"
  by (rule outcome_Val) code_simp

theorem gen_file_tiles_witness:
  "\<exists>tks f. file1 = Val (tks, f) \<and> map kind tks = [T_numeric, T_semicolon, T_eof]
     \<and> tiled (contents (front_pool f)) 0 ''1;'' tks
     \<and> gen_file_token_stream (\<lambda>_. True) (\<lambda>_. Some ''1;'') (\<lambda>_. CHR 0x00) ''f'' f = Val (tks, f)"
proof -
  obtain tks f where f: "file1 = Val (tks, f)" "map kind tks = [T_numeric, T_semicolon, T_eof]"
    using file1_val by (elim exE conjE) (rule that)
  have g: "tiled (contents (front_pool f)) 0 ''1;'' tks
      \<and> gen_file_token_stream (\<lambda>_. True) (\<lambda>_. Some ''1;'') (\<lambda>_. CHR 0x00) ''f'' f = Val (tks, f)"
    by (rule gen_file_tiles [OF front0_ok front0_empty _ _ f(1) [unfolded file1_def]]) simp_all
  show ?thesis
    by (rule exI [of _ tks], rule exI [of _ f], intro conjI f g [THEN conjunct1] g [THEN conjunct2])
qed

text \<open>
  C22. The lexer always comes to an end: for a file without NUL characters \<^verbatim>\<open>gen_file_token_stream\<close>
  neither loops nor reads outside the text. It returns, reports an error, or aborts because a table
  is full; or it runs over the end of \<^verbatim>\<open>token_buffer\<close>.
\<close>
theorem gen_file_terminates:
  assumes "front_ok f" "hashmap_get (token_cache f) name = None" "\<not> hashmap_contains (src_file_map f) name"
    "files name = Some u" "CHR 0x00 \<notin> set u"
  shows "gen_file_token_stream alloc files junk name f \<noteq> Endless \<and> gen_file_token_stream alloc files junk name f \<noteq> Beyond"
  using gen_file_good [where files = files, OF assms, of alloc junk] by auto

theorem gen_file_terminates_witness:
  "gen_file_token_stream (\<lambda>_. True) (\<lambda>_. Some ''/* a'') (\<lambda>_. CHR 0x00) ''f'' front0 \<noteq> Endless
    \<and> gen_file_token_stream (\<lambda>_. True) (\<lambda>_. Some ''/* a'') (\<lambda>_. CHR 0x00) ''f'' front0 \<noteq> Beyond"
  by (rule gen_file_terminates [OF front0_ok front0_empty, where u = "''/* a''"]) simp_all

section \<open>Printing a stream\<close>

definition spelling :: "string list \<Rightarrow> token \<Rightarrow> string" where
  "spelling strs t =
     (case literal t of
        Some a \<Rightarrow> (if kind t = T_string then CHR 0x22 # strs ! a @ [CHR 0x22]
                   else if kind t = T_char then CHR 0x27 # strs ! a @ [CHR 0x27] else strs ! a)
      | None \<Rightarrow> (if kind t = T_eof then []
                 else if kind t = T_whitespace then replicate (len (location t)) (CHR '' '')
                 else the (map_of (map (\<lambda>(v, k). (k, v)) (directive_mappings @ punctuators)) (kind t))))"

lemma mappings_inj:
  "map_of (directive_mappings @ punctuators) v = Some k
    \<Longrightarrow> map_of (map (\<lambda>(v, k). (k, v)) (directive_mappings @ punctuators)) k = Some v"
proof -
  have "\<forall>(v, k)\<in>set (directive_mappings @ punctuators).
      map_of (map (\<lambda>(v, k). (k, v)) (directive_mappings @ punctuators)) k = Some v"
    by code_simp
  then show "map_of (directive_mappings @ punctuators) v = Some k \<Longrightarrow> ?thesis"
    by (auto dest!: map_of_SomeD simp del: map_append map_of_append set_append)
qed

lemma spells_spelling:
  assumes "spells strs t v" "kind t = T_eof \<or> len (location t) = length v"
  shows "spelling strs t = v"
  using assms by (auto simp: spells_def spelling_def mappings_inj split: option.splits if_splits simp del: map_append map_of_append)

lemma tiled_spelling:
  "tiled strs p u tks \<Longrightarrow> CHR ''/'' \<notin> set u
    \<Longrightarrow> concat (map (spelling strs) tks) = u"
proof (induction rule: tiled.induct)
  case (tiled_comment v p u tks)
  then show ?case
    by (auto simp: is_comment_def)
next
  case (tiled_token t v p u tks)
  then show ?case
    using spells_spelling [OF tiled_token(1)] by simp
qed (simp add: spells_spelling)

text \<open>
  C21. Printing a stream gives back the file: the spellings of the tokens of a file without a slash,
  so without comments, are its text, character by character.
\<close>
theorem lex_print:
  assumes "front_ok f" "hashmap_get (token_cache f) name = None" "\<not> hashmap_contains (src_file_map f) name"
    "files name = Some u" "CHR 0x00 \<notin> set u" "CHR ''/'' \<notin> set u"
    "gen_file_token_stream alloc files junk name f = Val (tks, f')"
  shows "concat (map (spelling (contents (front_pool f'))) tks) = u"
proof -
  have "tiled (contents (front_pool f')) 0 u tks"
    using gen_file_good [where files = files, OF assms(1-5), of alloc junk] assms(7) by simp
  then show ?thesis
    using assms(6) by (rule tiled_spelling)
qed

theorem lex_print_witness:
  "\<exists>tks f. file1 = Val (tks, f) \<and> concat (map (spelling (contents (front_pool f))) tks) = ''1;''"
proof -
  obtain tks f where f: "file1 = Val (tks, f)"
    using file1_val by blast
  have "concat (map (spelling (contents (front_pool f))) tks) = ''1;''"
    by (rule lex_print [OF front0_ok front0_empty _ _ _ f [unfolded file1_def]]) simp_all
  with f show ?thesis by blast
qed

section \<open>Keywords\<close>

text \<open>
  C24. The fast path for keywords changes nothing: whenever the inline comparison finds a keyword,
  the lookup in the keyword map, whose place it takes, would find the same one.
\<close>
theorem common_keyword_agrees:
  assumes "lexer_ok s" "lookup_keyword alloc tb s = Val (k, s')"
  shows "(if common_keyword tb = T_identifier then k else common_keyword tb) = k"
  using common_keyword_ok [of tb] lookup_keyword_ok(1) [OF assms] by simp

definition lexer_at :: "string \<Rightarrow> lexer" where
  "lexer_at u = start_lexer ''f'' (u @ [CHR 0x00]) front0"

lemma lexer_at_ok: "lexer_ok (lexer_at u)"
  using front0_ok by (simp add: lexer_at_def lexer_ok_def front_ok_def start_lexer_def)

theorem common_keyword_agrees_witness:
  "\<exists>k s. lookup_keyword (\<lambda>_. True) ''goto'' (lexer_at []) = Val (k, s) \<and> k = T_goto
     \<and> (if common_keyword ''goto'' = T_identifier then k else common_keyword ''goto'') = k"
proof -
  have "\<exists>k s. lookup_keyword (\<lambda>_. True) ''goto'' (lexer_at []) = Val (k, s) \<and> k = T_goto"
    by (rule outcome_Val) code_simp
  then obtain k s where k: "lookup_keyword (\<lambda>_. True) ''goto'' (lexer_at []) = Val (k, s)" "k = T_goto"
    by blast
  with common_keyword_agrees [OF lexer_at_ok k(1)] show ?thesis by blast
qed

section \<open>The stream of the parser\<close>

text \<open>
  What the parser sees of a stream: the tokens after the current one that are not blank.
\<close>

definition view :: "token list \<Rightarrow> token list" where
  "view tks = filter (\<lambda>t. \<not> is_blank_token t) (tl tks)"

lemma skip_view:
  "tks \<noteq> [] \<Longrightarrow> \<exists>c r. skip_unused_token tks = c # r \<and> view (c # r) = view tks
    \<and> (case r of [] \<Rightarrow> view tks = [] | n # r' \<Rightarrow> \<not> is_blank_token n \<and> view tks = n # view r)"
proof (induction tks rule: skip_unused_token.induct)
  case (1 c n tks)
  show ?case
  proof (cases "is_blank_token n")
    case True
    then have e: "skip_unused_token (c # n # tks) = skip_unused_token (n # tks)" "view (c # n # tks) = view (n # tks)"
      by (simp_all add: view_def)
    show ?thesis
      unfolding e using 1(1) [OF True] by blast
  qed (simp add: view_def)
qed (simp_all add: view_def)

text \<open>
  C23. \<^verbatim>\<open>lex_accept\<close> is the operation of an abstract reader of the tokens that are not blank: it
  succeeds exactly where the next of them has the kind, takes it then and nothing otherwise.
\<close>
theorem lex_accept_view:
  assumes "tks \<noteq> []" "view tks = [] \<or> kind (hd (skip_unused_token tks)) \<noteq> T_eof"
  shows "\<exists>tks'. lex_accept k tks = Val (view tks \<noteq> [] \<and> kind (hd (view tks)) = k, tks') \<and> tks' \<noteq> []
    \<and> view tks' = (if view tks \<noteq> [] \<and> kind (hd (view tks)) = k then tl (view tks) else view tks)"
proof -
  obtain c r where r: "skip_unused_token tks = c # r" "view (c # r) = view tks"
    "case r of [] \<Rightarrow> view tks = [] | n # r' \<Rightarrow> \<not> is_blank_token n \<and> view tks = n # view r"
    using skip_view [OF assms(1)] by blast
  show ?thesis
  proof (cases r)
    case Nil
    then show ?thesis
      using r by (simp add: lex_accept_def next_is_def)
  next
    case (Cons n r')
    then have v: "\<not> is_blank_token n" "view tks = n # view r"
      using r(3) by simp_all
    have again: "skip_unused_token (c # r) = c # r"
      using Cons v(1) by simp
    then show ?thesis
      using r(1,2) assms(2) v Cons by (auto simp: lex_accept_def next_is_def lex_next_def Let_def)
  qed
qed

theorem lex_accept_view_witness:
  "\<exists>tks'. lex_accept T_semicolon [new_token T_numeric loc1 1, new_token T_tab loc1 1, new_token T_semicolon loc1 1]
      = Val (True, tks') \<and> view tks' = []"
proof -
  let ?tks = "[new_token T_numeric loc1 1, new_token T_tab loc1 1, new_token T_semicolon loc1 1]"
  have v: "view ?tks = [new_token T_semicolon loc1 1]" "skip_unused_token ?tks = tl ?tks"
    by (simp_all add: view_def is_blank_token_def new_token_def)
  then have "\<exists>tks'. lex_accept T_semicolon ?tks = Val (view ?tks \<noteq> [] \<and> kind (hd (view ?tks)) = T_semicolon, tks') \<and> tks' \<noteq> []
    \<and> view tks' = (if view ?tks \<noteq> [] \<and> kind (hd (view ?tks)) = T_semicolon then tl (view ?tks) else view ?tks)"
    by (intro lex_accept_view) (simp_all add: new_token_def)
  then show ?thesis
    unfolding v by (auto simp: new_token_def)
qed

section \<open>Flaws\<close>

lemma string_overflow:
  assumes "text_at b (replicate m (CHR 0x5C) @ u)" "0 < length tb" "last tb = CHR 0x5C"
    "length tb \<le> max_token_len" "max_token_len < length tb + m"
  shows "collect_string l b tb True (next_char (replicate m (CHR 0x5C) @ u)) = Overflow"
  using assms
proof (induction m arbitrary: b tb)
  case (Suc m)
  have last: "tb ! (length tb - 1) = CHR 0x5C"
    using Suc.prems(2,3) by (simp add: last_conv_nth)
  have t: "text_at b (CHR 0x5C # replicate m (CHR 0x5C) @ u)"
    using Suc.prems(1) by simp
  show ?case
  proof (cases "length tb < max_token_len")
    case True
    have "collect_string l (forward 1 b) (tb @ [CHR 0x5C]) True (next_char (replicate m (CHR 0x5C) @ u)) = Overflow"
      using Suc.prems True by (intro Suc.IH text_at_step [OF t]) simp_all
    then show ?thesis
      using True last Suc.prems(2) by (subst collect_string.simps) (simp add: store_def read_char_text [OF t])
  next
    case False
    then show ?thesis
      using last Suc.prems(2) by (subst collect_string.simps) (simp add: store_def)
  qed
qed simp

text \<open>
  C39. A string literal of more than 256 backslashes writes beyond \<^verbatim>\<open>token_buffer\<close>: the length is
  not checked for a character that follows a backslash.
\<close>
theorem lex_string_overflow:
  assumes "text_at (buf s) (CHR 0x22 # replicate m (CHR 0x5C) @ u)" "256 < m"
  shows "lex_string alloc s = Overflow"
proof -
  obtain n where m: "m = Suc n" "256 \<le> n"
    using assms(2) by (cases m) auto
  have t: "text_at (buf s) (CHR 0x22 # CHR 0x5C # replicate n (CHR 0x5C) @ u)"
    using assms(1) m(1) by simp
  note t1 = text_at_step [OF t]
  have "collect_string (loc s) (forward 1 (forward 1 (buf s))) [CHR 0x5C] True (next_char (replicate n (CHR 0x5C) @ u)) = Overflow"
    using m(2) by (intro string_overflow text_at_step [OF t1]) (simp_all add: max_token_len_def)
  then have "collect_string (loc s) (forward 1 (buf s)) [] False (CHR 0x5C) = Overflow"
    by (subst collect_string.simps) (simp add: store_def max_token_len_def read_char_text [OF t1, unfolded One_nat_def])
  then show ?thesis
    by (simp add: lex_string_def read_char_text [OF t])
qed

theorem lex_string_overflow_witness:
  "lex_string (\<lambda>_. True) (lexer_at (CHR 0x22 # replicate 300 (CHR 0x5C))) = Overflow"
  by (rule lex_string_overflow [where m = 300 and u = "[]"])
    (simp_all add: lexer_at_def start_lexer_def text_at_def)

text \<open>
  A comment whose closing slash follows an even number of stars, as in \<open>/***/\<close>, is not closed: the
  character after a star is consumed with it.
\<close>
theorem block_comment_stars:
  "lex_token alloc (lexer_at ''/***/'')
    = Error_at ''Unenclosed C-style comment'' \<lparr>pos = 0, len = 1, line = 1, column = 5, filename = ''f''\<rparr>"
  by (simp add: lex_token.simps lex_step_def lexer_at_def start_lexer_def peek_char_def lex_slash_def read_char_def
      block_comment.simps Let_def)

text \<open>
  A string literal that ends in an escaped backslash does not end at its quote: the literal read
  from \<open>"\\"+"\<close> is \<open>\\"+\<close>.
\<close>
theorem lex_string_escaped_backslash:
  "collect_string l (buf (lexer_at [CHR 0x5C, CHR 0x5C, CHR 0x22, CHR ''+'', CHR 0x22])) [] False (CHR 0x5C)
    = Val ([CHR 0x5C, CHR 0x5C, CHR 0x22, CHR ''+''],
        forward 4 (buf (lexer_at [CHR 0x5C, CHR 0x5C, CHR 0x22, CHR ''+'', CHR 0x22])))"
  by (simp add: collect_string.simps lexer_at_def start_lexer_def read_char_def store_def max_token_len_def forward_def)

end
