(* ===== verification/CfgIr.thy ===== *)
theory CfgIr
  imports SsaIr
begin

text \<open>
  The program as the passes behind SSA construction see it: variables with the fields of
  \<^verbatim>\<open>var_t\<close> that liveness analysis and register allocation use, instructions with their
  index, basic blocks with their control flow edges and liveness lists, functions with
  their block chains, and the traversals of \<^verbatim>\<open>src/ssa.c\<close> over them.

  Blocks are identified by a number; the stores \<open>avars\<close> and \<open>blocks\<close> hold what the
  pointers lead to. \<open>NULL\<close> is \<open>None\<close>. A \<open>var_list_t\<close> is a list, since its array grows
  as needed.
\<close>

text \<open>A \<open>type_t *\<close>: one of the predefined types, or another one with its \<open>size\<close>.\<close>

datatype type_ptr = TY_void | TY_char | TY_bool | TY_int | TY_short | TY_other cint

record avar = svar +
  v_name :: string
  v_type :: type_ptr
  ptr_level :: cint
  is_func :: bool
  address_taken :: bool
  array_size :: cint
  offset :: cint
  consumed :: cint
  phys_reg :: cint
  first_use :: cint
  last_use :: cint
  loop_depth :: cint
  use_count :: cint
  space_is_allocated :: bool
  v_ofs_top :: bool

type_synonym avars = "var_ref \<Rightarrow> avar"

record ainsn = sinsn +
  i_idx :: cint
  i_str :: string

record ablock =
  a_insns :: "ainsn list"
  a_code :: "ph2_ir list"
  a_next :: "bb_ref option"
  a_then :: "bb_ref option"
  a_else :: "bb_ref option"
  a_prev :: "bb_ref list"
  live_gen :: "var_ref list"
  live_kill :: "var_ref list"
  live_in :: "var_ref list"
  live_out :: "var_ref list"
  a_rpo :: cint
  a_rank_r :: cint
  a_idom :: "bb_ref option"
  a_r_idom :: "bb_ref option"
  a_dom_next :: "bb_ref list"
  a_dom_prev :: "bb_ref option"
  a_rdom_next :: "bb_ref list"
  a_rdom_prev :: "bb_ref option"
  a_DF :: "bb_ref list"
  a_RDF :: "bb_ref list"
  a_visited :: cint

record afunc =
  a_name :: string
  a_ret :: type_ptr
  a_params :: "var_ref list"
  a_va_args :: bool
  a_stack_size :: cint
  a_bbs :: "bb_ref list"
  a_rpo_r :: "bb_ref list"
  a_exit :: bb_ref
  a_fvisited :: cint
  a_used :: bool

text \<open>
  The number of blocks counted (\<^verbatim>\<open>bb_cnt\<close>) and the chain of blocks built so far are those of the function
  that is worked on. \<open>a_rank_r\<close> is \<^verbatim>\<open>rpo_r\<close> of a block.
\<close>

record cfg_state =
  avars :: avars
  blocks :: "bb_ref \<Rightarrow> ablock"
  bb_cnt :: cint
  bb_chain :: "bb_ref list"

definition set_var :: "var_ref \<Rightarrow> (avar \<Rightarrow> avar) \<Rightarrow> avars \<Rightarrow> avars" where
  "set_var v f vs = vs(v := f (vs v))"

definition set_block :: "bb_ref \<Rightarrow> (ablock \<Rightarrow> ablock) \<Rightarrow> cfg_state \<Rightarrow> cfg_state" where
  "set_block b f s = s\<lparr>blocks := (blocks s)(b := f (blocks s b))\<rparr>"

lemma set_var_simps [simp]:
  "set_var v f vs v = f (vs v)" "w \<noteq> v \<Longrightarrow> set_var v f vs w = vs w"
  by (simp_all add: set_var_def)

lemma set_block_simps [simp]:
  "blocks (set_block b f s) b = f (blocks s b)"
  "c \<noteq> b \<Longrightarrow> blocks (set_block b f s) c = blocks s c"
  "avars (set_block b f s) = avars s"
  by (simp_all add: set_block_def)

definition succs :: "ablock \<Rightarrow> bb_ref set" where
  "succs bb = set_option (a_next bb) \<union> set_option (a_then bb) \<union> set_option (a_else bb)"

section \<open>Lists of variables\<close>

definition var_list_add_var :: "var_ref list \<Rightarrow> var_ref \<Rightarrow> var_ref list" where
  "var_list_add_var xs v = (if v \<in> set xs then xs else xs @ [v])"

lemma set_var_list_add_var [simp]: "set (var_list_add_var xs v) = insert v (set xs)"
  by (auto simp: var_list_add_var_def)

lemma distinct_var_list_add_var [simp]: "distinct xs \<Longrightarrow> distinct (var_list_add_var xs v)"
  by (simp add: var_list_add_var_def)

definition var_check_killed :: "var_ref \<Rightarrow> ablock \<Rightarrow> bool" where
  "var_check_killed v bb \<longleftrightarrow> v \<in> set (live_kill bb)"

definition bb_add_killed_var :: "var_ref \<Rightarrow> ablock \<Rightarrow> ablock" where
  "bb_add_killed_var v bb = bb\<lparr>live_kill := var_list_add_var (live_kill bb) v\<rparr>"

section \<open>Traversal\<close>

text \<open>
  The depth-first traversals call one function before and one after the successors
  (predecessors) of a block; \<open>fv\<close> is the function's \<open>visited\<close> count, which a block
  reaches when it is visited. The depth of the recursion is the fuel. A function called may
  end the program (\<open>None\<close>).
\<close>

type_synonym bb_op = "bb_ref \<Rightarrow> cfg_state \<Rightarrow> cfg_state"
type_synonym bb_cb = "bb_ref \<Rightarrow> cfg_state \<Rightarrow> cfg_state option"

definition no_cb :: bb_cb where
  "no_cb b s = Some s"

definition mark_bb :: bb_op where
  "mark_bb b = set_block b (\<lambda>bb. bb\<lparr>a_visited := a_visited bb + 1\<rparr>)"

fun bb_forward_traversal :: "nat \<Rightarrow> cint \<Rightarrow> bb_cb \<Rightarrow> bb_cb \<Rightarrow> bb_ref \<Rightarrow> cfg_state \<Rightarrow> cfg_state option"
where
  "bb_forward_traversal 0 fv pre post b s = None"
| "bb_forward_traversal (Suc n) fv pre post b s =
     (let go = (\<lambda>edge s. case edge (blocks s b) of
                  None \<Rightarrow> Some s
                | Some c \<Rightarrow> if lt_s (a_visited (blocks s c)) fv
                            then bb_forward_traversal n fv pre post c s else Some s)
      in do {
        s0 \<leftarrow> pre b (mark_bb b s);
        s1 \<leftarrow> go a_next s0;
        s2 \<leftarrow> go a_then s1;
        s3 \<leftarrow> go a_else s2;
        post b s3
      })"

fun bb_backward_traversal :: "nat \<Rightarrow> cint \<Rightarrow> bb_cb \<Rightarrow> bb_cb \<Rightarrow> bb_ref \<Rightarrow> cfg_state \<Rightarrow> cfg_state option"
where
  "bb_backward_traversal 0 fv pre post b s = None"
| "bb_backward_traversal (Suc n) fv pre post b s = do {
     s0 \<leftarrow> pre b (mark_bb b s);
     s1 \<leftarrow> fold (\<lambda>c r. r \<bind> (\<lambda>s. if lt_s (a_visited (blocks s c)) fv
                              then bb_backward_traversal n fv pre post c s else Some s))
            (a_prev (blocks s0 b)) (Some s0);
     post b s1
   }"

end
