(* ===== verification/RegAlloc.thy ===== *)
theory RegAlloc
  imports CfgIr
begin

text \<open>
  The register allocator of \<^verbatim>\<open>src/reg-alloc.c\<close>. \<open>ra\<close> is what it works on: the register
  file \<open>REGS\<close>, the variables, the stack size of the function, the instructions emitted for
  the block at hand, the functions marked as used and \<open>MAIN_BB\<close>.

  A register number that is absent (\<open>-1\<close>) is \<open>None\<close>. The result \<open>None\<close> of an operation is a
  crash of the compiler: a dereference of \<open>NULL\<close> (an operand that the instruction must have but
  lacks included), an access outside \<open>REGS\<close>, or \<open>abort()\<close>.
\<close>

record regfile =
  rvar :: "var_ref option"
  polluted :: bool

record ra =
  regs :: "regfile list"
  rvs :: avars
  stack :: cint
  code :: "ph2_ir list"
  marked :: "string list"
  main_bb :: "bb_ref option"

text \<open>
  The configuration of the target (\<open>MAX_ARGS_IN_REG\<close>), the option \<open>--dynlink\<close>, and
  \<open>find_func\<close> with the number of parameters of the function.
\<close>

record ra_conf =
  max_args :: nat
  dynlink :: bool
  num_params :: "string \<Rightarrow> nat option"

definition REG_CNT :: nat where
  "REG_CNT = 8"

definition MAX_PARAMS :: nat where
  "MAX_PARAMS = 8"

section \<open>Registers and variables\<close>

definition upd_var :: "var_ref \<Rightarrow> (avar \<Rightarrow> avar) \<Rightarrow> ra \<Rightarrow> ra" where
  "upd_var v f st = st\<lparr>rvs := set_var v f (rvs st)\<rparr>"

definition vreg_map_to_phys :: "var_ref \<Rightarrow> nat \<Rightarrow> ra \<Rightarrow> ra" where
  "vreg_map_to_phys v i = upd_var v (\<lambda>x. x\<lparr>phys_reg := of_nat i\<rparr>)"

definition vreg_clear_phys :: "var_ref option \<Rightarrow> ra \<Rightarrow> ra" where
  "vreg_clear_phys r st = (case r of None \<Rightarrow> st | Some v \<Rightarrow> upd_var v (\<lambda>x. x\<lparr>phys_reg := - 1\<rparr>) st)"

definition vreg_get_phys :: "ra \<Rightarrow> var_ref \<Rightarrow> cint" where
  "vreg_get_phys st v = phys_reg (rvs st v)"

definition align_size :: "cint \<Rightarrow> cint" where
  "align_size i = (if le_s i 4 then 4 else (i + 3) AND NOT 3)"

definition check_live_out :: "ablock \<Rightarrow> var_ref \<Rightarrow> bool" where
  "check_live_out bb v \<longleftrightarrow> v \<in> set (live_out bb)"

definition track_var_use :: "var_ref option \<Rightarrow> cint \<Rightarrow> ra \<Rightarrow> ra" where
  "track_var_use r idx st =
     (case r of
        None \<Rightarrow> st
      | Some v \<Rightarrow> upd_var v (\<lambda>x. x\<lparr>use_count := use_count x + 1,
                     first_use := (if lt_s (first_use x) 0 then idx else first_use x),
                     last_use := idx\<rparr>) st)"

definition at :: "ra \<Rightarrow> nat \<Rightarrow> var_ref option" where
  "at st i = rvar (regs st ! i)"

definition set_reg_var :: "nat \<Rightarrow> var_ref option \<Rightarrow> ra \<Rightarrow> ra" where
  "set_reg_var i r st = st\<lparr>regs := (regs st)[i := (regs st ! i)\<lparr>rvar := r\<rparr>]\<rparr>"

definition set_polluted :: "nat \<Rightarrow> bool \<Rightarrow> ra \<Rightarrow> ra" where
  "set_polluted i p st = st\<lparr>regs := (regs st)[i := (regs st ! i)\<lparr>polluted := p\<rparr>]\<rparr>"

text \<open>\<open>vreg_clear_phys(REGS[i].var); REGS[i].var = NULL; REGS[i].polluted = 0;\<close>\<close>

definition drop_reg :: "nat \<Rightarrow> ra \<Rightarrow> ra" where
  "drop_reg i st = set_polluted i False (set_reg_var i None (vreg_clear_phys (at st i) st))"

definition each_reg :: "(nat \<Rightarrow> var_ref \<Rightarrow> ra \<Rightarrow> ra) \<Rightarrow> ra \<Rightarrow> ra" where
  "each_reg f st = fold (\<lambda>i st. case at st i of None \<Rightarrow> st | Some v \<Rightarrow> f i v st) [0..<REG_CNT] st"

definition refresh :: "ablock \<Rightarrow> ainsn \<Rightarrow> ra \<Rightarrow> ra" where
  "refresh bb insn = each_reg (\<lambda>i v st.
     if check_live_out bb v then st
     else if lt_s (consumed (rvs st v)) (i_idx insn) then drop_reg i st else st)"

text \<open>\<open>bb_add_ph2_ir\<close> and the fields that the callers fill in.\<close>

definition bb_add_ph2_ir :: "ph2_ir \<Rightarrow> ra \<Rightarrow> ra" where
  "bb_add_ph2_ir ir st = st\<lparr>code := code st @ [ir]\<rparr>"

abbreviation reg_of :: "nat \<Rightarrow> cint" where
  "reg_of \<equiv> of_nat"

definition ir_const :: "cint \<Rightarrow> nat \<Rightarrow> ph2_ir" where
  "ir_const c d = (new_ph2_ir OP_load_constant)\<lparr>src0 := c, dest := reg_of d\<rparr>"

definition ir_load :: "avar \<Rightarrow> nat \<Rightarrow> ph2_ir" where
  "ir_load x d = (new_ph2_ir (if is_global x then OP_global_load else OP_load))\<lparr>
     src0 := offset x, dest := reg_of d, ofs_based_on_stack_top := v_ofs_top x\<rparr>"

definition ir_store :: "avar \<Rightarrow> nat \<Rightarrow> ph2_ir" where
  "ir_store x r = (new_ph2_ir (if is_global x then OP_global_store else OP_store))\<lparr>
     src0 := reg_of r, src1 := offset x, ofs_based_on_stack_top := v_ofs_top x\<rparr>"

definition ir_global_store :: "cint \<Rightarrow> nat \<Rightarrow> ph2_ir" where
  "ir_global_store ofs r = (new_ph2_ir OP_global_store)\<lparr>src0 := reg_of r, src1 := ofs\<rparr>"

definition ir_un :: "opcode \<Rightarrow> nat \<Rightarrow> cint \<Rightarrow> nat \<Rightarrow> ph2_ir" where
  "ir_un oc r k d = (new_ph2_ir oc)\<lparr>src0 := reg_of r, src1 := k, dest := reg_of d\<rparr>"

definition ir_bin :: "opcode \<Rightarrow> nat \<Rightarrow> nat \<Rightarrow> nat \<Rightarrow> ph2_ir" where
  "ir_bin oc r q d = (new_ph2_ir oc)\<lparr>src0 := reg_of r, src1 := reg_of q, dest := reg_of d\<rparr>"

section \<open>Spilling\<close>

definition calculate_spill_cost :: "avar \<Rightarrow> bool \<Rightarrow> cint \<Rightarrow> cint" where
  "calculate_spill_cost x live idx =
     (let c0 = (if live then 1000 else 0);
          c1 = (if lt_s idx (consumed x)
                then (let distance = consumed x - idx
                      in if lt_s distance 10 then c0 + (100 - distance * 10) else c0)
                else c0);
          c2 = (if lt_s 0 (use_count x) then c1 + use_count x * 5 else c1);
          c3 = (if lt_s 0 (loop_depth x) then c2 + loop_depth x * 200 else c2);
          c4 = (if is_const x then c3 - 50 else c3)
      in if le_s 0 (first_use x) \<and> le_s 0 (last_use x) \<and> lt_s 100 (last_use x - first_use x)
         then c4 + 20 else c4)"

definition find_best_spill :: "ablock \<Rightarrow> cint \<Rightarrow> nat option \<Rightarrow> nat option \<Rightarrow> ra \<Rightarrow> nat option" where
  "find_best_spill bb idx avoid1 avoid2 st =
     fst (fold (\<lambda>i (best, min_cost).
         if Some i = avoid1 \<or> Some i = avoid2 then (best, min_cost)
         else case at st i of
                None \<Rightarrow> (best, min_cost)
              | Some v \<Rightarrow>
                  (let cost = calculate_spill_cost (rvs st v) (check_live_out bb v) idx
                   in if lt_s cost min_cost then (Some i, cost) else (best, min_cost)))
       [0..<REG_CNT] (None, 99999))"

definition alloc_slot :: "var_ref \<Rightarrow> ra \<Rightarrow> ra" where
  "alloc_slot v st =
     (if space_is_allocated (rvs st v) then st
      else (upd_var v (\<lambda>x. x\<lparr>offset := stack st, space_is_allocated := True\<rparr>) st)\<lparr>stack := stack st + 4\<rparr>)"

definition spill_var :: "var_ref \<Rightarrow> nat \<Rightarrow> ra \<Rightarrow> ra" where
  "spill_var v idx st =
     (if \<not> polluted (regs st ! idx) then vreg_clear_phys (Some v) (set_reg_var idx None st)
      else let st1 = alloc_slot v st
           in vreg_clear_phys (Some v) (set_polluted idx False (set_reg_var idx None
                (bb_add_ph2_ir (ir_store (rvs st1 v) idx) st1))))"

definition find_in_regs :: "var_ref \<Rightarrow> ra \<Rightarrow> nat option" where
  "find_in_regs v st = find (\<lambda>i. at st i = Some v) [0..<REG_CNT]"

definition free_reg :: "ra \<Rightarrow> nat option" where
  "free_reg st = find (\<lambda>i. at st i = None) [0..<REG_CNT]"

definition load_var :: "var_ref \<Rightarrow> nat \<Rightarrow> ra \<Rightarrow> ra" where
  "load_var v idx st =
     (let x = rvs st v;
          ir = (if is_const x then ir_const (init_val x) idx else ir_load x idx)
      in vreg_map_to_phys v idx (set_polluted idx False (set_reg_var idx (Some v) (bb_add_ph2_ir ir st))))"

text \<open>The first test of \<open>prepare_operand\<close> and \<open>prepare_dest\<close>: the register noted in the variable.\<close>

definition mapped_reg :: "var_ref \<Rightarrow> ra \<Rightarrow> nat option" where
  "mapped_reg v st =
     (let p = vreg_get_phys st v
      in if le_s 0 p \<and> lt_s p (of_nat REG_CNT) \<and> at st (unat p) = Some v then Some (unat p) else None)"

text \<open>\<open>bb->insn_list.tail ? bb->insn_list.tail->idx : 0\<close>\<close>

definition tail_idx :: "ablock \<Rightarrow> cint" where
  "tail_idx bb = (if a_insns bb = [] then 0 else i_idx (last (a_insns bb)))"

definition choose_spill :: "ablock \<Rightarrow> nat option \<Rightarrow> nat option \<Rightarrow> ra \<Rightarrow> nat option" where
  "choose_spill bb op0 op1 st =
     (case find_best_spill bb (tail_idx bb) op0 op1 st of
        Some i \<Rightarrow> Some i
      | None \<Rightarrow> find (\<lambda>i. Some i \<noteq> op0 \<and> Some i \<noteq> op1 \<and> at st i \<noteq> None) [0..<REG_CNT])"

text \<open>Make room in a register that holds a variable.\<close>

definition evict :: "ablock \<Rightarrow> nat option \<Rightarrow> nat option \<Rightarrow> ra \<Rightarrow> (nat \<times> ra) option" where
  "evict bb op0 op1 st =
     (case choose_spill bb op0 op1 st of
        None \<Rightarrow> None
      | Some i \<Rightarrow> map_option (\<lambda>w. (i, spill_var w i (vreg_clear_phys (Some w) st))) (at st i))"

definition prepare_operand :: "ablock \<Rightarrow> var_ref \<Rightarrow> nat option \<Rightarrow> ra \<Rightarrow> (nat \<times> ra) option" where
  "prepare_operand bb v op0 st =
     (case mapped_reg v st of
        Some i \<Rightarrow> Some (i, st)
      | None \<Rightarrow>
          (case find_in_regs v st of
             Some i \<Rightarrow>
               if \<not> address_taken (rvs st v) then Some (i, vreg_map_to_phys v i st)
               else (case free_reg st of
                       Some i \<Rightarrow> Some (i, vreg_map_to_phys v i (load_var v i st))
                     | None \<Rightarrow> map_option (\<lambda>(i, st). (i, vreg_map_to_phys v i (load_var v i st)))
                                (evict bb op0 None st))
           | None \<Rightarrow>
               (case free_reg st of
                  Some i \<Rightarrow> Some (i, vreg_map_to_phys v i (load_var v i st))
                | None \<Rightarrow> map_option (\<lambda>(i, st). (i, vreg_map_to_phys v i (load_var v i st)))
                           (evict bb op0 None st))))"

definition take_reg :: "var_ref \<Rightarrow> nat \<Rightarrow> ra \<Rightarrow> ra" where
  "take_reg v i st = vreg_map_to_phys v i (set_polluted i True (set_reg_var i (Some v) st))"

definition prepare_dest :: "ablock \<Rightarrow> var_ref \<Rightarrow> nat option \<Rightarrow> nat option \<Rightarrow> ra \<Rightarrow> (nat \<times> ra) option" where
  "prepare_dest bb v op0 op1 st =
     (case mapped_reg v st of
        Some i \<Rightarrow> Some (i, set_polluted i True st)
      | None \<Rightarrow>
          (case find_in_regs v st of
             Some i \<Rightarrow> Some (i, vreg_map_to_phys v i (set_polluted i True st))
           | None \<Rightarrow>
               (case free_reg st of
                  Some i \<Rightarrow> Some (i, take_reg v i st)
                | None \<Rightarrow> map_option (\<lambda>(i, st). (i, take_reg v i st)) (evict bb op0 op1 st))))"

definition spill_alive :: "ablock \<Rightarrow> ainsn \<Rightarrow> ra \<Rightarrow> ra" where
  "spill_alive bb insn =
     (if i_op insn = OP_write
      then each_reg (\<lambda>i v st. if \<not> is_global (rvs st v) then spill_var v i st else st)
      else each_reg (\<lambda>i v st.
             if check_live_out bb v then spill_var v i st
             else if lt_s (i_idx insn) (consumed (rvs st v)) then spill_var v i st else st))"

definition spill_live_out :: "ablock \<Rightarrow> ra \<Rightarrow> ra" where
  "spill_live_out bb = each_reg (\<lambda>i v st.
     if \<not> check_live_out bb v then drop_reg i st
     else if \<not> var_check_killed v bb then drop_reg i st
     else spill_var v i st)"

definition extend_liveness :: "ablock \<Rightarrow> ainsn \<Rightarrow> var_ref \<Rightarrow> cint \<Rightarrow> ra \<Rightarrow> ra" where
  "extend_liveness bb insn v ofs st =
     (if check_live_out bb v then st
      else if lt_s (consumed (rvs st v)) (i_idx insn + ofs)
      then upd_var v (\<lambda>x. x\<lparr>consumed := i_idx insn + ofs\<rparr>) st else st)"

text \<open>
  The arguments that do not fit the registers are stored to the stack, the last one first.
  \<open>insns\<close> are the instructions from the first \<open>OP_push\<close> on.
\<close>

fun push_stack_args :: "ra_conf \<Rightarrow> nat \<Rightarrow> ainsn list \<Rightarrow> ra \<Rightarrow> ra option" where
  "push_stack_args cf (Suc n) (insn # before) st =
     (case rs1 insn of
        None \<Rightarrow> None
      | Some v \<Rightarrow>
          push_stack_args cf n before
            (bb_add_ph2_ir ((new_ph2_ir OP_store)\<lparr>src0 := reg_of (max_args cf - 1), src1 := of_nat n * 4\<rparr>)
              (load_var v (max_args cf - 1) st)))"
| "push_stack_args cf _ _ st = Some st"

definition abi_lower_call_args :: "ra_conf \<Rightarrow> ainsn list \<Rightarrow> ra \<Rightarrow> (bool \<times> ra) option" where
  "abi_lower_call_args cf insns st =
     (let pushes = takeWhile (\<lambda>i. i_op i = OP_push) insns
      in if length pushes \<le> max_args cf then Some (False, st)
         else if length pushes = length insns then None
         else map_option (\<lambda>st. (True, set_reg_var (max_args cf - 1) None st))
                (push_stack_args cf (length pushes - max_args cf) (rev pushes) st))"

section \<open>The instructions of a block\<close>

text \<open>The flags for the arguments of a call.\<close>

record call_args =
  pushing :: bool
  handled :: bool
  on_stack :: bool
  nargs :: nat

definition no_args :: call_args where
  "no_args = \<lparr>pushing = False, handled = False, on_stack = False, nargs = 0\<rparr>"

definition scalar_type :: "type_ptr \<Rightarrow> bool" where
  "scalar_type t \<longleftrightarrow> t \<in> {TY_void, TY_int, TY_short, TY_char, TY_bool}"

definition type_size :: "type_ptr \<Rightarrow> cint" where
  "type_size t = (case t of TY_void \<Rightarrow> 0 | TY_char \<Rightarrow> 1 | TY_bool \<Rightarrow> 1 | TY_int \<Rightarrow> 4 | TY_short \<Rightarrow> 2 | TY_other n \<Rightarrow> n)"

definition alloc_unwound_phi :: "ablock \<Rightarrow> ainsn \<Rightarrow> ra \<Rightarrow> ra option" where
  "alloc_unwound_phi bb insn st = do {
     v \<leftarrow> rs1 insn;
     (src, st) \<leftarrow> prepare_operand bb v None (track_var_use (Some v) (i_idx insn) st);
     d \<leftarrow> rd insn;
     let st = alloc_slot d st;
     let x = rvs st d;
     Some (bb_add_ph2_ir ((new_ph2_ir OP_store)\<lparr>src0 := reg_of src, src1 := offset x,
       ofs_based_on_stack_top := v_ofs_top x\<rparr>) st)
   }"

definition alloc_allocat :: "ablock \<Rightarrow> ainsn \<Rightarrow> ra \<Rightarrow> ra option" where
  "alloc_allocat bb insn st = do {
     d \<leftarrow> rd insn;
     let x = rvs st d;
     if scalar_type (v_type x) \<and> array_size x = 0 then Some st
     else do {
       let st = (upd_var d (\<lambda>x. x\<lparr>offset := stack st, space_is_allocated := True\<rparr>) st)\<lparr>stack := stack st + 4\<rparr>;
       let base = stack st;
       let n = (if ptr_level x \<noteq> 0 then 4 else type_size (v_type x));
       let st = st\<lparr>stack := stack st + align_size (if array_size x \<noteq> 0 then array_size x * n else n)\<rparr>;
       (r, st) \<leftarrow> prepare_dest bb d None None st;
       let st = bb_add_ph2_ir ((new_ph2_ir OP_address_of)\<lparr>src0 := base, dest := reg_of r,
                  ofs_based_on_stack_top := v_ofs_top (rvs st d)\<rparr>) st;
       Some (if array_size x \<noteq> 0 then spill_var d r st else st)
     }
   }"

text \<open>A global is stored at once.\<close>

definition store_global :: "var_ref \<Rightarrow> nat \<Rightarrow> ra \<Rightarrow> ra" where
  "store_global d r st =
     (if is_global (rvs st d)
      then set_polluted r False (bb_add_ph2_ir (ir_global_store (offset (rvs st d)) r) st) else st)"

definition alloc_load_constant :: "ablock \<Rightarrow> ainsn \<Rightarrow> ra \<Rightarrow> ra option" where
  "alloc_load_constant bb insn st = do {
     d \<leftarrow> rd insn;
     (r, st) \<leftarrow> prepare_dest bb d None None st;
     let st = bb_add_ph2_ir ((new_ph2_ir (i_op insn))\<lparr>src0 := init_val (rvs st d), dest := reg_of r\<rparr>) st;
     Some (store_global d r st)
   }"

definition alloc_address_of :: "ablock \<Rightarrow> ainsn \<Rightarrow> ra \<Rightarrow> ra option" where
  "alloc_address_of bb insn st = do {
     v \<leftarrow> rs1 insn;
     let st = upd_var v (\<lambda>x. x\<lparr>address_taken := True, is_const := False\<rparr>) st;
     let st = (if space_is_allocated (rvs st v) then st
               else let st = alloc_slot v st
                    in each_reg (\<lambda>i w st. if w = v
                         then set_reg_var i None (bb_add_ph2_ir ((new_ph2_ir OP_store)\<lparr>src0 := reg_of i,
                                src1 := offset (rvs st v), ofs_based_on_stack_top := v_ofs_top (rvs st v)\<rparr>) st)
                         else st) st);
     d \<leftarrow> rd insn;
     (r, st) \<leftarrow> prepare_dest bb d None None st;
     let x = rvs st v;
     Some (bb_add_ph2_ir ((new_ph2_ir (if is_global x \<or> i_op insn = OP_global_address_of
            then OP_global_address_of else OP_address_of))\<lparr>
            src0 := offset x, dest := reg_of r, ofs_based_on_stack_top := v_ofs_top x\<rparr>) st)
   }"

definition alloc_assign :: "ablock \<Rightarrow> ainsn \<Rightarrow> ra \<Rightarrow> ra option" where
  "alloc_assign bb insn st = do {
     d \<leftarrow> rd insn;
     if consumed (rvs st d) = - 1 then Some st
     else do {
       v \<leftarrow> rs1 insn;
       let st = track_var_use (Some v) (i_idx insn) st;
       (src, clear_reg, st) \<leftarrow> (case find_in_regs v st of
           Some i \<Rightarrow> Some (i, False, st)
         | None \<Rightarrow> map_option (\<lambda>(i, st). (i, True, st)) (prepare_operand bb v None st));
       (r, st) \<leftarrow> prepare_dest bb d (Some src) None st;
       let st = store_global d r (bb_add_ph2_ir (ir_un OP_assign src 0 r) st);
       Some (if clear_reg then set_reg_var src None (vreg_clear_phys (at st src) st) else st)
     }
   }"

definition alloc_read :: "ablock \<Rightarrow> ainsn \<Rightarrow> ra \<Rightarrow> ra option" where
  "alloc_read bb insn st = do {
     v \<leftarrow> rs1 insn;
     (src, st) \<leftarrow> prepare_operand bb v None st;
     d \<leftarrow> rd insn;
     (r, st) \<leftarrow> prepare_dest bb d (Some src) None st;
     Some (bb_add_ph2_ir (ir_un OP_read src (sz insn) r) st)
   }"

definition mark_used :: "ra_conf \<Rightarrow> string \<Rightarrow> ra \<Rightarrow> ra" where
  "mark_used cf nm st = (if dynlink cf \<and> num_params cf nm \<noteq> None then st\<lparr>marked := nm # marked st\<rparr> else st)"

definition alloc_write :: "ra_conf \<Rightarrow> ablock \<Rightarrow> ainsn \<Rightarrow> ra \<Rightarrow> ra option" where
  "alloc_write cf bb insn st = do {
     w \<leftarrow> rs2 insn;
     v \<leftarrow> rs1 insn;
     if is_func (rvs st w)
     then do {
       (src, st) \<leftarrow> prepare_operand bb v None st;
       let nm = v_name (rvs st w);
       Some (mark_used cf nm (bb_add_ph2_ir ((new_ph2_ir OP_address_of_func)\<lparr>src0 := reg_of src, func_name := nm\<rparr>) st))
     }
     else do {
       (src, st) \<leftarrow> prepare_operand bb v None (spill_alive bb insn st);
       (src', st) \<leftarrow> prepare_operand bb w (Some src) st;
       Some (bb_add_ph2_ir ((new_ph2_ir OP_write)\<lparr>src0 := reg_of src, src1 := reg_of src', dest := sz insn\<rparr>) st)
     }
   }"

definition alloc_branch :: "ablock \<Rightarrow> ainsn \<Rightarrow> ra \<Rightarrow> ra option" where
  "alloc_branch bb insn st = do {
     v \<leftarrow> rs1 insn;
     (src, st) \<leftarrow> prepare_operand bb v None st;
     Some (bb_add_ph2_ir ((new_ph2_ir OP_branch)\<lparr>src0 := reg_of src, then_bb := a_then bb, else_bb := a_else bb\<rparr>)
       (spill_live_out bb st))
   }"

definition alloc_push :: "ra_conf \<Rightarrow> ablock \<Rightarrow> ainsn \<Rightarrow> ainsn list \<Rightarrow> call_args \<Rightarrow> ra \<Rightarrow> (call_args \<times> ra) option" where
  "alloc_push cf bb insn rest ca st = do {
     v \<leftarrow> rs1 insn;
     let st = extend_liveness bb insn v (sz insn) st;
     let (ca, st) = (if pushing ca then (ca, st) else (ca\<lparr>pushing := True\<rparr>, spill_alive bb insn st));
     (ca, st) \<leftarrow> (if handled ca then Some (ca, st)
                  else map_option (\<lambda>(b, st). (ca\<lparr>on_stack := b, handled := True\<rparr>, st))
                         (abi_lower_call_args cf (insn # rest) st));
     if on_stack ca \<and> max_args cf \<le> nargs ca then Some (ca, st)
     else do {
       (src, st) \<leftarrow> prepare_operand bb v None st;
       let k = nargs ca;
       _ \<leftarrow> require (k < REG_CNT);
       let st = bb_add_ph2_ir (ir_un OP_assign src 0 k) st;
       Some (ca\<lparr>nargs := k + 1\<rparr>, set_polluted k False (set_reg_var k (Some v) st))
     }
   }"

definition alloc_call :: "ra_conf \<Rightarrow> ablock \<Rightarrow> ainsn \<Rightarrow> call_args \<Rightarrow> ra \<Rightarrow> (call_args \<times> ra) option" where
  "alloc_call cf bb insn ca st = do {
     n \<leftarrow> num_params cf (i_str insn);
     let st = mark_used cf (i_str insn) (if n = 0 then spill_alive bb insn st else st);
     let st = bb_add_ph2_ir ((new_ph2_ir OP_call)\<lparr>func_name := i_str insn\<rparr>) st;
     Some (ca\<lparr>pushing := False, handled := False, nargs := 0\<rparr>, each_reg (\<lambda>i v. set_reg_var i None) st)
   }"

definition alloc_indirect :: "ablock \<Rightarrow> ainsn \<Rightarrow> call_args \<Rightarrow> ra \<Rightarrow> (call_args \<times> ra) option" where
  "alloc_indirect bb insn ca st = do {
     v \<leftarrow> rs1 insn;
     (src, st) \<leftarrow> prepare_operand bb v None (if nargs ca = 0 then spill_alive bb insn st else st);
     let st = bb_add_ph2_ir ((new_ph2_ir OP_load_func)\<lparr>src0 := reg_of src\<rparr>) st;
     Some (ca\<lparr>pushing := False, handled := False, nargs := 0\<rparr>, bb_add_ph2_ir (new_ph2_ir OP_indirect) st)
   }"

definition alloc_func_ret :: "ablock \<Rightarrow> ainsn \<Rightarrow> ra \<Rightarrow> ra option" where
  "alloc_func_ret bb insn st = do {
     d \<leftarrow> rd insn;
     (r, st) \<leftarrow> prepare_dest bb d None None st;
     Some (bb_add_ph2_ir (ir_un OP_assign 0 0 r) st)
   }"

definition alloc_return :: "ablock \<Rightarrow> ainsn \<Rightarrow> ra \<Rightarrow> ra option" where
  "alloc_return bb insn st =
     (case rs1 insn of
        None \<Rightarrow> Some (bb_add_ph2_ir ((new_ph2_ir OP_return)\<lparr>src0 := - 1\<rparr>) st)
      | Some v \<Rightarrow>
          map_option (\<lambda>(src, st). bb_add_ph2_ir ((new_ph2_ir OP_return)\<lparr>src0 := reg_of src\<rparr>) st)
            (prepare_operand bb v None st))"

definition alloc_bin :: "ablock \<Rightarrow> ainsn \<Rightarrow> ra \<Rightarrow> ra option" where
  "alloc_bin bb insn st = do {
     let st = track_var_use (rs2 insn) (i_idx insn) (track_var_use (rs1 insn) (i_idx insn) st);
     v \<leftarrow> rs1 insn;
     (src, st) \<leftarrow> prepare_operand bb v None st;
     w \<leftarrow> rs2 insn;
     (src', st) \<leftarrow> prepare_operand bb w (Some src) st;
     d \<leftarrow> rd insn;
     (r, st) \<leftarrow> prepare_dest bb d (Some src) (Some src') st;
     Some (bb_add_ph2_ir (ir_bin (i_op insn) src src' r) st)
   }"

text \<open>\<open>OP_negate\<close>, \<open>OP_bit_not\<close> and \<open>OP_log_not\<close>; with the size, \<open>OP_trunc\<close>, \<open>OP_sign_ext\<close> and \<open>OP_cast\<close>.\<close>

definition alloc_un :: "ablock \<Rightarrow> ainsn \<Rightarrow> cint \<Rightarrow> ra \<Rightarrow> ra option" where
  "alloc_un bb insn k st = do {
     v \<leftarrow> rs1 insn;
     (src, st) \<leftarrow> prepare_operand bb v None st;
     d \<leftarrow> rd insn;
     (r, st) \<leftarrow> prepare_dest bb d (Some src) None st;
     Some (bb_add_ph2_ir (ir_un (i_op insn) src k r) st)
   }"

definition alloc_insn :: "ra_conf \<Rightarrow> ablock \<Rightarrow> ainsn \<Rightarrow> ainsn list \<Rightarrow> call_args \<Rightarrow> ra \<Rightarrow> (call_args \<times> ra) option" where
  "alloc_insn cf bb insn rest ca st0 =
     (let st = refresh bb insn st0; plain = map_option (Pair ca)
      in case i_op insn of
           OP_unwound_phi \<Rightarrow> plain (alloc_unwound_phi bb insn st)
         | OP_allocat \<Rightarrow> plain (alloc_allocat bb insn st)
         | OP_load_constant \<Rightarrow> plain (alloc_load_constant bb insn st)
         | OP_load_data_address \<Rightarrow> plain (alloc_load_constant bb insn st)
         | OP_load_rodata_address \<Rightarrow> plain (alloc_load_constant bb insn st)
         | OP_address_of \<Rightarrow> plain (alloc_address_of bb insn st)
         | OP_global_address_of \<Rightarrow> plain (alloc_address_of bb insn st)
         | OP_assign \<Rightarrow> plain (alloc_assign bb insn st)
         | OP_read \<Rightarrow> plain (alloc_read bb insn st)
         | OP_write \<Rightarrow> plain (alloc_write cf bb insn st)
         | OP_branch \<Rightarrow> plain (alloc_branch bb insn st)
         | OP_push \<Rightarrow> alloc_push cf bb insn rest ca st
         | OP_call \<Rightarrow> alloc_call cf bb insn ca st
         | OP_indirect \<Rightarrow> alloc_indirect bb insn ca st
         | OP_func_ret \<Rightarrow> plain (alloc_func_ret bb insn st)
         | OP_return \<Rightarrow> plain (alloc_return bb insn st)
         | OP_negate \<Rightarrow> plain (alloc_un bb insn 0 st)
         | OP_bit_not \<Rightarrow> plain (alloc_un bb insn 0 st)
         | OP_log_not \<Rightarrow> plain (alloc_un bb insn 0 st)
         | OP_trunc \<Rightarrow> plain (alloc_un bb insn (sz insn) st)
         | OP_sign_ext \<Rightarrow> plain (alloc_un bb insn (sz insn) st)
         | OP_cast \<Rightarrow> plain (alloc_un bb insn (sz insn) st)
         | _ \<Rightarrow> if is_bin (i_op insn) then plain (alloc_bin bb insn st) else None)"

fun alloc_insns :: "ra_conf \<Rightarrow> ablock \<Rightarrow> ainsn list \<Rightarrow> call_args \<Rightarrow> ra \<Rightarrow> (call_args \<times> ra) option" where
  "alloc_insns cf bb [] ca st = Some (ca, st)"
| "alloc_insns cf bb (insn # rest) ca st =
     (case alloc_insn cf bb insn rest ca st of
        None \<Rightarrow> None
      | Some (ca, st) \<Rightarrow> alloc_insns cf bb rest ca st)"

section \<open>Blocks and functions\<close>

type_synonym blocks = "bb_ref \<Rightarrow> ablock"

definition alloc_jump :: "afunc \<Rightarrow> blocks \<Rightarrow> bb_ref \<Rightarrow> ra \<Rightarrow> ra" where
  "alloc_jump f bl b st =
     (case a_next (bl b) of
        None \<Rightarrow> st
      | Some c \<Rightarrow>
          if b = a_exit f \<or> c = a_exit f then st
          else if a_visited (bl c) = a_fvisited f \<or> a_rpo (bl c) \<noteq> a_rpo (bl b) + 1
          then bb_add_ph2_ir ((new_ph2_ir OP_jump)\<lparr>next_bb := Some c\<rparr>) st
          else st)"

definition alloc_block :: "ra_conf \<Rightarrow> afunc \<Rightarrow> bb_ref \<Rightarrow> blocks \<times> ra \<Rightarrow> (blocks \<times> ra) option" where
  "alloc_block cf f b = (\<lambda>(bl, st).
     let bl = bl(b := (bl b)\<lparr>a_visited := a_visited (bl b) + 1\<rparr>); bb = bl b
     in map_option (\<lambda>(_, st).
            let st = alloc_jump f bl b (if a_next bb \<noteq> None then spill_live_out bb st else st)
            in (bl(b := bb\<lparr>a_code := code st\<rparr>), st))
          (alloc_insns cf bb (a_insns bb) no_args (st\<lparr>code := a_code bb\<rparr>)))"

fun alloc_blocks :: "ra_conf \<Rightarrow> afunc \<Rightarrow> bb_ref list \<Rightarrow> blocks \<times> ra \<Rightarrow> (blocks \<times> ra) option" where
  "alloc_blocks cf f [] a = Some a"
| "alloc_blocks cf f (b # bs) a = alloc_block cf f b a \<bind> alloc_blocks cf f bs"

text \<open>The registers at the start of a function: its first parameters.\<close>

definition clear_regs :: "ra \<Rightarrow> ra" where
  "clear_regs st = st\<lparr>regs := map (\<lambda>r. r\<lparr>rvar := None\<rparr>) (regs st)\<rparr>"

definition args_in_reg :: "ra_conf \<Rightarrow> afunc \<Rightarrow> nat" where
  "args_in_reg cf f = min (length (a_params f)) (max_args cf)"

definition place_args :: "ra_conf \<Rightarrow> afunc \<Rightarrow> ra \<Rightarrow> ra" where
  "place_args cf f st =
     fold (\<lambda>i st. set_polluted i True (set_reg_var i (Some (a_params f ! i)) st)) [0..<args_in_reg cf f] st"

text \<open>A variadic function saves all its arguments next to each other on its stack.\<close>

definition save_variadic :: "ra_conf \<Rightarrow> afunc \<Rightarrow> ra \<Rightarrow> ra" where
  "save_variadic cf f st =
     fold (\<lambda>i st.
        let src = (if max_args cf \<le> i then max_args cf else i);
            st = (if max_args cf \<le> i
                  then bb_add_ph2_ir ((new_ph2_ir OP_load)\<lparr>src0 := of_nat (i - max_args cf) * 4,
                         dest := reg_of (max_args cf), ofs_based_on_stack_top := True\<rparr>) st
                  else st);
            st = (if i < args_in_reg cf f
                  then upd_var (a_params f ! i) (\<lambda>x. x\<lparr>offset := stack st, space_is_allocated := True\<rparr>) st
                  else st)
        in (bb_add_ph2_ir ((new_ph2_ir OP_store)\<lparr>src0 := reg_of src, src1 := stack st\<rparr>) st)\<lparr>stack := stack st + 4\<rparr>)
       [0..<MAX_PARAMS] st"

text \<open>The other arguments of a function stay on the stack of its caller.\<close>

definition place_stack_args :: "ra_conf \<Rightarrow> afunc \<Rightarrow> ra \<Rightarrow> ra" where
  "place_stack_args cf f st =
     fold (\<lambda>i. upd_var (a_params f ! i) (\<lambda>x. x\<lparr>offset := of_nat (i - max_args cf) * 4,
              space_is_allocated := True, v_ofs_top := True\<rparr>))
       [max_args cf..<length (a_params f)] st"

definition start_func :: "ra_conf \<Rightarrow> afunc \<Rightarrow> ra \<Rightarrow> ra" where
  "start_func cf f st =
     (let st = place_args cf f (clear_regs st)
      in if a_va_args f then save_variadic cf f st else place_stack_args cf f st)"

definition implicit_return :: "afunc \<Rightarrow> bb_ref \<Rightarrow> blocks \<Rightarrow> blocks" where
  "implicit_return f b bl =
     (if a_ret f \<noteq> TY_void then bl
      else if a_insns (bl b) \<noteq> [] \<and> i_op (last (a_insns (bl b))) = OP_return then bl
      else bl(b := (bl b)\<lparr>a_code := a_code (bl b) @ [(new_ph2_ir OP_return)\<lparr>src0 := - 1\<rparr>]\<rparr>))"

definition alloc_func :: "ra_conf \<Rightarrow> afunc \<Rightarrow> blocks \<times> ra \<Rightarrow> (afunc \<times> blocks \<times> ra) option" where
  "alloc_func cf f = (\<lambda>(bl, st).
     case a_bbs f of
       [] \<Rightarrow> Some (f, bl, st)
     | b0 # _ \<Rightarrow>
         (let f = f\<lparr>a_fvisited := a_fvisited f + 1\<rparr>;
              st = (if a_name f = ''main'' then st\<lparr>main_bb := Some b0\<rparr> else st);
              st = start_func cf f (st\<lparr>stack := a_stack_size f, code := a_code (bl b0)\<rparr>);
              bl = bl(b0 := (bl b0)\<lparr>a_code := code st\<rparr>)
          in map_option (\<lambda>(bl, st). (f\<lparr>a_stack_size := stack st\<rparr>,
                 fold (implicit_return f) (a_prev (bl (a_exit f))) bl, st))
               (alloc_blocks cf f (a_bbs f) (bl, st))))"

fun alloc_funcs :: "ra_conf \<Rightarrow> afunc list \<Rightarrow> blocks \<times> ra \<Rightarrow> (afunc list \<times> blocks \<times> ra) option" where
  "alloc_funcs cf [] a = Some ([], a)"
| "alloc_funcs cf (f # fs) a = do {
     (f, a) \<leftarrow> alloc_func cf f a;
     (fs, a) \<leftarrow> alloc_funcs cf fs a;
     Some (f # fs, a)
   }"

section \<open>The global initializers\<close>

text \<open>\<open>gbb\<close> is the block of \<open>GLOBAL_FUNC\<close>, \<open>stack\<close> its stack size.\<close>

definition galloc_allocat :: "ablock \<Rightarrow> ainsn \<Rightarrow> ra \<Rightarrow> ra option" where
  "galloc_allocat gbb insn st = do {
     d \<leftarrow> rd insn;
     let x = rvs st d;
     let st = upd_var d (\<lambda>x. x\<lparr>offset := stack st, space_is_allocated := True\<rparr>) st;
     if array_size x \<noteq> 0
     then do {
       let base = stack st + 4;
       let st = (upd_var d (\<lambda>x. x\<lparr>init_val := base\<rparr>) st)\<lparr>stack := base
                  + align_size (if ptr_level x \<noteq> 0 then 4 * array_size x else array_size x * type_size (v_type x))\<rparr>;
       (r, st) \<leftarrow> prepare_dest gbb d None None st;
       let st = bb_add_ph2_ir ((new_ph2_ir OP_global_address_of)\<lparr>src0 := base, dest := reg_of r\<rparr>) st;
       Some (spill_var d r st)
     }
     else Some (st\<lparr>stack := stack st
            + (if ptr_level x \<noteq> 0 then 4
               else if v_type x \<notin> {TY_int, TY_short, TY_char, TY_bool} then align_size (type_size (v_type x))
               else 4)\<rparr>)
   }"

definition galloc_constant :: "ablock \<Rightarrow> ainsn \<Rightarrow> ra \<Rightarrow> ra option" where
  "galloc_constant gbb insn st = do {
     d \<leftarrow> rd insn;
     (r, st) \<leftarrow> prepare_dest gbb d None None st;
     Some (bb_add_ph2_ir ((new_ph2_ir (i_op insn))\<lparr>src0 := init_val (rvs st d), dest := reg_of r\<rparr>) st)
   }"

definition galloc_assign :: "ablock \<Rightarrow> ainsn \<Rightarrow> ra \<Rightarrow> ra option" where
  "galloc_assign gbb insn st = do {
     v \<leftarrow> rs1 insn;
     (src, st) \<leftarrow> prepare_operand gbb v None st;
     d \<leftarrow> rd insn;
     (r, st) \<leftarrow> prepare_dest gbb d (Some src) None st;
     let st = spill_var d r (bb_add_ph2_ir (ir_un OP_assign src 0 r) st);
     let st = set_polluted src False st;
     Some (set_reg_var src None (vreg_clear_phys (at st src) st))
   }"

text \<open>The offset that is known for a global: for an array, that of its elements.\<close>

definition base_offset :: "avar \<Rightarrow> cint" where
  "base_offset x = (if lt_s 0 (array_size x) then init_val x else offset x)"

definition galloc_add :: "ablock \<Rightarrow> ainsn \<Rightarrow> ra \<Rightarrow> ra option" where
  "galloc_add gbb insn st =
     (case (rs1 insn, rs2 insn) of
        (Some v, Some w) \<Rightarrow> do {
          d \<leftarrow> rd insn;
          if is_global (rvs st v)
          then Some (upd_var d (\<lambda>x. x\<lparr>offset := base_offset (rvs st v) + init_val (rvs st w),
                      space_is_allocated := True, is_global := True\<rparr>) st)
          else do {
            (src, st) \<leftarrow> prepare_operand gbb v None st;
            (src', st) \<leftarrow> prepare_operand gbb w (Some src) st;
            (r, st) \<leftarrow> prepare_dest gbb d (Some src) (Some src') st;
            Some (bb_add_ph2_ir (ir_bin OP_add src src' r) st)
          }
        }
      | _ \<Rightarrow> None)"

definition galloc_write :: "ablock \<Rightarrow> ainsn \<Rightarrow> ra \<Rightarrow> ra option" where
  "galloc_write gbb insn st = do {
     v \<leftarrow> rs1 insn;
     w \<leftarrow> rs2 insn;
     if is_global (rvs st v)
     then do {
       (r, st) \<leftarrow> prepare_operand gbb w None st;
       Some (bb_add_ph2_ir (ir_global_store (base_offset (rvs st v)) r) st)
     }
     else do {
       (src, st) \<leftarrow> prepare_operand gbb v None st;
       (src', st) \<leftarrow> prepare_operand gbb w (Some src) st;
       Some (bb_add_ph2_ir ((new_ph2_ir OP_write)\<lparr>src0 := reg_of src, src1 := reg_of src', dest := sz insn\<rparr>) st)
     }
   }"

definition galloc_insn :: "ablock \<Rightarrow> ainsn \<Rightarrow> ra \<Rightarrow> ra option" where
  "galloc_insn gbb insn =
     (case i_op insn of
        OP_allocat \<Rightarrow> galloc_allocat gbb insn
      | OP_load_constant \<Rightarrow> galloc_constant gbb insn
      | OP_load_data_address \<Rightarrow> galloc_constant gbb insn
      | OP_load_rodata_address \<Rightarrow> galloc_constant gbb insn
      | OP_assign \<Rightarrow> galloc_assign gbb insn
      | OP_add \<Rightarrow> galloc_add gbb insn
      | OP_write \<Rightarrow> galloc_write gbb insn
      | _ \<Rightarrow> (\<lambda>_. None))"

fun galloc_insns :: "ablock \<Rightarrow> ainsn list \<Rightarrow> ra \<Rightarrow> ra option" where
  "galloc_insns gbb [] st = Some st"
| "galloc_insns gbb (insn # rest) st = galloc_insn gbb insn st \<bind> galloc_insns gbb rest"

definition reg_alloc :: "ra_conf \<Rightarrow> afunc \<Rightarrow> afunc list \<Rightarrow> blocks \<times> ra \<Rightarrow> (afunc \<times> afunc list \<times> blocks \<times> ra) option" where
  "reg_alloc cf gf fs = (\<lambda>(bl, st). do {
     let g = hd (a_bbs gf);
     st \<leftarrow> galloc_insns (bl g) (a_insns (bl g)) (st\<lparr>stack := a_stack_size gf, code := a_code (bl g)\<rparr>);
     (fs, a) \<leftarrow> alloc_funcs cf fs (bl(g := (bl g)\<lparr>a_code := code st\<rparr>), st);
     Some (gf\<lparr>a_stack_size := stack st\<rparr>, fs, a)
   })"

end
