(* ===== verification/RegInv.thy ===== *)
theory RegInv
  imports RegAlloc
begin

text \<open>
  What the allocator keeps while it emits code: every variable that is still needed has
  its value in the register that \<open>REGS\<close> notes for it, or can be brought back, from its
  stack slot or as a constant. The steps that move variables between registers and slots
  keep this invariant; their code runs from the state before to the state after.
\<close>

section \<open>Memory\<close>

definition apart :: "cint \<Rightarrow> cint \<Rightarrow> bool" where
  "apart a b \<longleftrightarrow> (\<forall>i<4. \<forall>j<4. a + of_nat i \<noteq> b + of_nat j)"

lemma apart_sym: "apart a b \<Longrightarrow> apart b a"
  unfolding apart_def by metis

lemma mem_bytes_cong:
  "(\<And>i. i < n \<Longrightarrow> m (a + of_nat i) = m' (a + of_nat i)) \<Longrightarrow> mem_bytes m a n = mem_bytes m' a n"
proof (induction n arbitrary: a)
  case (Suc n)
  have "mem_bytes m (a + 1) n = mem_bytes m' (a + 1) n"
    using Suc.prems [of "Suc _"] by (intro Suc.IH) (simp add: add.assoc)
  with Suc.prems [of 0] show ?case by simp
qed simp

lemma load_store_apart:
  assumes "apart a b"
  shows "load_val (store_val m 4 a v) 4 True b = load_val m 4 True b"
proof -
  have "mem_bytes (store_val m 4 a v) b 4 = mem_bytes m b 4"
    using assms by (intro mem_bytes_cong) (auto simp: store_val_def apart_def intro!: mem_write_other, metis)
  then show ?thesis by (simp add: load_val_def)
qed

section \<open>The invariant\<close>

text \<open>
  \<open>cvars\<close> are the variables the code may mention, \<open>cvs\<close> their fields as far as the
  allocator does not change them, \<open>ckill\<close> the variables assigned in the block, \<open>clim\<close> a
  bound on the stack frame.
\<close>

record actx =
  cvars :: "var_ref set"
  cvs :: avars
  ckill :: "var_ref set"
  csp :: cint
  cgp :: cint
  clim :: nat

definition stat :: "avar \<Rightarrow> bool \<times> cint \<times> bool \<times> bool \<times> cint \<times> bool" where
  "stat x = (is_const x, init_val x, is_global x, address_taken x, consumed x, v_ofs_top x)"

definition slot :: "actx \<Rightarrow> avars \<Rightarrow> var_ref \<Rightarrow> cint" where
  "slot c vs v = (if is_global (vs v) then cgp c else csp c) + offset (vs v)"

text \<open>The slots of different variables do not overlap, and there is room for \<open>k\<close> more.\<close>

definition slots_ok :: "actx \<Rightarrow> nat \<Rightarrow> ra \<Rightarrow> bool" where
  "slots_ok c k st \<longleftrightarrow>
     unat (stack st) + 4 * k \<le> clim c \<and> clim c < 2 ^ 32
   \<and> (\<forall>v\<in>cvars c. space_is_allocated (rvs st v) \<and> \<not> is_global (rvs st v)
         \<longrightarrow> unat (offset (rvs st v)) + 4 \<le> unat (stack st))
   \<and> (\<forall>v\<in>cvars c. is_global (rvs st v) \<longrightarrow> space_is_allocated (rvs st v)
         \<and> (\<forall>i<4. \<forall>j<clim c. slot c (rvs st) v + of_nat i \<noteq> csp c + of_nat j))
   \<and> (\<forall>v\<in>cvars c. \<forall>w\<in>cvars c. v \<noteq> w \<and> space_is_allocated (rvs st v) \<and> space_is_allocated (rvs st w)
         \<longrightarrow> apart (slot c (rvs st) v) (slot c (rvs st) w))"

definition regs_ok :: "actx \<Rightarrow> ra \<Rightarrow> bool" where
  "regs_ok c st \<longleftrightarrow> length (regs st) = REG_CNT
   \<and> (\<forall>i<REG_CNT. \<forall>v. at st i = Some v \<longrightarrow> v \<in> cvars c
         \<and> (polluted (regs st ! i) \<longrightarrow> \<not> is_global (cvs c v) \<and> v \<in> ckill c)
         \<and> (address_taken (cvs c v) \<longrightarrow> phys_reg (rvs st v) = of_nat i))
   \<and> (\<forall>i<REG_CNT. \<forall>j<REG_CNT. at st i = at st j \<and> at st i \<noteq> None \<longrightarrow> i = j)"

definition dirty :: "ra \<Rightarrow> var_ref \<Rightarrow> bool" where
  "dirty st v \<longleftrightarrow> (\<exists>i<REG_CNT. at st i = Some v \<and> polluted (regs st ! i))"

definition in_slot :: "actx \<Rightarrow> avars \<Rightarrow> ph2_state \<Rightarrow> var_ref \<Rightarrow> cint \<Rightarrow> bool" where
  "in_slot c vs s v x \<longleftrightarrow> space_is_allocated (vs v) \<and> load_val (pmem s) 4 True (slot c vs v) = x"

text \<open>\<open>N\<close> are the variables whose value is still needed; \<open>env\<close> gives it.\<close>

definition rep :: "actx \<Rightarrow> nat \<Rightarrow> senv \<Rightarrow> var_ref set \<Rightarrow> ra \<Rightarrow> ph2_state \<Rightarrow> bool" where
  "rep c k env N st s \<longleftrightarrow>
     spv s = csp c \<and> gpv s = cgp c \<and> N \<subseteq> cvars c
   \<and> (\<forall>v. stat (rvs st v) = stat (cvs c v)) \<and> (\<forall>v\<in>cvars c. \<not> v_ofs_top (cvs c v))
   \<and> regs_ok c st \<and> slots_ok c k st
   \<and> (\<forall>i<REG_CNT. \<forall>v\<in>N. at st i = Some v \<longrightarrow> reg s (of_nat i) = env v)
   \<and> (\<forall>v\<in>N. if is_const (cvs c v) then env v = init_val (cvs c v)
             else dirty st v \<or> in_slot c (rvs st) s v (env v))"

text \<open>\<open>leads st s st' s'\<close>: the code that \<open>st'\<close> has more than \<open>st\<close> runs from \<open>s\<close> to \<open>s'\<close>.\<close>

definition leads :: "ra \<Rightarrow> ph2_state \<Rightarrow> ra \<Rightarrow> ph2_state \<Rightarrow> bool" where
  "leads st s st' s' \<longleftrightarrow> (\<exists>cs. code st' = code st @ cs \<and> ph2_run cs s = Some s')"

lemma leads_same: "code st' = code st \<Longrightarrow> leads st s st' s"
  unfolding leads_def by (intro exI [of _ "[]"]) simp

lemma leads_trans: "leads st s st1 s1 \<Longrightarrow> leads st1 s1 st2 s2 \<Longrightarrow> leads st s st2 s2"
  unfolding leads_def by (elim exE conjE, rule_tac x = "cs @ csa" in exI) (simp add: ph2_run_append)

lemma leads_step: "code st' = code st @ [ir] \<Longrightarrow> ph2_step ir s = Some s' \<Longrightarrow> leads st s st' s'"
  unfolding leads_def by (intro exI [of _ "[ir]"]) simp

section \<open>Simplification of the state\<close>

lemma ra_simps [simp]:
  "regs (upd_var v f st) = regs st" "code (upd_var v f st) = code st" "stack (upd_var v f st) = stack st"
  "rvs (upd_var v f st) = set_var v f (rvs st)"
  "rvs (set_reg_var i r st) = rvs st" "code (set_reg_var i r st) = code st" "stack (set_reg_var i r st) = stack st"
  "rvs (set_polluted i p st) = rvs st" "code (set_polluted i p st) = code st" "stack (set_polluted i p st) = stack st"
  "length (regs (set_reg_var i r st)) = length (regs st)" "length (regs (set_polluted i p st)) = length (regs st)"
  "regs (bb_add_ph2_ir ir st) = regs st" "rvs (bb_add_ph2_ir ir st) = rvs st" "stack (bb_add_ph2_ir ir st) = stack st"
  "code (bb_add_ph2_ir ir st) = code st @ [ir]"
  by (simp_all add: upd_var_def set_reg_var_def set_polluted_def bb_add_ph2_ir_def)

lemma at_simps [simp]:
  "at (upd_var v f st) i = at st i" "at (bb_add_ph2_ir ir st) i = at st i" "at (set_polluted j p st) i = at st i"
  "j < length (regs st) \<Longrightarrow> at (set_reg_var j r st) i = (if i = j then r else at st i)"
  "at (st\<lparr>stack := n\<rparr>) i = at st i"
proof -
  show "at (set_polluted j p st) i = at st i"
    by (cases "i = j"; cases "j < length (regs st)") (simp_all add: at_def set_polluted_def list_update_beyond)
qed (simp_all add: at_def set_reg_var_def nth_list_update)

lemma polluted_simps [simp]:
  "polluted (regs (set_reg_var j r st) ! i) = polluted (regs st ! i)"
  "j < length (regs st) \<Longrightarrow> polluted (regs (set_polluted j p st) ! i) = (if i = j then p else polluted (regs st ! i))"
proof -
  show "polluted (regs (set_reg_var j r st) ! i) = polluted (regs st ! i)"
    by (cases "i = j"; cases "j < length (regs st)") (simp_all add: set_reg_var_def list_update_beyond)
qed (simp add: set_polluted_def nth_list_update)

lemma vreg_simps [simp]:
  "vreg_clear_phys (Some v) st = upd_var v (\<lambda>x. x\<lparr>phys_reg := - 1\<rparr>) st"
  "vreg_map_to_phys v i st = upd_var v (\<lambda>x. x\<lparr>phys_reg := of_nat i\<rparr>) st"
  by (simp_all add: vreg_clear_phys_def vreg_map_to_phys_def)

lemma set_var_if: "set_var v f vs w = (if w = v then f (vs v) else vs w)"
  by (simp add: set_var_def)

lemma REG_CNT_less [simp]: "i < REG_CNT \<longleftrightarrow> i < 8"
  by (simp add: REG_CNT_def)

text \<open>The word of a register number.\<close>

lemma of_nat_reg_inj: "i < 8 \<Longrightarrow> j < 8 \<Longrightarrow> (of_nat i :: cint) = of_nat j \<longleftrightarrow> i = j"
proof
  assume "i < 8" "j < 8" "(of_nat i :: cint) = of_nat j"
  then have "unat (of_nat i :: cint) = unat (of_nat j :: cint)" by simp
  with \<open>i < 8\<close> \<open>j < 8\<close> show "i = j" by (simp add: unat_of_nat)
qed simp

text \<open>Two states that the invariant does not tell apart.\<close>

lemma rep_cong:
  assumes "rep c k env N st s" and len: "length (regs st') = length (regs st)" and stk: "stack st' = stack st"
    and at: "\<And>i. i < 8 \<Longrightarrow> at st' i = at st i \<or> (at st' i = None \<and> (\<forall>v\<in>N. at st i = Some v \<longrightarrow> \<not> polluted (regs st ! i)))"
    and pol: "\<And>i v. i < 8 \<Longrightarrow> at st' i = Some v \<Longrightarrow> polluted (regs st' ! i) = polluted (regs st ! i)"
    and vs: "\<And>v. stat (rvs st' v) = stat (rvs st v) \<and> offset (rvs st' v) = offset (rvs st v)
        \<and> space_is_allocated (rvs st' v) = space_is_allocated (rvs st v)"
    and ph: "\<And>i v. i < 8 \<Longrightarrow> at st' i = Some v \<Longrightarrow> address_taken (cvs c v) \<Longrightarrow>
        phys_reg (rvs st' v) = phys_reg (rvs st v) \<or> phys_reg (rvs st' v) = of_nat i"
  shows "rep c k env N st' s"
proof -
  have g: "is_global (rvs st' v) = is_global (rvs st v)" for v
    using vs [of v] by (simp add: stat_def)
  have sl: "slot c (rvs st') v = slot c (rvs st) v" for v
    using vs [of v] g [of v] by (simp add: slot_def)
  have ins: "in_slot c (rvs st') s v x = in_slot c (rvs st) s v x" for v x
    using vs [of v] by (simp add: in_slot_def sl)
  have at': "at st i = Some v" if "i < 8" "at st' i = Some v" for i v
    using at [OF that(1)] that(2) by auto
  have "regs_ok c st'"
    unfolding regs_ok_def REG_CNT_less
  proof (intro conjI allI impI)
    have ro: "regs_ok c st" using assms(1) by (simp add: rep_def)
    show "length (regs st') = REG_CNT" using ro len by (simp add: regs_ok_def)
    fix i v assume i: "i < 8" "at st' i = Some v"
    have iv: "v \<in> cvars c" "polluted (regs st ! i) \<longrightarrow> \<not> is_global (cvs c v) \<and> v \<in> ckill c"
      "address_taken (cvs c v) \<longrightarrow> phys_reg (rvs st v) = of_nat i"
      using ro i(1) at' [OF i] unfolding regs_ok_def REG_CNT_less by blast+
    then show "v \<in> cvars c" by simp
    show "\<not> is_global (cvs c v)" "v \<in> ckill c" if "polluted (regs st' ! i)"
      using iv that pol [OF i] by simp_all
    show "phys_reg (rvs st' v) = of_nat i" if "address_taken (cvs c v)"
      using iv(3) that ph [OF i that] by auto
  next
    fix i j assume ij: "i < 8" "j < 8" "at st' i = at st' j \<and> at st' i \<noteq> None"
    then obtain v where "at st' j = Some v" by (cases "at st' j") auto
    then have "at st i = Some v" "at st j = Some v" using at' ij by auto
    moreover have "regs_ok c st" using assms(1) by (simp add: rep_def)
    ultimately show "i = j"
      using ij unfolding regs_ok_def REG_CNT_less by (metis option.distinct(1))
  qed
  moreover have "dirty st' v" if "dirty st v" "v \<in> N" for v
    using that at pol unfolding dirty_def REG_CNT_less by (metis option.distinct(1))
  moreover have "slots_ok c k st'"
    using assms(1) vs g unfolding rep_def slots_ok_def stk sl by auto
  ultimately show ?thesis
    using assms(1) vs at' unfolding rep_def REG_CNT_less ins by (auto split: if_splits)
qed

lemma rep_less: "rep c k env N st s \<Longrightarrow> N' \<subseteq> N \<Longrightarrow> k' \<le> k \<Longrightarrow> rep c k' env N' st s"
  unfolding rep_def slots_ok_def by (auto split: if_splits)

lemma rep_env: "rep c k env N st s \<Longrightarrow> (\<And>v. v \<in> N \<Longrightarrow> env' v = env v) \<Longrightarrow> rep c k env' N st s"
  unfolding rep_def by (auto split: if_splits)

text \<open>Destruction rules.\<close>

lemma rep_regs:
  assumes "rep c k env N st s"
  shows "length (regs st) = 8" "i < 8 \<Longrightarrow> at st i = Some v \<Longrightarrow> v \<in> cvars c"
    "i < 8 \<Longrightarrow> at st i = Some v \<Longrightarrow> polluted (regs st ! i) \<Longrightarrow> \<not> is_global (cvs c v) \<and> v \<in> ckill c"
    "i < 8 \<Longrightarrow> at st i = Some v \<Longrightarrow> address_taken (cvs c v) \<Longrightarrow> phys_reg (rvs st v) = of_nat i"
    "i < 8 \<Longrightarrow> j < 8 \<Longrightarrow> at st i = Some v \<Longrightarrow> at st j = Some v \<Longrightarrow> i = j"
    "i < 8 \<Longrightarrow> at st i = Some v \<Longrightarrow> v \<in> N \<Longrightarrow> reg s (of_nat i) = env v"
proof -
  have ro: "regs_ok c st" using assms by (simp add: rep_def)
  then show "length (regs st) = 8" by (simp add: regs_ok_def REG_CNT_def)
  show "i < 8 \<Longrightarrow> at st i = Some v \<Longrightarrow> v \<in> cvars c"
    "i < 8 \<Longrightarrow> at st i = Some v \<Longrightarrow> polluted (regs st ! i) \<Longrightarrow> \<not> is_global (cvs c v) \<and> v \<in> ckill c"
    "i < 8 \<Longrightarrow> at st i = Some v \<Longrightarrow> address_taken (cvs c v) \<Longrightarrow> phys_reg (rvs st v) = of_nat i"
    using ro unfolding regs_ok_def REG_CNT_less by blast+
  show "i < 8 \<Longrightarrow> j < 8 \<Longrightarrow> at st i = Some v \<Longrightarrow> at st j = Some v \<Longrightarrow> i = j"
    using ro unfolding regs_ok_def REG_CNT_less by (metis option.distinct(1))
  show "i < 8 \<Longrightarrow> at st i = Some v \<Longrightarrow> v \<in> N \<Longrightarrow> reg s (of_nat i) = env v"
    using assms unfolding rep_def REG_CNT_less by blast
qed

lemma rep_stat:
  assumes "rep c k env N st s"
  shows "is_const (rvs st v) = is_const (cvs c v)" "init_val (rvs st v) = init_val (cvs c v)"
    "is_global (rvs st v) = is_global (cvs c v)" "address_taken (rvs st v) = address_taken (cvs c v)"
    "consumed (rvs st v) = consumed (cvs c v)" "v_ofs_top (rvs st v) = v_ofs_top (cvs c v)"
proof -
  have "stat (rvs st v) = stat (cvs c v)" using assms by (simp add: rep_def)
  then show "is_const (rvs st v) = is_const (cvs c v)" "init_val (rvs st v) = init_val (cvs c v)"
    "is_global (rvs st v) = is_global (cvs c v)" "address_taken (rvs st v) = address_taken (cvs c v)"
    "consumed (rvs st v) = consumed (cvs c v)" "v_ofs_top (rvs st v) = v_ofs_top (cvs c v)"
    by (simp_all add: stat_def)
qed

section \<open>Moving variables\<close>

lemma clear_then_spill: "spill_var v i (vreg_clear_phys (Some v) st) = spill_var v i st"
proof -
  let ?c = "\<lambda>x :: avar. x\<lparr>phys_reg := - 1\<rparr>"
  have tw: "set_var v ?c (set_var v f (set_var v ?c vs)) = set_var v ?c (set_var v f vs)"
    if "\<And>x. ?c (f (?c x)) = ?c (f x)" for f vs
    using that by (auto simp: set_var_def)
  have id: "set_var v ?c (set_var v ?c vs) = set_var v ?c vs" for vs
    by (auto simp: set_var_def)
  show ?thesis
    by (simp add: spill_var_def alloc_slot_def upd_var_def set_reg_var_def set_polluted_def bb_add_ph2_ir_def
        ir_store_def Let_def tw id)
qed

text \<open>A slot that is taken for \<open>v\<close> lies beyond all others.\<close>

lemma alloc_slot_simps [simp]:
  "regs (alloc_slot v st) = regs st" "code (alloc_slot v st) = code st" "at (alloc_slot v st) i = at st i"
  "stat (rvs (alloc_slot v st) w) = stat (rvs st w)" "phys_reg (rvs (alloc_slot v st) w) = phys_reg (rvs st w)"
  "space_is_allocated (rvs (alloc_slot v st) w) \<longleftrightarrow> w = v \<or> space_is_allocated (rvs st w)"
  "w \<noteq> v \<or> space_is_allocated (rvs st v) \<Longrightarrow> offset (rvs (alloc_slot v st) w) = offset (rvs st w)"
  by (auto simp: alloc_slot_def at_def stat_def set_var_if)

lemma apart_frame:
  assumes "a + 4 \<le> b" "b + 4 \<le> lim" "lim < 2 ^ 32"
  shows "apart (p + of_nat a) (p + of_nat b)"
proof -
  have "(of_nat (a + i) :: cint) \<noteq> of_nat (b + j)" if "i < 4" "j < 4" for i j
  proof
    assume "(of_nat (a + i) :: cint) = of_nat (b + j)"
    then have "unat (of_nat (a + i) :: cint) = unat (of_nat (b + j) :: cint)" by simp
    then have "(a + i) mod 2 ^ 32 = (b + j) mod 2 ^ 32"
      by (simp only: unat_of_nat) simp
    with assms that show False by simp
  qed
  then show ?thesis
    by (simp add: apart_def add.assoc flip: of_nat_add)
qed

lemma slot_stat: "stat (vs v) = stat (ws v) \<Longrightarrow> offset (vs v) = offset (ws v) \<Longrightarrow> slot c vs v = slot c ws v"
  by (simp add: slot_def stat_def)

lemma alloc_slot_slots:
  assumes "slots_ok c (Suc k) st" "v \<in> cvars c"
  shows "slots_ok c k (alloc_slot v st)"
proof (cases "space_is_allocated (rvs st v)")
  case True
  then have "alloc_slot v st = st" by (simp add: alloc_slot_def)
  then show ?thesis using assms by (auto simp: slots_ok_def)
next
  case False
  let ?st = "alloc_slot v st" and ?n = "unat (stack st)"
  have lim: "?n + 4 * Suc k \<le> clim c" "clim c < 2 ^ 32"
    and low: "\<And>w. w \<in> cvars c \<Longrightarrow> space_is_allocated (rvs st w) \<Longrightarrow> \<not> is_global (rvs st w)
        \<Longrightarrow> unat (offset (rvs st w)) + 4 \<le> ?n"
    and glob: "\<And>w. w \<in> cvars c \<Longrightarrow> is_global (rvs st w) \<Longrightarrow> space_is_allocated (rvs st w)
        \<and> (\<forall>i<4. \<forall>j<clim c. slot c (rvs st) w + of_nat i \<noteq> csp c + of_nat j)"
    and ap: "\<And>v w. v \<in> cvars c \<Longrightarrow> w \<in> cvars c \<Longrightarrow> v \<noteq> w \<Longrightarrow> space_is_allocated (rvs st v)
        \<Longrightarrow> space_is_allocated (rvs st w) \<Longrightarrow> apart (slot c (rvs st) v) (slot c (rvs st) w)"
    using assms(1) unfolding slots_ok_def by blast+
  have loc: "\<not> is_global (rvs st v)" using glob [OF assms(2)] False by blast
  have stk: "unat (stack ?st) = ?n + 4" "offset (rvs ?st v) = stack st"
    using lim False by (simp_all add: alloc_slot_def unat_word_ariths)
  have gl: "is_global (rvs ?st w) = is_global (rvs st w)" for w
    using alloc_slot_simps(4) [of v st w] by (simp add: stat_def)
  have sl: "slot c (rvs ?st) w = slot c (rvs st) w" if "w \<noteq> v" for w
    using that by (intro slot_stat) simp_all
  have new: "slot c (rvs ?st) v = csp c + of_nat ?n"
    using loc gl [of v] stk by (simp add: slot_def)
  have fresh: "apart (slot c (rvs st) w) (csp c + of_nat ?n)"
    if w: "w \<in> cvars c" "space_is_allocated (rvs st w)" for w
  proof (cases "is_global (rvs st w)")
    case True
    have ne: "slot c (rvs st) w + of_nat i \<noteq> csp c + of_nat ?n + of_nat j" if "i < 4" "j < 4" for i j
    proof -
      have "?n + j < clim c" using lim that(2) by simp
      then have "slot c (rvs st) w + of_nat i \<noteq> csp c + of_nat (?n + j)"
        using glob [OF w(1) True] that(1) by blast
      then show ?thesis by (simp only: of_nat_add add.assoc) simp
    qed
    then show ?thesis by (simp add: apart_def)
  next
    case False
    have "apart (csp c + of_nat (unat (offset (rvs st w)))) (csp c + of_nat ?n)"
      using low [OF w False] lim by (intro apart_frame [of _ _ "clim c"]) auto
    then show ?thesis using False by (simp add: slot_def)
  qed
  show ?thesis
    unfolding slots_ok_def
  proof (intro conjI ballI impI)
    show "unat (stack ?st) + 4 * k \<le> clim c" "clim c < 2 ^ 32" using lim stk by simp_all
    show "unat (offset (rvs ?st w)) + 4 \<le> unat (stack ?st)"
      if "w \<in> cvars c" "space_is_allocated (rvs ?st w) \<and> \<not> is_global (rvs ?st w)" for w
    proof (cases "w = v")
      case False
      then have "unat (offset (rvs st w)) + 4 \<le> ?n"
        using low [OF that(1)] that(2) gl [of w] by simp
      then show ?thesis using False stk by simp
    qed (use stk in simp)
    show "space_is_allocated (rvs ?st w)" if "w \<in> cvars c" "is_global (rvs ?st w)" for w
      using glob that gl by simp
    show "\<forall>i<4. \<forall>j<clim c. slot c (rvs ?st) w + of_nat i \<noteq> csp c + of_nat j"
      if "w \<in> cvars c" "is_global (rvs ?st w)" for w
    proof -
      have "w \<noteq> v" using that(2) gl loc by auto
      then show ?thesis using glob [OF that(1)] that(2) gl sl by simp
    qed
    show "apart (slot c (rvs ?st) w) (slot c (rvs ?st) u)"
      if "w \<in> cvars c" "u \<in> cvars c"
        "w \<noteq> u \<and> space_is_allocated (rvs ?st w) \<and> space_is_allocated (rvs ?st u)" for w u
    proof -
      have wu: "w \<noteq> u" "w = v \<or> space_is_allocated (rvs st w)" "u = v \<or> space_is_allocated (rvs st u)"
        using that(3) by auto
      show ?thesis
      proof (cases "w = v")
        case True
        then have "u \<noteq> v" "space_is_allocated (rvs st u)" using wu by auto
        then show ?thesis
          unfolding True new sl [OF \<open>u \<noteq> v\<close>] by (intro apart_sym [OF fresh] that(2))
      next
        case w: False
        show ?thesis
        proof (cases "u = v")
          case True
          then show ?thesis
            unfolding True new sl [OF w] using fresh that(1) wu w by blast
        next
          case False
          then show ?thesis
            unfolding sl [OF w] sl [OF False] using ap that(1,2) wu w by blast
        qed
      qed
    qed
  qed
qed

end
