(* ===== verification/RegMoves.thy ===== *)
theory RegMoves
  imports RegInv
begin

text \<open>
  Spilling, loading, dropping, and the two operations that give a variable a register:
  each keeps the invariant, and the code it emits carries the machine along.
\<close>

lemma regs_okI:
  assumes "length (regs st) = 8"
    and "\<And>i v. i < 8 \<Longrightarrow> at st i = Some v \<Longrightarrow> v \<in> cvars c
         \<and> (polluted (regs st ! i) \<longrightarrow> \<not> is_global (cvs c v) \<and> v \<in> ckill c)
         \<and> (address_taken (cvs c v) \<longrightarrow> phys_reg (rvs st v) = of_nat i)"
    and "\<And>i j v. i < 8 \<Longrightarrow> j < 8 \<Longrightarrow> at st i = Some v \<Longrightarrow> at st j = Some v \<Longrightarrow> i = j"
  shows "regs_ok c st"
  unfolding regs_ok_def REG_CNT_less
proof (intro conjI allI impI)
  fix i j assume ij: "i < 8" "j < 8" "at st i = at st j \<and> at st i \<noteq> None"
  then obtain v where "at st j = Some v" by (cases "at st j") auto
  with ij assms(3) show "i = j" by simp
qed (use assms(1,2) in \<open>auto simp: REG_CNT_def\<close>)

lemma repI:
  assumes "spv s = csp c" "gpv s = cgp c" "N \<subseteq> cvars c" "\<And>v. stat (rvs st v) = stat (cvs c v)"
    "\<And>v. v \<in> cvars c \<Longrightarrow> \<not> v_ofs_top (cvs c v)" "regs_ok c st" "slots_ok c k st"
    "\<And>i v. i < 8 \<Longrightarrow> v \<in> N \<Longrightarrow> at st i = Some v \<Longrightarrow> reg s (of_nat i) = env v"
    "\<And>v. v \<in> N \<Longrightarrow> if is_const (cvs c v) then env v = init_val (cvs c v)
             else dirty st v \<or> in_slot c (rvs st) s v (env v)"
  shows "rep c k env N st s"
  unfolding rep_def REG_CNT_less using assms by blast

lemma rep_fields:
  assumes "rep c k env N st s"
  shows "spv s = csp c" "gpv s = cgp c" "N \<subseteq> cvars c" "\<And>v. stat (rvs st v) = stat (cvs c v)"
    "\<And>v. v \<in> cvars c \<Longrightarrow> \<not> v_ofs_top (cvs c v)" "regs_ok c st" "slots_ok c k st"
    "\<And>v. v \<in> N \<Longrightarrow> if is_const (cvs c v) then env v = init_val (cvs c v)
             else dirty st v \<or> in_slot c (rvs st) s v (env v)"
  using assms unfolding rep_def by blast+

text \<open>Updates of a register and of a variable, in a fixed order.\<close>

lemma update_order:
  "upd_var v f (set_reg_var i r st) = set_reg_var i r (upd_var v f st)"
  "upd_var v f (set_polluted i p st) = set_polluted i p (upd_var v f st)"
  "set_reg_var i r (set_polluted i p st) = set_polluted i p (set_reg_var i r st)"
  "upd_var v f (bb_add_ph2_ir ir st) = bb_add_ph2_ir ir (upd_var v f st)"
  "set_reg_var i r (bb_add_ph2_ir ir st) = bb_add_ph2_ir ir (set_reg_var i r st)"
  "set_polluted i p (bb_add_ph2_ir ir st) = bb_add_ph2_ir ir (set_polluted i p st)"
proof -
  have "(regs st)[i := ((regs st)[i := (regs st ! i)\<lparr>polluted := p\<rparr>] ! i)\<lparr>rvar := r\<rparr>]
      = (regs st)[i := ((regs st)[i := (regs st ! i)\<lparr>rvar := r\<rparr>] ! i)\<lparr>polluted := p\<rparr>]"
    by (cases "i < length (regs st)"; cases "regs st ! i") (simp_all add: list_update_beyond)
  then show "set_reg_var i r (set_polluted i p st) = set_polluted i p (set_reg_var i r st)"
    by (simp add: set_reg_var_def set_polluted_def)
qed (cases st; simp add: upd_var_def set_reg_var_def set_polluted_def bb_add_ph2_ir_def)+

lemma regs_set_both:
  "i < length (regs st) \<Longrightarrow> regs (set_polluted i p (set_reg_var i r st)) = (regs st)[i := \<lparr>rvar = r, polluted = p\<rparr>]"
  by (cases "regs st ! i") (simp add: set_reg_var_def set_polluted_def)

lemma store_step:
  assumes "spv s = csp c" "gpv s = cgp c" "\<not> v_ofs_top x"
  shows "ph2_step (ir_store x r) s = Some (s\<lparr>pmem := store_val (pmem s) 4
      ((if is_global x then cgp c else csp c) + offset x) (reg s (of_nat r))\<rparr>)"
  using assms by (simp add: ph2_step_def ir_store_def new_ph2_ir_def)

lemma spill_clean:
  assumes rep: "rep c (Suc k) env N st s" and i: "i < 8" "at st i = Some v" "polluted (regs st ! i)"
  shows "\<exists>s'. leads st s (set_polluted i False (bb_add_ph2_ir (ir_store (rvs (alloc_slot v st) v) i) (alloc_slot v st))) s'
    \<and> rep c k env N (set_polluted i False (bb_add_ph2_ir (ir_store (rvs (alloc_slot v st) v) i) (alloc_slot v st))) s'
    \<and> reg s' = reg s"
proof -
  let ?st1 = "alloc_slot v st"
  let ?st = "set_polluted i False (bb_add_ph2_ir (ir_store (rvs ?st1 v) i) ?st1)"
  let ?a = "slot c (rvs ?st1) v"
  define s' where "s' = s\<lparr>pmem := store_val (pmem s) 4 ?a (reg s (of_nat i))\<rparr>"
  have len: "length (regs st) = 8" and v: "v \<in> cvars c" "\<not> is_global (cvs c v)"
    using rep_regs [OF rep] i by blast+
  have top: "\<not> v_ofs_top (rvs ?st1 v)"
    using rep v(1) alloc_slot_simps(4) [of v st v] rep_stat(6) [OF rep, of v]
    by (auto simp: rep_def stat_def)
  have sp: "spv s = csp c" "gpv s = cgp c"
    using rep by (simp_all add: rep_def)
  have step: "ph2_step (ir_store (rvs ?st1 v) i) s = Some s'"
    using store_step [OF sp top, of i] by (simp add: s'_def slot_def)
  have ok: "slots_ok c (Suc k) st" and ro: "regs_ok c st"
    using rep by (simp_all add: rep_def)
  have ok1: "slots_ok c k ?st1" using ok v(1) by (rule alloc_slot_slots)
  have r1: "regs_ok c ?st"
    by (rule regs_okI) (use len i(1) rep_regs [OF rep] in \<open>auto split: if_splits\<close>)
  have r2: "slots_ok c k ?st"
    using ok1 by (simp add: slots_ok_def)
  have r3: "if is_const (cvs c w) then env w = init_val (cvs c w)
      else dirty ?st w \<or> in_slot c (rvs ?st) s' w (env w)" if w: "w \<in> N" for w
  proof (cases "is_const (cvs c w)")
    case True
    then show ?thesis using rep w unfolding rep_def by auto
  next
    case nc: False
    show ?thesis
    proof (cases "w = v")
      case True
      have "reg s (of_nat i) = env v" using rep_regs(6) [OF rep i(1,2)] w True by simp
      then show ?thesis
        using nc True by (simp add: in_slot_def s'_def load_store_same)
    next
      case False
      have "dirty st w \<or> in_slot c (rvs st) s w (env w)"
        using rep w nc unfolding rep_def by auto
      then show ?thesis
      proof
        assume "dirty st w"
        then obtain j where j: "j < 8" "at st j = Some w" "polluted (regs st ! j)"
          by (auto simp: dirty_def)
        moreover have "j \<noteq> i" using j(2) i(2) False by auto
        ultimately show ?thesis
          using nc len i(1) unfolding dirty_def REG_CNT_less by auto
      next
        assume ins: "in_slot c (rvs st) s w (env w)"
        have wc: "w \<in> cvars c" using rep w by (auto simp: rep_def)
        have sl: "slot c (rvs ?st1) w = slot c (rvs st) w"
          using False by (intro slot_stat) simp_all
        have "apart ?a (slot c (rvs ?st1) w)"
          using ok1 v(1) wc False ins unfolding slots_ok_def in_slot_def by simp
        then show ?thesis
          using ins nc by (simp add: in_slot_def s'_def sl load_store_apart)
      qed
    qed
  qed
  have "rep c k env N ?st s'"
  proof (rule repI)
    show "if is_const (cvs c w) then env w = init_val (cvs c w)
      else dirty ?st w \<or> in_slot c (rvs ?st) s' w (env w)" if "w \<in> N" for w
      using that by (rule r3)
    show "regs_ok c ?st" "slots_ok c k ?st" by (rule r1, rule r2)
    show "reg s' (of_nat j) = env w" if "j < 8" "w \<in> N" "at ?st j = Some w" for j w
      using that rep_regs(6) [OF rep, of j w] by (simp add: s'_def)
  qed (use rep_fields(1-5) [OF rep] in \<open>simp_all add: s'_def\<close>)
  moreover have "leads st s ?st s'"
    using step by (intro leads_step) simp_all
  ultimately show ?thesis
    by (intro exI [of _ s']) (simp add: s'_def)
qed

lemma stat_phys [simp]: "stat (x\<lparr>phys_reg := p\<rparr>) = stat x"
  by (simp add: stat_def)

lemma free_reg_rep:
  assumes rep: "rep c k env N st s" and i: "i < 8" "at st i = Some v"
    and d: "v \<in> N \<longrightarrow> \<not> polluted (regs st ! i)"
  shows "rep c k env N (vreg_clear_phys (Some v) (set_reg_var i None st)) s"
proof (rule rep_cong [OF rep])
  have len: "length (regs st) = 8" using rep_regs(1) [OF rep] .
  show "at (vreg_clear_phys (Some v) (set_reg_var i None st)) j = at st j
      \<or> at (vreg_clear_phys (Some v) (set_reg_var i None st)) j = None
        \<and> (\<forall>v\<in>N. at st j = Some v \<longrightarrow> \<not> polluted (regs st ! j))" for j
    using len i d by auto
  show "phys_reg (rvs (vreg_clear_phys (Some v) (set_reg_var i None st)) w) = phys_reg (rvs st w)
      \<or> phys_reg (rvs (vreg_clear_phys (Some v) (set_reg_var i None st)) w) = of_nat j"
    if "j < 8" "at (vreg_clear_phys (Some v) (set_reg_var i None st)) j = Some w" for j w
  proof -
    have "j \<noteq> i" "at st j = Some w" using that len i(1) by (auto split: if_splits)
    then have "w \<noteq> v" using rep_regs(5) [OF rep _ i(1) _ i(2), of j] that(1) by auto
    then show ?thesis by simp
  qed
qed (auto simp: set_var_if)

lemma spill_rep:
  assumes rep: "rep c (Suc k) env N st s" and i: "i < 8" "at st i = Some v"
  shows "\<exists>s'. leads st s (spill_var v i st) s' \<and> rep c k env N (spill_var v i st) s' \<and> reg s' = reg s"
proof (cases "polluted (regs st ! i)")
  case False
  then show ?thesis
    using free_reg_rep [OF rep_less [OF rep subset_refl, of k] i]
    by (intro exI [of _ s]) (simp add: spill_var_def leads_same)
next
  case True
  let ?st = "set_polluted i False (bb_add_ph2_ir (ir_store (rvs (alloc_slot v st) v) i) (alloc_slot v st))"
  obtain s' where s': "leads st s ?st s'" "rep c k env N ?st s'" "reg s' = reg s"
    using spill_clean [OF rep i True] by blast
  have len: "length (regs st) = 8" using rep_regs(1) [OF rep] .
  have eq: "spill_var v i st = vreg_clear_phys (Some v) (set_reg_var i None ?st)"
    using True by (simp add: spill_var_def Let_def update_order)
  have "rep c k env N (spill_var v i st) s'"
    unfolding eq using i len by (intro free_reg_rep [OF s'(2) i(1)]) simp_all
  moreover have "leads st s (spill_var v i st) s'"
    using s'(1) unfolding leads_def eq by simp
  ultimately show ?thesis using s'(3) by blast
qed

lemma spill_at:
  assumes "length (regs st) = 8" "i < 8" "at st i = Some v"
  shows "at (spill_var v i st) j = (if j = i then None else at st j)"
    "j \<noteq> i \<Longrightarrow> polluted (regs (spill_var v i st) ! j) = polluted (regs st ! j)"
  using assms by (simp_all add: spill_var_def Let_def)

lemma drop_rep:
  assumes rep: "rep c k env N st s" and i: "i < 8" "at st i = Some v"
    and d: "v \<in> N \<longrightarrow> \<not> polluted (regs st ! i)"
  shows "rep c k env N (drop_reg i st) s"
proof -
  let ?st = "vreg_clear_phys (Some v) (set_reg_var i None st)"
  have len: "length (regs st) = 8" using rep_regs(1) [OF rep] .
  have eq: "drop_reg i st = set_polluted i False ?st"
    using i by (simp add: drop_reg_def update_order)
  show ?thesis
    unfolding eq using len i by (intro rep_cong [OF free_reg_rep [OF rep i d]]) (auto split: if_splits)
qed

lemma drop_at:
  assumes "length (regs st) = 8" "i < 8" "at st i = Some v"
  shows "at (drop_reg i st) j = (if j = i then None else at st j)"
    "j \<noteq> i \<Longrightarrow> polluted (regs (drop_reg i st) ! j) = polluted (regs st ! j)"
    "code (drop_reg i st) = code st"
  using assms by (simp_all add: drop_reg_def)

section \<open>Loading\<close>

definition set_at :: "nat \<Rightarrow> cint \<Rightarrow> ph2_state \<Rightarrow> ph2_state" where
  "set_at i x = set_reg (of_nat i) x"

text \<open>A variable that is in no register gets an empty one, which then holds its value.\<close>

lemma fill_rep:
  assumes rep: "rep c k env N st s" and i: "i < 8" "at st i = None" and v: "v \<in> cvars c"
    and out: "\<And>j. j < 8 \<Longrightarrow> at st j \<noteq> Some v"
    and st': "regs st' = (regs st)[i := \<lparr>rvar = Some v, polluted = p\<rparr>]" "stack st' = stack st"
      "\<And>w. w \<noteq> v \<Longrightarrow> rvs st' w = rvs st w" "rvs st' v = (rvs st v)\<lparr>phys_reg := of_nat i\<rparr>"
    and p: "p \<Longrightarrow> \<not> is_global (cvs c v) \<and> v \<in> ckill c"
    and x: "is_const (cvs c v) \<Longrightarrow> v \<in> N' \<Longrightarrow> x = init_val (cvs c v)"
      "\<not> is_const (cvs c v) \<Longrightarrow> v \<in> N' \<Longrightarrow> p \<or> in_slot c (rvs st) s v x"
    and N: "N' \<subseteq> insert v N"
  shows "rep c k (env(v := x)) N' st' (set_at i x s)"
proof -
  have len: "length (regs st) = 8" using rep_regs(1) [OF rep] .
  have at': "at st' j = (if j = i then Some v else at st j)"
    and pol: "polluted (regs st' ! j) = (if j = i then p else polluted (regs st ! j))" for j
    using len i(1) by (simp_all add: at_def st' nth_list_update)
  have stat': "stat (rvs st' w) = stat (rvs st w)" and ofs: "offset (rvs st' w) = offset (rvs st w)"
    and al: "space_is_allocated (rvs st' w) = space_is_allocated (rvs st w)" for w
    using st' by (cases "w = v"; simp)+
  have gl: "is_global (rvs st' w) = is_global (rvs st w)" for w
    using stat' [of w] by (simp add: stat_def)
  have sl: "slot c (rvs st') w = slot c (rvs st) w" for w
    using stat' ofs by (rule slot_stat)
  have "regs_ok c st'"
    unfolding regs_ok_def REG_CNT_less
  proof (intro conjI allI impI)
    show "length (regs st') = REG_CNT" using len st' by (simp add: REG_CNT_def)
    fix j w assume j: "j < 8" "at st' j = Some w"
    show "w \<in> cvars c" using j v rep_regs(2) [OF rep] by (auto simp: at' split: if_splits)
    show "\<not> is_global (cvs c w)" "w \<in> ckill c" if "polluted (regs st' ! j)"
      using j p rep_regs(3) [OF rep j(1), of w] that by (auto simp: at' pol split: if_splits)
    show "phys_reg (rvs st' w) = of_nat j" if "address_taken (cvs c w)"
      using j st' rep_regs(4) [OF rep j(1), of w] that out [OF j(1)] by (auto simp: at' split: if_splits)
  next
    fix j l assume jl: "j < 8" "l < 8" "at st' j = at st' l \<and> at st' j \<noteq> None"
    then obtain w where "at st' l = Some w" by (cases "at st' l") auto
    then show "j = l"
      using jl out rep_regs(5) [OF rep jl(1,2), of w] by (auto simp: at' split: if_splits)
  qed
  moreover have "slots_ok c k st'"
    using rep unfolding rep_def slots_ok_def st'(2) sl gl al ofs by blast
  moreover have "\<forall>j<REG_CNT. \<forall>w\<in>N'. at st' j = Some w \<longrightarrow> reg (set_at i x s) (of_nat j) = (env(v := x)) w"
  proof (intro allI ballI impI)
    fix j w assume j: "j < REG_CNT" "w \<in> N'" "at st' j = Some w"
    then show "reg (set_at i x s) (of_nat j) = (env(v := x)) w"
      using out [of j] rep_regs(6) [OF rep, of j w] N i(1)
      by (auto simp: at' set_at_def of_nat_reg_inj split: if_splits)
  qed
  moreover have "\<forall>w\<in>N'. if is_const (cvs c w) then (env(v := x)) w = init_val (cvs c w)
      else dirty st' w \<or> in_slot c (rvs st') (set_at i x s) w ((env(v := x)) w)"
  proof
    fix w assume w: "w \<in> N'"
    show "if is_const (cvs c w) then (env(v := x)) w = init_val (cvs c w)
      else dirty st' w \<or> in_slot c (rvs st') (set_at i x s) w ((env(v := x)) w)"
    proof (cases "w = v")
      case True
      have "dirty st' v" if p
        unfolding dirty_def REG_CNT_less using that i(1) by (intro exI [of _ i]) (simp add: at' pol)
      with True show ?thesis
        using x w by (auto simp: in_slot_def set_at_def sl al)
    next
      case False
      then have wN: "w \<in> N" using w N by auto
      have "dirty st' w" if "dirty st w"
        using that i(2) unfolding dirty_def REG_CNT_less by (auto simp: at' pol)
      moreover have "if is_const (cvs c w) then env w = init_val (cvs c w)
          else dirty st w \<or> in_slot c (rvs st) s w (env w)"
        using rep wN by (simp add: rep_def)
      ultimately show ?thesis
        using False by (auto simp: in_slot_def set_at_def sl al split: if_splits)
    qed
  qed
  moreover have "N' \<subseteq> cvars c" using N rep v by (auto simp: rep_def)
  moreover have "spv (set_at i x s) = csp c" "gpv (set_at i x s) = cgp c"
    using rep_fields(1,2) [OF rep] by (simp_all add: set_at_def)
  ultimately show ?thesis
    using rep_fields(4,5) [OF rep] stat' unfolding rep_def by simp
qed

lemma load_rep:
  assumes rep: "rep c k env N st s" and i: "i < 8" "at st i = None" and v: "v \<in> N"
    and out: "\<And>j. j < 8 \<Longrightarrow> at st j \<noteq> Some v"
  shows "leads st s (load_var v i st) (set_at i (env v) s)" "rep c k env N (load_var v i st) (set_at i (env v) s)"
proof -
  have len: "length (regs st) = 8" using rep_regs(1) [OF rep] .
  have vc: "v \<in> cvars c" using rep v by (auto simp: rep_def)
  have val: "if is_const (cvs c v) then env v = init_val (cvs c v)
      else dirty st v \<or> in_slot c (rvs st) s v (env v)"
    using rep v by (simp add: rep_def)
  have nd: "\<not> dirty st v" using out by (auto simp: dirty_def)
  have sp: "spv s = csp c" "gpv s = cgp c" using rep by (simp_all add: rep_def)
  let ?x = "rvs st v"
  have step: "ph2_step (if is_const ?x then ir_const (init_val ?x) i else ir_load ?x i) s = Some (set_at i (env v) s)"
    using val nd sp rep_stat [OF rep, of v]
    by (auto simp: ph2_step_def ir_const_def ir_load_def new_ph2_ir_def set_at_def in_slot_def slot_def split: if_splits)
  show "leads st s (load_var v i st) (set_at i (env v) s)"
    using step by (intro leads_step) (simp_all add: load_var_def Let_def)
  have "rep c k (env(v := env v)) N (load_var v i st) (set_at i (env v) s)"
  proof (rule fill_rep [where p = False, OF rep i vc out])
    show "regs (load_var v i st) = (regs st)[i := \<lparr>rvar = Some v, polluted = False\<rparr>]"
      using len i(1) by (simp add: load_var_def Let_def regs_set_both)
  qed (use val nd v in \<open>auto simp: load_var_def Let_def set_var_if\<close>)
  then show "rep c k env N (load_var v i st) (set_at i (env v) s)" by simp
qed

end
