(* ===== verification/RegPrep.thy ===== *)
theory RegPrep
  imports RegMoves
begin

text \<open>
  \<open>prepare_operand\<close> and \<open>prepare_dest\<close>: a register is always found, the registers of the
  other operands stay as they are, and the invariant is kept.
\<close>

lemma find_upt:
  "find P [0..<REG_CNT] = Some i \<Longrightarrow> i < 8 \<and> P i"
  "find P [0..<REG_CNT] = None \<Longrightarrow> i < 8 \<Longrightarrow> \<not> P i"
  by (auto simp: find_Some_iff find_None_iff REG_CNT_def)

lemma mapped_regD: "mapped_reg v st = Some i \<Longrightarrow> i < 8 \<and> at st i = Some v"
proof -
  assume a: "mapped_reg v st = Some i"
  let ?p = "vreg_get_phys st v"
  have p: "0 \<le> sint ?p" "sint ?p < 8" and i: "i = unat ?p" "at st i = Some v"
    using a by (auto simp: mapped_reg_def Let_def le_s_sint lt_s_sint REG_CNT_def split: if_splits)
  have "int (unat ?p) < 8"
    using sint_nonneg_uint [OF p(1)] p(2) unfolding uint_eq_unat by simp
  then have "unat ?p < 8" by linarith
  with i show ?thesis by simp
qed

lemma mapped_regI:
  assumes "i < 8" "at st i = Some v" "phys_reg (rvs st v) = of_nat i"
  shows "mapped_reg v st = Some i"
proof -
  have "sint (of_nat i :: cint) = int i" "unat (of_nat i :: cint) = i"
    using assms(1) by (simp_all add: sint_uint_if uint_nat unat_of_nat)
  then show ?thesis
    using assms by (simp add: mapped_reg_def vreg_get_phys_def Let_def le_s_sint lt_s_sint REG_CNT_def)
qed

lemma find_best_spill_ok:
  assumes "find_best_spill bb idx a b st = Some i"
  shows "i < 8 \<and> Some i \<noteq> a \<and> Some i \<noteq> b \<and> at st i \<noteq> None"
proof -
  define f where "f = (\<lambda>i (best, min_cost).
         if Some i = a \<or> Some i = b then (best, min_cost)
         else case at st i of
                None \<Rightarrow> (best, min_cost)
              | Some v \<Rightarrow>
                  (let cost = calculate_spill_cost (rvs st v) (check_live_out bb v) idx
                   in if lt_s cost min_cost then (Some i, cost) else (best, min_cost)))"
  define ok where "ok m \<longleftrightarrow> (\<forall>i. fst m = Some i \<longrightarrow> i < 8 \<and> Some i \<noteq> a \<and> Some i \<noteq> b \<and> at st i \<noteq> None)"
    for m :: "nat option \<times> cint"
  have step: "ok (f x m)" if "ok m" "x < 8" for x m
    using that by (cases m) (auto simp: f_def ok_def Let_def split: option.split)
  have all: "ok (fold f xs m)" if "ok m" "set xs \<subseteq> {..<8}" for xs m
    using that
  proof (induction xs arbitrary: m)
    case (Cons x xs)
    then show ?case using step [of m x] by simp
  qed simp
  have "ok (fold f [0..<REG_CNT] (None, 99999))"
    by (rule all) (auto simp: ok_def REG_CNT_def)
  moreover have "find_best_spill bb idx a b st = fst (fold f [0..<REG_CNT] (None, 99999))"
    by (simp add: find_best_spill_def f_def)
  ultimately show ?thesis
    using assms unfolding ok_def by metis
qed

lemma choose_spill_ok:
  assumes "\<And>i. i < 8 \<Longrightarrow> at st i \<noteq> None"
  obtains i where "choose_spill bb a b st = Some i" "i < 8" "Some i \<noteq> a" "Some i \<noteq> b"
proof (cases "find_best_spill bb (tail_idx bb) a b st")
  case (Some i)
  then show thesis
    using find_best_spill_ok [OF Some] by (intro that [of i]) (simp_all add: choose_spill_def)
next
  case None
  let ?P = "\<lambda>i. Some i \<noteq> a \<and> Some i \<noteq> b \<and> at st i \<noteq> None"
  show thesis
  proof (cases "find ?P [0..<REG_CNT]")
    case N: None
    have "\<not> ?P 0" "\<not> ?P 1" "\<not> ?P 2"
      using find_upt(2) [OF N] by simp_all
    then have "Some 0 = a \<or> Some 0 = b" "Some 1 = a \<or> Some 1 = b" "Some 2 = a \<or> Some 2 = b"
      using assms by auto
    then have False by auto
    then show thesis ..
  next
    case (Some i)
    then show thesis
      using find_upt(1) [OF Some] None by (intro that [of i]) (simp_all add: choose_spill_def)
  qed
qed

lemma evict_ok:
  assumes rep: "rep c (Suc k) env N st s" and full: "free_reg st = None"
  obtains i st1 s1 where "evict bb a b st = Some (i, st1)" "i < 8" "Some i \<noteq> a" "Some i \<noteq> b"
    "leads st s st1 s1" "rep c k env N st1 s1" "at st1 i = None"
    "\<And>j. j \<noteq> i \<Longrightarrow> at st1 j = at st j \<and> polluted (regs st1 ! j) = polluted (regs st ! j)"
proof -
  have "at st i \<noteq> None" if "i < 8" for i
    using full that find_upt(2) unfolding free_reg_def by blast
  then obtain i where i: "choose_spill bb a b st = Some i" "i < 8" "Some i \<noteq> a" "Some i \<noteq> b" "at st i \<noteq> None"
    using choose_spill_ok [of st bb a b] by metis
  then obtain v where v: "at st i = Some v" by auto
  obtain s1 where s1: "leads st s (spill_var v i st) s1" "rep c k env N (spill_var v i st) s1"
    using spill_rep [OF rep i(2) v] by blast
  note at = spill_at [OF rep_regs(1) [OF rep] i(2) v]
  have "evict bb a b st = Some (i, spill_var v i st)"
    using i v clear_then_spill [of v i st] by (simp add: evict_def)
  then show thesis
    using i s1 at by (intro that [of i "spill_var v i st" s1]) simp_all
qed

lemma map_again [simp]:
  "upd_var v (\<lambda>x. x\<lparr>phys_reg := of_nat i\<rparr>) (load_var v i st) = load_var v i st"
proof -
  have "set_var v (\<lambda>x. x\<lparr>phys_reg := p\<rparr>) (set_var v (\<lambda>x. x\<lparr>phys_reg := p\<rparr>) vs)
      = set_var v (\<lambda>x. x\<lparr>phys_reg := p\<rparr>) vs" for p and vs :: avars
    by (auto simp: set_var_def)
  then show ?thesis
    by (simp add: load_var_def Let_def upd_var_def)
qed

lemma map_rep:
  assumes "rep c k env N st s" "i < 8" "at st i = Some v"
  shows "rep c k env N (vreg_map_to_phys v i st) s"
proof (rule rep_cong [OF assms(1)])
  show "phys_reg (rvs (vreg_map_to_phys v i st) w) = phys_reg (rvs st w)
      \<or> phys_reg (rvs (vreg_map_to_phys v i st) w) = of_nat j"
    if "j < 8" "at (vreg_map_to_phys v i st) j = Some w" for j w
    using that assms rep_regs(5) [OF assms(1), of j i v] by (auto simp: set_var_if)
qed (auto simp: set_var_if)

lemma load_at:
  assumes "length (regs st) = 8" "i < 8"
  shows "at (load_var v i st) j = (if j = i then Some v else at st j)" "\<not> polluted (regs (load_var v i st) ! i)"
    "j \<noteq> i \<Longrightarrow> polluted (regs (load_var v i st) ! j) = polluted (regs st ! j)"
  using assms by (simp_all add: load_var_def Let_def)

text \<open>The register of another operand is not touched.\<close>

definition kept :: "nat option \<Rightarrow> ra \<Rightarrow> ra \<Rightarrow> bool" where
  "kept a st st' \<longleftrightarrow> (\<forall>i v. a = Some i \<and> i < 8 \<and> at st i = Some v
     \<longrightarrow> at st' i = Some v \<and> polluted (regs st' ! i) = polluted (regs st ! i))"

lemma kept_None [simp]: "kept None st st'"
  by (simp add: kept_def)

lemma prepare_operand_ok:
  assumes rep: "rep c (Suc k) env N st s" and v: "v \<in> N"
  obtains r st' s' where "prepare_operand bb v a st = Some (r, st')" "r < 8" "leads st s st' s'"
    "rep c k env N st' s'" "at st' r = Some v" "kept a st st'"
    "find_in_regs v st = None \<longrightarrow> \<not> polluted (regs st' ! r)"
proof -
  have rep': "rep c k env N st s" using rep by (rule rep_less) simp_all
  have len: "length (regs st) = 8" using rep_regs(1) [OF rep] .
  consider (mapped) i where "mapped_reg v st = Some i"
    | (found) i where "mapped_reg v st = None" "find_in_regs v st = Some i"
    | (free) i where "mapped_reg v st = None" "find_in_regs v st = None" "free_reg st = Some i"
    | (full) "mapped_reg v st = None" "find_in_regs v st = None" "free_reg st = None"
    by (meson option.exhaust)
  then show thesis
  proof cases
    case mapped
    then have i: "i < 8" "at st i = Some v" using mapped_regD by auto
    show thesis
    proof (rule that)
      show "find_in_regs v st = None \<longrightarrow> \<not> polluted (regs st ! i)"
        using find_upt(2) [of "\<lambda>i. at st i = Some v" i] i unfolding find_in_regs_def by blast
    qed (use mapped i rep' in \<open>simp_all add: prepare_operand_def leads_same kept_def\<close>)
  next
    case found
    then have i: "i < 8" "at st i = Some v"
      using find_upt(1) unfolding find_in_regs_def by blast+
    have "\<not> address_taken (cvs c v)"
      using found(1) mapped_regI [OF i] rep_regs(4) [OF rep i] by auto
    then show thesis
      using found i map_rep [OF rep' i] rep_stat(4) [OF rep, of v]
      by (intro that [of i "vreg_map_to_phys v i st" s]) (simp_all add: prepare_operand_def leads_same kept_def)
  next
    case free
    then have i: "i < 8" "at st i = None"
      using find_upt(1) unfolding free_reg_def by blast+
    have out: "at st j \<noteq> Some v" if "j < 8" for j
      using find_upt(2) [of "\<lambda>i. at st i = Some v"] free(2) that unfolding find_in_regs_def by blast
    show thesis
      using free i load_rep [OF rep' i v out] load_at [OF len i(1), where v = v]
      by (intro that [of i "load_var v i st" "set_at i (env v) s"]) (auto simp: prepare_operand_def kept_def)
  next
    case full
    obtain i st1 s1 where e: "evict bb a None st = Some (i, st1)" "i < 8" "Some i \<noteq> a"
      "leads st s st1 s1" "rep c k env N st1 s1" "at st1 i = None"
      "\<And>j. j \<noteq> i \<Longrightarrow> at st1 j = at st j \<and> polluted (regs st1 ! j) = polluted (regs st ! j)"
      using evict_ok [OF rep full(3), of bb a None] by metis
    have out: "at st1 j \<noteq> Some v" if "j < 8" for j
      using find_upt(2) [of "\<lambda>i. at st i = Some v"] full(2) that e(6,7) unfolding find_in_regs_def
      by (metis option.distinct(1))
    note l = load_rep [OF e(5) e(2,6) v out] and la = load_at [OF rep_regs(1) [OF e(5)] e(2), where v = v]
    show thesis
    proof (rule that)
      show "prepare_operand bb v a st = Some (i, load_var v i st1)"
        using full e(1) by (simp add: prepare_operand_def)
      show "leads st s (load_var v i st1) (set_at i (env v) s1)"
        using e(4) l(1) by (rule leads_trans)
      show "kept a st (load_var v i st1)"
        using e(3,7) la by (auto simp: kept_def)
    qed (use e l la in auto)
  qed
qed

section \<open>The register of a result\<close>

text \<open>
  \<open>reserved c k env N d r st s\<close>: register \<open>r\<close> is noted for \<open>d\<close>, whose value is still to come.
\<close>

definition reserved :: "actx \<Rightarrow> nat \<Rightarrow> senv \<Rightarrow> var_ref set \<Rightarrow> var_ref \<Rightarrow> nat \<Rightarrow> ra \<Rightarrow> ph2_state \<Rightarrow> bool" where
  "reserved c k env N d r st s \<longleftrightarrow> r < 8 \<and> d \<in> cvars c \<and> length (regs st) = 8 \<and> at st r = Some d
     \<and> polluted (regs st ! r) \<and> phys_reg (rvs st d) = of_nat r \<and> (\<forall>j<8. j \<noteq> r \<longrightarrow> at st j \<noteq> Some d)
     \<and> rep c k env N (set_reg_var r None st) s"

lemma reserve_again:
  assumes rep: "rep c k env N st s" and i: "i < 8" "at st i = Some d" and d: "d \<notin> N" "d \<in> cvars c"
    and st': "st' = set_polluted i True st \<and> phys_reg (rvs st d) = of_nat i \<or> st' = vreg_map_to_phys d i (set_polluted i True st)"
  shows "reserved c k env N d i st' s"
proof -
  have len: "length (regs st) = 8" using rep_regs(1) [OF rep] .
  have other: "j < 8 \<Longrightarrow> j \<noteq> i \<Longrightarrow> at st j \<noteq> Some d" for j
    using rep_regs(5) [OF rep _ i(1) _ i(2)] by blast
  have "rep c k env N (set_reg_var i None st') s"
    using st' len i d other by (intro rep_cong [OF rep]) (auto simp: set_var_if split: if_splits)
  then show ?thesis
    using st' len i d other by (auto simp: reserved_def)
qed

lemma reserve_new:
  assumes rep: "rep c k env N st s" and i: "i < 8" "at st i = None" and d: "d \<in> cvars c"
    and out: "\<And>j. j < 8 \<Longrightarrow> at st j \<noteq> Some d"
  shows "reserved c k env N d i (take_reg d i st) s"
proof -
  have len: "length (regs st) = 8" using rep_regs(1) [OF rep] .
  have "rep c k env N (set_reg_var i None (take_reg d i st)) s"
    using len i out by (intro rep_cong [OF rep]) (auto simp: take_reg_def set_var_if split: if_splits)
  then show ?thesis
    using len i d out by (auto simp: reserved_def take_reg_def)
qed

lemma mapped_phys: "mapped_reg v st = Some i \<Longrightarrow> phys_reg (rvs st v) = of_nat i"
  by (auto simp: mapped_reg_def vreg_get_phys_def Let_def split: if_splits)

text \<open>Another operand keeps its register when \<open>d\<close> gets \<open>r\<close>.\<close>

definition spared :: "var_ref \<Rightarrow> nat option \<Rightarrow> nat \<Rightarrow> ra \<Rightarrow> ra \<Rightarrow> bool" where
  "spared d a r st st' \<longleftrightarrow> (\<forall>i v. a = Some i \<and> i < 8 \<and> at st i = Some v \<and> v \<noteq> d
     \<longrightarrow> at st' i = Some v \<and> i \<noteq> r \<and> polluted (regs st' ! i) = polluted (regs st ! i))"

lemma sparedD:
  "spared d (Some i) r st st' \<Longrightarrow> i < 8 \<Longrightarrow> at st i = Some v \<Longrightarrow> v \<noteq> d
    \<Longrightarrow> at st' i = Some v \<and> i \<noteq> r \<and> polluted (regs st' ! i) = polluted (regs st ! i)"
  by (simp add: spared_def)

lemma prepare_dest_ok:
  assumes rep: "rep c (Suc k) env N st s" and d: "d \<notin> N" "d \<in> cvars c"
  obtains r st' s' where "prepare_dest bb d a b st = Some (r, st')" "leads st s st' s'" "reserved c k env N d r st' s'"
    "spared d a r st st'" "spared d b r st st'"
proof -
  have rep': "rep c k env N st s" using rep by (rule rep_less) simp_all
  have len: "length (regs st) = 8" using rep_regs(1) [OF rep] .
  consider (mapped) i where "mapped_reg d st = Some i"
    | (found) i where "mapped_reg d st = None" "find_in_regs d st = Some i"
    | (free) i where "mapped_reg d st = None" "find_in_regs d st = None" "free_reg st = Some i"
    | (full) "mapped_reg d st = None" "find_in_regs d st = None" "free_reg st = None"
    by (meson option.exhaust)
  then show thesis
  proof cases
    case mapped
    then have i: "i < 8" "at st i = Some d" using mapped_regD by auto
    show thesis
      using mapped i len reserve_again [OF rep' i d, of "set_polluted i True st"] mapped_phys [OF mapped]
      by (intro that [of i "set_polluted i True st" s]) (auto simp: spared_def prepare_dest_def leads_same)
  next
    case found
    then have i: "i < 8" "at st i = Some d"
      using find_upt(1) unfolding find_in_regs_def by blast+
    show thesis
      using found i len reserve_again [OF rep' i d, of "vreg_map_to_phys d i (set_polluted i True st)"]
      by (intro that [of i "vreg_map_to_phys d i (set_polluted i True st)" s]) (auto simp: spared_def prepare_dest_def leads_same)
  next
    case free
    then have i: "i < 8" "at st i = None"
      using find_upt(1) unfolding free_reg_def by blast+
    have out: "at st j \<noteq> Some d" if "j < 8" for j
      using find_upt(2) [of "\<lambda>i. at st i = Some d"] free(2) that unfolding find_in_regs_def by blast
    show thesis
      using free i len reserve_new [OF rep' i d(2) out]
      by (intro that [of i "take_reg d i st" s]) (auto simp: spared_def prepare_dest_def take_reg_def leads_same)
  next
    case full
    obtain i st1 s1 where e: "evict bb a b st = Some (i, st1)" "i < 8" "Some i \<noteq> a" "Some i \<noteq> b"
      "leads st s st1 s1" "rep c k env N st1 s1" "at st1 i = None"
      "\<And>j. j \<noteq> i \<Longrightarrow> at st1 j = at st j \<and> polluted (regs st1 ! j) = polluted (regs st ! j)"
      using evict_ok [OF rep full(3), of bb a b] by metis
    have len1: "length (regs st1) = 8" using rep_regs(1) [OF e(6)] .
    have out: "at st1 j \<noteq> Some d" if "j < 8" for j
      using find_upt(2) [of "\<lambda>i. at st i = Some d"] full(2) that e(7,8) unfolding find_in_regs_def
      by (metis option.distinct(1))
    show thesis
    proof (rule that)
      show "prepare_dest bb d a b st = Some (i, take_reg d i st1)"
        using full e(1) by (simp add: prepare_dest_def)
      show "leads st s (take_reg d i st1) s1"
        using e(5) by (simp add: leads_def take_reg_def)
      show "reserved c k env N d i (take_reg d i st1) s1"
        by (rule reserve_new [OF e(6) e(2) e(7) d(2) out])
      have "at (take_reg d i st1) j = Some v \<and> j \<noteq> i \<and> polluted (regs (take_reg d i st1) ! j) = polluted (regs st ! j)"
        if "a = Some j \<or> b = Some j" "j < 8" "at st j = Some v" "v \<noteq> d" for j v
        using that e(2,3,4) e(8) [of j] len1 by (auto simp: take_reg_def)
      then show "spared d a i st (take_reg d i st1)" "spared d b i st (take_reg d i st1)"
        by (auto simp: spared_def)
    qed
  qed
qed

text \<open>The value arrives.\<close>

lemma reserved_value:
  assumes res: "reserved c k env N d r st s" and g: "\<not> is_global (cvs c d)" "d \<in> ckill c"
    and x: "is_const (cvs c d) \<Longrightarrow> x = init_val (cvs c d)" and N: "N' \<subseteq> insert d N"
  shows "rep c k (env(d := x)) N' st (set_at r x s)"
proof -
  let ?st = "set_reg_var r None st"
  have r: "r < 8" "length (regs st) = 8" "at st r = Some d" "polluted (regs st ! r)" "phys_reg (rvs st d) = of_nat r"
    "d \<in> cvars c" and rep: "rep c k env N ?st s" and oth: "\<And>j. j < 8 \<Longrightarrow> j \<noteq> r \<Longrightarrow> at st j \<noteq> Some d"
    using res by (auto simp: reserved_def)
  have reg: "regs st ! r = \<lparr>rvar = Some d, polluted = True\<rparr>"
    using r(3,4) by (cases "regs st ! r") (simp add: at_def)
  show ?thesis
  proof (rule fill_rep [where p = True, OF rep r(1) _ r(6)])
    show "regs st = (regs ?st)[r := \<lparr>rvar = Some d, polluted = True\<rparr>]"
      using r(1,2) reg by (simp add: set_reg_var_def flip: reg)
    have "(rvs st d)\<lparr>phys_reg := phys_reg (rvs st d)\<rparr> = rvs st d" by simp
    then show "rvs st d = (rvs ?st d)\<lparr>phys_reg := of_nat r\<rparr>"
      unfolding r(5) by simp
  qed (use r oth g x N in auto)
qed

end
