(* ===== verification/Liveness.thy ===== *)
theory Liveness
  imports CfgIr
begin

text \<open>
  Liveness analysis, \<^verbatim>\<open>src/ssa.c\<close>: the uses and definitions of a block and the index of
  the last use of a variable (\<open>consumed\<close>), then the iteration that computes the variables
  live at the end of every block. The iteration walks the blocks from the exit in reverse
  order until nothing changes; its fuel counts the rounds.
\<close>

section \<open>Uses and definitions of a block\<close>

definition add_live_gen :: "avars \<Rightarrow> ablock \<Rightarrow> var_ref \<Rightarrow> ablock" where
  "add_live_gen vs bb v =
     (if is_global (vs v) then bb else bb\<lparr>live_gen := var_list_add_var (live_gen bb) v\<rparr>)"

definition update_consumed :: "ainsn \<Rightarrow> var_ref \<Rightarrow> avars \<Rightarrow> avars" where
  "update_consumed insn v vs =
     (if lt_s (consumed (vs v)) (i_idx insn) then set_var v (\<lambda>x. x\<lparr>consumed := i_idx insn\<rparr>) vs else vs)"

text \<open>What is done for each of \<open>rs1\<close> and \<open>rs2\<close>.\<close>

definition live_use :: "ainsn \<Rightarrow> var_ref option \<Rightarrow> avars \<times> ablock \<Rightarrow> avars \<times> ablock" where
  "live_use insn r = (\<lambda>(vs, bb). case r of
       None \<Rightarrow> (vs, bb)
     | Some v \<Rightarrow> (update_consumed insn v vs,
                  if var_check_killed v bb then bb else add_live_gen vs bb v))"

definition live_def :: "ainsn \<Rightarrow> avars \<times> ablock \<Rightarrow> avars \<times> ablock" where
  "live_def insn = (\<lambda>(vs, bb). case rd insn of
       None \<Rightarrow> (vs, bb)
     | Some d \<Rightarrow> (vs, if i_op insn \<noteq> OP_unwound_phi then bb_add_killed_var d bb else bb))"

definition solve_insn :: "ainsn \<Rightarrow> avars \<times> ablock \<Rightarrow> avars \<times> ablock" where
  "solve_insn insn = live_def insn \<circ> live_use insn (rs2 insn) \<circ> live_use insn (rs1 insn)"

fun solve_insns :: "cint \<Rightarrow> ainsn list \<Rightarrow> avars \<times> ablock \<Rightarrow> ainsn list \<times> avars \<times> ablock" where
  "solve_insns i [] a = ([], a)"
| "solve_insns i (insn # rest) a =
     (let insn1 = insn\<lparr>i_idx := i\<rparr>;
          (rest1, a1) = solve_insns (i + 1) rest (solve_insn insn1 a)
      in (insn1 # rest1, a1))"

definition bb_solve_locals :: bb_op where
  "bb_solve_locals b s =
     (let (insns, vs, bb) = solve_insns 0 (a_insns (blocks s b)) (avars s, blocks s b)
      in (set_block b (\<lambda>_. bb\<lparr>a_insns := insns\<rparr>) s)\<lparr>avars := vs\<rparr>)"

definition bb_reset_live_kill_idx :: bb_op where
  "bb_reset_live_kill_idx b = set_block b (\<lambda>bb. bb\<lparr>live_kill := []\<rparr>)"

definition bb_reset_and_solve_locals :: bb_op where
  "bb_reset_and_solve_locals b s = bb_solve_locals b (bb_reset_live_kill_idx b s)"

section \<open>Live variables at the end of the blocks\<close>

definition add_live_in :: "var_ref \<Rightarrow> ablock \<Rightarrow> ablock" where
  "add_live_in v bb = bb\<lparr>live_in := var_list_add_var (live_in bb) v\<rparr>"

definition compute_live_in :: "ablock \<Rightarrow> ablock" where
  "compute_live_in bb =
     fold add_live_in (live_gen bb)
       (fold (\<lambda>v bb. if var_check_killed v bb then bb else add_live_in v bb) (live_out bb)
         (bb\<lparr>live_in := []\<rparr>))"

definition MAX_ANALYSIS_STACK_SIZE :: nat where
  "MAX_ANALYSIS_STACK_SIZE = 800"

text \<open>
  \<open>merge_live_in\<close> has a plain search for up to 16 variables and an unrolled one, four
  elements at a time, from there on.
\<close>

fun found_unrolled :: "var_ref \<Rightarrow> var_ref list \<Rightarrow> bool" where
  "found_unrolled v (a # b # c # d # rest) =
     (if a = v \<or> b = v \<or> c = v \<or> d = v then True else found_unrolled v rest)"
| "found_unrolled v rest = (v \<in> set rest)"

definition merge_add :: "bool \<Rightarrow> var_ref \<Rightarrow> var_ref list \<Rightarrow> var_ref list" where
  "merge_add found v out =
     (if \<not> found \<and> length out < MAX_ANALYSIS_STACK_SIZE then out @ [v] else out)"

definition merge_live_in :: "var_ref list \<Rightarrow> ablock \<Rightarrow> var_ref list" where
  "merge_live_in out bb =
     (if live_in bb = [] then out
      else if length out < 16 then fold (\<lambda>v out. merge_add (v \<in> set out) v out) (live_in bb) out
      else fold (\<lambda>v out. merge_add (found_unrolled v out) v out) (live_in bb) out)"

text \<open>\<open>recompute_live_out\<close> for one successor.\<close>

definition merge_succ :: "bb_ref option \<Rightarrow> cfg_state \<times> var_ref list \<Rightarrow> cfg_state \<times> var_ref list" where
  "merge_succ c = (\<lambda>(s, out). case c of
       None \<Rightarrow> (s, out)
     | Some c \<Rightarrow> (let s1 = set_block c compute_live_in s in (s1, merge_live_in out (blocks s1 c))))"

definition recompute_live_out :: "bb_ref \<Rightarrow> cfg_state \<Rightarrow> cfg_state \<times> bool" where
  "recompute_live_out b s =
     (let (s1, out1) = merge_succ (a_next (blocks s b)) (s, []);
          (s2, out2) = merge_succ (a_then (blocks s1 b)) (s1, out1);
          (s3, out) = merge_succ (a_else (blocks s2 b)) (s2, out2);
          old = live_out (blocks s3 b);
          assign = set_block b (\<lambda>bb. bb\<lparr>live_out := out\<rparr>) s3
      in if length old \<noteq> length out then (assign, True)
         else if out \<noteq> [] \<and> hd out \<notin> set old then (assign, True)
         else if \<not> list_all (\<lambda>v. v \<in> set old) out then (assign, True)
         else (s3, False))"

fun live_round :: "bb_ref list \<Rightarrow> cfg_state \<Rightarrow> cfg_state \<times> bool" where
  "live_round [] s = (s, False)"
| "live_round (b # bs) s =
     (let (s1, c1) = recompute_live_out b s; (s2, c2) = live_round bs s1 in (s2, c1 \<or> c2))"

fun live_iterate :: "nat \<Rightarrow> bb_ref list \<Rightarrow> cfg_state \<Rightarrow> cfg_state option" where
  "live_iterate 0 bs s = None"
| "live_iterate (Suc n) bs s =
     (let (s1, changed) = live_round bs s in if changed then live_iterate n bs s1 else Some s1)"

section \<open>The analysis\<close>

definition kill_params :: "afunc \<Rightarrow> cfg_state \<Rightarrow> cfg_state" where
  "kill_params f = fold (\<lambda>v. set_block (hd (a_bbs f)) (bb_add_killed_var v)) (a_params f)"

definition solve_func :: "nat \<Rightarrow> afunc \<Rightarrow> cfg_state \<Rightarrow> (afunc \<times> cfg_state) option" where
  "solve_func n f s =
     (if a_bbs f = [] then Some (f, s)
      else let f1 = f\<lparr>a_fvisited := a_fvisited f + 1\<rparr>
           in map_option (\<lambda>s1. (f1, kill_params f1 s1))
                (bb_forward_traversal n (a_fvisited f1) (\<lambda>b s. Some (bb_reset_and_solve_locals b s)) no_cb
                  (hd (a_bbs f1)) s))"

fun solve_funcs :: "nat \<Rightarrow> afunc list \<Rightarrow> cfg_state \<Rightarrow> (afunc list \<times> cfg_state) option" where
  "solve_funcs n [] s = Some ([], s)"
| "solve_funcs n (f # fs) s = do {
     (f1, s1) \<leftarrow> solve_func n f s;
     (fs1, s2) \<leftarrow> solve_funcs n fs s1;
     Some (f1 # fs1, s2)
   }"

fun iterate_funcs :: "nat \<Rightarrow> afunc list \<Rightarrow> cfg_state \<Rightarrow> cfg_state option" where
  "iterate_funcs n [] s = Some s"
| "iterate_funcs n (f # fs) s =
     (if a_bbs f = [] then iterate_funcs n fs s
      else live_iterate n (a_rpo_r f) s \<bind> iterate_funcs n fs)"

definition liveness_analysis :: "nat \<Rightarrow> afunc list \<Rightarrow> cfg_state \<Rightarrow> (afunc list \<times> cfg_state) option" where
  "liveness_analysis n fs s = do {
     (fs1, s1) \<leftarrow> solve_funcs n fs s;
     s2 \<leftarrow> iterate_funcs n fs1 s1;
     Some (fs1, s2)
   }"

section \<open>The meaning of the lists\<close>

text \<open>
  A variable is live at the start of a block when it is read there before it is assigned,
  or live at the start of a successor and not assigned in the block.
\<close>

inductive live_at :: "(bb_ref \<Rightarrow> ablock) \<Rightarrow> bb_ref set \<Rightarrow> var_ref \<Rightarrow> bb_ref \<Rightarrow> bool"
  for bl :: "bb_ref \<Rightarrow> ablock" and C :: "bb_ref set" and v :: var_ref
where
  read: "v \<in> set (live_gen (bl b)) \<Longrightarrow> live_at bl C v b"
| through: "b \<in> C \<Longrightarrow> v \<notin> set (live_kill (bl b)) \<Longrightarrow> c \<in> succs (bl b) \<Longrightarrow> live_at bl C v c
    \<Longrightarrow> live_at bl C v b"

definition live_after :: "(bb_ref \<Rightarrow> ablock) \<Rightarrow> bb_ref set \<Rightarrow> bb_ref \<Rightarrow> var_ref set" where
  "live_after bl C b = {v. \<exists>c\<in>succs (bl b). live_at bl C v c}"

section \<open>The lists as sets\<close>

definition same_flow :: "(bb_ref \<Rightarrow> ablock) \<Rightarrow> (bb_ref \<Rightarrow> ablock) \<Rightarrow> bool" where
  "same_flow bl cl \<longleftrightarrow> (\<forall>b. live_gen (cl b) = live_gen (bl b) \<and> live_kill (cl b) = live_kill (bl b)
     \<and> succs (cl b) = succs (bl b))"

definition in_set :: "ablock \<Rightarrow> var_ref set" where
  "in_set bb = set (live_gen bb) \<union> (set (live_out bb) - set (live_kill bb))"

lemma same_flow_refl [simp]: "same_flow bl bl"
  by (simp add: same_flow_def)

lemma same_flow_trans: "same_flow bl cl \<Longrightarrow> same_flow cl dl \<Longrightarrow> same_flow bl dl"
  by (simp add: same_flow_def)

lemma add_live_in_simps [simp]:
  "live_gen (add_live_in v bb) = live_gen bb" "live_kill (add_live_in v bb) = live_kill bb"
  "live_out (add_live_in v bb) = live_out bb" "set (live_in (add_live_in v bb)) = insert v (set (live_in bb))"
  "a_next (add_live_in v bb) = a_next bb" "a_then (add_live_in v bb) = a_then bb"
  "a_else (add_live_in v bb) = a_else bb"
  by (simp_all add: add_live_in_def)

lemma fold_add_live_in:
  "set (live_in (fold add_live_in xs bb)) = set (live_in bb) \<union> set xs"
  "live_gen (fold add_live_in xs bb) = live_gen bb" "live_kill (fold add_live_in xs bb) = live_kill bb"
  "live_out (fold add_live_in xs bb) = live_out bb" "a_next (fold add_live_in xs bb) = a_next bb"
  "a_then (fold add_live_in xs bb) = a_then bb" "a_else (fold add_live_in xs bb) = a_else bb"
  by (induction xs arbitrary: bb) auto

lemma fold_add_unkilled:
  fixes bb :: ablock
  defines "r \<equiv> \<lambda>xs bb. fold (\<lambda>v bb. if var_check_killed v bb then bb else add_live_in v bb) xs bb"
  shows "set (live_in (r xs bb)) = set (live_in bb) \<union> (set xs - set (live_kill bb))"
    "live_gen (r xs bb) = live_gen bb" "live_kill (r xs bb) = live_kill bb"
    "live_out (r xs bb) = live_out bb" "a_next (r xs bb) = a_next bb"
    "a_then (r xs bb) = a_then bb" "a_else (r xs bb) = a_else bb"
  unfolding r_def by (induction xs arbitrary: bb) (auto simp: var_check_killed_def)

lemma compute_live_in_simps [simp]:
  "set (live_in (compute_live_in bb)) = in_set bb"
  "live_gen (compute_live_in bb) = live_gen bb" "live_kill (compute_live_in bb) = live_kill bb"
  "live_out (compute_live_in bb) = live_out bb" "a_next (compute_live_in bb) = a_next bb"
  "a_then (compute_live_in bb) = a_then bb" "a_else (compute_live_in bb) = a_else bb"
  by (auto simp: compute_live_in_def fold_add_live_in fold_add_unkilled in_set_def)

lemma found_unrolled_iff [simp]: "found_unrolled v xs \<longleftrightarrow> v \<in> set xs"
  by (induction v xs rule: found_unrolled.induct) auto

text \<open>Merging stays within the array as long as all variables together fit in it.\<close>

lemma fold_merge_add:
  assumes "finite V" "card V \<le> MAX_ANALYSIS_STACK_SIZE" "set out \<subseteq> V" "set xs \<subseteq> V" "distinct out"
  defines "r \<equiv> fold (\<lambda>v out. merge_add (v \<in> set out) v out) xs out"
  shows "set r = set out \<union> set xs \<and> distinct r"
  using assms(3-5) unfolding r_def
proof (induction xs arbitrary: out)
  case (Cons x xs)
  have "length out < MAX_ANALYSIS_STACK_SIZE" if "x \<notin> set out"
  proof -
    have "card (insert x (set out)) \<le> card V"
      using Cons.prems assms(1) by (intro card_mono) auto
    then show ?thesis
      using that assms(2) Cons.prems distinct_card [of out] by simp
  qed
  then have "set (merge_add (x \<in> set out) x out) = insert x (set out)
      \<and> distinct (merge_add (x \<in> set out) x out)"
    using Cons.prems by (auto simp: merge_add_def)
  then show ?case
    using Cons.IH [of "merge_add (x \<in> set out) x out"] Cons.prems by auto
qed simp

lemma merge_live_in_ok:
  assumes "finite V" "card V \<le> MAX_ANALYSIS_STACK_SIZE" "set out \<subseteq> V" "set (live_in bb) \<subseteq> V" "distinct out"
  shows "set (merge_live_in out bb) = set out \<union> set (live_in bb) \<and> distinct (merge_live_in out bb)"
  using fold_merge_add [OF assms] assms(5) by (simp add: merge_live_in_def)

end
