(* ===== verification/LiveFix.thy ===== *)
theory LiveFix
  imports Liveness
begin

text \<open>
  The iteration of \<^verbatim>\<open>liveness_analysis\<close> reaches the least solution of the liveness
  equations: every round keeps the lists below the variables that are live on some path,
  a round that changes something adds a variable, and a round that changes nothing leaves
  a solution.
\<close>

text \<open>What a block is without its \<open>live_in\<close> and \<open>live_out\<close> lists.\<close>

definition no_in :: "ablock \<Rightarrow> ablock" where
  "no_in bb = bb\<lparr>live_in := []\<rparr>"

definition no_live :: "ablock \<Rightarrow> ablock" where
  "no_live bb = bb\<lparr>live_in := [], live_out := []\<rparr>"

definition only_live :: "cfg_state \<Rightarrow> cfg_state \<Rightarrow> bool" where
  "only_live s t \<longleftrightarrow> avars t = avars s \<and> (\<forall>b. no_live (blocks t b) = no_live (blocks s b))"

definition quiet :: "cfg_state \<Rightarrow> cfg_state \<Rightarrow> bool" where
  "quiet s t \<longleftrightarrow> avars t = avars s \<and> (\<forall>b. no_in (blocks t b) = no_in (blocks s b))"

lemma only_live_refl [simp]: "only_live s s"
  by (simp add: only_live_def)

lemma only_live_trans: "only_live s t \<Longrightarrow> only_live t u \<Longrightarrow> only_live s u"
  by (simp add: only_live_def)

lemma quiet_refl [simp]: "quiet s s"
  by (simp add: quiet_def)

lemma quiet_trans: "quiet s t \<Longrightarrow> quiet t u \<Longrightarrow> quiet s u"
  by (simp add: quiet_def)

lemma no_live_no_in: "no_live bb = (no_in bb)\<lparr>live_out := []\<rparr>"
  by (simp add: no_in_def no_live_def)

lemma quiet_only_live: "quiet s t \<Longrightarrow> only_live s t"
  by (simp add: quiet_def only_live_def no_live_no_in)

lemma no_in_fields:
  "live_out bb = live_out (no_in bb)" "live_gen bb = live_gen (no_in bb)"
  "live_kill bb = live_kill (no_in bb)" "a_next bb = a_next (no_in bb)"
  "a_then bb = a_then (no_in bb)" "a_else bb = a_else (no_in bb)"
  by (simp_all add: no_in_def)

lemma no_live_fields:
  "live_gen bb = live_gen (no_live bb)" "live_kill bb = live_kill (no_live bb)"
  "a_next bb = a_next (no_live bb)" "a_then bb = a_then (no_live bb)"
  "a_else bb = a_else (no_live bb)"
  by (simp_all add: no_live_def)

lemma quiet_simps:
  assumes "quiet s t"
  shows "live_out (blocks t b) = live_out (blocks s b)" "in_set (blocks t b) = in_set (blocks s b)"
    "a_next (blocks t b) = a_next (blocks s b)" "a_then (blocks t b) = a_then (blocks s b)"
    "a_else (blocks t b) = a_else (blocks s b)"
proof -
  have e: "no_in (blocks t b) = no_in (blocks s b)"
    using assms by (simp add: quiet_def)
  show "live_out (blocks t b) = live_out (blocks s b)" "in_set (blocks t b) = in_set (blocks s b)"
    "a_next (blocks t b) = a_next (blocks s b)" "a_then (blocks t b) = a_then (blocks s b)"
    "a_else (blocks t b) = a_else (blocks s b)"
    unfolding in_set_def
    using no_in_fields [of "blocks t b"] no_in_fields [of "blocks s b"] unfolding e by simp_all
qed

lemma only_live_same_flow:
  assumes "only_live s t"
  shows "same_flow (blocks s) (blocks t)"
proof -
  have e: "no_live (blocks t b) = no_live (blocks s b)" for b
    using assms by (simp add: only_live_def)
  show ?thesis
    unfolding same_flow_def succs_def
    using no_live_fields [of "blocks t _"] no_live_fields [of "blocks s _"] unfolding e by simp
qed

lemma no_in_add_live_in [simp]: "no_in (add_live_in v bb) = no_in bb"
  by (simp add: no_in_def add_live_in_def)

lemma no_in_fold:
  "no_in (fold add_live_in xs bb) = no_in bb"
  "no_in (fold (\<lambda>v bb. if var_check_killed v bb then bb else add_live_in v bb) xs bb) = no_in bb"
  by (induction xs arbitrary: bb) simp_all

lemma no_in_compute [simp]: "no_in (compute_live_in bb) = no_in bb"
  unfolding compute_live_in_def no_in_fold by (simp add: no_in_def)

lemma quiet_compute: "quiet s (set_block c compute_live_in s)"
  by (simp add: quiet_def set_block_def)

lemma no_live_out [simp]: "no_live (bb\<lparr>live_out := out\<rparr>) = no_live bb"
  by (simp add: no_live_def)

section \<open>One block\<close>

definition out_of :: "cfg_state \<Rightarrow> bb_ref \<Rightarrow> var_ref set" where
  "out_of s b = set (live_out (blocks s b))"

definition wanted :: "cfg_state \<Rightarrow> bb_ref \<Rightarrow> var_ref set" where
  "wanted s b = (\<Union>c\<in>succs (blocks s b). in_set (blocks s c))"

lemma merge_succ_ok:
  assumes "merge_succ c (s, out) = (t, out')"
    and "finite V" "card V \<le> MAX_ANALYSIS_STACK_SIZE" "distinct out" "set out \<subseteq> V"
    and "\<And>x. c = Some x \<Longrightarrow> in_set (blocks s x) \<subseteq> V"
  shows "quiet s t" "distinct out'" "set out' = set out \<union> (\<Union>x\<in>set_option c. in_set (blocks s x))"
proof -
  have "quiet s t \<and> distinct out' \<and> set out' = set out \<union> (\<Union>x\<in>set_option c. in_set (blocks s x))"
  proof (cases c)
    case (Some x)
    have e: "t = set_block x compute_live_in s" "out' = merge_live_in out (compute_live_in (blocks s x))"
      using assms(1) by (auto simp: merge_succ_def Some Let_def)
    have "set out' = set out \<union> in_set (blocks s x) \<and> distinct out'"
      using merge_live_in_ok [OF assms(2,3,5), of "compute_live_in (blocks s x)"] assms(4,6) Some
      by (simp add: e)
    then show ?thesis
      by (simp add: e quiet_compute Some)
  qed (use assms in \<open>auto simp: merge_succ_def\<close>)
  then show "quiet s t" "distinct out'" "set out' = set out \<union> (\<Union>x\<in>set_option c. in_set (blocks s x))"
    by auto
qed

lemma recompute_ok:
  assumes "recompute_live_out b s = (t, changed)"
    and "finite V" "card V \<le> MAX_ANALYSIS_STACK_SIZE" "wanted s b \<subseteq> V" "distinct (live_out (blocks s b))"
  shows "(\<exists>u. quiet s u \<and> distinct (live_out (blocks t b))
            \<and> t = (if changed then set_block b (\<lambda>bb. bb\<lparr>live_out := live_out (blocks t b)\<rparr>) u else u))
       \<and> out_of t b = wanted s b \<and> (changed \<longleftrightarrow> out_of s b \<noteq> wanted s b)"
proof -
  let ?bb = "blocks s b"
  obtain s1 out1 where m1: "merge_succ (a_next ?bb) (s, []) = (s1, out1)" by fastforce
  have sub: "\<And>x. x \<in> succs ?bb \<Longrightarrow> in_set (blocks s x) \<subseteq> V"
    using assms(4) by (auto simp: wanted_def)
  note r1 = merge_succ_ok [OF m1 assms(2,3)]
  have r1: "quiet s s1" "distinct out1" "set out1 = (\<Union>x\<in>set_option (a_next ?bb). in_set (blocks s x))"
    using r1 sub by (auto simp: succs_def)
  note q1 = quiet_simps [OF r1(1)]
  obtain s2 out2 where m2: "merge_succ (a_then (blocks s1 b)) (s1, out1) = (s2, out2)" by fastforce
  have r2: "quiet s1 s2" "distinct out2"
    "set out2 = set out1 \<union> (\<Union>x\<in>set_option (a_then ?bb). in_set (blocks s x))"
    using merge_succ_ok [OF m2 assms(2,3) r1(2)] sub r1(3) by (auto simp: q1 succs_def)
  note q2 = quiet_simps [OF r2(1)]
  obtain s3 out where m3: "merge_succ (a_else (blocks s2 b)) (s2, out2) = (s3, out)" by fastforce
  have r3: "quiet s2 s3" "distinct out"
    "set out = set out2 \<union> (\<Union>x\<in>set_option (a_else ?bb). in_set (blocks s x))"
    using merge_succ_ok [OF m3 assms(2,3) r2(2)] sub r1(3) r2(3) by (auto simp: q1 q2 succs_def)
  have w: "set out = wanted s b"
    using r1(3) r2(3) r3(3) by (auto simp: wanted_def succs_def)
  have q: "quiet s s3"
    using r1(1) r2(1) r3(1) by (blast intro: quiet_trans)
  have old: "live_out (blocks s3 b) = live_out ?bb"
    by (rule quiet_simps [OF q])
  let ?old = "live_out ?bb"
  have ch: "changed \<longleftrightarrow> length ?old \<noteq> length out \<or> out \<noteq> [] \<and> hd out \<notin> set ?old \<or> \<not> set out \<subseteq> set ?old"
    and t: "t = (if changed then set_block b (\<lambda>bb. bb\<lparr>live_out := out\<rparr>) s3 else s3)"
    using assms(1) unfolding recompute_live_out_def m1 m2 m3
    by (auto simp: Let_def m1 m2 m3 old list_all_iff split: if_splits)
  have "changed \<longleftrightarrow> set ?old \<noteq> set out"
  proof
    assume "changed"
    with ch have "length ?old \<noteq> length out \<or> \<not> set out \<subseteq> set ?old"
      using list.set_sel(1) [of out] by blast
    then show "set ?old \<noteq> set out"
      using distinct_card [OF assms(5)] distinct_card [OF r3(2)] by auto
  next
    assume ne: "set ?old \<noteq> set out"
    show changed
    proof (rule ccontr)
      assume "\<not> changed"
      with ch have "length ?old = length out" "set out \<subseteq> set ?old" by auto
      then have "set out = set ?old"
        using distinct_card [OF assms(5)] distinct_card [OF r3(2)] by (intro card_subset_eq) auto
      with ne show False by simp
    qed
  qed
  then show ?thesis
    using t q w old r3(2) assms(5) by (auto simp: out_of_def intro!: exI [of _ s3])
qed

section \<open>The invariant of the iteration\<close>

definition near :: "(bb_ref \<Rightarrow> ablock) \<Rightarrow> bb_ref set \<Rightarrow> bb_ref set" where
  "near bl C = C \<union> (\<Union>b\<in>C. succs (bl b))"

definition used_vars :: "(bb_ref \<Rightarrow> ablock) \<Rightarrow> bb_ref set \<Rightarrow> var_ref set" where
  "used_vars bl C = (\<Union>b\<in>near bl C. set (live_gen (bl b)))"

definition live_inv :: "cfg_state \<Rightarrow> bb_ref set \<Rightarrow> cfg_state \<Rightarrow> bool" where
  "live_inv s0 C s \<longleftrightarrow> only_live s0 s
     \<and> (\<forall>b. distinct (live_out (blocks s b)) \<and> (b \<notin> C \<longrightarrow> live_out (blocks s b) = []))
     \<and> (\<forall>b\<in>C. out_of s b \<subseteq> live_after (blocks s0) C b \<and> out_of s b \<subseteq> wanted s b)"

lemma live_inv_flow:
  assumes "live_inv s0 C s"
  shows "succs (blocks s b) = succs (blocks s0 b)"
    "in_set (blocks s b) = set (live_gen (blocks s0 b)) \<union> (out_of s b - set (live_kill (blocks s0 b)))"
  using only_live_same_flow [of s0 s] assms
  by (simp_all add: live_inv_def same_flow_def in_set_def out_of_def)

lemma live_at_near:
  "live_at bl C v b \<Longrightarrow> b \<in> near bl C \<Longrightarrow> v \<in> used_vars bl C"
proof (induction rule: live_at.induct)
  case (through b c)
  then show ?case by (auto simp: near_def)
qed (auto simp: used_vars_def)

lemma in_set_live:
  assumes "live_inv s0 C s" "v \<in> in_set (blocks s b)"
  shows "live_at (blocks s0) C v b"
proof (cases "v \<in> set (live_gen (blocks s0 b))")
  case False
  with assms have v: "v \<in> out_of s b" "v \<notin> set (live_kill (blocks s0 b))"
    by (auto simp: live_inv_flow)
  then have "b \<in> C"
    using assms(1) by (auto simp: live_inv_def out_of_def)
  moreover from this v assms(1) have "v \<in> live_after (blocks s0) C b"
    by (auto simp: live_inv_def)
  ultimately show ?thesis
    using v(2) by (auto simp: live_after_def intro: live_at.through)
qed (rule live_at.read)

lemma wanted_live:
  assumes "live_inv s0 C s" "b \<in> C"
  shows "wanted s b \<subseteq> live_after (blocks s0) C b" "wanted s b \<subseteq> used_vars (blocks s0) C"
proof -
  have "live_at (blocks s0) C v c" if "v \<in> in_set (blocks s c)" for v c
    using assms(1) that by (rule in_set_live)
  then show a: "wanted s b \<subseteq> live_after (blocks s0) C b"
    using live_inv_flow(1) [OF assms(1)] by (auto simp: wanted_def live_after_def)
  show "wanted s b \<subseteq> used_vars (blocks s0) C"
    using a assms(2) live_at_near [of "blocks s0" C] by (fastforce simp: live_after_def near_def)
qed

definition room_left :: "cfg_state \<Rightarrow> bb_ref set \<Rightarrow> cfg_state \<Rightarrow> nat" where
  "room_left s0 C s = (\<Sum>b\<in>C. card (used_vars (blocks s0) C) - card (out_of s b))"

text \<open>One block keeps the invariant; if it changes, it gains a variable.\<close>

lemma wanted_mono:
  assumes "only_live s t" "\<And>c. out_of s c \<subseteq> out_of t c"
  shows "wanted s b \<subseteq> wanted t b"
proof -
  have f: "same_flow (blocks s) (blocks t)"
    using assms(1) by (rule only_live_same_flow)
  then have "in_set (blocks s c) \<subseteq> in_set (blocks t c)" for c
    using assms(2) [of c] by (auto simp: in_set_def same_flow_def out_of_def)
  moreover have "succs (blocks t b) = succs (blocks s b)"
    using f by (simp add: same_flow_def)
  ultimately show ?thesis
    unfolding wanted_def by blast
qed

lemma recompute_inv:
  assumes inv: "live_inv s0 C s" and b: "b \<in> C" and fin: "finite C"
    and few: "finite (used_vars (blocks s0) C)" "card (used_vars (blocks s0) C) \<le> MAX_ANALYSIS_STACK_SIZE"
    and r: "recompute_live_out b s = (t, changed)"
  shows "live_inv s0 C t" "\<And>c. out_of s c \<subseteq> out_of t c"
    "changed \<Longrightarrow> room_left s0 C t < room_left s0 C s"
    "\<not> changed \<Longrightarrow> out_of t = out_of s \<and> out_of s b = wanted s b"
proof -
  let ?V = "used_vars (blocks s0) C"
  have dist: "distinct (live_out (blocks s b))" and below: "out_of s b \<subseteq> wanted s b"
    using inv b by (auto simp: live_inv_def)
  obtain u where u: "quiet s u" "distinct (live_out (blocks t b))"
      "t = (if changed then set_block b (\<lambda>bb. bb\<lparr>live_out := live_out (blocks t b)\<rparr>) u else u)"
    and out: "out_of t b = wanted s b" and ch: "changed \<longleftrightarrow> out_of s b \<noteq> wanted s b"
    using recompute_ok [OF r few wanted_live(2) [OF inv b] dist] by blast
  have other: "live_out (blocks t c) = live_out (blocks s c)" if "c \<noteq> b" for c
    using u(3) that quiet_simps(1) [OF u(1)] by (metis set_block_simps(2))
  have "only_live u (set_block b (\<lambda>bb. bb\<lparr>live_out := out\<rparr>) u)" for out
    by (simp add: only_live_def set_block_def)
  then have st: "only_live s t"
    using u(3) quiet_only_live [OF u(1)] by (metis only_live_trans)
  show grow: "\<And>c. out_of s c \<subseteq> out_of t c"
    using other below out by (metis out_of_def subset_refl)
  have mono: "\<And>c. wanted s c \<subseteq> wanted t c"
    using st grow by (rule wanted_mono)
  show inv': "live_inv s0 C t"
    unfolding live_inv_def
  proof (intro conjI allI ballI impI)
    show "only_live s0 t"
      using inv st by (auto simp: live_inv_def intro: only_live_trans)
    show "distinct (live_out (blocks t c))" for c
      using inv u(2) other [of c] by (cases "c = b") (auto simp: live_inv_def)
    show "live_out (blocks t c) = []" if "c \<notin> C" for c
      using inv that other [of c] b by (auto simp: live_inv_def)
    show "out_of t c \<subseteq> live_after (blocks s0) C c" if "c \<in> C" for c
      using inv that other [of c] out wanted_live(1) [OF inv b]
      by (cases "c = b") (auto simp: live_inv_def out_of_def)
    show "out_of t c \<subseteq> wanted t c" if "c \<in> C" for c
    proof (cases "c = b")
      case False
      then have "out_of t c = out_of s c"
        using other by (simp add: out_of_def)
      then show ?thesis
        using inv that mono [of c] unfolding live_inv_def by blast
    qed (use out mono in auto)
  qed
  have subV: "out_of t b \<subseteq> ?V"
    using out wanted_live(2) [OF inv b] by simp
  show "room_left s0 C t < room_left s0 C s" if changed
    unfolding room_left_def
  proof (rule sum_strict_mono_ex1 [OF fin])
    show "\<forall>c\<in>C. card ?V - card (out_of t c) \<le> card ?V - card (out_of s c)"
      using grow by (auto intro!: diff_le_mono2 card_mono simp: out_of_def)
    have "out_of s b \<subset> out_of t b"
      using that ch below out by blast
    then have "card (out_of s b) < card (out_of t b)"
      by (intro psubset_card_mono) (simp_all add: out_of_def)
    moreover have "card (out_of t b) \<le> card ?V"
      using few(1) subV by (rule card_mono)
    ultimately show "\<exists>c\<in>C. card ?V - card (out_of t c) < card ?V - card (out_of s c)"
      using b by (intro bexI [of _ b]) auto
  qed
  show "out_of t = out_of s \<and> out_of s b = wanted s b" if "\<not> changed"
  proof -
    have "out_of t c = out_of s c" for c
      using that ch out other [of c] by (cases "c = b") (auto simp: out_of_def)
    then show ?thesis
      using that ch by auto
  qed
qed

section \<open>Rounds\<close>

lemma wanted_same:
  assumes "only_live s0 s" "only_live s0 t" "out_of t = out_of s"
  shows "wanted t b = wanted s b"
proof -
  have "only_live s t" "only_live t s"
    using assms(1,2) by (simp_all add: only_live_def)
  with assms(3) show ?thesis
    using wanted_mono [of s t b] wanted_mono [of t s b] by auto
qed

lemma live_round_inv:
  assumes "live_inv s0 C s" "set bs \<subseteq> C" "finite C" "finite (used_vars (blocks s0) C)"
    "card (used_vars (blocks s0) C) \<le> MAX_ANALYSIS_STACK_SIZE" "live_round bs s = (t, changed)"
  shows "live_inv s0 C t"
    "room_left s0 C t \<le> room_left s0 C s \<and> (changed \<longrightarrow> room_left s0 C t < room_left s0 C s)"
    "\<not> changed \<Longrightarrow> out_of t = out_of s \<and> (\<forall>b\<in>set bs. out_of t b = wanted t b)"
proof -
  have "live_inv s0 C t
    \<and> (room_left s0 C t \<le> room_left s0 C s \<and> (changed \<longrightarrow> room_left s0 C t < room_left s0 C s))
    \<and> (\<not> changed \<longrightarrow> out_of t = out_of s \<and> (\<forall>b\<in>set bs. out_of t b = wanted t b))"
    using assms(1,2,6)
  proof (induction bs arbitrary: s t changed)
    case (Cons b bs)
    obtain s1 c1 where r: "recompute_live_out b s = (s1, c1)" by fastforce
    obtain c2 where l: "live_round bs s1 = (t, c2)" and c: "changed = (c1 \<or> c2)"
      using Cons.prems(3) r by (auto split: prod.splits)
    have b: "b \<in> C" using Cons.prems(2) by simp
    note step = recompute_inv [OF Cons.prems(1) b assms(3,4,5) r]
    have less: "room_left s0 C s1 \<le> room_left s0 C s"
    proof (cases c1)
      case False
      then show ?thesis using step(4) by (simp add: room_left_def)
    qed (use step(3) in auto)
    note IH = Cons.IH [OF step(1) _ l]
    show ?case
      using IH step less c Cons.prems(1,2) wanted_same [of s0 s t b]
      by (auto simp: live_inv_def)
  qed auto
  then show "live_inv s0 C t"
    "room_left s0 C t \<le> room_left s0 C s \<and> (changed \<longrightarrow> room_left s0 C t < room_left s0 C s)"
    "\<not> changed \<Longrightarrow> out_of t = out_of s \<and> (\<forall>b\<in>set bs. out_of t b = wanted t b)"
    by blast+
qed

lemma live_iterate_ok:
  assumes "live_inv s0 (set bs) s" "finite (used_vars (blocks s0) (set bs))"
    "card (used_vars (blocks s0) (set bs)) \<le> MAX_ANALYSIS_STACK_SIZE" "room_left s0 (set bs) s < n"
  shows "\<exists>t. live_iterate n bs s = Some t \<and> live_inv s0 (set bs) t \<and> (\<forall>b\<in>set bs. out_of t b = wanted t b)"
  using assms(1,4)
proof (induction n arbitrary: s)
  case (Suc n)
  obtain s1 changed where r: "live_round bs s = (s1, changed)" by fastforce
  note step = live_round_inv [OF Suc.prems(1) subset_refl finite_set assms(2,3) r]
  show ?case
  proof (cases changed)
    case True
    then have "room_left s0 (set bs) s1 < n"
      using step(2) Suc.prems(2) by simp
    from Suc.IH [OF step(1) this] show ?thesis
      using True by (simp add: r)
  next
    case False
    then have "live_iterate (Suc n) bs s = Some s1"
      by (simp add: r)
    with step(1) step(3) [OF False] show ?thesis by blast
  qed
qed simp

text \<open>A solution holds every variable that is live on some path.\<close>

lemma live_at_in_set:
  assumes "live_at (blocks s0) C v b" "live_inv s0 C t" "\<forall>b\<in>C. out_of t b = wanted t b"
  shows "v \<in> in_set (blocks t b)"
  using assms(1)
proof induction
  case (read b)
  then show ?case by (simp add: live_inv_flow [OF assms(2)])
next
  case (through b c)
  then have "v \<in> out_of t b"
    using assms(3) live_inv_flow(1) [OF assms(2)] by (auto simp: wanted_def)
  then show ?case
    using through by (simp add: live_inv_flow [OF assms(2)])
qed

lemma live_inv_start:
  assumes "\<And>b. live_out (blocks s b) = []"
  shows "live_inv s C s"
  using assms by (simp add: live_inv_def out_of_def)

lemma live_inv_exact:
  assumes "live_inv s0 C t" "\<forall>b\<in>C. out_of t b = wanted t b" "b \<in> C"
  shows "out_of t b = live_after (blocks s0) C b"
proof
  show "out_of t b \<subseteq> live_after (blocks s0) C b"
    using assms by (auto simp: live_inv_def)
  show "live_after (blocks s0) C b \<subseteq> out_of t b"
    using assms live_at_in_set [OF _ assms(1,2)] live_inv_flow(1) [OF assms(1)]
    by (auto simp: live_after_def wanted_def)
qed

lemma live_iterate_exact:
  assumes "\<And>b. live_out (blocks s b) = []"
    and "card (used_vars (blocks s) (set bs)) \<le> MAX_ANALYSIS_STACK_SIZE"
    and "card (set bs) * MAX_ANALYSIS_STACK_SIZE < n"
  shows "\<exists>t. live_iterate n bs s = Some t \<and> only_live s t
    \<and> (\<forall>b. distinct (live_out (blocks t b)))
    \<and> (\<forall>b. set (live_out (blocks t b)) = (if b \<in> set bs then live_after (blocks s) (set bs) b else {}))"
proof -
  have fin: "finite (used_vars (blocks s) (set bs))"
    by (simp add: used_vars_def near_def succs_def)
  have "room_left s (set bs) s \<le> card (set bs) * card (used_vars (blocks s) (set bs))"
    unfolding room_left_def by (rule order_trans [OF sum_bounded_above [where K = "card (used_vars (blocks s) (set bs))"]]) simp_all
  also have "\<dots> \<le> card (set bs) * MAX_ANALYSIS_STACK_SIZE"
    using assms(2) by simp
  finally have "room_left s (set bs) s < n"
    using assms(3) by simp
  from live_iterate_ok [OF live_inv_start [OF assms(1)] fin assms(2) this]
  obtain t where t: "live_iterate n bs s = Some t" "live_inv s (set bs) t" "\<forall>b\<in>set bs. out_of t b = wanted t b"
    by blast
  have "set (live_out (blocks t b)) = (if b \<in> set bs then live_after (blocks s) (set bs) b else {})" for b
    using live_inv_exact [OF t(2,3), of b] t(2) by (auto simp: live_inv_def out_of_def)
  with t show ?thesis
    by (auto simp: live_inv_def)
qed

text \<open>Past the size of its array, the merge drops what it is given.\<close>

lemma merge_live_in_full:
  assumes "length out = MAX_ANALYSIS_STACK_SIZE"
  shows "merge_live_in out bb = out"
proof -
  have "fold (\<lambda>v out. merge_add (f v out) v out) xs out = out" for f and xs :: "var_ref list"
    using assms by (induction xs) (simp_all add: merge_add_def)
  then show ?thesis by (simp add: merge_live_in_def)
qed

end
