(* ===== verification/LiveLocal.thy ===== *)
theory LiveLocal
  imports LiveFix
begin

text \<open>
  What liveness analysis leaves in a block: the variables read before they are assigned,
  the variables assigned, the index of every instruction, and for every variable an index
  that no use exceeds. Then the traversal that does this for every block of a function.
\<close>

section \<open>Read before assigned\<close>

definition kills :: "'a sinsn_scheme \<Rightarrow> var_ref set" where
  "kills i = (if i_op i = OP_unwound_phi then {} else set_option (rd i))"

definition uses :: "'a sinsn_scheme \<Rightarrow> var_ref set" where
  "uses i = set_option (rs1 i) \<union> set_option (rs2 i)"

text \<open>The variables that are read in \<open>is\<close> while their value is still the one on entry.\<close>

fun exposed :: "(var_ref \<Rightarrow> bool) \<Rightarrow> 'a sinsn_scheme list \<Rightarrow> var_ref set" where
  "exposed g [] = {}"
| "exposed g (i # is) = {v \<in> uses i. \<not> g v} \<union> (exposed g is - kills i)"

definition killed :: "'a sinsn_scheme list \<Rightarrow> var_ref set" where
  "killed is = (\<Union>i\<in>set is. kills i)"

lemma kills_idx [simp]: "kills (i\<lparr>i_idx := k\<rparr>) = kills i" "uses (i\<lparr>i_idx := k\<rparr>) = uses i"
  by (simp_all add: kills_def uses_def)

text \<open>\<open>bounds_uses k is vs\<close>: from index \<open>k\<close> on, no use has an index above \<open>consumed\<close>.\<close>

definition used_by :: "avars \<Rightarrow> ainsn list \<Rightarrow> bool" where
  "used_by vs is \<longleftrightarrow> (\<forall>i\<in>set is. \<forall>v\<in>uses i. sint (i_idx i) \<le> sint (consumed (vs v)))"

definition indexed :: "nat \<Rightarrow> ainsn list \<Rightarrow> bool" where
  "indexed k is \<longleftrightarrow> (\<forall>j<length is. i_idx (is ! j) = of_nat (k + j))"

definition later :: "avars \<Rightarrow> avars \<Rightarrow> bool" where
  "later vs ws \<longleftrightarrow> (\<forall>v. \<exists>c. ws v = (vs v)\<lparr>consumed := c\<rparr> \<and> sint (consumed (vs v)) \<le> sint c)"

lemma later_refl [simp]: "later vs vs"
proof -
  have "\<exists>c. vs v = (vs v)\<lparr>consumed := c\<rparr> \<and> sint (consumed (vs v)) \<le> sint c" for v
    by (rule exI [of _ "consumed (vs v)"]) simp
  then show ?thesis by (simp add: later_def)
qed

lemma later_trans: "later vs ws \<Longrightarrow> later ws us \<Longrightarrow> later vs us"
proof -
  assume a: "later vs ws" "later ws us"
  have "\<exists>c. us v = (vs v)\<lparr>consumed := c\<rparr> \<and> sint (consumed (vs v)) \<le> sint c" for v
  proof -
    obtain c d where "ws v = (vs v)\<lparr>consumed := c\<rparr>" "sint (consumed (vs v)) \<le> sint c"
        "us v = (ws v)\<lparr>consumed := d\<rparr>" "sint (consumed (ws v)) \<le> sint d"
      using a unfolding later_def by blast
    then show ?thesis by (intro exI [of _ d]) simp
  qed
  then show ?thesis by (simp add: later_def)
qed

lemma later_mono: "later vs ws \<Longrightarrow> sint (consumed (vs v)) \<le> sint (consumed (ws v))"
  unfolding later_def by (metis avar.select_convs(8) avar.surjective avar.update_convs(8))

lemma later_global: "later vs ws \<Longrightarrow> is_global (ws v) = is_global (vs v)"
proof -
  assume "later vs ws"
  then obtain c where "ws v = (vs v)\<lparr>consumed := c\<rparr>" unfolding later_def by blast
  then show ?thesis by simp
qed

lemma used_by_later: "used_by vs is \<Longrightarrow> later vs ws \<Longrightarrow> used_by ws is"
  unfolding used_by_def using later_mono by (blast intro: order_trans)

lemma update_consumed_later:
  "later vs (update_consumed insn v vs)"
  "sint (i_idx insn) \<le> sint (consumed (update_consumed insn v vs v))"
proof -
  have "\<exists>c. update_consumed insn v vs w = (vs w)\<lparr>consumed := c\<rparr> \<and> sint (consumed (vs w)) \<le> sint c" for w
    by (cases "w = v") (auto simp: update_consumed_def lt_s_sint intro: exI [of _ "consumed (vs w)"])
  then show "later vs (update_consumed insn v vs)"
    by (simp add: later_def)
qed (simp add: update_consumed_def lt_s_sint)

text \<open>What the analysis of a block changes of it.\<close>

definition lists_only :: "ablock \<Rightarrow> ablock \<Rightarrow> bool" where
  "lists_only bb cc \<longleftrightarrow> cc\<lparr>live_gen := [], live_kill := []\<rparr> = bb\<lparr>live_gen := [], live_kill := []\<rparr>"

lemma lists_only_refl [simp]: "lists_only bb bb"
  by (simp add: lists_only_def)

lemma lists_only_trans: "lists_only bb cc \<Longrightarrow> lists_only cc dd \<Longrightarrow> lists_only bb dd"
  by (simp add: lists_only_def)

lemma live_use_ok:
  assumes "live_use insn r (vs, bb) = (ws, cc)"
  shows "later vs ws" "set (live_gen cc) = set (live_gen bb)
      \<union> {v. r = Some v \<and> \<not> is_global (vs v) \<and> v \<notin> set (live_kill bb)}"
    "live_kill cc = live_kill bb" "lists_only bb cc"
    "r = Some v \<Longrightarrow> sint (i_idx insn) \<le> sint (consumed (ws v))"
proof -
  have "later vs ws \<and> live_kill cc = live_kill bb \<and> lists_only bb cc
    \<and> set (live_gen cc) = set (live_gen bb) \<union> {v. r = Some v \<and> \<not> is_global (vs v) \<and> v \<notin> set (live_kill bb)}"
  proof (cases r)
    case (Some x)
    have g: "is_global (update_consumed insn x vs x) = is_global (vs x)"
      using update_consumed_later(1) by (rule later_global)
    show ?thesis
      using assms Some g update_consumed_later(1) [of vs insn x]
      by (auto simp: live_use_def add_live_gen_def var_check_killed_def lists_only_def split: if_splits)
  qed (use assms in \<open>auto simp: live_use_def\<close>)
  then show "later vs ws" "live_kill cc = live_kill bb" "lists_only bb cc"
    "set (live_gen cc) = set (live_gen bb) \<union> {v. r = Some v \<and> \<not> is_global (vs v) \<and> v \<notin> set (live_kill bb)}"
    by simp_all
  show "r = Some v \<Longrightarrow> sint (i_idx insn) \<le> sint (consumed (ws v))"
    using assms update_consumed_later(2) by (auto simp: live_use_def)
qed

lemma solve_insn_ok:
  assumes "solve_insn insn (vs, bb) = (ws, cc)"
  shows "later vs ws" "lists_only bb cc" "used_by ws [insn]"
    "set (live_gen cc) = set (live_gen bb) \<union> ({v \<in> uses insn. \<not> is_global (vs v)} - set (live_kill bb))"
    "set (live_kill cc) = set (live_kill bb) \<union> kills insn"
proof -
  obtain vs1 bb1 where u1: "live_use insn (rs1 insn) (vs, bb) = (vs1, bb1)" by fastforce
  obtain vs2 bb2 where u2: "live_use insn (rs2 insn) (vs1, bb1) = (vs2, bb2)" by fastforce
  have d: "live_def insn (vs2, bb2) = (ws, cc)"
    using assms by (simp add: solve_insn_def u1 u2)
  note r1 = live_use_ok [OF u1] and r2 = live_use_ok [OF u2]
  have w: "ws = vs2" "set (live_kill cc) = set (live_kill bb2) \<union> kills insn"
      "live_gen cc = live_gen bb2" "lists_only bb2 cc"
    using d by (auto simp: live_def_def kills_def bb_add_killed_var_def lists_only_def split: option.splits if_splits)
  show l: "later vs ws"
    using r1(1) r2(1) w(1) by (blast intro: later_trans)
  show "lists_only bb cc"
    using r1(4) r2(4) w(4) by (blast intro: lists_only_trans)
  show "used_by ws [insn]"
    unfolding used_by_def uses_def using r1(5) r2(5) w(1) later_mono [OF r2(1)]
    by (auto intro: order_trans)
  show "set (live_gen cc) = set (live_gen bb) \<union> ({v \<in> uses insn. \<not> is_global (vs v)} - set (live_kill bb))"
    using r1(2,3) r2(2) w(3) later_global [OF r1(1)] by (auto simp: uses_def)
  show "set (live_kill cc) = set (live_kill bb) \<union> kills insn"
    using w(2) r1(3) r2(3) by simp
qed

lemma exposed_cong: "(\<And>v. g v = h v) \<Longrightarrow> exposed g is = exposed h is"
  by (induction "is") auto

lemma solve_insns_ok:
  assumes "solve_insns (of_nat k) is (vs, bb) = (js, ws, cc)"
  shows "later vs ws" "lists_only bb cc" "used_by ws js" "indexed k js"
    "map (\<lambda>i. i\<lparr>i_idx := 0\<rparr>) js = map (\<lambda>i. i\<lparr>i_idx := 0\<rparr>) is"
    "set (live_gen cc) = set (live_gen bb) \<union> (exposed (\<lambda>v. is_global (vs v)) is - set (live_kill bb))"
    "set (live_kill cc) = set (live_kill bb) \<union> killed is"
proof -
  let ?P = "\<lambda>k is vs bb js ws cc. later vs ws \<and> lists_only bb cc \<and> used_by ws js \<and> indexed k js
    \<and> map (\<lambda>i. i\<lparr>i_idx := 0\<rparr>) js = map (\<lambda>i. i\<lparr>i_idx := 0\<rparr>) is
    \<and> set (live_gen cc) = set (live_gen bb) \<union> (exposed (\<lambda>v. is_global (vs v)) is - set (live_kill bb))
    \<and> set (live_kill cc) = set (live_kill bb) \<union> killed is"
  have "?P k is vs bb js ws cc"
    using assms
  proof (induction "is" arbitrary: k vs bb js ws cc)
    case Nil
    then show ?case
      by (simp add: used_by_def indexed_def killed_def)
  next
    case (Cons i "is")
    let ?i = "i\<lparr>i_idx := of_nat k\<rparr>"
    obtain vs1 bb1 where s: "solve_insn ?i (vs, bb) = (vs1, bb1)" by fastforce
    obtain js1 where r: "solve_insns (of_nat (Suc k)) is (vs1, bb1) = (js1, ws, cc)" and js: "js = ?i # js1"
      using Cons.prems s by (auto simp: Let_def add.commute split: prod.splits)
    note h = solve_insn_ok [OF s]
    from Cons.IH [OF r] have IH: "?P (Suc k) is vs1 bb1 js1 ws cc" .
    have e: "exposed (\<lambda>v. is_global (vs1 v)) is = exposed (\<lambda>v. is_global (vs v)) is"
      using later_global [OF h(1)] by (rule exposed_cong)
    have "later vs ws" using h(1) IH by (blast intro: later_trans)
    moreover have "lists_only bb cc" using h(2) IH by (blast intro: lists_only_trans)
    moreover have "used_by ws js"
      using IH used_by_later [OF h(3), of ws] js by (simp add: used_by_def)
    moreover have "indexed k js"
      using IH js by (auto simp: indexed_def nth_Cons split: nat.split)
    moreover have "set (live_gen cc) = set (live_gen bb) \<union> (exposed (\<lambda>v. is_global (vs v)) (i # is) - set (live_kill bb))"
      using IH h(4,5) by (auto simp: e)
    moreover have "set (live_kill cc) = set (live_kill bb) \<union> killed (i # is)"
      using IH h(5) by (auto simp: killed_def)
    ultimately show ?case
      using IH js by simp
  qed
  then show "later vs ws" "lists_only bb cc" "used_by ws js" "indexed k js"
    "map (\<lambda>i. i\<lparr>i_idx := 0\<rparr>) js = map (\<lambda>i. i\<lparr>i_idx := 0\<rparr>) is"
    "set (live_gen cc) = set (live_gen bb) \<union> (exposed (\<lambda>v. is_global (vs v)) is - set (live_kill bb))"
    "set (live_kill cc) = set (live_kill bb) \<union> killed is"
    by blast+
qed

end
