(* ===== verification/RegInsn.thy ===== *)
theory RegInsn
  imports RegPrep LiveLocal
begin

text \<open>
  The instructions that compute a value: the code emitted for one of them takes a machine
  state that represents the variables before it to one that represents them after it.
\<close>

section \<open>Register file sweeps\<close>

lemma each_reg_induct:
  assumes "P st" "\<And>i v st. i < 8 \<Longrightarrow> P st \<Longrightarrow> at st i = Some v \<Longrightarrow> P (f i v st)"
  shows "P (each_reg f st)"
proof -
  have "P (fold (\<lambda>i st. case at st i of None \<Rightarrow> st | Some v \<Rightarrow> f i v st) xs st)" if "set xs \<subseteq> {..<8}" "P st" for xs st
    using that
  proof (induction xs arbitrary: st)
    case (Cons x xs)
    have "P (case at st x of None \<Rightarrow> st | Some v \<Rightarrow> f x v st)"
      using Cons.prems assms(2) by (auto split: option.split)
    then show ?case using Cons by simp
  qed simp
  from this [of "[0..<REG_CNT]" st] assms(1) show ?thesis
    by (simp add: each_reg_def REG_CNT_def lessThan_atLeast0)
qed

lemma refresh_rep:
  assumes rep: "rep c k env N st s"
    and keep: "\<And>v. v \<in> N \<Longrightarrow> is_global (cvs c v) \<or> check_live_out bb v \<or> \<not> lt_s (consumed (cvs c v)) (i_idx insn)"
  shows "rep c k env N (refresh bb insn st) s" "code (refresh bb insn st) = code st"
proof -
  have "rep c k env N (refresh bb insn st) s \<and> code (refresh bb insn st) = code st"
    unfolding refresh_def
  proof (rule each_reg_induct [where P = "\<lambda>t. rep c k env N t s \<and> code t = code st"])
    fix i v t assume i: "i < 8" "rep c k env N t s \<and> code t = code st" "at t i = Some v"
    have "v \<in> N \<longrightarrow> \<not> polluted (regs t ! i)"
      if "\<not> check_live_out bb v" "lt_s (consumed (rvs t v)) (i_idx insn)"
      using that keep [of v] rep_regs(3) [OF conjunct1 [OF i(2)] i(1,3)] rep_stat(5) [OF conjunct1 [OF i(2)], of v] by auto
    then show "rep c k env N (if check_live_out bb v then t
        else if lt_s (consumed (rvs t v)) (i_idx insn) then drop_reg i t else t) s
      \<and> code (if check_live_out bb v then t
        else if lt_s (consumed (rvs t v)) (i_idx insn) then drop_reg i t else t) = code st"
      using i drop_rep [of c k env N t s i v] drop_at(3) [OF rep_regs(1) [OF conjunct1 [OF i(2)]] i(1,3)] by auto
  qed (use rep in simp)
  then show "rep c k env N (refresh bb insn st) s" "code (refresh bb insn st) = code st" by simp_all
qed

lemma track_simps [simp]:
  "regs (track_var_use r n st) = regs st" "at (track_var_use r n st) i = at st i"
  "code (track_var_use r n st) = code st" "stack (track_var_use r n st) = stack st"
  "stat (rvs (track_var_use r n st) v) = stat (rvs st v)" "offset (rvs (track_var_use r n st) v) = offset (rvs st v)"
  "space_is_allocated (rvs (track_var_use r n st) v) = space_is_allocated (rvs st v)"
  "phys_reg (rvs (track_var_use r n st) v) = phys_reg (rvs st v)"
  by (cases r; simp add: track_var_use_def set_var_if stat_def)+

lemma track_rep: "rep c k env N st s \<Longrightarrow> rep c k env N (track_var_use r n st) s"
  by (rule rep_cong, assumption) simp_all

lemma leads_track: "leads (track_var_use r n st) s st' s' \<longleftrightarrow> leads st s st' s'"
  by (simp add: leads_def)

section \<open>The emitted instruction\<close>

lemma arith_not_mem: "is_bin oc \<Longrightarrow> \<not> is_mem oc" "is_un oc \<Longrightarrow> \<not> is_mem oc" "is_un oc \<Longrightarrow> \<not> is_bin oc"
  by (auto simp: is_bin_def is_un_def is_mem_def)

lemma step_bin:
  "is_bin oc \<Longrightarrow> ph2_bin oc (reg s (of_nat r)) (reg s (of_nat q)) = Some x \<Longrightarrow>
    ph2_step (ir_bin oc r q d) s = Some (set_at d x s)"
  by (simp add: ph2_step_arith arith_not_mem ir_bin_def new_ph2_ir_def set_at_def)

lemma step_un:
  "is_un oc \<Longrightarrow> ph2_un oc k (reg s (of_nat r)) = Some x \<Longrightarrow> ph2_step (ir_un oc r k d) s = Some (set_at d x s)"
  by (simp add: ph2_step_arith arith_not_mem ir_un_def new_ph2_ir_def set_at_def)

lemma step_const: "ph2_step ((new_ph2_ir OP_load_constant)\<lparr>src0 := x, dest := of_nat d\<rparr>) s = Some (set_at d x s)"
  by (simp add: ph2_step_def new_ph2_ir_def set_at_def)

lemma reserved_reg:
  assumes "reserved c k env N d r st s" "i < 8" "i \<noteq> r" "at st i = Some v" "v \<in> N"
  shows "reg s (of_nat i) = env v"
proof -
  have "rep c k env N (set_reg_var r None st) s" "r < length (regs st)"
    using assms(1) by (auto simp: reserved_def)
  from rep_regs(6) [OF this(1) assms(2) _ assms(5)] this(2) show ?thesis
    using assms(3,4) by simp
qed

lemma leads_snoc:
  "leads st s st' s' \<Longrightarrow> ph2_step ir s' = Some s'' \<Longrightarrow> leads st s (bb_add_ph2_ir ir st') s''"
  by (rule leads_trans, assumption, rule leads_step) simp_all

lemma rep_emit [simp]: "rep c k env N (bb_add_ph2_ir ir st) s = rep c k env N st s"
  by (simp add: rep_def regs_ok_def slots_ok_def dirty_def)

lemma slots_apart:
  "slots_ok c k st \<Longrightarrow> v \<in> cvars c \<Longrightarrow> w \<in> cvars c \<Longrightarrow> v \<noteq> w \<Longrightarrow> space_is_allocated (rvs st v)
    \<Longrightarrow> space_is_allocated (rvs st w) \<Longrightarrow> apart (slot c (rvs st) v) (slot c (rvs st) w)"
  by (simp add: slots_ok_def)

lemma slots_global:
  "slots_ok c k st \<Longrightarrow> v \<in> cvars c \<Longrightarrow> is_global (rvs st v) \<Longrightarrow> space_is_allocated (rvs st v)"
  by (simp add: slots_ok_def)

text \<open>A global is stored at once.\<close>

lemma store_rep:
  assumes rep: "rep c k env N st s" and d: "d \<in> cvars c" "is_global (cvs c d)" "d \<notin> N"
  shows "rep c k env N st (s\<lparr>pmem := store_val (pmem s) 4 (slot c (rvs st) d) x\<rparr>)"
proof (rule repI)
  show "if is_const (cvs c v) then env v = init_val (cvs c v)
      else dirty st v \<or> in_slot c (rvs st) (s\<lparr>pmem := store_val (pmem s) 4 (slot c (rvs st) d) x\<rparr>) v (env v)"
    if v: "v \<in> N" for v
  proof -
    have vd: "v \<in> cvars c" "d \<noteq> v" using v d rep_fields(3) [OF rep] by auto
    have al: "space_is_allocated (rvs st d)"
      using slots_global [OF rep_fields(7) [OF rep] d(1)] rep_stat(3) [OF rep, of d] d by simp
    have "apart (slot c (rvs st) d) (slot c (rvs st) v)" if "space_is_allocated (rvs st v)"
      using slots_apart [OF rep_fields(7) [OF rep] d(1) vd al that] .
    then show ?thesis
      using rep_fields(8) [OF rep v] by (auto simp: in_slot_def load_store_apart split: if_splits)
  qed
qed (use rep_fields(1-7) [OF rep] rep_regs(6) [OF rep] in simp_all)

lemma reserved_stored:
  assumes res: "reserved c k env N d r st s" and g: "is_global (cvs c d)" "\<not> is_const (cvs c d)" "d \<notin> N"
    and N: "N' \<subseteq> insert d N"
  shows "\<exists>s'. ph2_step (ir_global_store (offset (rvs st d)) r) (set_at r x s) = Some s'
    \<and> rep c k (env(d := x)) N' (set_polluted r False st) s'"
proof -
  let ?st = "set_reg_var r None st"
  have r: "r < 8" "length (regs st) = 8" "at st r = Some d" "phys_reg (rvs st d) = of_nat r" "d \<in> cvars c"
    and rep: "rep c k env N ?st s" and oth: "\<And>j. j < 8 \<Longrightarrow> j \<noteq> r \<Longrightarrow> at st j \<noteq> Some d"
    using res by (auto simp: reserved_def)
  let ?a = "slot c (rvs st) d"
  let ?s = "s\<lparr>pmem := store_val (pmem s) 4 ?a x\<rparr>"
  have rep': "rep c k env N ?st ?s"
    using store_rep [OF rep r(5) g(1,3), of x] by simp
  have al: "space_is_allocated (rvs st d)"
    using slots_global [OF rep_fields(7) [OF rep] r(5)] rep_stat(3) [OF rep, of d] g by simp
  have glob: "is_global (rvs st d)" using rep_stat(3) [OF rep, of d] g by simp
  have "(rvs st d)\<lparr>phys_reg := phys_reg (rvs st d)\<rparr> = rvs st d" by simp
  then have ph: "rvs st d = (rvs st d)\<lparr>phys_reg := of_nat r\<rparr>"
    unfolding r(4) by simp
  have reg: "regs (set_polluted r False st) = (regs ?st)[r := \<lparr>rvar = Some d, polluted = False\<rparr>]"
    using r(1-3) by (cases "regs st ! r") (simp add: set_polluted_def set_reg_var_def at_def)
  have "rep c k (env(d := x)) N' (set_polluted r False st) (set_at r x ?s)"
  proof (rule fill_rep [where p = False, OF rep' r(1) _ r(5)])
    show "regs (set_polluted r False st) = (regs ?st)[r := \<lparr>rvar = Some d, polluted = False\<rparr>]"
      by (rule reg)
    show "rvs (set_polluted r False st) d = (rvs ?st d)\<lparr>phys_reg := of_nat r\<rparr>"
      using ph by simp
  qed (use r oth g N al in \<open>auto simp: in_slot_def load_store_same\<close>)
  moreover have "ph2_step (ir_global_store (offset (rvs st d)) r) (set_at r x s) = Some (set_at r x ?s)"
    using rep_fields(2) [OF rep] glob
    by (simp add: ph2_step_def ir_global_store_def new_ph2_ir_def set_at_def set_reg_def slot_def)
  ultimately show ?thesis by blast
qed

text \<open>Both kinds of result together: the value is computed, and stored if it is a global.\<close>

lemma finish:
  assumes res: "reserved c k env N d r st s" and x: "is_const (cvs c d) \<Longrightarrow> x = init_val (cvs c d)"
    and d: "d \<in> ckill c" "d \<notin> N" "is_global (cvs c d) \<Longrightarrow> \<not> is_const (cvs c d)" and N: "N' \<subseteq> insert d N"
    and st0: "leads st0 s0 st s" and ir: "ph2_step ir s = Some (set_at r x s)"
  shows "\<exists>s'. leads st0 s0 (store_global d r (bb_add_ph2_ir ir st)) s'
    \<and> rep c k (env(d := x)) N' (store_global d r (bb_add_ph2_ir ir st)) s'"
proof -
  have g: "is_global (rvs st d) = is_global (cvs c d)"
    using rep_stat(3) [of c k env N "set_reg_var r None st" s d] res by (simp add: reserved_def)
  have l: "leads st0 s0 (bb_add_ph2_ir ir st) (set_at r x s)"
    using st0 ir by (rule leads_snoc)
  show ?thesis
  proof (cases "is_global (cvs c d)")
    case True
    obtain s' where s': "ph2_step (ir_global_store (offset (rvs st d)) r) (set_at r x s) = Some s'"
        "rep c k (env(d := x)) N' (set_polluted r False st) s'"
      using reserved_stored [OF res True d(3) [OF True] d(2) N, of x] by blast
    have "leads st0 s0 (store_global d r (bb_add_ph2_ir ir st)) s'"
      using leads_snoc [OF l s'(1)] True g by (simp add: store_global_def leads_def)
    moreover have "rep c k (env(d := x)) N' (store_global d r (bb_add_ph2_ir ir st)) s'"
      using s'(2) True g by (simp add: store_global_def update_order)
    ultimately show ?thesis by blast
  next
    case False
    then show ?thesis
      using l g reserved_value [OF res False d(1) x N] by (auto simp: store_global_def)
  qed
qed

end
