(* ===== verification/RegBlock.thy ===== *)
theory RegBlock
  imports RegInsn
begin

text \<open>
  Blocks: a run of value-computing instructions, the spilling of the variables that are
  live at the end, and the branch.
\<close>

section \<open>One instruction\<close>

text \<open>An instruction that computes the value of \<open>d\<close>.\<close>

definition computes :: "actx \<Rightarrow> ainsn \<Rightarrow> var_ref \<Rightarrow> bool" where
  "computes c insn d \<longleftrightarrow> rd insn = Some d \<and> d \<in> cvars c \<and> d \<in> ckill c \<and> uses insn \<subseteq> cvars c \<and> d \<notin> uses insn
     \<and> (i_op insn = OP_load_constant \<or> is_un (i_op insn) \<or> is_bin (i_op insn))
     \<and> (is_const (cvs c d) \<longrightarrow> i_op insn = OP_load_constant)
     \<and> (is_global (cvs c d) \<longrightarrow> \<not> is_const (cvs c d) \<and> i_op insn \<in> {OP_load_constant, OP_assign})"

definition ssa_vars :: "avars \<Rightarrow> vars" where
  "ssa_vars vs v = svar.truncate (vs v)"

lemma truncate_simps [simp]:
  "i_op (sinsn.truncate i) = i_op i" "rd (sinsn.truncate i) = rd i" "rs1 (sinsn.truncate i) = rs1 i"
  "rs2 (sinsn.truncate i) = rs2 i" "sz (sinsn.truncate i) = sz i" "init_val (ssa_vars vs v) = init_val (vs v)"
  by (simp_all add: sinsn.truncate_def ssa_vars_def svar.truncate_def)

lemma alloc_insn_bin:
  "is_bin (i_op insn) \<Longrightarrow> alloc_insn cf bb insn rest ca st = map_option (Pair ca) (alloc_bin bb insn (refresh bb insn st))"
  unfolding alloc_insn_def is_bin_def by (cases "i_op insn") simp_all

lemma alloc_insn_un:
  assumes "is_un (i_op insn)" "i_op insn \<noteq> OP_assign"
  obtains k where "alloc_insn cf bb insn rest ca st = map_option (Pair ca) (alloc_un bb insn k (refresh bb insn st))"
    "\<And>a. ph2_un (i_op insn) k a = ph2_un (i_op insn) (sz insn) a"
  using assms unfolding alloc_insn_def is_un_def by (auto simp: ph2_un_def)

lemma alloc_insn_assign:
  "i_op insn = OP_assign \<Longrightarrow> alloc_insn cf bb insn rest ca st = map_option (Pair ca) (alloc_assign bb insn (refresh bb insn st))"
  "i_op insn = OP_load_constant \<Longrightarrow>
    alloc_insn cf bb insn rest ca st = map_option (Pair ca) (alloc_load_constant bb insn (refresh bb insn st))"
  by (simp_all add: alloc_insn_def)

lemma bin_step_ok:
  assumes rep: "rep c (Suc (Suc (Suc k))) env N st s" and i: "computes c insn d" "is_bin (i_op insn)"
    and v: "rs1 insn = Some v" "rs2 insn = Some w" "v \<in> N" "w \<in> N" and x: "ph2_bin (i_op insn) (env v) (env w) = Some x"
    and d: "d \<notin> N" and N: "N' \<subseteq> insert d N"
  shows "\<exists>st' s'. alloc_bin bb insn st = Some st' \<and> leads st s st' s' \<and> rep c k (env(d := x)) N' st' s'"
proof -
  let ?st = "track_var_use (Some w) (i_idx insn) (track_var_use (Some v) (i_idx insn) st)"
  have id: "rd insn = Some d" "d \<in> cvars c" "d \<in> ckill c" "v \<noteq> d" "w \<noteq> d" "\<not> is_const (cvs c d)" "\<not> is_global (cvs c d)"
    using i v by (auto simp: computes_def uses_def is_bin_def)
  have rep0: "rep c (Suc (Suc (Suc k))) env N ?st s"
    using rep by (intro track_rep)
  obtain r1 st1 s1 where 1: "prepare_operand bb v None ?st = Some (r1, st1)" "r1 < 8" "leads ?st s st1 s1"
      "rep c (Suc (Suc k)) env N st1 s1" "at st1 r1 = Some v" "kept None ?st st1"
      "find_in_regs v ?st = None \<longrightarrow> \<not> polluted (regs st1 ! r1)"
    by (rule prepare_operand_ok [OF rep0 v(3), of bb None])
  obtain r2 st2 s2 where 2: "prepare_operand bb w (Some r1) st1 = Some (r2, st2)" "r2 < 8" "leads st1 s1 st2 s2"
      "rep c (Suc k) env N st2 s2" "at st2 r2 = Some w" "kept (Some r1) st1 st2"
      "find_in_regs w st1 = None \<longrightarrow> \<not> polluted (regs st2 ! r2)"
    by (rule prepare_operand_ok [OF 1(4) v(4), of bb "Some r1"])
  have at1: "at st2 r1 = Some v"
    using 2(6) 1(2,5) by (simp add: kept_def)
  obtain r st3 s3 where 3: "prepare_dest bb d (Some r1) (Some r2) st2 = Some (r, st3)" "leads st2 s2 st3 s3"
      "reserved c k env N d r st3 s3"
      "spared d (Some r1) r st2 st3" "spared d (Some r2) r st2 st3"
    by (rule prepare_dest_ok [OF 2(4) d id(2), of bb "Some r1" "Some r2"])
  have "reg s3 (of_nat r1) = env v" "reg s3 (of_nat r2) = env w"
    using sparedD [OF 3(4) 1(2) at1 id(4)] sparedD [OF 3(5) 2(2,5) id(5)] 1(2) 2(2)
      reserved_reg [OF 3(3), of r1 v] reserved_reg [OF 3(3), of r2 w] v(3,4) by auto
  then have ir: "ph2_step (ir_bin (i_op insn) r1 r2 r) s3 = Some (set_at r x s3)"
    using i(2) x by (intro step_bin) simp_all
  have l: "leads st s st3 s3"
    using leads_trans [OF leads_trans [OF 1(3) 2(3)] 3(2)] by (simp add: leads_track)
  have "alloc_bin bb insn st = Some (bb_add_ph2_ir (ir_bin (i_op insn) r1 r2 r) st3)"
    using v(1,2) id(1) 1(1) 2(1) 3(1) by (simp add: alloc_bin_def Let_def)
  moreover have "leads st s (bb_add_ph2_ir (ir_bin (i_op insn) r1 r2 r) st3) (set_at r x s3)"
    using l ir by (rule leads_snoc)
  moreover have "rep c k (env(d := x)) N' (bb_add_ph2_ir (ir_bin (i_op insn) r1 r2 r) st3) (set_at r x s3)"
    using reserved_value [OF 3(3) id(7,3) _ N, of x] id(6) by simp
  ultimately show ?thesis by blast
qed

lemma un_step_ok:
  assumes rep: "rep c (Suc (Suc k)) env N st s" and i: "computes c insn d" "is_un (i_op insn)" "i_op insn \<noteq> OP_assign"
    and v: "rs1 insn = Some v" "v \<in> N" and x: "ph2_un (i_op insn) n (env v) = Some x"
    and d: "d \<notin> N" and N: "N' \<subseteq> insert d N"
  shows "\<exists>st' s'. alloc_un bb insn n st = Some st' \<and> leads st s st' s' \<and> rep c k (env(d := x)) N' st' s'"
proof -
  have id: "rd insn = Some d" "d \<in> cvars c" "d \<in> ckill c" "v \<noteq> d" "\<not> is_const (cvs c d)" "\<not> is_global (cvs c d)"
    using i v by (auto simp: computes_def uses_def is_un_def)
  obtain r1 st1 s1 where 1: "prepare_operand bb v None st = Some (r1, st1)" "r1 < 8" "leads st s st1 s1"
      "rep c (Suc k) env N st1 s1" "at st1 r1 = Some v" "kept None st st1"
      "find_in_regs v st = None \<longrightarrow> \<not> polluted (regs st1 ! r1)"
    by (rule prepare_operand_ok [OF rep v(2), of bb None])
  obtain r st2 s2 where 2: "prepare_dest bb d (Some r1) None st1 = Some (r, st2)" "leads st1 s1 st2 s2"
      "reserved c k env N d r st2 s2"
      "spared d (Some r1) r st1 st2" "spared d None r st1 st2"
    by (rule prepare_dest_ok [OF 1(4) d id(2), of bb "Some r1" None])
  have "reg s2 (of_nat r1) = env v"
    using sparedD [OF 2(4) 1(2,5) id(4)] 1(2) reserved_reg [OF 2(3), of r1 v] v(2) by auto
  then have ir: "ph2_step (ir_un (i_op insn) r1 n r) s2 = Some (set_at r x s2)"
    using i(2) x by (intro step_un) simp_all
  have "alloc_un bb insn n st = Some (bb_add_ph2_ir (ir_un (i_op insn) r1 n r) st2)"
    using v(1) id(1) 1(1) 2(1) by (simp add: alloc_un_def Let_def)
  moreover have "leads st s (bb_add_ph2_ir (ir_un (i_op insn) r1 n r) st2) (set_at r x s2)"
    using leads_trans [OF 1(3) 2(2)] ir by (rule leads_snoc)
  moreover have "rep c k (env(d := x)) N' (bb_add_ph2_ir (ir_un (i_op insn) r1 n r) st2) (set_at r x s2)"
    using reserved_value [OF 2(3) id(6,3) _ N, of x] id(5) by simp
  ultimately show ?thesis by blast
qed

lemma const_step_ok:
  assumes rep: "rep c (Suc k) env N st s" and i: "computes c insn d" "i_op insn = OP_load_constant"
    and d: "d \<notin> N" and N: "N' \<subseteq> insert d N"
  shows "\<exists>st' s'. alloc_load_constant bb insn st = Some st' \<and> leads st s st' s'
    \<and> rep c k (env(d := init_val (cvs c d))) N' st' s'"
proof -
  have id: "rd insn = Some d" "d \<in> cvars c" "d \<in> ckill c" "is_global (cvs c d) \<Longrightarrow> \<not> is_const (cvs c d)"
    using i by (auto simp: computes_def)
  obtain r st1 s1 where 1: "prepare_dest bb d None None st = Some (r, st1)" "leads st s st1 s1" "reserved c k env N d r st1 s1"
      "spared d None r st st1" "spared d None r st st1"
    by (rule prepare_dest_ok [OF rep d id(2), of bb None None])
  have "rep c k env N (set_reg_var r None st1) s1" using 1(3) by (simp add: reserved_def)
  from rep_stat(2) [OF this, of d] have iv: "init_val (rvs st1 d) = init_val (cvs c d)" by simp
  let ?ir = "(new_ph2_ir (i_op insn))\<lparr>src0 := init_val (rvs st1 d), dest := reg_of r\<rparr>"
  have ir: "ph2_step ?ir s1 = Some (set_at r (init_val (cvs c d)) s1)"
    using step_const [where x = "init_val (cvs c d)" and d = r and s = s1] by (simp add: i(2) iv)
  obtain s' where "leads st s (store_global d r (bb_add_ph2_ir ?ir st1)) s'"
      "rep c k (env(d := init_val (cvs c d))) N' (store_global d r (bb_add_ph2_ir ?ir st1)) s'"
    using finish [OF 1(3) refl id(3) d id(4) N 1(2) ir] by blast
  moreover have "alloc_load_constant bb insn st = Some (store_global d r (bb_add_ph2_ir ?ir st1))"
    using id(1) 1(1) by (simp add: alloc_load_constant_def Let_def)
  ultimately show ?thesis by blast
qed

lemma store_global_at [simp]:
  "at (store_global d r st) i = at st i" "j < length (regs st) \<Longrightarrow> \<not> polluted (regs st ! i) \<Longrightarrow> j = r
     \<Longrightarrow> \<not> polluted (regs (store_global d j st) ! i)"
  by (simp_all add: store_global_def)

lemma assign_step_ok:
  assumes rep: "rep c (Suc (Suc k)) env N st s" and i: "computes c insn d" "i_op insn = OP_assign"
    and v: "rs1 insn = Some v" "v \<in> N" and d: "d \<notin> N" and N: "N' \<subseteq> insert d N"
    and dead: "consumed (cvs c d) = - 1 \<Longrightarrow> d \<notin> N'"
  shows "\<exists>st' s'. alloc_assign bb insn st = Some st' \<and> leads st s st' s' \<and> rep c k (env(d := env v)) N' st' s'"
proof (cases "consumed (cvs c d) = - 1")
  case True
  have "alloc_assign bb insn st = Some st"
    using i True rep_stat(5) [OF rep, of d] by (simp add: alloc_assign_def computes_def)
  moreover have "rep c k (env(d := env v)) N' st s"
    using dead [OF True] N by (intro rep_env [OF rep_less [OF rep, of N' k]]) auto
  ultimately show ?thesis
    using leads_same [OF refl] by blast
next
  case live: False
  let ?st = "track_var_use (Some v) (i_idx insn) st"
  have id: "rd insn = Some d" "d \<in> cvars c" "d \<in> ckill c" "v \<noteq> d" "is_global (cvs c d) \<Longrightarrow> \<not> is_const (cvs c d)"
    "\<not> is_const (cvs c d)"
    using i v by (auto simp: computes_def uses_def)
  have rep0: "rep c (Suc (Suc k)) env N ?st s" using rep by (rule track_rep)
  define pick where "pick = (case find_in_regs v ?st of Some i \<Rightarrow> Some (i, False, ?st)
         | None \<Rightarrow> map_option (\<lambda>(i, st). (i, True, st)) (prepare_operand bb v None ?st))"
  obtain r1 cl st1 s1 where 1: "pick = Some (r1, cl, st1)" "r1 < 8" "leads ?st s st1 s1"
      "rep c (Suc k) env N st1 s1" "at st1 r1 = Some v" "cl \<Longrightarrow> \<not> polluted (regs st1 ! r1)"
  proof (cases "find_in_regs v ?st")
    case None
    obtain r1 st1 s1 where "prepare_operand bb v None ?st = Some (r1, st1)" "r1 < 8" "leads ?st s st1 s1"
        "rep c (Suc k) env N st1 s1" "at st1 r1 = Some v" "kept None ?st st1"
        "find_in_regs v ?st = None \<longrightarrow> \<not> polluted (regs st1 ! r1)"
      by (rule prepare_operand_ok [OF rep0 v(2), of bb None])
    then show thesis
      using None by (intro that [of r1 True st1 s1]) (simp_all add: pick_def)
  next
    case (Some j)
    then have "j < 8" "at ?st j = Some v"
      using find_upt(1) unfolding find_in_regs_def by blast+
    then show thesis
      using Some rep_less [OF rep0 subset_refl, of "Suc k"]
      by (intro that [of j False ?st s]) (simp_all add: pick_def leads_same)
  qed
  obtain r st2 s2 where 2: "prepare_dest bb d (Some r1) None st1 = Some (r, st2)" "leads st1 s1 st2 s2"
      "reserved c k env N d r st2 s2"
      "spared d (Some r1) r st1 st2" "spared d None r st1 st2"
    by (rule prepare_dest_ok [OF 1(4) d id(2), of bb "Some r1" None])
  have at2: "at st2 r1 = Some v" "r1 \<noteq> r" "polluted (regs st2 ! r1) = polluted (regs st1 ! r1)"
    using sparedD [OF 2(4) 1(2,5) id(4)] by auto
  have "reg s2 (of_nat r1) = env v"
    using reserved_reg [OF 2(3) 1(2) at2(2,1) v(2)] .
  then have ir: "ph2_step (ir_un OP_assign r1 0 r) s2 = Some (set_at r (env v) s2)"
    by (intro step_un) (simp_all add: is_un_def ph2_un_def)
  let ?st3 = "store_global d r (bb_add_ph2_ir (ir_un OP_assign r1 0 r) st2)"
  have l: "leads st s st2 s2"
    using leads_trans [OF 1(3) 2(2)] by (simp add: leads_track)
  obtain s3 where 3: "leads st s ?st3 s3" "rep c k (env(d := env v)) N' ?st3 s3"
    using finish [OF 2(3) _ id(3) d id(5) N l ir] id(6) by blast
  have len: "r < 8" "length (regs st2) = 8" using 2(3) by (simp_all add: reserved_def)
  have at3: "at ?st3 r1 = Some v" "polluted (regs ?st3 ! r1) = polluted (regs st1 ! r1)"
    using at2 len by (simp_all add: store_global_def)
  have eq: "alloc_assign bb insn st = Some (if cl then set_reg_var r1 None (vreg_clear_phys (at ?st3 r1) ?st3) else ?st3)"
    using v(1) id(1) live rep_stat(5) [OF rep, of d] 1(1) 2(1)
    by (simp add: alloc_assign_def Let_def flip: pick_def)
  show ?thesis
  proof (cases cl)
    case True
    let ?st4 = "vreg_clear_phys (Some v) (set_reg_var r1 None ?st3)"
    have "rep c k (env(d := env v)) N' ?st4 s3"
      using 1(6) True at3 by (intro free_reg_rep [OF 3(2) 1(2)]) simp_all
    moreover have "leads st s ?st4 s3"
      using 3(1) by (simp add: leads_def)
    moreover have "alloc_assign bb insn st = Some ?st4"
      using eq True at3(1) by (simp add: update_order)
    ultimately show ?thesis by blast
  qed (use eq 3 in auto)
qed

text \<open>Any of them, from the state before the instruction.\<close>

lemma insn_step_ok:
  assumes rep: "rep c (k + 3) env N st s" and i: "computes c insn d"
    and step: "s_step ext (ssa_vars (cvs c)) (sinsn.truncate insn) env = Some env'"
    and N: "uses insn \<subseteq> N" "N' - {d} \<subseteq> N" "d \<notin> N"
    and keep: "\<And>v. v \<in> N \<Longrightarrow> is_global (cvs c v) \<or> check_live_out bb v \<or> \<not> lt_s (consumed (cvs c v)) (i_idx insn)"
    and dead: "consumed (cvs c d) = - 1 \<Longrightarrow> d \<notin> N'"
  shows "\<exists>st' s'. alloc_insn cf bb insn rest ca st = Some (ca, st') \<and> leads st s st' s' \<and> rep c k env' N' st' s'"
proof -
  let ?st = "refresh bb insn st"
  have r: "rep c (Suc (Suc (Suc k))) env N ?st s" and code: "code ?st = code st"
    using refresh_rep [OF rep keep] by (simp_all add: numeral_3_eq_3)
  have r2: "rep c (Suc (Suc k)) env N ?st s" and r1: "rep c (Suc k) env N ?st s"
    using r by (rule rep_less, simp, simp)+
  have N': "N' \<subseteq> insert d N" using N(2) by blast
  have l: "leads ?st s st' s' \<Longrightarrow> leads st s st' s'" for st' s'
    using code by (simp add: leads_def)
  have rdd: "rd insn = Some d" using i by (simp add: computes_def)
  consider "i_op insn = OP_load_constant" | "i_op insn = OP_assign" | "is_un (i_op insn)" "i_op insn \<noteq> OP_assign"
    | "is_bin (i_op insn)"
    using i by (auto simp: computes_def)
  then show ?thesis
  proof cases
    case 1
    then have "env' = env(d := init_val (cvs c d))"
      using step rdd by (simp add: s_step_def s_pure_def s_value_def)
    then show ?thesis
      using const_step_ok [OF r1 i 1 N(3) N', of bb] l 1 by (auto simp: alloc_insn_assign)
  next
    case 2
    then obtain v where v: "rs1 insn = Some v" "env' = env(d := env v)"
      using step rdd by (auto simp: s_step_def s_pure_def s_value_def is_un_def ph2_un_def split: option.splits)
    then have "v \<in> N" using N(1) by (auto simp: uses_def)
    then show ?thesis
      using assign_step_ok [OF r2 i 2 v(1) _ N(3) N' dead, of bb] l 2 v(2) by (auto simp: alloc_insn_assign)
  next
    case 3
    have "i_op insn \<noteq> OP_load_constant" using 3 by (auto simp: is_un_def)
    then obtain v x where v: "rs1 insn = Some v" "ph2_un (i_op insn) (sz insn) (env v) = Some x" "env' = env(d := x)"
      using step rdd 3 by (auto simp: s_step_def s_pure_def s_value_def split: option.splits)
    then have vN: "v \<in> N" using N(1) by (auto simp: uses_def)
    obtain n where n: "alloc_insn cf bb insn rest ca st = map_option (Pair ca) (alloc_un bb insn n ?st)"
        "\<And>a. ph2_un (i_op insn) n a = ph2_un (i_op insn) (sz insn) a"
      using alloc_insn_un [OF 3] by metis
    show ?thesis
      using un_step_ok [OF r2 i 3 v(1) vN _ N(3) N', of n x bb] n v(2,3) l by fastforce
  next
    case 4
    have op: "i_op insn \<noteq> OP_load_constant" "\<not> is_un (i_op insn)" "i_op insn \<noteq> OP_log_and" "i_op insn \<noteq> OP_log_or"
      using 4 by (auto simp: is_un_def is_bin_def)
    then obtain v w x where v: "rs1 insn = Some v" "rs2 insn = Some w" "ph2_bin (i_op insn) (env v) (env w) = Some x"
        "env' = env(d := x)"
      using step rdd 4 by (auto simp: s_step_def s_pure_def s_is_bin_def s_value_def s_bin_def split: option.splits)
    then have vN: "v \<in> N" "w \<in> N" using N(1) by (auto simp: uses_def)
    show ?thesis
      using bin_step_ok [OF r i 4 v(1,2) vN v(3) N(3) N', of bb] 4 v(4) l by (auto simp: alloc_insn_bin)
  qed
qed

end
