(* ===== verification/CfgWalk.thy ===== *)
theory CfgWalk
  imports CfgIr
begin

text \<open>
  The traversals as a sequence of events, entering and leaving blocks, that depends on the edges
  only. Every block that can be reached is entered and left once, and is left before one of
  its predecessors is. The depth of the recursion stays below the number of blocks.
\<close>

section \<open>Depth-first search\<close>

datatype bb_event = Enter bb_ref | Leave bb_ref

fun entered :: "bb_event list \<Rightarrow> bb_ref list" where
  "entered [] = []"
| "entered (Enter b # es) = b # entered es"
| "entered (Leave b # es) = entered es"

fun left :: "bb_event list \<Rightarrow> bb_ref list" where
  "left [] = []"
| "left (Enter b # es) = left es"
| "left (Leave b # es) = b # left es"

lemma entered_append [simp]: "entered (xs @ ys) = entered xs @ entered ys"
  by (induction xs rule: entered.induct) simp_all

lemma left_append [simp]: "left (xs @ ys) = left xs @ left ys"
  by (induction xs rule: left.induct) simp_all

text \<open>The search from a block, and from a list of blocks, where the blocks of \<open>F\<close> are new.\<close>

fun dfs :: "nat \<Rightarrow> (bb_ref \<Rightarrow> bb_ref list) \<Rightarrow> bb_ref set \<Rightarrow> bb_ref \<Rightarrow> bb_event list"
  and dfs_list :: "nat \<Rightarrow> (bb_ref \<Rightarrow> bb_ref list) \<Rightarrow> bb_ref set \<Rightarrow> bb_ref list \<Rightarrow> bb_event list" where
  "dfs 0 out F b = []"
| "dfs (Suc n) out F b = Enter b # dfs_list n out (F - {b}) (out b) @ [Leave b]"
| "dfs_list n out F [] = []"
| "dfs_list n out F (c # cs) =
     (let es = (if c \<in> F then dfs n out F c else [])
      in es @ dfs_list n out (F - set (entered es)) cs)"

definition events_in :: "bb_event list \<Rightarrow> bb_ref set \<Rightarrow> bool" where
  "events_in es F \<longleftrightarrow> distinct (entered es) \<and> distinct (left es) \<and> set (left es) = set (entered es) \<and> set (entered es) \<subseteq> F"

lemma events_in_seq:
  "events_in xs F \<Longrightarrow> events_in ys (F - set (entered xs)) \<Longrightarrow> events_in (xs @ ys) F"
  by (auto simp: events_in_def)

lemma events_in_visit: "events_in es (F - {b}) \<Longrightarrow> b \<in> F \<Longrightarrow> events_in (Enter b # es @ [Leave b]) F"
  by (auto simp: events_in_def)

lemma dfs_events_in:
  "b \<in> F \<Longrightarrow> events_in (dfs n out F b) F"
  "events_in (dfs_list n out F cs) F"
proof (induction n out F b and n out F cs rule: dfs_dfs_list.induct)
  case (4 n out F c cs)
  then show ?case
    by (cases "c \<in> F") (auto simp: Let_def intro!: events_in_seq)
next
  case (2 n out F b)
  then show ?case by (auto simp: events_in_def)
qed (simp_all add: events_in_def)

text \<open>With enough fuel everything is visited.\<close>

definition covers :: "(bb_ref \<Rightarrow> bb_ref list) \<Rightarrow> bb_ref set \<Rightarrow> bb_event list \<Rightarrow> bb_ref set \<Rightarrow> bool" where
  "covers out F es E \<longleftrightarrow> E \<inter> F \<subseteq> set (entered es) \<and> (\<forall>c\<in>set (entered es). set (out c) \<inter> F \<subseteq> set (entered es))"

lemma fuel_left:
  assumes "finite R" "card (F \<inter> R) \<le> n"
  shows "card ((F - X) \<inter> R) \<le> n"
  using card_mono [of "F \<inter> R" "(F - X) \<inter> R"] assms by fastforce

lemma fuel_visit:
  assumes "finite R" "card (F \<inter> R) \<le> Suc n" "b \<in> F" "b \<in> R"
  shows "card ((F - {b}) \<inter> R) \<le> n"
proof -
  have "(F - {b}) \<inter> R = (F \<inter> R) - {b}" by auto
  then show ?thesis using assms by simp
qed

lemma covers_seq:
  "covers out F xs E \<Longrightarrow> covers out (F - set (entered xs)) ys E' \<Longrightarrow> covers out F (xs @ ys) (E \<union> E')"
  by (auto simp: covers_def)

lemma dfs_covers:
  assumes "finite R"
  shows "(\<forall>c\<in>R. set (out c) \<subseteq> R) \<Longrightarrow> b \<in> F \<Longrightarrow> b \<in> R \<Longrightarrow> card (F \<inter> R) \<le> n \<Longrightarrow> covers out F (dfs n out F b) {b} \<and> set (entered (dfs n out F b)) \<subseteq> R"
    "(\<forall>c\<in>R. set (out c) \<subseteq> R) \<Longrightarrow> set cs \<subseteq> R \<Longrightarrow> card (F \<inter> R) \<le> n \<Longrightarrow> covers out F (dfs_list n out F cs) (set cs) \<and> set (entered (dfs_list n out F cs)) \<subseteq> R"
proof (induction n out F b and n out F cs rule: dfs_dfs_list.induct)
  case (1 out F b)
  then have "F \<inter> R = {}" using assms(1) by simp
  then show ?case using 1 by auto
next
  case (2 n out F b)
  have "covers out (F - {b}) (dfs_list n out (F - {b}) (out b)) (set (out b))
      \<and> set (entered (dfs_list n out (F - {b}) (out b))) \<subseteq> R"
    using 2(1) [OF 2(2) _ fuel_visit [OF assms(1) 2(5,3,4)]] 2(2,4) by blast
  then show ?case using 2(4) by (auto simp: covers_def)
next
  case (4 n out F c cs)
  define es where "es = (if c \<in> F then dfs n out F c else [])"
  have "covers out F es {c} \<and> set (entered es) \<subseteq> R"
  proof (cases "c \<in> F")
    case True
    then show ?thesis using 4(1) [OF True 4(3) True] 4(4,5) by (simp add: es_def)
  qed (simp add: es_def covers_def)
  moreover have "covers out (F - set (entered es)) (dfs_list n out (F - set (entered es)) cs) (set cs)
      \<and> set (entered (dfs_list n out (F - set (entered es)) cs)) \<subseteq> R"
    using 4(2) [OF es_def 4(3) _ fuel_left [OF assms(1) 4(5)]] 4(4) by simp
  moreover have "dfs_list n out F (c # cs) = es @ dfs_list n out (F - set (entered es)) cs"
    by (simp add: es_def Let_def)
  ultimately show ?case
    using covers_seq [of out F es "{c}" _ "set cs"] by auto
qed (simp add: covers_def)

text \<open>Every block but the first is left before one of its predecessors.\<close>

definition later_pred :: "(bb_ref \<Rightarrow> bb_ref list) \<Rightarrow> bb_ref list \<Rightarrow> bb_ref \<Rightarrow> bool" where
  "later_pred out ps c \<longleftrightarrow> (\<exists>xs ys. ps = xs @ ys \<and> c \<in> set xs \<and> (\<exists>d\<in>set ys. c \<in> set (out d)))"

lemma later_pred_append:
  assumes "later_pred out ps c"
  shows "later_pred out (xs @ ps @ ys) c"
proof -
  obtain us vs where "ps = us @ vs" "c \<in> set us" "\<exists>d\<in>set vs. c \<in> set (out d)"
    using assms by (auto simp: later_pred_def)
  then show ?thesis
    unfolding later_pred_def by (intro exI [of _ "xs @ us"] exI [of _ "vs @ ys"]) auto
qed

lemmas later_pred_right = later_pred_append [where ys = "[]", simplified]
lemmas later_pred_left = later_pred_append [where xs = "[]", simplified]

lemma dfs_order:
  "n \<noteq> 0 \<Longrightarrow> \<exists>ps. left (dfs n out F b) = ps @ [b] \<and> (\<forall>c\<in>set ps. later_pred out (ps @ [b]) c)"
  "\<forall>c\<in>set (left (dfs_list n out F cs)). c \<in> set cs \<or> later_pred out (left (dfs_list n out F cs)) c"
proof (induction n out F b and n out F cs rule: dfs_dfs_list.induct)
  case (2 n out F b)
  let ?ps = "left (dfs_list n out (F - {b}) (out b))"
  have "later_pred out (?ps @ [b]) c" if c: "c \<in> set ?ps" for c
    using 2(1) c
  proof (elim ballE disjE)
    assume "c \<in> set (out b)"
    then show ?thesis unfolding later_pred_def using c by (intro exI [of _ ?ps] exI [of _ "[b]"]) simp
  qed (auto intro: later_pred_left)
  then show ?case by auto
next
  case (4 n out F c cs)
  define es where "es = (if c \<in> F then dfs n out F c else [])"
  let ?fs = "dfs_list n out (F - set (entered es)) cs"
  have 1: "d = c \<or> later_pred out (left es) d" if "d \<in> set (left es)" for d
    using 4(1) that by (cases n) (auto simp: es_def split: if_splits)
  have 2: "d \<in> set cs \<or> later_pred out (left ?fs) d" if "d \<in> set (left ?fs)" for d
    using 4(2) [OF es_def] that by blast
  have "left (dfs_list n out F (c # cs)) = left es @ left ?fs"
    by (simp add: es_def Let_def)
  then show ?case
    using 1 2 later_pred_left later_pred_right by fastforce
qed simp_all

section \<open>The traversals follow it\<close>

fun run_events :: "bb_cb \<Rightarrow> bb_cb \<Rightarrow> bb_event list \<Rightarrow> cfg_state \<Rightarrow> cfg_state option" where
  "run_events pre post [] s = Some s"
| "run_events pre post (Enter b # es) s = pre b (mark_bb b s) \<bind> run_events pre post es"
| "run_events pre post (Leave b # es) s = post b s \<bind> run_events pre post es"

lemma run_events_nil [simp]: "run_events pre post [] = Some"
  by (simp add: fun_eq_iff)

lemma run_events_append: "run_events pre post (xs @ ys) s = run_events pre post xs s \<bind> run_events pre post ys"
proof (induction xs arbitrary: s)
  case (Cons x xs)
  then have "run_events pre post (xs @ ys) = (\<lambda>s. run_events pre post xs s \<bind> run_events pre post ys)" by blast
  then show ?case by (cases x) simp_all
qed simp

definition fwd_out :: "cfg_state \<Rightarrow> bb_ref \<Rightarrow> bb_ref list" where
  "fwd_out s b = concat (map (\<lambda>x. case x of None \<Rightarrow> [] | Some c \<Rightarrow> [c])
     [a_next (blocks s b), a_then (blocks s b), a_else (blocks s b)])"

definition bwd_out :: "cfg_state \<Rightarrow> bb_ref \<Rightarrow> bb_ref list" where
  "bwd_out s b = a_prev (blocks s b)"

text \<open>\<open>same_flow s t\<close>: the edges are the same. A function that is called keeps them and the visited counts.\<close>

definition same_edges :: "cfg_state \<Rightarrow> cfg_state \<Rightarrow> bool" where
  "same_edges s t \<longleftrightarrow> (\<forall>c. a_next (blocks t c) = a_next (blocks s c) \<and> a_then (blocks t c) = a_then (blocks s c)
     \<and> a_else (blocks t c) = a_else (blocks s c) \<and> a_prev (blocks t c) = a_prev (blocks s c))"

definition keeps_flow :: "bb_cb \<Rightarrow> bool" where
  "keeps_flow f \<longleftrightarrow> (\<forall>b s t. f b s = Some t \<longrightarrow> same_edges s t \<and> (\<forall>c. a_visited (blocks t c) = a_visited (blocks s c)))"

definition visited_at :: "cint \<Rightarrow> cfg_state \<Rightarrow> bb_ref set \<Rightarrow> bb_ref set \<Rightarrow> cfg_state \<Rightarrow> bool" where
  "visited_at fv m R F s \<longleftrightarrow> same_edges m s \<and> (\<forall>c\<in>R. a_visited (blocks s c) = (if c \<in> F then fv - 1 else fv))"

lemma keeps_no_cb [simp]: "keeps_flow no_cb"
  by (simp add: keeps_flow_def no_cb_def same_edges_def)

lemma same_edges_simps:
  assumes "same_edges s t"
  shows "fwd_out t = fwd_out s" "bwd_out t = bwd_out s"
  using assms by (auto simp: same_edges_def fwd_out_def bwd_out_def fun_eq_iff)

lemma same_edges_trans: "same_edges s t \<Longrightarrow> same_edges t u \<Longrightarrow> same_edges s u"
  by (simp add: same_edges_def)

lemma visited_mark: "visited_at fv m R F s \<Longrightarrow> b \<in> F \<Longrightarrow> visited_at fv m R (F - {b}) (mark_bb b s)"
  by (auto simp: visited_at_def same_edges_def mark_bb_def set_block_def)

lemma visited_cb:
  assumes "keeps_flow f" "visited_at fv m R F s" "f b s = Some t"
  shows "visited_at fv m R F t"
  using assms unfolding keeps_flow_def visited_at_def by (metis same_edges_trans)

lemma run_visited:
  assumes "keeps_flow pre" "keeps_flow post"
  shows "run_events pre post es s = Some t \<Longrightarrow> visited_at fv m R F s \<Longrightarrow> distinct (entered es) \<Longrightarrow> set (entered es) \<subseteq> F
    \<Longrightarrow> visited_at fv m R (F - set (entered es)) t"
proof (induction es arbitrary: s F)
  case (Cons e es)
  show ?case
  proof (cases e)
    case (Enter b)
    then obtain u where u: "pre b (mark_bb b s) = Some u" "run_events pre post es u = Some t"
      using Cons.prems(1) by (auto simp: bind_eq_Some_conv)
    have "visited_at fv m R (F - {b}) u"
      using visited_cb [OF assms(1) visited_mark u(1)] Cons.prems Enter by simp
    then have "visited_at fv m R (F - {b} - set (entered es)) t"
      using Cons.IH [OF u(2)] Cons.prems Enter by auto
    moreover have "F - {b} - set (entered es) = F - set (entered (e # es))" using Enter by auto
    ultimately show ?thesis by simp
  next
    case (Leave b)
    then obtain u where u: "post b s = Some u" "run_events pre post es u = Some t"
      using Cons.prems(1) by (auto simp: bind_eq_Some_conv)
    have "visited_at fv m R F u"
      using visited_cb [OF assms(2) _ u(1)] Cons.prems by simp
    then show ?thesis using Cons.IH [OF u(2)] Cons.prems Leave by simp
  qed
qed simp

text \<open>Edge by edge, a traversal does what the search does.\<close>

definition follows :: "bb_cb \<Rightarrow> bb_cb \<Rightarrow> cint \<Rightarrow> cfg_state \<Rightarrow> bb_ref set \<Rightarrow> (bb_ref \<Rightarrow> bb_ref list) \<Rightarrow> nat
    \<Rightarrow> (bb_ref \<Rightarrow> cfg_state \<Rightarrow> cfg_state option) \<Rightarrow> bool" where
  "follows pre post fv m R out n T \<longleftrightarrow> (\<forall>c F s. c \<in> F \<inter> R \<longrightarrow> card (F \<inter> R) \<le> n \<longrightarrow> visited_at fv m R F s \<longrightarrow>
     T c s = run_events pre post (dfs n out F c) s)"

lemma follows_list:
  assumes f: "keeps_flow pre" "keeps_flow post" "lt_s (fv - 1) fv" "finite R"
    and T: "follows pre post fv m R out n T"
  shows "set cs \<subseteq> R \<Longrightarrow> card (F \<inter> R) \<le> n \<Longrightarrow> visited_at fv m R F s \<Longrightarrow>
    fold (\<lambda>c r. r \<bind> (\<lambda>s. if lt_s (a_visited (blocks s c)) fv then T c s else Some s)) cs (Some s)
      = run_events pre post (dfs_list n out F cs) s"
proof (induction cs arbitrary: F s)
  case (Cons c cs)
  let ?g = "\<lambda>c r. r \<bind> (\<lambda>s. if lt_s (a_visited (blocks s c)) fv then T c s else Some s)"
  define es where "es = (if c \<in> F then dfs n out F c else [])"
  have none: "fold ?g cs None = None" for cs by (induction cs) simp_all
  have "lt_s (a_visited (blocks s c)) fv \<longleftrightarrow> c \<in> F"
    using Cons.prems(1,3) f(3) by (simp add: visited_at_def lt_s_sint)
  then have step: "?g c (Some s) = run_events pre post es s"
    using T Cons.prems by (simp add: follows_def es_def)
  have ev: "events_in es F" using dfs_events_in(1) by (auto simp: es_def events_in_def)
  have "fold ?g cs (Some t) = run_events pre post (dfs_list n out (F - set (entered es)) cs) t"
    if "run_events pre post es s = Some t" for t
  proof (rule Cons.IH)
    show "visited_at fv m R (F - set (entered es)) t"
      using run_visited [OF f(1,2) that Cons.prems(3)] ev by (simp add: events_in_def)
  qed (use Cons.prems fuel_left [OF f(4)] in simp_all)
  then have "fold ?g cs (run_events pre post es s) = run_events pre post (es @ dfs_list n out (F - set (entered es)) cs) s"
    by (cases "run_events pre post es s") (simp_all add: run_events_append none)
  then show ?case
    using step by (simp add: Let_def flip: es_def)
qed simp

lemma follows_visit:
  assumes f: "keeps_flow pre" "keeps_flow post" "lt_s (fv - 1) fv" "finite R" and closed: "\<forall>c\<in>R. set (out c) \<subseteq> R"
    and T: "follows pre post fv m R out n T"
    and v: "\<And>c s F. c \<in> F \<inter> R \<Longrightarrow> card ((F - {c}) \<inter> R) \<le> n \<Longrightarrow> visited_at fv m R F s \<Longrightarrow>
      T' c s = pre c (mark_bb c s) \<bind> (\<lambda>s0. fold (\<lambda>d r. r \<bind> (\<lambda>s. if lt_s (a_visited (blocks s d)) fv then T d s else Some s))
        (out c) (Some s0) \<bind> post c)"
  shows "follows pre post fv m R out (Suc n) T'"
  unfolding follows_def
proof (intro allI impI)
  fix c F s assume c: "c \<in> F \<inter> R" "card (F \<inter> R) \<le> Suc n" "visited_at fv m R F s"
  have fc: "card ((F - {c}) \<inter> R) \<le> n" using fuel_visit [OF f(4) c(2)] c(1) by simp
  have leave: "run_events pre post [Leave c] = post c" by (auto simp: fun_eq_iff)
  have "fold (\<lambda>d r. r \<bind> (\<lambda>s. if lt_s (a_visited (blocks s d)) fv then T d s else Some s)) (out c) (Some s0)
      = run_events pre post (dfs_list n out (F - {c}) (out c)) s0" if "pre c (mark_bb c s) = Some s0" for s0
  proof (rule follows_list [OF f T])
    show "card ((F - {c}) \<inter> R) \<le> n" by (rule fc)
    show "visited_at fv m R (F - {c}) s0" using visited_cb [OF f(1) visited_mark that] c by simp
  qed (use closed c in auto)
  then show "T' c s = run_events pre post (dfs (Suc n) out F c) s"
    unfolding v [OF c(1) fc c(3)] by (cases "pre c (mark_bb c s)") (simp_all add: run_events_append leave)
qed

lemma follows_edge:
  assumes f: "keeps_flow pre" "keeps_flow post" "lt_s (fv - 1) fv" "finite R"
    and T: "follows pre post fv m R out n T"
    and s: "set_option (edge (blocks m b)) \<subseteq> R" "card (F \<inter> R) \<le> n" "visited_at fv m R F s"
    and e: "edge (blocks s b) = edge (blocks m b)"
  defines "go \<equiv> (case edge (blocks s b) of None \<Rightarrow> Some s
    | Some c \<Rightarrow> if lt_s (a_visited (blocks s c)) fv then T c s else Some s)"
    and "all \<equiv> fold (\<lambda>d r. r \<bind> (\<lambda>s. if lt_s (a_visited (blocks s d)) fv then T d s else Some s))
      (case edge (blocks m b) of None \<Rightarrow> [] | Some c \<Rightarrow> [c]) (Some s)"
  shows "go = all" "go = Some t \<Longrightarrow> \<exists>F'. card (F' \<inter> R) \<le> n \<and> visited_at fv m R F' t"
proof -
  show eq: "go = all"
    unfolding go_def all_def e by (simp split: option.split)
  let ?cs = "case edge (blocks m b) of None \<Rightarrow> [] | Some c \<Rightarrow> [c]"
  assume "go = Some t"
  moreover have "all = run_events pre post (dfs_list n out F ?cs) s"
    unfolding all_def using s(1) by (intro follows_list [OF f T _ s(2,3)]) (auto split: option.split)
  ultimately have "run_events pre post (dfs_list n out F ?cs) s = Some t" using eq by simp
  moreover have "events_in (dfs_list n out F ?cs) F" by (rule dfs_events_in)
  ultimately have "visited_at fv m R (F - set (entered (dfs_list n out F ?cs))) t"
    using run_visited [OF f(1,2) _ s(3)] by (simp add: events_in_def)
  then show "\<exists>F'. card (F' \<inter> R) \<le> n \<and> visited_at fv m R F' t"
    using fuel_left [OF f(4) s(2)] by blast
qed

lemma forward_follows:
  assumes "keeps_flow pre" "keeps_flow post" "lt_s (fv - 1) fv" "finite R" "\<forall>c\<in>R. set (fwd_out m c) \<subseteq> R"
  shows "follows pre post fv m R (fwd_out m) n (bb_forward_traversal n fv pre post)"
proof (induction n)
  case 0
  then show ?case using assms(4) by (auto simp: follows_def)
next
  case (Suc n)
  let ?T = "bb_forward_traversal n fv pre post"
  let ?g = "\<lambda>d r. r \<bind> (\<lambda>s. if lt_s (a_visited (blocks s d)) fv then ?T d s else Some s)"
  let ?l = "\<lambda>x. case x of None \<Rightarrow> [] | Some c \<Rightarrow> [c]"
  let ?go = "\<lambda>c edge u. case edge (blocks u c) of None \<Rightarrow> Some u
    | Some d \<Rightarrow> if lt_s (a_visited (blocks u d)) fv then ?T d u else Some u"
  have none: "fold ?g cs None = None" for cs by (induction cs) simp_all
  have via: "?go c edge u = fold ?g (?l (edge (blocks m c))) (Some u)"
    "?go c edge u = Some t \<Longrightarrow> \<exists>F'. card (F' \<inter> R) \<le> n \<and> visited_at fv m R F' t"
    if "c \<in> R" "edge \<in> {a_next, a_then, a_else}" "card (F \<inter> R) \<le> n" "visited_at fv m R F u" for edge u t F c
  proof -
    have "set_option (edge (blocks m c)) \<subseteq> R" using assms(5) that(1,2) by (fastforce simp: fwd_out_def)
    moreover have "edge (blocks u c) = edge (blocks m c)"
      using that(2,4) by (auto simp: visited_at_def same_edges_def)
    ultimately show "?go c edge u = fold ?g (?l (edge (blocks m c))) (Some u)"
      "?go c edge u = Some t \<Longrightarrow> \<exists>F'. card (F' \<inter> R) \<le> n \<and> visited_at fv m R F' t"
      using follows_edge [OF assms(1-4) Suc _ that(3,4), of edge c] by blast+
  qed
  show ?case
  proof (rule follows_visit [OF assms Suc])
    fix c s F assume c: "c \<in> F \<inter> R" "card ((F - {c}) \<inter> R) \<le> n" "visited_at fv m R F s"
    have cR: "c \<in> R" using c by simp
    have "?go c a_next s0 \<bind> (\<lambda>s1. ?go c a_then s1 \<bind> (\<lambda>s2. ?go c a_else s2))
        = fold ?g (fwd_out m c) (Some s0)" if pre: "pre c (mark_bb c s) = Some s0" for s0
    proof (cases "?go c a_next s0")
      case None
      then show ?thesis using via(1) [where ?edge1 = a_next, OF cR _ c(2), where ?u1 = s0] visited_cb [OF assms(1) visited_mark pre] c
        by (simp add: fwd_out_def none)
    next
      case (Some s1)
      have v0: "visited_at fv m R (F - {c}) s0" using visited_cb [OF assms(1) visited_mark pre] c by simp
      obtain F1 where F1: "card (F1 \<inter> R) \<le> n" "visited_at fv m R F1 s1"
        using via(2) [where ?edge1 = a_next, OF cR _ c(2) v0 Some] by auto
      have "?go c a_then s1 \<bind> ?go c a_else = fold ?g (?l (a_then (blocks m c)) @ ?l (a_else (blocks m c))) (Some s1)"
      proof (cases "?go c a_then s1")
        case None
        then show ?thesis using via(1) [where ?edge1 = a_then, OF cR _ F1] by (simp add: none)
      next
        case 2: (Some s2)
        obtain F2 where F2: "card (F2 \<inter> R) \<le> n" "visited_at fv m R F2 s2"
          using via(2) [where ?edge1 = a_then, OF cR _ F1 2] by auto
        have "fold ?g (?l (a_then (blocks m c))) (Some s1) = Some s2"
          using via(1) [where ?edge1 = a_then, OF cR _ F1] 2 by simp
        moreover have "?go c a_else s2 = fold ?g (?l (a_else (blocks m c))) (Some s2)"
          using via(1) [where ?edge1 = a_else, OF cR _ F2] by simp
        ultimately show ?thesis by (simp only: 2 fold_append comp_apply Option.bind.bind_lunit)
      qed
      then show ?thesis
        using Some via(1) [where ?edge1 = a_next, OF cR _ c(2) v0] by (simp add: fwd_out_def)
    qed
    note eq = this
    show "bb_forward_traversal (Suc n) fv pre post c s = pre c (mark_bb c s) \<bind> (\<lambda>s0. fold ?g (fwd_out m c) (Some s0) \<bind> post c)"
    proof (cases "pre c (mark_bb c s)")
      case (Some s0)
      then show ?thesis by (simp add: Let_def flip: eq [OF Some])
    qed simp
  qed
qed

lemma backward_follows:
  assumes "keeps_flow pre" "keeps_flow post" "lt_s (fv - 1) fv" "finite R" "\<forall>c\<in>R. set (bwd_out m c) \<subseteq> R"
  shows "follows pre post fv m R (bwd_out m) n (bb_backward_traversal n fv pre post)"
proof (induction n)
  case 0
  then show ?case using assms(4) by (auto simp: follows_def)
next
  case (Suc n)
  show ?case
  proof (rule follows_visit [OF assms Suc])
    fix c s F assume c: "c \<in> F \<inter> R" "visited_at fv m R F s"
    have "a_prev (blocks s0 c) = bwd_out m c" if "pre c (mark_bb c s) = Some s0" for s0
      using visited_cb [OF assms(1) visited_mark that] c
      by (auto simp: visited_at_def same_edges_def bwd_out_def)
    then show "bb_backward_traversal (Suc n) fv pre post c s = pre c (mark_bb c s) \<bind> (\<lambda>s0. fold (\<lambda>d r. r \<bind> (\<lambda>s.
        if lt_s (a_visited (blocks s d)) fv then bb_backward_traversal n fv pre post d s else Some s))
        (bwd_out m c) (Some s0) \<bind> post c)"
      by (cases "pre c (mark_bb c s)") simp_all
  qed
qed

section \<open>The blocks of a function\<close>

text \<open>Everything that can be reached from a block, and the order of a traversal that starts there.\<close>

definition edges :: "cfg_state \<Rightarrow> bb_ref \<Rightarrow> bb_ref set" where
  "edges s b = succs (blocks s b)"

definition reach_out :: "(bb_ref \<Rightarrow> bb_ref list) \<Rightarrow> bb_ref \<Rightarrow> bb_ref set" where
  "reach_out out b = {(c, d). d \<in> set (out c)}\<^sup>* `` {b}"

definition reach_bbs :: "cfg_state \<Rightarrow> bb_ref \<Rightarrow> bb_ref set" where
  "reach_bbs s b = {(c, d). d \<in> edges s c}\<^sup>* `` {b}"

definition visit_order :: "(bb_ref \<Rightarrow> bb_ref list) \<Rightarrow> bb_ref \<Rightarrow> bb_event list \<Rightarrow> bool" where
  "visit_order out b es \<longleftrightarrow> distinct (entered es) \<and> distinct (left es) \<and> set (entered es) = reach_out out b
     \<and> set (left es) = reach_out out b \<and> (\<exists>ps. left es = ps @ [b] \<and> (\<forall>c\<in>set ps. later_pred out (left es) c))"

lemma set_fwd_out: "set (fwd_out s b) = edges s b"
  by (auto simp: fwd_out_def edges_def succs_def split: option.splits)

lemma reach_out_fwd: "reach_out (fwd_out s) b = reach_bbs s b"
  by (simp add: reach_out_def reach_bbs_def set_fwd_out)

lemma reach_out_start [simp]: "b \<in> reach_out out b"
  by (simp add: reach_out_def)

lemma reach_out_step: "c \<in> reach_out out b \<Longrightarrow> set (out c) \<subseteq> reach_out out b"
  by (auto simp: reach_out_def intro: rtrancl_into_rtrancl)

lemma reach_bbs_step: "c \<in> reach_bbs s b \<Longrightarrow> edges s c \<subseteq> reach_bbs s b"
  using reach_out_step [of c "fwd_out s" b] by (simp add: reach_out_fwd set_fwd_out)

lemma reach_bbs_start [simp]: "b \<in> reach_bbs s b"
  by (simp add: reach_bbs_def)

lemma dfs_visit_order:
  assumes "finite (reach_out out b)" "card (reach_out out b) \<le> n"
  shows "visit_order out b (dfs n out UNIV b)"
proof -
  let ?es = "dfs n out UNIV b" and ?R = "reach_out out b"
  have ne: "n \<noteq> 0" using assms by (metis card_eq_0_iff empty_iff le_zero_eq reach_out_start)
  have ev: "events_in ?es UNIV" by (rule dfs_events_in) simp
  have cov: "covers out UNIV ?es {b}" "set (entered ?es) \<subseteq> ?R"
    using dfs_covers(1) [OF assms(1), of out b UNIV n] assms(2) reach_out_step [of _ out b] by auto
  have "c \<in> set (entered ?es)" if "c \<in> ?R" for c
  proof -
    have "(b, c) \<in> {(c, d). d \<in> set (out c)}\<^sup>*" using that by (simp add: reach_out_def)
    then show ?thesis using cov(1) by (induction rule: rtrancl_induct) (auto simp: covers_def)
  qed
  then have "set (entered ?es) = ?R" using cov(2) by blast
  then show ?thesis
    using ev dfs_order(1) [OF ne, of out UNIV b] by (auto simp: visit_order_def events_in_def)
qed

section \<open>The interface\<close>

text \<open>
  What the functions called by a traversal promise: they neither change the edges nor the visited
  counts. Then the traversal runs them over the reachable blocks, in the order of the search.
\<close>

locale bb_visitor =
  fixes pre post :: bb_cb
  assumes keeps: "keeps_flow pre" "keeps_flow post"
begin

lemma forward:
  assumes "lt_s (fv - 1) fv" "\<And>c. c \<in> reach_out (fwd_out s) b \<Longrightarrow> a_visited (blocks s c) = fv - 1"
    and "finite (reach_out (fwd_out s) b)" "card (reach_out (fwd_out s) b) \<le> n"
  shows "bb_forward_traversal n fv pre post b s = run_events pre post (dfs n (fwd_out s) UNIV b) s"
    "visit_order (fwd_out s) b (dfs n (fwd_out s) UNIV b)"
proof -
  let ?R = "reach_out (fwd_out s) b"
  have "visited_at fv s ?R UNIV s" using assms(2) by (simp add: visited_at_def same_edges_def)
  moreover have "follows pre post fv s ?R (fwd_out s) n (bb_forward_traversal n fv pre post)"
    by (rule forward_follows [OF keeps assms(1,3)]) (use reach_out_step in blast)
  ultimately show "bb_forward_traversal n fv pre post b s = run_events pre post (dfs n (fwd_out s) UNIV b) s"
    using assms(4) by (simp add: follows_def)
qed (rule dfs_visit_order [OF assms(3,4)])

lemma backward:
  assumes "lt_s (fv - 1) fv" "\<And>c. c \<in> reach_out (bwd_out s) b \<Longrightarrow> a_visited (blocks s c) = fv - 1"
    and "finite (reach_out (bwd_out s) b)" "card (reach_out (bwd_out s) b) \<le> n"
  shows "bb_backward_traversal n fv pre post b s = run_events pre post (dfs n (bwd_out s) UNIV b) s"
    "visit_order (bwd_out s) b (dfs n (bwd_out s) UNIV b)"
proof -
  let ?R = "reach_out (bwd_out s) b"
  have "visited_at fv s ?R UNIV s" using assms(2) by (simp add: visited_at_def same_edges_def)
  moreover have "follows pre post fv s ?R (bwd_out s) n (bb_backward_traversal n fv pre post)"
    by (rule backward_follows [OF keeps assms(1,3)]) (use reach_out_step in blast)
  ultimately show "bb_backward_traversal n fv pre post b s = run_events pre post (dfs n (bwd_out s) UNIV b) s"
    using assms(4) by (simp add: follows_def)
qed (rule dfs_visit_order [OF assms(3,4)])

lemma after:
  assumes "run_events pre post es s = Some t" "visit_order out b es"
    and "\<And>c. c \<in> reach_out out b \<Longrightarrow> a_visited (blocks s c) = fv - 1"
  shows "same_edges s t" "c \<in> reach_out out b \<Longrightarrow> a_visited (blocks t c) = fv"
proof -
  let ?R = "reach_out out b"
  have "visited_at fv s ?R UNIV s" using assms(3) by (simp add: visited_at_def same_edges_def)
  then have "visited_at fv s ?R (UNIV - ?R) t"
    using run_visited [OF keeps assms(1)] assms(2) by (simp add: visit_order_def)
  then show "same_edges s t" "c \<in> reach_out out b \<Longrightarrow> a_visited (blocks t c) = fv"
    by (auto simp: visited_at_def)
qed

end

text \<open>A function that is only called before the successors and never ends the program.\<close>

definition visits :: "bb_op \<Rightarrow> bb_ref list \<Rightarrow> cfg_state \<Rightarrow> cfg_state" where
  "visits f ds = fold (\<lambda>b s. f b (mark_bb b s)) ds"

lemma visits_simps [simp]:
  "visits f [] s = s" "visits f (b # ds) s = visits f ds (f b (mark_bb b s))"
  by (simp_all add: visits_def)

lemma run_visits: "run_events (\<lambda>b s. Some (f b s)) no_cb es s = Some (visits f (entered es) s)"
  by (induction es arbitrary: s rule: entered.induct) (simp_all add: no_cb_def)

end
