(* ===== verification/LiveProps.thy ===== *)
theory LiveProps
  imports LiveLocal CfgWalk
begin

text \<open>
  What \<^verbatim>\<open>liveness_analysis\<close> computes for a function: the lists it leaves are the variables
  that are read on some path before they are assigned, and the indices and last uses that
  register allocation relies on are in place.
\<close>

section \<open>Solving a block\<close>

text \<open>What solving block \<open>bb\<close> made of it, with the variables \<open>ws\<close> after it.\<close>

definition solved :: "(var_ref \<Rightarrow> bool) \<Rightarrow> ablock \<Rightarrow> avars \<Rightarrow> ablock \<Rightarrow> bool" where
  "solved g bb ws cc \<longleftrightarrow> used_by ws (a_insns cc) \<and> indexed 0 (a_insns cc)
     \<and> map (\<lambda>i. i\<lparr>i_idx := 0\<rparr>) (a_insns cc) = map (\<lambda>i. i\<lparr>i_idx := 0\<rparr>) (a_insns bb)
     \<and> set (live_gen cc) = set (live_gen bb) \<union> exposed g (a_insns bb)
     \<and> set (live_kill cc) = killed (a_insns bb)
     \<and> live_out cc = live_out bb \<and> succs cc = succs bb"

lemma solved_later: "solved g bb ws cc \<Longrightarrow> later ws us \<Longrightarrow> solved g bb us cc"
  using used_by_later unfolding solved_def by blast

lemma lists_only_fields:
  assumes "lists_only bb cc"
  shows "a_insns cc = a_insns bb" "live_out cc = live_out bb" "succs cc = succs bb"
    "a_next cc = a_next bb" "a_then cc = a_then bb" "a_else cc = a_else bb" "a_prev cc = a_prev bb" "a_visited cc = a_visited bb"
proof -
  let ?e = "\<lambda>bb :: ablock. bb\<lparr>live_gen := [], live_kill := []\<rparr>"
  have e: "?e cc = ?e bb" using assms by (simp add: lists_only_def)
  have "a_insns (?e cc) = a_insns (?e bb)" "live_out (?e cc) = live_out (?e bb)"
    "a_next (?e cc) = a_next (?e bb)" "a_then (?e cc) = a_then (?e bb)"
    "a_else (?e cc) = a_else (?e bb)" "a_prev (?e cc) = a_prev (?e bb)" "a_visited (?e cc) = a_visited (?e bb)"
    by (simp_all only: e)
  then show "a_insns cc = a_insns bb" "live_out cc = live_out bb" "succs cc = succs bb"
    "a_next cc = a_next bb" "a_then cc = a_then bb" "a_else cc = a_else bb" "a_prev cc = a_prev bb" "a_visited cc = a_visited bb"
    by (simp_all add: succs_def)
qed

lemma solve_block:
  assumes "t = bb_reset_and_solve_locals b s"
  shows "later (avars s) (avars t)" "c \<noteq> b \<Longrightarrow> blocks t c = blocks s c"
    "solved (\<lambda>v. is_global (avars s v)) (blocks s b) (avars t) (blocks t b)"
    "a_next (blocks t b) = a_next (blocks s b)" "a_then (blocks t b) = a_then (blocks s b)"
    "a_else (blocks t b) = a_else (blocks s b)" "a_prev (blocks t b) = a_prev (blocks s b)" "a_visited (blocks t b) = a_visited (blocks s b)"
proof -
  let ?bb = "(blocks s b)\<lparr>live_kill := []\<rparr>"
  obtain js ws cc where r: "solve_insns (of_nat 0) (a_insns ?bb) (avars s, ?bb) = (js, ws, cc)"
    using prod_cases3 by blast
  have t: "t = (set_block b (\<lambda>_. cc\<lparr>a_insns := js\<rparr>) (set_block b (\<lambda>bb. bb\<lparr>live_kill := []\<rparr>) s))\<lparr>avars := ws\<rparr>"
    using r by (simp add: assms bb_reset_and_solve_locals_def bb_reset_live_kill_idx_def bb_solve_locals_def Let_def)
  note h = solve_insns_ok [OF r] and l = lists_only_fields [OF solve_insns_ok(2) [OF r]]
  show "later (avars s) (avars t)" "c \<noteq> b \<Longrightarrow> blocks t c = blocks s c"
    using h(1) by (simp_all add: t)
  show "solved (\<lambda>v. is_global (avars s v)) (blocks s b) (avars t) (blocks t b)"
    using h l by (simp add: t solved_def succs_def)
  show "a_next (blocks t b) = a_next (blocks s b)" "a_then (blocks t b) = a_then (blocks s b)"
    "a_else (blocks t b) = a_else (blocks s b)" "a_prev (blocks t b) = a_prev (blocks s b)" "a_visited (blocks t b) = a_visited (blocks s b)"
    using l by (simp_all add: t)
qed

abbreviation solve_cb :: bb_cb where
  "solve_cb \<equiv> \<lambda>b s. Some (bb_reset_and_solve_locals b s)"

lemma keeps_flow_solve: "keeps_flow solve_cb"
proof -
  have "same_edges s (bb_reset_and_solve_locals b s)
    \<and> a_visited (blocks (bb_reset_and_solve_locals b s) c) = a_visited (blocks s c)" for b s c
    using solve_block [OF refl, where b = b and s = s] unfolding same_edges_def by metis
  then show ?thesis by (simp add: keeps_flow_def)
qed

interpretation solver: bb_visitor solve_cb no_cb
  by unfold_locales (rule keeps_flow_solve keeps_no_cb)+

section \<open>Solving all blocks\<close>

lemma mark_bb_simps [simp]:
  "avars (mark_bb b s) = avars s" "a_insns (blocks (mark_bb b s) c) = a_insns (blocks s c)"
  "live_gen (blocks (mark_bb b s) c) = live_gen (blocks s c)" "live_out (blocks (mark_bb b s) c) = live_out (blocks s c)"
  "succs (blocks (mark_bb b s) c) = succs (blocks s c)" "c \<noteq> b \<Longrightarrow> blocks (mark_bb b s) c = blocks s c"
  by (simp_all add: mark_bb_def set_block_def succs_def)

lemma solved_mark [simp]: "solved g (blocks (mark_bb b s) c) ws cc = solved g (blocks s c) ws cc"
  by (simp add: solved_def)

lemma visits_solved:
  assumes "distinct ds" "t = visits bb_reset_and_solve_locals ds s"
  shows "later (avars s) (avars t)" "\<And>c. c \<notin> set ds \<Longrightarrow> blocks t c = blocks s c"
    "\<And>b. b \<in> set ds \<Longrightarrow> solved (\<lambda>v. is_global (avars s v)) (blocks s b) (avars t) (blocks t b)"
proof -
  have "later (avars s) (avars t) \<and> (\<forall>c. c \<notin> set ds \<longrightarrow> blocks t c = blocks s c)
    \<and> (\<forall>b\<in>set ds. solved (\<lambda>v. is_global (avars s v)) (blocks s b) (avars t) (blocks t b))"
    using assms
  proof (induction ds arbitrary: s)
    case (Cons d ds)
    let ?s = "bb_reset_and_solve_locals d (mark_bb d s)"
    note b = solve_block [OF refl, where b = d and s = "mark_bb d s"]
    have IH: "later (avars ?s) (avars t) \<and> (\<forall>c. c \<notin> set ds \<longrightarrow> blocks t c = blocks ?s c)
      \<and> (\<forall>b\<in>set ds. solved (\<lambda>v. is_global (avars ?s v)) (blocks ?s b) (avars t) (blocks t b))"
      using Cons by simp
    have l: "later (avars s) (avars ?s)" using b(1) by simp
    have g: "(\<lambda>v. is_global (avars ?s v)) = (\<lambda>v. is_global (avars s v))"
      using later_global [OF l] by auto
    have "solved (\<lambda>v. is_global (avars s v)) (blocks s d) (avars t) (blocks t d)"
      using IH b(3) Cons.prems(1) by (auto intro: solved_later)
    moreover have same: "blocks ?s c = blocks s c" if "c \<noteq> d" for c
      using b(2) [OF that] that by simp
    moreover have "solved (\<lambda>v. is_global (avars s v)) (blocks s c) (avars t) (blocks t c)" if "c \<in> set ds" for c
    proof -
      have "c \<noteq> d" using that Cons.prems(1) by auto
      then have "blocks ?s c = blocks s c" by (rule same)
      moreover have "solved (\<lambda>v. is_global (avars s v)) (blocks ?s c) (avars t) (blocks t c)"
        using IH that unfolding g by blast
      ultimately show ?thesis by simp
    qed
    ultimately show ?case
      using IH later_trans [OF l] by simp
  qed simp
  then show "later (avars s) (avars t)" "\<And>c. c \<notin> set ds \<Longrightarrow> blocks t c = blocks s c"
    "\<And>b. b \<in> set ds \<Longrightarrow> solved (\<lambda>v. is_global (avars s v)) (blocks s b) (avars t) (blocks t b)"
    by blast+
qed

lemma kill_params_ok:
  shows "avars (kill_params f s) = avars s" "c \<noteq> hd (a_bbs f) \<Longrightarrow> blocks (kill_params f s) c = blocks s c"
    "set (live_kill (blocks (kill_params f s) (hd (a_bbs f)))) = set (live_kill (blocks s (hd (a_bbs f)))) \<union> set (a_params f)"
    "(blocks (kill_params f s) c)\<lparr>live_kill := []\<rparr> = (blocks s c)\<lparr>live_kill := []\<rparr>"
proof -
  let ?r = "\<lambda>ps s. fold (\<lambda>v. set_block (hd (a_bbs f)) (bb_add_killed_var v)) ps s"
  have "avars (?r ps s) = avars s \<and> (c \<noteq> hd (a_bbs f) \<longrightarrow> blocks (?r ps s) c = blocks s c)
    \<and> set (live_kill (blocks (?r ps s) (hd (a_bbs f)))) = set (live_kill (blocks s (hd (a_bbs f)))) \<union> set ps
    \<and> (blocks (?r ps s) c)\<lparr>live_kill := []\<rparr> = (blocks s c)\<lparr>live_kill := []\<rparr>" for ps c
    by (induction ps arbitrary: s) (auto simp: bb_add_killed_var_def set_block_def)
  then show "avars (kill_params f s) = avars s" "c \<noteq> hd (a_bbs f) \<Longrightarrow> blocks (kill_params f s) c = blocks s c"
    "set (live_kill (blocks (kill_params f s) (hd (a_bbs f)))) = set (live_kill (blocks s (hd (a_bbs f)))) \<union> set (a_params f)"
    "(blocks (kill_params f s) c)\<lparr>live_kill := []\<rparr> = (blocks s c)\<lparr>live_kill := []\<rparr>"
    by (simp_all add: kill_params_def)
qed

section \<open>The specification\<close>

text \<open>
  \<open>live_start s f v b\<close>: from the start of block \<open>b\<close> of function \<open>f\<close> there is a path that reads \<open>v\<close> before
  it assigns it. The first block assigns the parameters.
\<close>

inductive live_start :: "cfg_state \<Rightarrow> afunc \<Rightarrow> var_ref \<Rightarrow> bb_ref \<Rightarrow> bool"
  for s :: cfg_state and f :: afunc and v :: var_ref
where
  read: "v \<in> exposed (\<lambda>v. is_global (avars s v)) (a_insns (blocks s b)) \<Longrightarrow> live_start s f v b"
| through: "v \<notin> killed (a_insns (blocks s b)) \<Longrightarrow> b \<noteq> hd (a_bbs f) \<or> v \<notin> set (a_params f)
    \<Longrightarrow> c \<in> edges s b \<Longrightarrow> live_start s f v c \<Longrightarrow> live_start s f v b"

definition live_end :: "cfg_state \<Rightarrow> afunc \<Rightarrow> bb_ref \<Rightarrow> var_ref set" where
  "live_end s f b = {v. \<exists>c\<in>edges s b. live_start s f v c}"

text \<open>
  What the analysis may start from: every block has been visited as often as the function,
  the lists are empty, the blocks in the order from the exit are those that can be reached,
  and the variables read fit the array of the merge.
\<close>

definition live_ready :: "cfg_state \<Rightarrow> afunc \<Rightarrow> bool" where
  "live_ready s f \<longleftrightarrow> a_bbs f \<noteq> [] \<and> lt_s (a_fvisited f) (a_fvisited f + 1)
     \<and> (\<forall>c\<in>set (a_rpo_r f). a_visited (blocks s c) = a_fvisited f)
     \<and> (\<forall>c. live_gen (blocks s c) = [] \<and> live_out (blocks s c) = [])
     \<and> set (a_rpo_r f) = reach_bbs s (hd (a_bbs f))
     \<and> card (\<Union>b\<in>set (a_rpo_r f). exposed (\<lambda>v. is_global (avars s v)) (a_insns (blocks s b)))
         \<le> MAX_ANALYSIS_STACK_SIZE"

definition live_fuel :: "afunc \<Rightarrow> nat" where
  "live_fuel f = Suc (card (set (a_rpo_r f)) * MAX_ANALYSIS_STACK_SIZE)"

lemma live_at_start:
  assumes "\<And>b. b \<in> R \<Longrightarrow> set (live_gen (bl b)) = exposed (\<lambda>v. is_global (avars s v)) (a_insns (blocks s b))"
    and "\<And>b. b \<in> R \<Longrightarrow> set (live_kill (bl b)) = killed (a_insns (blocks s b))
        \<union> (if b = hd (a_bbs f) then set (a_params f) else {})"
    and "\<And>b. b \<in> R \<Longrightarrow> succs (bl b) = edges s b \<and> edges s b \<subseteq> R" and "b \<in> R"
  shows "live_at bl R v b \<longleftrightarrow> live_start s f v b"
proof
  assume "live_at bl R v b"
  then show "live_start s f v b"
    using assms(4)
  proof induction
    case (read b)
    then show ?case using assms(1) by (auto intro: live_start.read)
  next
    case (through b c)
    then show ?case
      using assms(2,3) [of b] by (intro live_start.through [of v s b f c]) (auto split: if_splits)
  qed
next
  assume "live_start s f v b"
  then show "live_at bl R v b"
    using assms(4)
  proof induction
    case (read b)
    then show ?case using assms(1) by (auto intro: live_at.read)
  next
    case (through b c)
    then show ?case
      using assms(2,3) [of b] by (intro live_at.through [of b R v bl c]) auto
  qed
qed

text \<open>The whole analysis of one function, on its way through the two halves.\<close>

lemma analysis_ok:
  assumes ready: "live_ready s f" and n: "live_fuel f \<le> n"
  obtains t where "liveness_analysis n [f] s = Some ([f\<lparr>a_fvisited := a_fvisited f + 1\<rparr>], t)"
    "later (avars s) (avars t)"
    "\<And>b. b \<in> set (a_rpo_r f) \<Longrightarrow> used_by (avars t) (a_insns (blocks t b)) \<and> indexed 0 (a_insns (blocks t b))
       \<and> map (\<lambda>i. i\<lparr>i_idx := 0\<rparr>) (a_insns (blocks t b)) = map (\<lambda>i. i\<lparr>i_idx := 0\<rparr>) (a_insns (blocks s b))
       \<and> killed (a_insns (blocks s b)) \<subseteq> set (live_kill (blocks t b))
       \<and> set (live_out (blocks t b)) = live_end s f b"
proof -
  let ?f = "f\<lparr>a_fvisited := a_fvisited f + 1\<rparr>" and ?b0 = "hd (a_bbs f)" and ?R = "set (a_rpo_r f)"
  let ?g = "\<lambda>v. is_global (avars s v)"
  have R: "?R = reach_bbs s ?b0" and ne: "a_bbs f \<noteq> []"
    and start: "\<And>c. c \<in> ?R \<Longrightarrow> a_visited (blocks s c) = a_fvisited f" "\<And>c. live_gen (blocks s c) = []"
      "\<And>c. live_out (blocks s c) = []"
    and few: "card (\<Union>b\<in>?R. exposed ?g (a_insns (blocks s b))) \<le> MAX_ANALYSIS_STACK_SIZE"
    using ready unfolding live_ready_def by blast+
  have "card ?R \<le> card ?R * MAX_ANALYSIS_STACK_SIZE"
    by (simp add: MAX_ANALYSIS_STACK_SIZE_def)
  then have cR: "card ?R \<le> n" and fuel: "card ?R * MAX_ANALYSIS_STACK_SIZE < n"
    using n unfolding live_fuel_def by linarith+
  have fin: "finite (reach_bbs s ?b0)" "card (reach_bbs s ?b0) \<le> n"
    using R [symmetric] cR by simp_all
  have lt: "lt_s (a_fvisited f + 1 - 1) (a_fvisited f + 1)"
    using ready by (simp add: live_ready_def)
  define ds where "ds = entered (dfs n (fwd_out s) UNIV ?b0)"
  have walk: "bb_forward_traversal n (a_fvisited f + 1) solve_cb no_cb ?b0 s
      = Some (visits bb_reset_and_solve_locals ds s)" "distinct ds" "set ds = ?R"
    using solver.forward [OF lt, of s ?b0 n] fin start(1) R
    by (simp_all add: reach_out_fwd run_visits ds_def visit_order_def)
  define s1 where "s1 = visits bb_reset_and_solve_locals ds s"
  define s2 where "s2 = kill_params ?f s1"
  note v = visits_solved [OF walk(2) s1_def]
  note k = kill_params_ok [where f = ?f and s = s1, folded s2_def]
  have same: "a_insns (blocks s2 b) = a_insns (blocks s1 b)" "live_out (blocks s2 b) = live_out (blocks s1 b)"
    "live_gen (blocks s2 b) = live_gen (blocks s1 b)" "succs (blocks s2 b) = succs (blocks s1 b)" for b
  proof -
    let ?e = "\<lambda>bb :: ablock. bb\<lparr>live_kill := []\<rparr>"
    have "a_insns (?e (blocks s2 b)) = a_insns (?e (blocks s1 b))" "live_out (?e (blocks s2 b)) = live_out (?e (blocks s1 b))"
      "live_gen (?e (blocks s2 b)) = live_gen (?e (blocks s1 b))" "succs (?e (blocks s2 b)) = succs (?e (blocks s1 b))"
      by (simp_all only: k(4))
    then show "a_insns (blocks s2 b) = a_insns (blocks s1 b)" "live_out (blocks s2 b) = live_out (blocks s1 b)"
      "live_gen (blocks s2 b) = live_gen (blocks s1 b)" "succs (blocks s2 b) = succs (blocks s1 b)"
      by (simp_all add: succs_def)
  qed
  have gen: "set (live_gen (blocks s2 b)) = exposed ?g (a_insns (blocks s b))"
    and kil: "set (live_kill (blocks s2 b)) = killed (a_insns (blocks s b)) \<union> (if b = ?b0 then set (a_params f) else {})"
    and suc: "succs (blocks s2 b) = edges s b \<and> edges s b \<subseteq> ?R" if "b \<in> ?R" for b
  proof -
    have sv: "solved ?g (blocks s b) (avars s1) (blocks s1 b)"
      using v(3) that walk(3) by simp
    show "set (live_gen (blocks s2 b)) = exposed ?g (a_insns (blocks s b))"
      using sv by (simp add: same solved_def start)
    show "set (live_kill (blocks s2 b)) = killed (a_insns (blocks s b)) \<union> (if b = ?b0 then set (a_params f) else {})"
      using sv k(2,3) by (cases "b = ?b0") (auto simp: solved_def)
    show "succs (blocks s2 b) = edges s b \<and> edges s b \<subseteq> ?R"
      using sv that reach_bbs_step R by (simp add: same solved_def edges_def)
  qed
  have out0: "live_out (blocks s2 b) = []" for b
    using v(2,3) walk(3) start(3) by (cases "b \<in> ?R") (auto simp: same solved_def)
  have "near (blocks s2) ?R = ?R"
    using suc by (auto simp: near_def)
  then have "card (used_vars (blocks s2) ?R) \<le> MAX_ANALYSIS_STACK_SIZE"
    using few gen by (simp add: used_vars_def)
  from live_iterate_exact [OF out0 this fuel]
  obtain t where t: "live_iterate n (a_rpo_r f) s2 = Some t" "only_live s2 t"
      "\<And>b. set (live_out (blocks t b)) = (if b \<in> ?R then live_after (blocks s2) ?R b else {})"
    by blast
  have run: "liveness_analysis n [f] s = Some ([?f], t)"
    using walk(1) t(1) ne by (simp add: liveness_analysis_def solve_func_def Let_def flip: s1_def s2_def)
  have out: "set (live_out (blocks t b)) = live_end s f b" if "b \<in> ?R" for b
  proof -
    have "\<exists>c\<in>edges s b. live_at (blocks s2) ?R v c" if "live_start s f v c" "c \<in> edges s b" for v c
      using live_at_start [OF gen kil suc, of c v] suc [OF \<open>b \<in> ?R\<close>] that by blast
    moreover have "\<exists>c\<in>edges s b. live_start s f v c" if "live_at (blocks s2) ?R v c" "c \<in> edges s b" for v c
      using live_at_start [OF gen kil suc, of c v] suc [OF \<open>b \<in> ?R\<close>] that by blast
    ultimately show ?thesis
      using that t(3) [of b] suc [OF that] unfolding live_after_def live_end_def by auto
  qed
  have keep: "a_insns (blocks t b) = a_insns (blocks s2 b)" "live_kill (blocks t b) = live_kill (blocks s2 b)" for b
  proof -
    have "a_insns (no_live (blocks t b)) = a_insns (no_live (blocks s2 b))"
      "live_kill (no_live (blocks t b)) = live_kill (no_live (blocks s2 b))"
      using t(2) by (simp_all add: only_live_def)
    then show "a_insns (blocks t b) = a_insns (blocks s2 b)" "live_kill (blocks t b) = live_kill (blocks s2 b)"
      by (simp_all add: no_live_def)
  qed
  have av: "avars t = avars s1"
    using t(2) k(1) by (simp add: only_live_def)
  show thesis
  proof (rule that [OF run])
    show "later (avars s) (avars t)"
      using v(1) av by simp
    show "used_by (avars t) (a_insns (blocks t b)) \<and> indexed 0 (a_insns (blocks t b))
       \<and> map (\<lambda>i. i\<lparr>i_idx := 0\<rparr>) (a_insns (blocks t b)) = map (\<lambda>i. i\<lparr>i_idx := 0\<rparr>) (a_insns (blocks s b))
       \<and> killed (a_insns (blocks s b)) \<subseteq> set (live_kill (blocks t b))
       \<and> set (live_out (blocks t b)) = live_end s f b" if "b \<in> ?R" for b
      using v(3) [of b] that walk(3) kil [OF that] out [OF that] by (simp add: keep same av solved_def)
  qed
qed

end
