(* ===== verification/RegProps.thy ===== *)
theory RegProps
  imports RegBlock LiveProps
begin

text \<open>
  Register allocation is correct on blocks that compute: between blocks every variable that
  is needed later is at home, in its stack slot or as a constant; the code allocated for a
  block takes such a state to the next one while it computes what the block computes.
\<close>

section \<open>Runs of instructions\<close>

fun need :: "var_ref set \<Rightarrow> ainsn list \<Rightarrow> var_ref set" where
  "need E [] = E"
| "need E (i # is) = uses i \<union> (need E is - set_option (rd i))"

lemma need_sub: "need E is \<subseteq> E \<union> (\<Union>i\<in>set is. uses i)"
  by (induction "is") auto

text \<open>The indices of the instructions, and the last uses of the variables needed after them.\<close>

definition idx_ok :: "actx \<Rightarrow> ablock \<Rightarrow> var_ref set \<Rightarrow> ainsn list \<Rightarrow> bool" where
  "idx_ok c bb E is \<longleftrightarrow> sorted_wrt (\<lambda>i j. sint (i_idx i) \<le> sint (i_idx j)) is
     \<and> (\<forall>i\<in>set is. 0 \<le> sint (i_idx i)) \<and> used_by (cvs c) is
     \<and> (\<forall>v\<in>E. consumed (cvs c v) \<noteq> - 1
           \<and> (is_global (cvs c v) \<or> check_live_out bb v \<or> (\<forall>i\<in>set is. sint (i_idx i) \<le> sint (consumed (cvs c v)))))"

lemma idx_ok_tail: "idx_ok c bb E (i # is) \<Longrightarrow> idx_ok c bb E is"
  by (auto simp: idx_ok_def used_by_def)

lemma idx_ok_head:
  assumes "idx_ok c bb E (i # is)" "v \<in> need E (i # is)"
  shows "is_global (cvs c v) \<or> check_live_out bb v \<or> \<not> lt_s (consumed (cvs c v)) (i_idx i)"
proof -
  have "v \<in> E \<or> (\<exists>j\<in>set (i # is). v \<in> uses j)"
    using assms(2) need_sub [of E "i # is"] by blast
  then show ?thesis
  proof
    assume "v \<in> E"
    then show ?thesis using assms(1) by (auto simp: idx_ok_def lt_s_sint)
  next
    assume "\<exists>j\<in>set (i # is). v \<in> uses j"
    then obtain j where j: "j \<in> set (i # is)" "v \<in> uses j" by blast
    have "sint (i_idx i) \<le> sint (i_idx j)"
      using assms(1) j(1) by (auto simp: idx_ok_def)
    moreover have "sint (i_idx j) \<le> sint (consumed (cvs c v))"
      using assms(1) j unfolding idx_ok_def used_by_def by blast
    ultimately show ?thesis by (simp add: lt_s_sint)
  qed
qed

lemma idx_ok_dead:
  assumes "idx_ok c bb E is" "consumed (cvs c d) = - 1"
  shows "d \<notin> need E is"
proof
  assume "d \<in> need E is"
  then have "d \<in> E \<or> (\<exists>j\<in>set is. d \<in> uses j)"
    using need_sub [of E "is"] by blast
  then show False
  proof
    assume "\<exists>j\<in>set is. d \<in> uses j"
    then obtain j where j: "j \<in> set is" "d \<in> uses j" by blast
    then have "0 \<le> sint (i_idx j)" "sint (i_idx j) \<le> sint (consumed (cvs c d))"
      using assms(1) unfolding idx_ok_def used_by_def by blast+
    then show False using assms(2) by simp
  qed (use assms in \<open>auto simp: idx_ok_def\<close>)
qed

lemma alloc_insns_ok:
  assumes "rep c (3 * length is + k) env (need E is) st s" "\<And>i. i \<in> set is \<Longrightarrow> \<exists>d. computes c i d"
    "idx_ok c bb E is" "s_run ext (ssa_vars (cvs c)) (map sinsn.truncate is) env = Some env'"
  shows "\<exists>st' s'. alloc_insns cf bb (is @ js) ca st = alloc_insns cf bb js ca st' \<and> leads st s st' s'
    \<and> rep c k env' E st' s'"
  using assms
proof (induction "is" arbitrary: env st s)
  case Nil
  then show ?case
    using leads_same [OF refl] by auto
next
  case (Cons i "is")
  obtain d where d: "computes c i d" using Cons.prems(2) by auto
  then have rd: "rd i = Some d" "d \<notin> uses i" by (simp_all add: computes_def)
  obtain env1 where e: "s_step ext (ssa_vars (cvs c)) (sinsn.truncate i) env = Some env1"
      "s_run ext (ssa_vars (cvs c)) (map sinsn.truncate is) env1 = Some env'"
    using Cons.prems(4) by (auto split: option.splits)
  have rep: "rep c ((3 * length is + k) + 3) env (need E (i # is)) st s"
    using Cons.prems(1) by (simp add: algebra_simps)
  obtain st1 s1 where 1: "alloc_insn cf bb i (is @ js) ca st = Some (ca, st1)" "leads st s st1 s1"
      "rep c (3 * length is + k) env1 (need E is) st1 s1"
    using insn_step_ok [OF rep d e(1), of "need E is" bb cf "is @ js" ca] rd idx_ok_head [OF Cons.prems(3)]
      idx_ok_dead [OF idx_ok_tail [OF Cons.prems(3)], of d] by auto
  obtain st2 s2 where 2: "alloc_insns cf bb (is @ js) ca st1 = alloc_insns cf bb js ca st2" "leads st1 s1 st2 s2"
      "rep c k env' E st2 s2"
    using Cons.IH [OF 1(3) _ idx_ok_tail [OF Cons.prems(3)] e(2)] Cons.prems(2) by auto
  show ?case
    using 1(1) 2 leads_trans [OF 1(2) 2(2)] by auto
qed

section \<open>The end of a block\<close>

lemma spill_live_out_ok:
  assumes rep: "rep c (k + 8) env E st s" and kill: "ckill c = set (live_kill bb)"
    and E: "\<And>v. v \<in> E \<Longrightarrow> is_global (cvs c v) \<or> check_live_out bb v"
  shows "\<exists>s'. leads st s (spill_live_out bb st) s' \<and> rep c k env E (spill_live_out bb st) s' \<and> reg s' = reg s
    \<and> (\<forall>i<8. at (spill_live_out bb st) i = None)"
proof -
  let ?f = "\<lambda>i v st. if \<not> check_live_out bb v then drop_reg i st
     else if \<not> var_check_killed v bb then drop_reg i st else spill_var v i st"
  define g where "g = (\<lambda>i st. case at st i of None \<Rightarrow> st | Some v \<Rightarrow> ?f i v st)"
  have step: "\<exists>s'. leads t u (g i t) s' \<and> rep c m env E (g i t) s' \<and> reg s' = reg u
      \<and> at (g i t) i = None \<and> (\<forall>j. j \<noteq> i \<longrightarrow> at (g i t) j = at t j)"
    if rt: "rep c (Suc m) env E t u" and i: "i < 8" for i t u m
  proof (cases "at t i")
    case None
    then show ?thesis
      using rep_less [OF rt subset_refl, of m] by (intro exI [of _ u]) (simp add: g_def leads_same)
  next
    case (Some v)
    have len: "length (regs t) = 8" using rep_regs(1) [OF rt] .
    show ?thesis
    proof (cases "check_live_out bb v \<and> var_check_killed v bb")
      case True
      then show ?thesis
        using spill_rep [OF rt i Some] spill_at [OF len i Some] Some by (auto simp: g_def)
    next
      case False
      then have drop: "g i t = drop_reg i t" using Some by (auto simp: g_def)
      have "\<not> polluted (regs t ! i)" if "v \<in> E"
        using False that E [of v] rep_regs(3) [OF rt i Some] kill by (auto simp: var_check_killed_def)
      then have "rep c m env E (drop_reg i t) u"
        using rep_less [OF rt subset_refl, of m] i Some by (intro drop_rep) auto
      then show ?thesis
        unfolding drop using drop_at [OF len i Some] by (intro exI [of _ u]) (simp add: leads_same)
    qed
  qed
  have "\<exists>s'. leads st s (fold g [0..<n] st) s' \<and> rep c (k + (8 - n)) env E (fold g [0..<n] st) s' \<and> reg s' = reg s
      \<and> (\<forall>i<n. at (fold g [0..<n] st) i = None)" if "n \<le> 8" for n
    using that
  proof (induction n)
    case 0
    then show ?case using rep leads_same [OF refl] by auto
  next
    case (Suc n)
    let ?t = "fold g [0..<n] st"
    have m: "k + (8 - n) = Suc (k + (8 - Suc n))" and n: "n \<le> 8" using Suc.prems by simp_all
    obtain u where u: "leads st s ?t u" "rep c (Suc (k + (8 - Suc n))) env E ?t u" "reg u = reg s" "\<forall>i<n. at ?t i = None"
      using Suc.IH [OF n] unfolding m by blast
    obtain s' where s': "leads ?t u (g n ?t) s'" "rep c (k + (8 - Suc n)) env E (g n ?t) s'" "reg s' = reg u"
        "at (g n ?t) n = None" "\<forall>j. j \<noteq> n \<longrightarrow> at (g n ?t) j = at ?t j"
      using step [OF u(2), of n] Suc.prems unfolding Suc_le_eq by blast
    have f: "fold g [0..<Suc n] st = g n ?t" by simp
    have "at (g n ?t) i = None" if "i < Suc n" for i
      using s'(4,5) u(4) that by (cases "i = n") auto
    moreover have "leads st s (g n ?t) s'" "reg s' = reg s"
      using leads_trans [OF u(1) s'(1)] s'(3) u(3) by simp_all
    ultimately show ?case
      unfolding f using s'(2) by (intro exI [of _ s']) (simp only: simp_thms, simp)
  qed
  from this [of 8] show ?thesis
    by (simp add: spill_live_out_def each_reg_def REG_CNT_def g_def)
qed

text \<open>Every variable of \<open>N\<close> is in its slot or constant, and no register is taken.\<close>

definition homed :: "actx \<Rightarrow> nat \<Rightarrow> senv \<Rightarrow> var_ref set \<Rightarrow> ra \<Rightarrow> ph2_state \<Rightarrow> bool" where
  "homed c k env N st s \<longleftrightarrow> spv s = csp c \<and> gpv s = cgp c \<and> N \<subseteq> cvars c
     \<and> (\<forall>v. stat (rvs st v) = stat (cvs c v)) \<and> (\<forall>v\<in>cvars c. \<not> v_ofs_top (cvs c v))
     \<and> length (regs st) = 8 \<and> (\<forall>i<8. at st i = None) \<and> slots_ok c k st
     \<and> (\<forall>v\<in>N. if is_const (cvs c v) then env v = init_val (cvs c v) else in_slot c (rvs st) s v (env v))"

lemma homed_rep: "homed c k env N st s \<longleftrightarrow> rep c k env N st s \<and> (\<forall>i<8. at st i = None)"
proof
  assume h: "homed c k env N st s"
  then have "regs_ok c st"
    by (intro regs_okI) (auto simp: homed_def)
  with h show "rep c k env N st s \<and> (\<forall>i<8. at st i = None)"
    by (auto simp: homed_def rep_def split: if_splits)
next
  assume h: "rep c k env N st s \<and> (\<forall>i<8. at st i = None)"
  then have "\<not> dirty st v" for v by (auto simp: dirty_def)
  with h show "homed c k env N st s"
    by (auto simp: homed_def rep_def regs_ok_def REG_CNT_def split: if_splits)
qed

text \<open>What liveness analysis provides for a block, and the variables it has to leave at home.\<close>

definition block_ready :: "actx \<Rightarrow> ablock \<Rightarrow> bool" where
  "block_ready c bb \<longleftrightarrow> indexed 0 (a_insns bb) \<and> length (a_insns bb) < 2 ^ 31 \<and> used_by (cvs c) (a_insns bb)
     \<and> ckill c = set (live_kill bb) \<and> (\<forall>v\<in>set (live_out bb). 0 \<le> sint (consumed (cvs c v)))"

definition block_out :: "actx \<Rightarrow> ablock \<Rightarrow> var_ref set" where
  "block_out c bb = {v \<in> cvars c. is_global (cvs c v) \<and> consumed (cvs c v) \<noteq> - 1} \<union> set (live_out bb)"

lemma block_idx_ok:
  assumes "block_ready c bb" "set is \<subseteq> set (a_insns bb)" "is = take n (a_insns bb)"
    and E: "\<And>v. v \<in> E - block_out c bb \<Longrightarrow> \<forall>i\<in>set is. sint (i_idx i) \<le> sint (consumed (cvs c v))"
      "\<And>v. v \<in> E - block_out c bb \<Longrightarrow> 0 \<le> sint (consumed (cvs c v))"
  shows "idx_ok c bb E is"
proof -
  have idx: "sint (i_idx (is ! j)) = int j" if "j < length is" for j
    using assms(1) that unfolding assms(3) block_ready_def indexed_def by (simp add: sint_small)
  have "sorted_wrt (\<lambda>i j. sint (i_idx i) \<le> sint (i_idx j)) is"
    by (simp add: sorted_wrt_iff_nth_less idx)
  moreover have "\<forall>i\<in>set is. 0 \<le> sint (i_idx i)"
    using idx by (auto simp: in_set_conv_nth)
  moreover have "used_by (cvs c) is"
    using assms(1,2) unfolding block_ready_def used_by_def by blast
  moreover have "consumed (cvs c v) \<noteq> - 1 \<and> (is_global (cvs c v) \<or> check_live_out bb v
      \<or> (\<forall>i\<in>set is. sint (i_idx i) \<le> sint (consumed (cvs c v))))" if "v \<in> E" for v
  proof (cases "v \<in> block_out c bb")
    case True
    have "consumed (cvs c v) \<noteq> - 1"
    proof (cases "v \<in> set (live_out bb)")
      case True
      then have "0 \<le> sint (consumed (cvs c v))" using assms(1) by (simp add: block_ready_def)
      then show ?thesis by auto
    qed (use True in \<open>simp add: block_out_def\<close>)
    with True show ?thesis by (auto simp: block_out_def check_live_out_def)
  next
    case False
    then show ?thesis using E [of v] that by auto
  qed
  ultimately show ?thesis by (simp add: idx_ok_def)
qed

lemma alloc_body_ok:
  assumes h: "homed c (3 * length is + k) env (need E is) st s" and i: "\<And>i. i \<in> set is \<Longrightarrow> \<exists>d. computes c i d"
    and ok: "idx_ok c bb E is" and run: "s_run ext (ssa_vars (cvs c)) (map sinsn.truncate is) env = Some env'"
  shows "\<exists>st' s'. alloc_insns cf bb (is @ js) ca st = alloc_insns cf bb js ca st' \<and> leads st s st' s'
    \<and> rep c k env' E st' s'"
  using alloc_insns_ok [OF _ i ok run] h by (simp add: homed_rep)

lemma homed_code [simp]: "homed c k env N (st\<lparr>code := cs\<rparr>) s = homed c k env N st s"
  by (simp add: homed_def slots_ok_def at_def)

lemma homed_emit [simp]: "homed c k env N (bb_add_ph2_ir ir st) s = homed c k env N st s"
  by (simp add: homed_rep)

section \<open>Blocks\<close>

definition computing :: "actx \<Rightarrow> ainsn list \<Rightarrow> bool" where
  "computing c is \<longleftrightarrow> (\<forall>i\<in>set is. \<exists>d. computes c i d)"

lemma block_ready_visited [simp]:
  "block_ready c (bb\<lparr>a_visited := n\<rparr>) = block_ready c bb" "block_out c (bb\<lparr>a_visited := n\<rparr>) = block_out c bb"
  by (simp_all add: block_ready_def block_out_def)

lemma block_out_live: "v \<in> block_out c bb \<Longrightarrow> is_global (cvs c v) \<or> check_live_out bb v"
  by (auto simp: block_out_def check_live_out_def)

lemma alloc_jump_code: "\<exists>js. alloc_jump f bl b st = st\<lparr>code := code st @ js\<rparr> \<and> (\<forall>j\<in>set js. op j = OP_jump \<and> next_bb j = a_next (bl b))"
  by (auto simp: alloc_jump_def bb_add_ph2_ir_def new_ph2_ir_def split: option.split
      intro: exI [of _ "[]"] exI [of _ "[(new_ph2_ir OP_jump)\<lparr>next_bb := Some _\<rparr>]"])

text \<open>
  C6. Take a block that ends without a branch and whose instructions compute values. If every variable
  needed by the block or after it is at home before, the code that \<open>reg_alloc\<close> emits for the block
  runs to a state where every variable needed after the block is at home with the value that the
  SSA instructions give it; a jump to the next block may follow.
\<close>
theorem alloc_block_correct:
  assumes "homed c (3 * length (a_insns (bl b)) + 8 + k) env (need (block_out c (bl b)) (a_insns (bl b))) st s"
    and "block_ready c (bl b)" and "computing c (a_insns (bl b))" and "a_next (bl b) \<noteq> None"
    and "s_run ext (ssa_vars (cvs c)) (map sinsn.truncate (a_insns (bl b))) env = Some env'"
  shows "\<exists>bl' st' cs js s'. alloc_block cf f b (bl, st) = Some (bl', st')
    \<and> a_code (bl' b) = a_code (bl b) @ cs @ js \<and> (\<forall>j\<in>set js. op j = OP_jump \<and> next_bb j = a_next (bl b))
    \<and> ph2_run cs s = Some s' \<and> homed c k env' (block_out c (bl b)) st' s'"
proof -
  let ?bb = "(bl b)\<lparr>a_visited := a_visited (bl b) + 1\<rparr>" and ?is = "a_insns (bl b)"
  let ?bl = "bl(b := ?bb)" and ?st = "st\<lparr>code := a_code (bl b)\<rparr>"
  have h: "homed c (3 * length ?is + (8 + k)) env (need (block_out c (bl b)) ?is) ?st s"
    using assms(1) by (simp add: add.assoc)
  have ok: "idx_ok c ?bb (block_out c (bl b)) ?is"
    using assms(2) by (intro block_idx_ok [where n = "length ?is"]) simp_all
  obtain st1 s1 where 1: "alloc_insns cf ?bb (?is @ []) no_args ?st = alloc_insns cf ?bb [] no_args st1"
      "leads ?st s st1 s1" "rep c (8 + k) env' (block_out c (bl b)) st1 s1"
    using alloc_body_ok [OF h _ ok assms(5)] assms(3) unfolding computing_def by blast
  have rep1: "rep c (k + 8) env' (block_out c (bl b)) st1 s1" using 1(3) by (simp add: add.commute)
  have kill: "ckill c = set (live_kill ?bb)" using assms(2) by (simp add: block_ready_def)
  obtain s2 where 2: "leads st1 s1 (spill_live_out ?bb st1) s2"
      "rep c k env' (block_out c (bl b)) (spill_live_out ?bb st1) s2" "\<forall>i<8. at (spill_live_out ?bb st1) i = None"
    using spill_live_out_ok [OF rep1 kill] block_out_live [of _ c ?bb] by auto
  obtain js where js: "alloc_jump f ?bl b (spill_live_out ?bb st1)
        = (spill_live_out ?bb st1)\<lparr>code := code (spill_live_out ?bb st1) @ js\<rparr>"
      "\<forall>j\<in>set js. op j = OP_jump \<and> next_bb j = a_next (bl b)"
    using alloc_jump_code [of f ?bl b "spill_live_out ?bb st1"] by auto
  obtain cs where cs: "code (spill_live_out ?bb st1) = a_code (bl b) @ cs" "ph2_run cs s = Some s2"
    using leads_trans [OF 1(2) 2(1)] by (auto simp: leads_def)
  let ?st' = "(spill_live_out ?bb st1)\<lparr>code := code (spill_live_out ?bb st1) @ js\<rparr>"
  have "alloc_block cf f b (bl, st) = Some (?bl(b := ?bb\<lparr>a_code := code ?st'\<rparr>), ?st')"
    using 1(1) js(1) assms(4) by (simp add: alloc_block_def Let_def)
  moreover have "homed c k env' (block_out c (bl b)) ?st' s2"
    unfolding homed_code using 2(2,3) by (simp add: homed_rep)
  ultimately show ?thesis
    using cs js(2) by (intro exI [of _ "?bl(b := ?bb\<lparr>a_code := code ?st'\<rparr>)"] exI [of _ ?st'] exI [of _ cs]
        exI [of _ js] exI [of _ s2]) simp
qed

lemma in_take_idx:
  assumes "block_ready c bb" "a_insns bb = is @ [br]" "i \<in> set is"
  shows "sint (i_idx i) \<le> sint (i_idx br)" "0 \<le> sint (i_idx br)"
proof -
  have len: "length is < 2 ^ 31" using assms(1,2) by (simp add: block_ready_def)
  have idx: "i_idx ((is @ [br]) ! j) = of_nat j" if "j \<le> length is" for j
    using assms(1,2) that by (simp add: block_ready_def indexed_def less_Suc_eq_le)
  have br: "sint (i_idx br) = int (length is)"
    using idx [of "length is"] len by (simp add: sint_small)
  obtain j where j: "j < length is" "i = is ! j" using assms(3) by (auto simp: in_set_conv_nth)
  then have "sint (i_idx i) = int j"
    using idx [of j] len by (simp add: nth_append sint_small)
  then show "sint (i_idx i) \<le> sint (i_idx br)" "0 \<le> sint (i_idx br)"
    using br j(1) by simp_all
qed

text \<open>
  C14. The same for a block that ends with a branch: after the spills of the block the branch
  instruction tests a register that holds the value of the condition, and it leads to the two
  successors of the block.
\<close>
theorem alloc_branch_correct:
  assumes "homed c (3 * length (a_insns (bl b)) + 8 + k) env
      (need (insert v (block_out c (bl b))) is) st s"
    and "block_ready c (bl b)" and "a_insns (bl b) = is @ [br]" and "computing c is" and "a_next (bl b) = None"
    and "i_op br = OP_branch" and "rs1 br = Some v"
    and "s_run ext (ssa_vars (cvs c)) (map sinsn.truncate is) env = Some env'"
  shows "\<exists>bl' st' cs ir s'. alloc_block cf f b (bl, st) = Some (bl', st')
    \<and> a_code (bl' b) = a_code (bl b) @ cs @ [ir]
    \<and> op ir = OP_branch \<and> then_bb ir = a_then (bl b) \<and> else_bb ir = a_else (bl b)
    \<and> ph2_run cs s = Some s' \<and> reg s' (src0 ir) = env' v \<and> homed c k env' (block_out c (bl b)) st' s'"
proof -
  let ?bb = "(bl b)\<lparr>a_visited := a_visited (bl b) + 1\<rparr>" and ?E = "insert v (block_out c (bl b))"
  let ?bl = "bl(b := ?bb)" and ?st = "st\<lparr>code := a_code (bl b)\<rparr>"
  have used: "sint (i_idx br) \<le> sint (consumed (cvs c v))"
    using assms(2,3,7) by (auto simp: block_ready_def used_by_def uses_def)
  have brpos: "0 \<le> sint (i_idx br)"
  proof -
    have "length is < 2 ^ 31" "i_idx br = of_nat (length is)"
      using assms(2,3) by (auto simp: block_ready_def indexed_def dest: spec [of _ "length is"])
    then show ?thesis by (simp add: sint_small)
  qed
  have v: "\<forall>i\<in>set is. sint (i_idx i) \<le> sint (consumed (cvs c v))" "0 \<le> sint (consumed (cvs c v))"
    using in_take_idx(1) [OF assms(2,3)] used brpos by force+
  have ok: "idx_ok c ?bb ?E is"
    using assms(2,3) v by (intro block_idx_ok [where n = "length is"]) auto
  have h: "homed c (3 * length is + (k + 11)) env (need ?E is) ?st s"
  proof -
    have "3 * length (is @ [br]) + 8 + k = 3 * length is + (k + 11)" by simp
    then show ?thesis using assms(1) unfolding assms(3) homed_code by metis
  qed
  obtain st1 s1 where 1: "alloc_insns cf ?bb (is @ [br]) no_args ?st = alloc_insns cf ?bb [br] no_args st1"
      "leads ?st s st1 s1" "rep c (k + 11) env' ?E st1 s1"
    using alloc_body_ok [OF h _ ok assms(8)] assms(4) unfolding computing_def by blast
  have keep: "is_global (cvs c w) \<or> check_live_out ?bb w \<or> \<not> lt_s (consumed (cvs c w)) (i_idx br)" if "w \<in> ?E" for w
    using that block_out_live [of w c ?bb] used by (auto simp: lt_s_sint)
  let ?st1 = "refresh ?bb br st1"
  have r1: "rep c (Suc (k + 8)) env' ?E ?st1 s1"
    using refresh_rep(1) [OF rep_less [OF 1(3) subset_refl, of "Suc (k + 8)"] keep] by simp
  have code1: "code ?st1 = code st1"
    using refresh_rep(2) [OF 1(3) keep] .
  obtain r st2 s2 where 2: "prepare_operand ?bb v None ?st1 = Some (r, st2)" "r < 8" "leads ?st1 s1 st2 s2"
      "rep c (k + 8) env' ?E st2 s2" "at st2 r = Some v" "kept None ?st1 st2"
      "find_in_regs v ?st1 = None \<longrightarrow> \<not> polluted (regs st2 ! r)"
    by (rule prepare_operand_ok [OF r1 insertI1, of ?bb None])
  have kill: "ckill c = set (live_kill ?bb)" using assms(2) by (simp add: block_ready_def)
  have rep2: "rep c (k + 8) env' (block_out c (bl b)) st2 s2"
    using 2(4) by (rule rep_less) auto
  obtain s3 where 3: "leads st2 s2 (spill_live_out ?bb st2) s3"
      "rep c k env' (block_out c (bl b)) (spill_live_out ?bb st2) s3" "reg s3 = reg s2"
      "\<forall>i<8. at (spill_live_out ?bb st2) i = None"
    using spill_live_out_ok [OF rep2 kill] block_out_live [of _ c ?bb] by auto
  let ?ir = "(new_ph2_ir OP_branch)\<lparr>src0 := reg_of r, then_bb := a_then (bl b), else_bb := a_else (bl b)\<rparr>"
  let ?st' = "bb_add_ph2_ir ?ir (spill_live_out ?bb st2)"
  have val: "reg s3 (of_nat r) = env' v"
    using rep_regs(6) [OF 2(4,2,5)] 3(3) by simp
  have "leads st1 s1 st2 s2" using 2(3) code1 by (simp add: leads_def)
  from leads_trans [OF 1(2) leads_trans [OF this 3(1)]]
  obtain cs where cs: "code (spill_live_out ?bb st2) = a_code (bl b) @ cs" "ph2_run cs s = Some s3"
    by (auto simp: leads_def)
  have "alloc_insn cf ?bb br [] no_args st1 = Some (no_args, ?st')"
    using assms(6,7) 2(1) by (simp add: alloc_insn_def alloc_branch_def Let_def)
  then have "alloc_block cf f b (bl, st) = Some (?bl(b := ?bb\<lparr>a_code := code ?st'\<rparr>), ?st')"
    using 1(1) assms(3,5) by (simp add: alloc_block_def alloc_jump_def Let_def)
  moreover have "homed c k env' (block_out c (bl b)) ?st' s3"
    using 3(2,4) by (simp add: homed_rep)
  ultimately show ?thesis
    using cs val by (intro exI [of _ "?bl(b := ?bb\<lparr>a_code := code ?st'\<rparr>)"] exI [of _ ?st'] exI [of _ cs]
        exI [of _ ?ir] exI [of _ s3]) (simp add: new_ph2_ir_def)
qed

end
