(* ===== verification/AllocProps.thy ===== *)
theory AllocProps
  imports RegProps
begin

text \<open>
  Liveness analysis and register allocation together: the lists and indices that the
  analysis leaves are those the allocator relies on. Then one small function on which the
  properties of both are evaluated.
\<close>

section \<open>The analysis\<close>

text \<open>
  C7. Liveness analysis of a function terminates, within one round more than there are variables in
  the lists, and the \<open>live_out\<close> of a block is exactly the set of the variables for which some path
  from the end of the block reads them before it assigns them.
\<close>
theorem liveness_exact:
  assumes "live_ready s f" "live_fuel f \<le> n"
  shows "\<exists>f' t. liveness_analysis n [f] s = Some ([f'], t)
    \<and> (\<forall>b\<in>set (a_rpo_r f). set (live_out (blocks t b)) = live_end s f b)"
  by (rule analysis_ok [OF assms]) blast

lemma insns_but_idx:
  assumes "map (\<lambda>i. i\<lparr>i_idx := 0\<rparr>) js = map (\<lambda>i :: ainsn. i\<lparr>i_idx := 0\<rparr>) is" "i \<in> set is"
  shows "\<exists>j\<in>set js. uses j = uses i"
proof -
  have "i\<lparr>i_idx := 0\<rparr> \<in> (\<lambda>i. i\<lparr>i_idx := 0\<rparr>) ` set js"
    using assms by (metis imageI image_set)
  then obtain j where "j \<in> set js" "i\<lparr>i_idx := 0\<rparr> = j\<lparr>i_idx := 0\<rparr>" by auto
  then show ?thesis by (metis kills_idx(2))
qed

lemma exposed_uses: "v \<in> exposed g is \<Longrightarrow> \<exists>i\<in>set is. v \<in> uses i"
  by (induction "is") auto

lemma live_start_exposed:
  "live_start s f v b \<Longrightarrow> b \<in> reach_bbs s b0 \<Longrightarrow>
    \<exists>c\<in>reach_bbs s b0. v \<in> exposed (\<lambda>v. is_global (avars s v)) (a_insns (blocks s c))"
  by (induction rule: live_start.induct) (use reach_bbs_step in blast)+

lemma index_pos:
  assumes "indexed 0 is" "length is < 2 ^ 31" "i \<in> set is"
  shows "0 \<le> sint (i_idx i)"
  using assms by (auto simp: indexed_def in_set_conv_nth sint_small)

text \<open>
  C13. What liveness analysis leaves is what register allocation needs: after it every block of the
  function is numbered, no use of a variable has a larger index than the variable's \<open>consumed\<close>,
  \<open>live_kill\<close> holds the assigned variables and the variables of \<open>live_out\<close> have a use.
\<close>
theorem liveness_block_ready:
  assumes "live_ready s f" "live_fuel f \<le> n"
    and "\<forall>b\<in>set (a_rpo_r f). length (a_insns (blocks s b)) < 2 ^ 31"
  shows "\<exists>fs t. liveness_analysis n [f] s = Some (fs, t)
    \<and> (\<forall>b\<in>set (a_rpo_r f). killed (a_insns (blocks s b)) \<subseteq> set (live_kill (blocks t b))
       \<and> (\<forall>vs sp gp lim. block_ready \<lparr>cvars = vs, cvs = avars t, ckill = set (live_kill (blocks t b)),
             csp = sp, cgp = gp, clim = lim\<rparr> (blocks t b)))"
proof (rule analysis_ok [OF assms(1,2)])
  fix t
  let ?R = "set (a_rpo_r f)"
  assume run: "liveness_analysis n [f] s = Some ([f\<lparr>a_fvisited := a_fvisited f + 1\<rparr>], t)"
    and ok: "\<And>b. b \<in> ?R \<Longrightarrow> used_by (avars t) (a_insns (blocks t b)) \<and> indexed 0 (a_insns (blocks t b))
       \<and> map (\<lambda>i. i\<lparr>i_idx := 0\<rparr>) (a_insns (blocks t b)) = map (\<lambda>i. i\<lparr>i_idx := 0\<rparr>) (a_insns (blocks s b))
       \<and> killed (a_insns (blocks s b)) \<subseteq> set (live_kill (blocks t b))
       \<and> set (live_out (blocks t b)) = live_end s f b"
  have R: "?R = reach_bbs s (hd (a_bbs f))"
    using assms(1) by (simp add: live_ready_def)
  have len: "length (a_insns (blocks t b)) < 2 ^ 31" if "b \<in> ?R" for b
    using ok [OF that] assms(3) that by (metis length_map)
  have used: "0 \<le> sint (consumed (avars t v))" if "b \<in> ?R" "v \<in> live_end s f b" for b v
  proof -
    obtain c where "c \<in> ?R" "live_start s f v c"
      using \<open>v \<in> live_end s f b\<close> \<open>b \<in> ?R\<close> reach_bbs_step unfolding live_end_def R by blast
    then obtain d i where d: "d \<in> ?R" "i \<in> set (a_insns (blocks s d))" "v \<in> uses i"
      using live_start_exposed exposed_uses unfolding R by metis
    then obtain j where j: "j \<in> set (a_insns (blocks t d))" "v \<in> uses j"
      using insns_but_idx ok by (metis (no_types, lifting))
    then have "0 \<le> sint (i_idx j)"
      using index_pos ok [OF d(1)] len [OF d(1)] by blast
    also have "\<dots> \<le> sint (consumed (avars t v))"
      using j ok [OF d(1)] unfolding used_by_def by blast
    finally show ?thesis .
  qed
  show ?thesis
    using run ok len used by (intro exI [of _ "[f\<lparr>a_fvisited := a_fvisited f + 1\<rparr>]"] exI [of _ t])
      (simp add: block_ready_def)
qed

section \<open>An example\<close>

text \<open>
  A function with the local \<open>1\<close>, which has its slot at offset 0: block \<open>0\<close> computes \<open>2 := 5\<close> and
  \<open>3 := 1 + 2\<close>, block \<open>1\<close> computes \<open>4 := 3 * 3\<close> and branches on it.
\<close>

definition fresh_var :: avar where
  "fresh_var = \<lparr>is_const = False, init_val = 0, is_global = False, v_name = [], v_type = TY_int, ptr_level = 0,
     is_func = False, address_taken = False, array_size = 0, offset = 0, consumed = - 1, phys_reg = - 1,
     first_use = - 1, last_use = - 1, loop_depth = 0, use_count = 0, space_is_allocated = False, v_ofs_top = False\<rparr>"

definition sum_vars :: avars where
  "sum_vars = (\<lambda>_. fresh_var)(1 := fresh_var\<lparr>space_is_allocated := True\<rparr>, 2 := fresh_var\<lparr>is_const := True, init_val := 5\<rparr>)"

definition insn3 :: "opcode \<Rightarrow> var_ref option \<Rightarrow> var_ref option \<Rightarrow> var_ref option \<Rightarrow> ainsn" where
  "insn3 oc d a b = \<lparr>i_op = oc, rd = d, rs1 = a, rs2 = b, sz = 0, i_idx = 0, i_str = []\<rparr>"

definition empty_block :: ablock where
  "empty_block = \<lparr>a_insns = [], a_code = [], a_next = None, a_then = None, a_else = None, a_prev = [],
     live_gen = [], live_kill = [], live_in = [], live_out = [], a_rpo = 0, a_rank_r = 0, a_idom = None, a_r_idom = None,
     a_dom_next = [], a_dom_prev = None, a_rdom_next = [], a_rdom_prev = None, a_DF = [], a_RDF = [], a_visited = 0\<rparr>"

definition sum_blocks :: "bb_ref \<Rightarrow> ablock" where
  "sum_blocks = (\<lambda>_. empty_block)
     (0 := empty_block\<lparr>a_insns := [insn3 OP_load_constant (Some 2) None None, insn3 OP_add (Some 3) (Some 1) (Some 2)],
           a_next := Some 1\<rparr>,
      1 := empty_block\<lparr>a_insns := [insn3 OP_mul (Some 4) (Some 3) (Some 3), insn3 OP_branch None (Some 4) None],
           a_then := Some 2, a_else := Some 2, a_rpo := 1, a_prev := [0]\<rparr>)"

definition sum_cfg :: cfg_state where
  "sum_cfg = \<lparr>avars = sum_vars, blocks = sum_blocks, bb_cnt = 0, bb_chain = []\<rparr>"

definition sum_func :: afunc where
  "sum_func = \<lparr>a_name = ''sum'', a_ret = TY_int, a_params = [1], a_va_args = False, a_stack_size = 4,
     a_bbs = [0, 1, 2], a_rpo_r = [2, 1, 0], a_exit = 2, a_fvisited = 0, a_used = True\<rparr>"

lemmas sum_defs = sum_cfg_def sum_func_def sum_blocks_def sum_vars_def empty_block_def fresh_var_def insn3_def

lemma sum_edges: "edges sum_cfg b = (if b = 0 then {1} else if b = 1 then {2} else {})"
  by (auto simp: edges_def succs_def sum_defs)

lemma sum_reach: "reach_bbs sum_cfg 0 = {0, 1, 2}"
proof
  show "{0, 1, 2} \<subseteq> reach_bbs sum_cfg 0"
    using reach_bbs_start [of 0 sum_cfg] reach_bbs_step [of 0 sum_cfg 0] reach_bbs_step [of 1 sum_cfg 0]
    by (simp add: sum_edges)
  have "c \<in> {0, 1, 2}" if "(0, c) \<in> {(c, d). d \<in> edges sum_cfg c}\<^sup>*" for c
    using that by induction (auto simp: sum_edges split: if_splits)
  then show "reach_bbs sum_cfg 0 \<subseteq> {0, 1, 2}"
    by (auto simp: reach_bbs_def)
qed

lemma sum_exposed:
  "exposed (\<lambda>v. is_global (avars sum_cfg v)) (a_insns (blocks sum_cfg b)) = (if b = 0 then {1} else if b = 1 then {3} else {})"
  by (auto simp: sum_defs uses_def kills_def)

lemma sum_ready: "live_ready sum_cfg sum_func"
proof -
  have "set (a_rpo_r sum_func) = reach_bbs sum_cfg (hd (a_bbs sum_func))"
    by (auto simp: sum_func_def sum_reach)
  moreover have "card (\<Union>b\<in>set (a_rpo_r sum_func). exposed (\<lambda>v. is_global (avars sum_cfg v)) (a_insns (blocks sum_cfg b)))
      \<le> MAX_ANALYSIS_STACK_SIZE"
    by (simp add: sum_exposed sum_func_def MAX_ANALYSIS_STACK_SIZE_def)
  moreover have "a_visited (blocks sum_cfg c) = 0 \<and> live_gen (blocks sum_cfg c) = [] \<and> live_out (blocks sum_cfg c) = []" for c
    by (simp add: sum_defs)
  moreover have "lt_s (0 :: cint) (0 + 1)" by (simp add: lt_s_sint)
  ultimately show ?thesis
    by (simp add: live_ready_def) (simp add: sum_func_def)
qed


lemma sum_killed: "killed (a_insns (blocks sum_cfg 0)) = {2, 3}"
  by (auto simp: killed_def kills_def sum_defs)

lemma sum_live: "live_start sum_cfg sum_func v b \<longleftrightarrow> (b = 0 \<and> v = 1) \<or> (b = 1 \<and> v = 3)"
proof
  assume "live_start sum_cfg sum_func v b"
  then show "(b = 0 \<and> v = 1) \<or> (b = 1 \<and> v = 3)"
    by induction (auto simp: sum_exposed sum_edges sum_killed split: if_splits)
qed (auto intro!: live_start.read simp: sum_exposed)

lemma sum_fuel: "live_fuel sum_func \<le> 5000"
  by (simp add: live_fuel_def sum_func_def MAX_ANALYSIS_STACK_SIZE_def)

theorem liveness_exact_witness:
  "\<exists>f' t. liveness_analysis 5000 [sum_func] sum_cfg = Some ([f'], t) \<and> set (live_out (blocks t 0)) = {3}"
proof -
  have r: "0 \<in> set (a_rpo_r sum_func)"
    by (simp add: sum_func_def)
  have e: "live_end sum_cfg sum_func 0 = {3}"
    by (auto simp: live_end_def sum_edges sum_live)
  show ?thesis
    using liveness_exact [OF sum_ready sum_fuel] r e by metis
qed

theorem liveness_block_ready_witness:
  "\<exists>fs t. liveness_analysis 5000 [sum_func] sum_cfg = Some (fs, t) \<and> {2, 3} \<subseteq> set (live_kill (blocks t 0))
     \<and> block_ready \<lparr>cvars = {1, 2, 3, 4}, cvs = avars t, ckill = set (live_kill (blocks t 0)),
             csp = 0, cgp = 100, clim = 64\<rparr> (blocks t 0)"
proof -
  have "\<forall>b\<in>set (a_rpo_r sum_func). length (a_insns (blocks sum_cfg b)) < 2 ^ 31"
    by (simp add: sum_defs)
  from liveness_block_ready [OF sum_ready sum_fuel this]
  obtain fs t where "liveness_analysis 5000 [sum_func] sum_cfg = Some (fs, t)"
    "\<forall>b\<in>set (a_rpo_r sum_func). killed (a_insns (blocks sum_cfg b)) \<subseteq> set (live_kill (blocks t b))
       \<and> (\<forall>vs sp gp lim. block_ready \<lparr>cvars = vs, cvs = avars t, ckill = set (live_kill (blocks t b)),
             csp = sp, cgp = gp, clim = lim\<rparr> (blocks t b))"
    by blast
  moreover have "0 \<in> set (a_rpo_r sum_func)" by (simp add: sum_func_def)
  ultimately show ?thesis
    unfolding sum_killed [symmetric] by blast
qed

section \<open>The allocation of its blocks\<close>

text \<open>The blocks and variables as the analysis leaves them, and the state before block \<open>0\<close> and before block \<open>1\<close>.\<close>

definition sum_cvs :: avars where
  "sum_cvs = sum_vars(1 := (sum_vars 1)\<lparr>consumed := 1\<rparr>, 2 := (sum_vars 2)\<lparr>consumed := 1\<rparr>,
     3 := fresh_var\<lparr>consumed := 0\<rparr>, 4 := fresh_var\<lparr>consumed := 1\<rparr>)"

definition sum_solved :: "bb_ref \<Rightarrow> ablock" where
  "sum_solved = sum_blocks
     (0 := (sum_blocks 0)\<lparr>a_insns := [insn3 OP_load_constant (Some 2) None None,
              (insn3 OP_add (Some 3) (Some 1) (Some 2))\<lparr>i_idx := 1\<rparr>], live_kill := [2, 3, 1], live_out := [3]\<rparr>,
      1 := (sum_blocks 1)\<lparr>a_insns := [insn3 OP_mul (Some 4) (Some 3) (Some 3),
              (insn3 OP_branch None (Some 4) None)\<lparr>i_idx := 1\<rparr>], live_kill := [4]\<rparr>)"

definition sum_ctx :: "bb_ref \<Rightarrow> actx" where
  "sum_ctx b = \<lparr>cvars = {1, 2, 3, 4}, cvs = sum_cvs, ckill = set (live_kill (sum_solved b)), csp = 0, cgp = 1000, clim = 100\<rparr>"

definition no_regs :: "regfile list" where
  "no_regs = replicate 8 \<lparr>rvar = None, polluted = False\<rparr>"

definition ra0 :: "avars \<Rightarrow> cint \<Rightarrow> ra" where
  "ra0 vs n = \<lparr>regs = no_regs, rvs = vs, stack = n, code = [], marked = [], main_bb = None\<rparr>"

definition slot_state :: "cint \<Rightarrow> cint \<Rightarrow> ph2_state" where
  "slot_state a x = \<lparr>reg = (\<lambda>_. 0), spv = 0, gpv = 1000, pmem = store_val (\<lambda>_. 0) 4 a x\<rparr>"

definition conf0 :: ra_conf where
  "conf0 = \<lparr>max_args = 4, dynlink = False, num_params = (\<lambda>_. None)\<rparr>"

lemma at_no_regs: "i < 8 \<Longrightarrow> at (ra0 vs n) i = None"
  by (simp add: at_def ra0_def no_regs_def)

lemmas alloc_defs = sum_ctx_def sum_solved_def sum_cvs_def sum_defs

lemma sum_block_ready: "block_ready (sum_ctx 0) (sum_solved 0)" "block_ready (sum_ctx 1) (sum_solved 1)"
  by (auto simp: block_ready_def indexed_def used_by_def uses_def alloc_defs less_Suc_eq)

lemma sum_len: "length (a_insns (sum_solved 0)) = 2" "length (a_insns (sum_solved (Suc 0))) = 2"
  by (simp_all add: sum_solved_def)

lemma sum_block_out: "block_out (sum_ctx 0) (sum_solved 0) = {3}" "block_out (sum_ctx 1) (sum_solved 1) = {}"
  by (auto simp: block_out_def alloc_defs)

lemma sum_need: "need {3} (a_insns (sum_solved 0)) = {1}" "need {4} [insn3 OP_mul (Some 4) (Some 3) (Some 3)] = {3}"
  by (auto simp: uses_def alloc_defs)

lemma apart_0_4: "apart 0 4" "apart 4 0"
proof -
  have "of_nat i \<noteq> (of_nat (4 + j) :: cint)" if "i < 4" "j < 4" for i j :: nat
    using that by (simp only: word_of_nat_eq_iff) (simp add: take_bit_nat_eq_self)
  then show "apart 0 4" by (simp add: apart_def)
  then show "apart 4 0" by (rule apart_sym)
qed

lemma sum_homed:
  assumes "b < 2" "vs = (if b = 0 then sum_cvs else sum_cvs(3 := (sum_cvs 3)\<lparr>space_is_allocated := True, offset := 4\<rparr>))"
  shows "homed (sum_ctx b) 14 (\<lambda>_. 7) {if b = 0 then 1 else 3} (ra0 vs (if b = 0 then 4 else 8))
     (slot_state (if b = 0 then 0 else 4) 7)"
proof -
  have alloc: "space_is_allocated (vs v) \<longleftrightarrow> v = 1 \<or> v = 3 \<and> b \<noteq> 0" "\<not> is_global (vs v)" "is_global (sum_cvs v) = False"
    "stat (vs v) = stat (sum_cvs v)" "\<not> v_ofs_top (sum_cvs v)" "is_const (sum_cvs v) \<longleftrightarrow> v = 2"
    "offset (vs v) = (if v = 3 \<and> b \<noteq> 0 then 4 else 0)" for v
    using assms by (auto simp: alloc_defs stat_def)
  have "slots_ok (sum_ctx b) 14 (ra0 vs (if b = 0 then 4 else 8))"
    using apart_0_4 by (auto simp: slots_ok_def alloc ra0_def slot_def sum_ctx_def)
  then show ?thesis
    by (auto simp: homed_def at_no_regs in_slot_def alloc)
     (auto simp: ra0_def no_regs_def sum_ctx_def slot_state_def alloc load_store_same slot_def)
qed

lemma homed_local:
  assumes "homed c k env N st s" "v \<in> N" "csp c = 0" "\<not> is_const (cvs c v)" "\<not> is_global (cvs c v)"
  shows "load_val (pmem s) 4 True (offset (rvs st v)) = env v"
proof -
  have "stat (rvs st v) = stat (cvs c v)" using assms(1) by (simp add: homed_def)
  then have "is_global (rvs st v) = is_global (cvs c v)" by (simp add: stat_def)
  then show ?thesis
    using assms by (auto simp: homed_def in_slot_def slot_def)
qed

theorem alloc_block_correct_witness:
  "\<exists>bl' st' cs js s'. alloc_block conf0 sum_func 0 (sum_solved, ra0 sum_cvs 4) = Some (bl', st')
    \<and> a_code (bl' 0) = cs @ js \<and> ph2_run cs (slot_state 0 7) = Some s'
    \<and> load_val (pmem s') 4 True (offset (rvs st' 3)) = 12"
proof -
  let ?env = "(\<lambda>_. 7)(2 := 5, 3 := 12)"
  have "homed (sum_ctx 0) (3 * length (a_insns (sum_solved 0)) + 8 + 0) (\<lambda>_. 7)
      (need (block_out (sum_ctx 0) (sum_solved 0)) (a_insns (sum_solved 0))) (ra0 sum_cvs 4) (slot_state 0 7)"
    using sum_homed [of 0 sum_cvs] by (simp add: sum_block_out sum_need sum_len)
  moreover have "computing (sum_ctx 0) (a_insns (sum_solved 0))"
    by (auto simp: computing_def computes_def alloc_defs uses_def is_bin_def)
  moreover have "a_next (sum_solved 0) \<noteq> None"
    by (simp add: alloc_defs)
  moreover have "s_run (\<lambda>_. Some) (ssa_vars (cvs (sum_ctx 0))) (map sinsn.truncate (a_insns (sum_solved 0))) (\<lambda>_. 7) = Some ?env"
    by (simp add: s_step_def s_pure_def s_value_def s_is_bin_def s_bin_def is_bin_def is_un_def ph2_bin_def
        ssa_vars_def sinsn.truncate_def svar.truncate_def alloc_defs)
  ultimately obtain bl' st' cs js s' where r: "alloc_block conf0 sum_func 0 (sum_solved, ra0 sum_cvs 4) = Some (bl', st')"
    "a_code (bl' 0) = a_code (sum_solved 0) @ cs @ js" "ph2_run cs (slot_state 0 7) = Some s'"
    "homed (sum_ctx 0) 0 ?env (block_out (sum_ctx 0) (sum_solved 0)) st' s'"
    using alloc_block_correct [where b = 0 and bl = sum_solved, OF _ sum_block_ready(1), of 0 "\<lambda>_. 7" "ra0 sum_cvs 4" "slot_state 0 7" "\<lambda>_. Some" ?env conf0 sum_func]
    by blast
  have "load_val (pmem s') 4 True (offset (rvs st' 3)) = 12"
    using homed_local [OF r(4), of 3] by (simp add: sum_block_out) (simp add: alloc_defs)
  then show ?thesis using r by (intro exI [of _ bl'] exI) (simp add: alloc_defs)
qed

theorem alloc_branch_correct_witness:
  "\<exists>bl' st' cs ir s'. alloc_block conf0 sum_func 1
        (sum_solved, ra0 (sum_cvs(3 := (sum_cvs 3)\<lparr>space_is_allocated := True, offset := 4\<rparr>)) 8) = Some (bl', st')
    \<and> a_code (bl' 1) = cs @ [ir] \<and> op ir = OP_branch \<and> ph2_run cs (slot_state 4 7) = Some s' \<and> reg s' (src0 ir) = 49"
proof -
  let ?vs = "sum_cvs(3 := (sum_cvs 3)\<lparr>space_is_allocated := True, offset := 4\<rparr>)"
  let ?env = "((\<lambda>_. 7)(4 := 49)) :: senv" and ?is = "[insn3 OP_mul (Some 4) (Some 3) (Some 3)]"
  let ?br = "(insn3 OP_branch None (Some 4) None)\<lparr>i_idx := 1\<rparr>"
  have "homed (sum_ctx 1) (3 * length (a_insns (sum_solved 1)) + 8 + 0) (\<lambda>_. 7)
      (need (insert 4 (block_out (sum_ctx 1) (sum_solved 1))) ?is) (ra0 ?vs 8) (slot_state 4 7)"
    using sum_homed [of 1 ?vs] unfolding sum_block_out sum_need by (simp add: sum_len)
  moreover have "a_insns (sum_solved 1) = ?is @ [?br]"
    by (simp add: sum_solved_def)
  moreover have "computing (sum_ctx 1) ?is"
    by (auto simp: computing_def computes_def alloc_defs uses_def is_bin_def)
  moreover have "a_next (sum_solved 1) = None" "i_op ?br = OP_branch" "rs1 ?br = Some 4"
    by (simp_all add: alloc_defs)
  moreover have "s_run (\<lambda>_. Some) (ssa_vars (cvs (sum_ctx 1))) (map sinsn.truncate ?is) (\<lambda>_. 7) = Some ?env"
    by (simp add: s_step_def s_pure_def s_value_def s_is_bin_def s_bin_def is_bin_def is_un_def ph2_bin_def
        ssa_vars_def sinsn.truncate_def svar.truncate_def alloc_defs)
  ultimately obtain bl' st' cs ir s' where r: "alloc_block conf0 sum_func 1 (sum_solved, ra0 ?vs 8) = Some (bl', st')"
    "a_code (bl' 1) = a_code (sum_solved 1) @ cs @ [ir]" "op ir = OP_branch" "ph2_run cs (slot_state 4 7) = Some s'"
    "reg s' (src0 ir) = ?env 4"
    using alloc_branch_correct [where b = 1 and bl = sum_solved, OF _ sum_block_ready(2), of 0 "\<lambda>_. 7" 4 ?is "ra0 ?vs 8"
        "slot_state 4 7" ?br "\<lambda>_. Some" ?env conf0 sum_func]
    by blast
  then show ?thesis by (intro exI [of _ bl'] exI) (simp add: alloc_defs)
qed

end
