(* ===== verification/CMem.thy ===== *)
theory CMem
  imports Machine
begin

text \<open>
  Strings and memory in \<^verbatim>\<open>lib/c.c\<close>, the library that is compiled into programs. Memory is a
  function from addresses to bytes; an index is an \<^verbatim>\<open>int\<close>. A loop is a partial function, whose
  value \<open>None\<close> is not to end. Comparisons of characters depend on whether \<^verbatim>\<open>char\<close> is signed on the
  target, the parameter \<open>sg\<close>.
\<close>

type_synonym memory = "cint \<Rightarrow> 8 word"

definition char_val :: "bool \<Rightarrow> 8 word \<Rightarrow> cint" where
  "char_val sg b = (if sg then signed_take_bit 7 (ucast b) else ucast b)"

section \<open>Strings\<close>

partial_function (option) strlen_loop :: "memory \<Rightarrow> cint \<Rightarrow> cint \<Rightarrow> cint option" where
  "strlen_loop m str i =
     (if m (str + i) = 0 then Some i
      else if m (str + (i + 1)) = 0 then Some (i + 1)
      else if m (str + (i + 2)) = 0 then Some (i + 2)
      else if m (str + (i + 3)) = 0 then Some (i + 3)
      else strlen_loop m str (i + 4))"

definition strlen :: "memory \<Rightarrow> cint \<Rightarrow> cint option" where
  "strlen m str = strlen_loop m str 0"

partial_function (option) strcmp_loop :: "bool \<Rightarrow> memory \<Rightarrow> cint \<Rightarrow> cint \<Rightarrow> cint \<Rightarrow> cint option" where
  "strcmp_loop sg m s1 s2 i =
     (let a = char_val sg (m (s1 + i)); b = char_val sg (m (s2 + i))
      in if m (s1 + i) \<noteq> 0 \<and> m (s2 + i) \<noteq> 0
         then if lt_s a b then Some (- 1) else if lt_s b a then Some 1
              else strcmp_loop sg m s1 s2 (i + 1)
         else Some (a - b))"

definition strcmp :: "bool \<Rightarrow> memory \<Rightarrow> cint \<Rightarrow> cint \<Rightarrow> cint option" where
  "strcmp sg m s1 s2 = strcmp_loop sg m s1 s2 0"

partial_function (option) strncmp_loop :: "bool \<Rightarrow> memory \<Rightarrow> cint \<Rightarrow> cint \<Rightarrow> cint \<Rightarrow> cint \<Rightarrow> cint option" where
  "strncmp_loop sg m s1 s2 len i =
     (let a = char_val sg (m (s1 + i)); b = char_val sg (m (s2 + i))
      in if \<not> lt_s i len then Some 0
         else if lt_s a b then Some (- 1)
         else if lt_s b a then Some 1
         else if m (s1 + i) = 0 then Some 0
         else strncmp_loop sg m s1 s2 len (i + 1))"

definition strncmp :: "bool \<Rightarrow> memory \<Rightarrow> cint \<Rightarrow> cint \<Rightarrow> cint \<Rightarrow> cint option" where
  "strncmp sg m s1 s2 len = strncmp_loop sg m s1 s2 len 0"

partial_function (option) strcpy_loop :: "memory \<Rightarrow> cint \<Rightarrow> cint \<Rightarrow> cint \<Rightarrow> memory option" where
  "strcpy_loop m dst src i =
     (if m (src + i) \<noteq> 0 then strcpy_loop (m(dst + i := m (src + i))) dst src (i + 1)
      else Some (m(dst + i := 0)))"

definition strcpy :: "memory \<Rightarrow> cint \<Rightarrow> cint \<Rightarrow> (cint \<times> memory) option" where
  "strcpy m dst src = map_option (Pair dst) (strcpy_loop m dst src 0)"

section \<open>Blocks of memory\<close>

text \<open>\<open>dest[i] = src[i]\<close>, and the loops that do it four and one at a time.\<close>

definition copy_byte :: "cint \<Rightarrow> cint \<Rightarrow> cint \<Rightarrow> memory \<Rightarrow> memory" where
  "copy_byte dst src i m = m(dst + i := m (src + i))"

text \<open>\<open>ptr[i] = byte_val\<close>.\<close>

definition set_byte :: "cint \<Rightarrow> 8 word \<Rightarrow> cint \<Rightarrow> memory \<Rightarrow> memory" where
  "set_byte p v i m = m(p + i := v)"

definition four :: "(cint \<Rightarrow> memory \<Rightarrow> memory) \<Rightarrow> cint \<Rightarrow> memory \<Rightarrow> memory" where
  "four f i = f (i + 3) \<circ> f (i + 2) \<circ> f (i + 1) \<circ> f i"

partial_function (option) single_loop :: "(cint \<Rightarrow> memory \<Rightarrow> memory) \<Rightarrow> cint \<Rightarrow> cint \<Rightarrow> memory \<Rightarrow> memory option" where
  "single_loop f count i m =
     (if lt_s i count then single_loop f count (i + 1) (f i m) else Some m)"

partial_function (option) four_loop :: "(cint \<Rightarrow> memory \<Rightarrow> memory) \<Rightarrow> cint \<Rightarrow> cint \<Rightarrow> memory \<Rightarrow> memory option" where
  "four_loop f count i m =
     (if le_s (i + 4) count then four_loop f count (i + 4) (four f i m) else single_loop f count i m)"

definition memcpy :: "memory \<Rightarrow> cint \<Rightarrow> cint \<Rightarrow> cint \<Rightarrow> (cint \<times> memory) option" where
  "memcpy m dst src count = map_option (Pair dst) (four_loop (copy_byte dst src) count 0 m)"

definition memset :: "memory \<Rightarrow> cint \<Rightarrow> cint \<Rightarrow> cint \<Rightarrow> (cint \<times> memory) option" where
  "memset m s c n = map_option (Pair s) (four_loop (set_byte s (ucast c)) n 0 m)"

partial_function (option) memcmp_loop :: "bool \<Rightarrow> memory \<Rightarrow> cint \<Rightarrow> cint \<Rightarrow> cint \<Rightarrow> cint \<Rightarrow> cint option" where
  "memcmp_loop sg m p1 p2 n i =
     (let a = char_val sg (m (p1 + i)); b = char_val sg (m (p2 + i))
      in if \<not> lt_s i n then Some 0
         else if lt_s a b then Some (- 1)
         else if lt_s b a then Some 1
         else memcmp_loop sg m p1 p2 n (i + 1))"

definition memcmp :: "bool \<Rightarrow> memory \<Rightarrow> cint \<Rightarrow> cint \<Rightarrow> cint \<Rightarrow> cint option" where
  "memcmp sg m s1 s2 n = memcmp_loop sg m s1 s2 n 0"

section \<open>What they compute\<close>

text \<open>The bytes \<open>bs\<close> at address \<open>p\<close>, and a string with its NUL.\<close>

definition bytes_at :: "memory \<Rightarrow> cint \<Rightarrow> 8 word list \<Rightarrow> bool" where
  "bytes_at m p bs \<longleftrightarrow> (\<forall>i<length bs. m (p + of_nat i) = bs ! i)"

definition c_string :: "memory \<Rightarrow> cint \<Rightarrow> 8 word list \<Rightarrow> bool" where
  "c_string m p bs \<longleftrightarrow> bytes_at m p (bs @ [0]) \<and> 0 \<notin> set bs \<and> length bs < 2 ^ 31 - 4"

lemma c_string_nth:
  assumes "c_string m p bs" "i \<le> length bs"
  shows "m (p + of_nat i) = (bs @ [0]) ! i" "m (p + of_nat i) = 0 \<longleftrightarrow> i = length bs"
proof -
  show e: "m (p + of_nat i) = (bs @ [0]) ! i"
    using assms by (simp add: c_string_def bytes_at_def)
  show "m (p + of_nat i) = 0 \<longleftrightarrow> i = length bs"
  proof (cases "i = length bs")
    case False
    then have i: "i < length bs" using assms(2) by simp
    have "bs ! i \<noteq> 0" using assms(1) nth_mem [OF i] by (metis c_string_def)
    then show ?thesis using i by (simp add: e nth_append)
  qed (use e in simp)
qed

lemma of_nat_plus: "(of_nat i :: cint) + 1 = of_nat (Suc i)" "(of_nat i :: cint) + 2 = of_nat (i + 2)"
  "(of_nat i :: cint) + 3 = of_nat (i + 3)" "(of_nat i :: cint) + 4 = of_nat (i + 4)"
  by simp_all

lemma strlen_loop_ok:
  assumes "c_string m p bs" "i \<le> length bs"
  shows "strlen_loop m p (of_nat i) = Some (of_nat (length bs))"
  using assms(2)
proof (induction "length bs - i" arbitrary: i rule: less_induct)
  case less
  note nul = c_string_nth(2) [OF assms(1)]
  show ?case
    unfolding strlen_loop.simps [of m p "of_nat i"] of_nat_plus
    using less(1) [of "i + 4"] nul [of i] nul [of "Suc i"] nul [of "i + 2"] nul [of "i + 3"] less.prems
    by (auto simp: not_less_eq_eq)
qed


text \<open>The value of \<^verbatim>\<open>strcmp\<close> on strings: that of the first characters that differ, the NUL included.\<close>

fun str_order :: "bool \<Rightarrow> 8 word list \<Rightarrow> 8 word list \<Rightarrow> cint" where
  "str_order sg (a # as) (b # bs) =
     (if lt_s (char_val sg a) (char_val sg b) then - 1
      else if lt_s (char_val sg b) (char_val sg a) then 1 else str_order sg as bs)"
| "str_order sg [] [] = 0"
| "str_order sg (a # as) [] = char_val sg a"
| "str_order sg [] (b # bs) = - char_val sg b"

lemma strcmp_loop_ok:
  assumes "c_string m p as" "c_string m q bs" "i \<le> length as" "i \<le> length bs"
  shows "strcmp_loop sg m p q (of_nat i) = Some (str_order sg (drop i as) (drop i bs))"
  using assms(3,4)
proof (induction "length as - i" arbitrary: i rule: less_induct)
  case less
  note a = c_string_nth [OF assms(1) less.prems(1)] and b = c_string_nth [OF assms(2) less.prems(2)]
  have z: "char_val sg 0 = 0" by (simp add: char_val_def)
  consider "i < length as" "i < length bs" | "i = length as" "i < length bs" | "i < length as" "i = length bs"
    | "i = length as" "i = length bs"
    using less.prems by linarith
  then show ?case
  proof cases
    case 1
    then show ?thesis
      unfolding strcmp_loop.simps [of sg m p q "of_nat i"] of_nat_plus
      using less(1) [of "Suc i"] a b by (simp add: nth_append Cons_nth_drop_Suc [symmetric])
  next
    case 2
    then show ?thesis
      unfolding strcmp_loop.simps [of sg m p q "of_nat i"]
      using a b by (simp add: nth_append Cons_nth_drop_Suc [symmetric] z)
  next
    case 3
    then show ?thesis
      unfolding strcmp_loop.simps [of sg m p q "of_nat i"]
      using a b by (simp add: nth_append Cons_nth_drop_Suc [symmetric] z)
  next
    case 4
    then show ?thesis
      unfolding strcmp_loop.simps [of sg m p q "of_nat i"]
      using a b by (simp add: nth_append z)
  qed
qed

text \<open>The unrolled loop is the plain one.\<close>

lemma single_loop_ok:
  assumes "n < 2 ^ 31" "i \<le> n"
  shows "single_loop f (of_nat n) (of_nat i) m = Some (fold (\<lambda>k. f (of_nat k)) [i..<n] m)"
  using assms(2)
proof (induction "n - i" arbitrary: i m rule: less_induct)
  case less
  show ?case
    unfolding single_loop.simps [of f "of_nat n" "of_nat i"] of_nat_plus
    using less(1) [of "Suc i"] less.prems assms(1) by (cases "i < n") (simp_all add: of_nat_less_s upt_conv_Cons)
qed

lemma four_loop_ok:
  assumes "n < 2 ^ 31 - 4" "i \<le> n"
  shows "four_loop f (of_nat n) (of_nat i) m = Some (fold (\<lambda>k. f (of_nat k)) [i..<n] m)"
  using assms(2)
proof (induction "n - i" arbitrary: i m rule: less_induct)
  case less
  have n: "n < 2 ^ 31" "i < 2 ^ 31" "i + 4 < 2 ^ 31" using assms(1) less.prems by simp_all
  show ?case
  proof (cases "i + 4 \<le> n")
    case True
    then have "[i..<n] = i # Suc i # (i + 2) # (i + 3) # [i + 4..<n]"
      by (simp add: upt_conv_Cons numeral_eq_Suc)
    then show ?thesis
      unfolding four_loop.simps [of f "of_nat n" "of_nat i"]
      using less(1) [of "i + 4"] True n of_nat_less_s(2) [of "i + 4" n]
      by (simp add: four_def add.commute)
  next
    case False
    then show ?thesis
      unfolding four_loop.simps [of f "of_nat n" "of_nat i"] 
      using of_nat_less_s(2) [of "i + 4" n] n single_loop_ok [of n i f m] less.prems by simp
  qed
qed


lemma char_val_inj: "char_val sg a = char_val sg b \<longleftrightarrow> a = b"
proof -
  have "ucast (char_val sg x) = x" for x
    by (simp add: char_val_def) (intro conjI impI; rule bit_word_eqI; simp add: bit_simps)
  then show ?thesis by metis
qed

lemma char_val_0 [simp]: "char_val sg 0 = 0" "char_val sg a = 0 \<longleftrightarrow> a = 0"
proof -
  show z: "char_val sg 0 = 0" by (simp add: char_val_def)
  show "char_val sg a = 0 \<longleftrightarrow> a = 0" using char_val_inj [of sg a 0] unfolding z .
qed

lemma str_order_eq: "0 \<notin> set as \<Longrightarrow> 0 \<notin> set bs \<Longrightarrow> str_order sg as bs = 0 \<longleftrightarrow> as = bs"
proof (induction sg as bs rule: str_order.induct)
  case (1 sg a as b bs)
  have "\<not> lt_s (char_val sg a) (char_val sg b) \<and> \<not> lt_s (char_val sg b) (char_val sg a) \<longleftrightarrow> a = b"
    using signed_word_eqI [of "char_val sg a" "char_val sg b"] by (auto simp: lt_s_sint char_val_inj)
  with 1 show ?case by auto
qed auto

text \<open>A copy to a region that does not contain bytes still to be read.\<close>

definition behind :: "cint \<Rightarrow> cint \<Rightarrow> nat \<Rightarrow> bool" where
  "behind dst src n \<longleftrightarrow> (\<forall>i<n. \<forall>j<n. i < j \<longrightarrow> dst + of_nat i \<noteq> src + of_nat j)"

lemma distinct_offsets: "i < 2 ^ 31 \<Longrightarrow> j < 2 ^ 31 \<Longrightarrow> (p :: cint) + of_nat i = p + of_nat j \<longleftrightarrow> i = j"
  by (simp add: word_of_nat_eq_iff take_bit_nat_eq_self)

lemma byte_apply:
  "copy_byte dst src i m a = (if a = dst + i then m (src + i) else m a)"
  "set_byte p v i m a = (if a = p + i then v else m a)"
  by (simp_all add: copy_byte_def set_byte_def)

lemma copy_loop_ok:
  fixes m :: memory
  assumes "behind dst src n" "n < 2 ^ 31" "k \<le> n"
  defines "m' \<equiv> fold (\<lambda>k. copy_byte dst src (of_nat k)) [0..<k] m"
  shows "i < k \<Longrightarrow> m' (dst + of_nat i) = m (src + of_nat i)" "(\<forall>i<k. a \<noteq> dst + of_nat i) \<Longrightarrow> m' a = m a"
proof -
  have "(\<forall>i<k. m' (dst + of_nat i) = m (src + of_nat i)) \<and> (\<forall>a. (\<forall>i<k. a \<noteq> dst + of_nat i) \<longrightarrow> m' a = m a)"
    using assms(3) unfolding m'_def
  proof (induction k)
    case (Suc k)
    define m0 where "m0 = fold (\<lambda>k. copy_byte dst src (of_nat k)) [0..<k] m"
    have m1: "fold (\<lambda>k. copy_byte dst src (of_nat k)) [0..<Suc k] m = copy_byte dst src (of_nat k) m0"
      by (simp add: m0_def)
    have IH: "\<And>i. i < k \<Longrightarrow> m0 (dst + of_nat i) = m (src + of_nat i)"
      "\<And>a. (\<forall>i<k. a \<noteq> dst + of_nat i) \<Longrightarrow> m0 a = m a"
      using Suc by (auto simp: m0_def)
    have "m0 (src + of_nat k) = m (src + of_nat k)"
      using assms(1) Suc.prems by (intro IH(2)) (metis Suc_le_lessD behind_def less_trans)
    moreover have "dst + of_nat i \<noteq> dst + of_nat k" if "i < k" for i
      using that Suc.prems assms(2) distinct_offsets [of i k dst] by simp
    ultimately show ?case
      unfolding m1 using IH by (auto simp: byte_apply less_Suc_eq)
  qed simp
  then show "i < k \<Longrightarrow> m' (dst + of_nat i) = m (src + of_nat i)" "(\<forall>i<k. a \<noteq> dst + of_nat i) \<Longrightarrow> m' a = m a"
    by blast+
qed


lemma memcpy_ok:
  assumes "behind dst src n" "n < 2 ^ 31 - 4"
  obtains m' where "memcpy m dst src (of_nat n) = Some (dst, m')"
    "\<And>i. i < n \<Longrightarrow> m' (dst + of_nat i) = m (src + of_nat i)"
    "\<And>a. \<forall>i<n. a \<noteq> dst + of_nat i \<Longrightarrow> m' a = m a"
proof -
  let ?m = "fold (\<lambda>k. copy_byte dst src (of_nat k)) [0..<n] m"
  have "memcpy m dst src (of_nat n) = Some (dst, ?m)"
    using four_loop_ok [OF assms(2), of 0] by (simp add: memcpy_def)
  then show thesis
    using copy_loop_ok [OF assms(1) _ le_refl, where m = m] assms(2) by (intro that [of ?m]) simp_all
qed

lemma fill_ok:
  "fold (\<lambda>k. set_byte s v (of_nat k)) [0..<n] m = (\<lambda>a. if \<exists>i<n. a = s + of_nat i then v else m a)"
  by (induction n) (auto simp: less_Suc_eq byte_apply fun_eq_iff)

lemma memset_ok:
  assumes "n < 2 ^ 31 - 4"
  shows "memset m s c (of_nat n) = Some (s, \<lambda>a. if \<exists>i<n. a = s + of_nat i then ucast c else m a)"
  using four_loop_ok [OF assms, of 0] by (simp add: memset_def fill_ok)

text \<open>A string copied to a place that does not contain characters still to be read.\<close>

lemma strcpy_loop_ok:
  assumes "c_string m src bs" "behind dst src (Suc (length bs))" "i \<le> length bs"
  shows "strcpy_loop (fold (\<lambda>k. copy_byte dst src (of_nat k)) [0..<i] m) dst src (of_nat i)
     = Some (fold (\<lambda>k. copy_byte dst src (of_nat k)) [0..<Suc (length bs)] m)"
  using assms(3)
proof (induction "length bs - i" arbitrary: i rule: less_induct)
  case less
  let ?m = "\<lambda>i. fold (\<lambda>k. copy_byte dst src (of_nat k)) [0..<i] m"
  have len: "length bs < 2 ^ 31 - 4" using assms(1) by (simp add: c_string_def)
  have "?m i (src + of_nat i) = m (src + of_nat i)"
  proof (rule copy_loop_ok(2) [of dst src "Suc (length bs)"])
    show "\<forall>j<i. src + of_nat i \<noteq> dst + of_nat j"
      using assms(2) less.prems unfolding behind_def by (metis le_imp_less_Suc less_trans)
  qed (use assms(2) less.prems len in simp_all)
  then have c: "?m i (src + of_nat i) = m (src + of_nat i)" "?m i (src + of_nat i) = 0 \<longleftrightarrow> i = length bs"
    using c_string_nth(2) [OF assms(1) less.prems] by simp_all
  have s: "?m (Suc i) = (?m i)(dst + of_nat i := ?m i (src + of_nat i))"
    by (simp add: copy_byte_def)
  show ?case
  proof (cases "i = length bs")
    case True
    then show ?thesis
      unfolding strcpy_loop.simps [of "?m i" dst src "of_nat i"]
      using c s by (simp add: copy_byte_def)
  next
    case False
    then have "strcpy_loop (?m (Suc i)) dst src (of_nat (Suc i)) = Some (?m (Suc (length bs)))"
      using less.prems by (intro less(1)) simp_all
    then show ?thesis
      unfolding strcpy_loop.simps [of "?m i" dst src "of_nat i"] of_nat_plus
      using False c(2) s by simp
  qed
qed

lemma strcpy_ok:
  assumes "c_string m src bs" "behind dst src (Suc (length bs))"
  obtains m' where "strcpy m dst src = Some (dst, m')" "c_string m' dst bs"
    "\<And>a. \<forall>i\<le>length bs. a \<noteq> dst + of_nat i \<Longrightarrow> m' a = m a"
proof -
  let ?m = "fold (\<lambda>k. copy_byte dst src (of_nat k)) [0..<Suc (length bs)] m"
  have len: "Suc (length bs) < 2 ^ 31" using assms(1) by (simp add: c_string_def)
  note c = copy_loop_ok [OF assms(2) len le_refl, where m = m]
  have "strcpy m dst src = Some (dst, ?m)"
    using strcpy_loop_ok [OF assms, of 0] by (simp add: strcpy_def)
  moreover have "c_string ?m dst bs"
    using assms(1) c(1) by (auto simp: c_string_def bytes_at_def)
  ultimately show thesis
    using c(2) by (intro that [of ?m]) (simp_all add: less_Suc_eq_le)
qed

end
