(* ===== verification/Malloc.thy ===== *)
theory Malloc
  imports CMem
begin

text \<open>
  The allocator of \<^verbatim>\<open>lib/c.c\<close>: chunks in two doubly linked lists, those in use behind a first
  chunk that is never handed out, and those that were freed, in front of a last one. \<open>mem\<close> holds
  the headers (\<open>chunk_t\<close>) by their address and \<open>bytes\<close> the rest of memory; \<open>NULL\<close> is \<open>None\<close>. \<open>maps\<close>
  are the regions obtained from the system, the last one first, \<open>unmaps\<close> those returned.

  The system call \<open>mmap2\<close> is a parameter: it may depend on what was mapped before and fails with
  \<open>None\<close>. The code does not look for a failure and writes through the error number, a
  segmentation fault.
\<close>

record chunk =
  c_next :: "cint option"
  c_prev :: "cint option"
  c_size :: cint

record lheap =
  mem :: "cint \<Rightarrow> chunk"
  alloc_head :: "cint option"
  alloc_tail :: "cint option"
  freelist_head :: "cint option"
  bytes :: memory
  maps :: "(cint \<times> cint) list"
  unmaps :: "(cint \<times> cint) list"

datatype heap_error = Segfault | Aborted | Diverged

type_synonym 'a heap_op = "lheap \<Rightarrow> heap_error + 'a \<times> lheap"

type_synonym mmap_call = "(cint \<times> cint) list \<Rightarrow> cint \<Rightarrow> cint option"

text \<open>\<open>p->field = \<dots>\<close>, through a pointer that may be \<open>NULL\<close>, and sequencing.\<close>

definition upd :: "cint \<Rightarrow> (chunk \<Rightarrow> chunk) \<Rightarrow> lheap \<Rightarrow> lheap" where
  "upd p f s = s\<lparr>mem := (mem s)(p := f (mem s p))\<rparr>"

definition sizeof_chunk :: cint where
  "sizeof_chunk = 12"

definition align_to :: "cint \<Rightarrow> cint \<Rightarrow> cint" where
  "align_to val align = (val + align - 1) AND NOT (align - 1)"

definition chunk_get_size :: "cint \<Rightarrow> cint" where
  "chunk_get_size n = n AND 0xFFFFFFFE"

definition is_chunk_get_freed :: "cint \<Rightarrow> bool" where
  "is_chunk_get_freed n \<longleftrightarrow> n AND 1 \<noteq> 0"

definition chunk_set_freed :: "cint \<Rightarrow> lheap \<Rightarrow> lheap" where
  "chunk_set_freed p = upd p (\<lambda>c. c\<lparr>c_size := c_size c OR 1\<rparr>)"

definition chunk_clear_freed :: "cint \<Rightarrow> lheap \<Rightarrow> lheap" where
  "chunk_clear_freed p = upd p (\<lambda>c. c\<lparr>c_size := c_size c AND 0xFFFFFFFE\<rparr>)"

definition page_align_up :: "cint \<Rightarrow> cint" where
  "page_align_up n = align_to n 4096"

definition mmap :: "mmap_call \<Rightarrow> cint \<Rightarrow> cint heap_op" where
  "mmap os n s =
     (case os (maps s) n of
        None \<Rightarrow> Inl Segfault
      | Some p \<Rightarrow> Inr (p, s\<lparr>maps := (p, n) # maps s\<rparr>))"

section \<open>Allocation\<close>

definition init_alloc :: "mmap_call \<Rightarrow> lheap \<Rightarrow> heap_error + lheap" where
  "init_alloc os s =
     (if alloc_head s \<noteq> None then Inr s
      else case mmap os (page_align_up sizeof_chunk) s of
             Inl e \<Rightarrow> Inl e
           | Inr (p, s) \<Rightarrow>
               Inr (upd p (\<lambda>_. \<lparr>c_next = None, c_prev = None, c_size = 0\<rparr>)
                     (s\<lparr>alloc_head := Some p, alloc_tail := Some p\<rparr>)))"

definition init_free :: "mmap_call \<Rightarrow> lheap \<Rightarrow> heap_error + lheap" where
  "init_free os s =
     (if freelist_head s \<noteq> None then Inr s
      else case mmap os (page_align_up sizeof_chunk) s of
             Inl e \<Rightarrow> Inl e
           | Inr (p, s) \<Rightarrow>
               Inr (upd p (\<lambda>_. \<lparr>c_next = None, c_prev = None, c_size = - 1\<rparr>) (s\<lparr>freelist_head := Some p\<rparr>)))"

text \<open>The search for the smallest chunk that is large enough, from the free chunk \<open>fh\<close> on.\<close>

definition better :: "cint \<Rightarrow> cint \<Rightarrow> (cint \<times> cint) option \<Rightarrow> bool" where
  "better req n best \<longleftrightarrow> le_s req n \<and> (case best of None \<Rightarrow> True | Some (_, m) \<Rightarrow> lt_s n m)"

partial_function (option) best_fit ::
  "(cint \<Rightarrow> chunk) \<Rightarrow> cint \<Rightarrow> cint \<Rightarrow> (cint \<times> cint) option \<Rightarrow> (cint \<times> cint) option option" where
  "best_fit h req fh best =
     (case c_next (h fh) of
        None \<Rightarrow> Some best
      | Some nx \<Rightarrow>
          (let n = chunk_get_size (c_size (h fh))
           in best_fit h req nx (if better req n best then Some (fh, n) else best)))"

definition unlink_free :: "cint \<Rightarrow> lheap \<Rightarrow> lheap" where
  "unlink_free p s =
     (let c = mem s p;
          s = (case c_prev c of
                 Some q \<Rightarrow> upd q (\<lambda>d. d\<lparr>c_next := c_next c\<rparr>) s
               | None \<Rightarrow> s\<lparr>freelist_head := c_next c\<rparr>)
      in case c_next (mem s p) of
           Some q \<Rightarrow> upd q (\<lambda>d. d\<lparr>c_prev := c_prev (mem s p)\<rparr>) s
         | None \<Rightarrow> s)"

definition take_free :: "cint \<Rightarrow> lheap \<Rightarrow> heap_error + cint option \<times> lheap" where
  "take_free req s =
     (case freelist_head s of
        None \<Rightarrow> Inl Segfault
      | Some fh \<Rightarrow>
          (case best_fit (mem s) req fh None of
             None \<Rightarrow> Inl Diverged
           | Some None \<Rightarrow> Inr (None, s)
           | Some (Some (p, _)) \<Rightarrow> Inr (Some p, unlink_free p s)))"

definition take_fresh :: "mmap_call \<Rightarrow> cint \<Rightarrow> cint heap_op" where
  "take_fresh os req s =
     (case mmap os (page_align_up (sizeof_chunk + req)) s of
        Inl e \<Rightarrow> Inl e
      | Inr (p, s) \<Rightarrow> Inr (p, upd p (\<lambda>c. c\<lparr>c_size := page_align_up (sizeof_chunk + req)\<rparr>) s))"

definition append_alloc :: "cint \<Rightarrow> lheap \<Rightarrow> heap_error + lheap" where
  "append_alloc p s =
     (case alloc_tail s of
        None \<Rightarrow> Inl Segfault
      | Some t \<Rightarrow>
          (let s = upd p (\<lambda>c. c\<lparr>c_prev := Some t\<rparr>) (upd t (\<lambda>c. c\<lparr>c_next := Some p\<rparr>) s);
               s = upd p (\<lambda>c. c\<lparr>c_next := None\<rparr>) (s\<lparr>alloc_tail := Some p\<rparr>)
           in Inr (chunk_clear_freed p s)))"

definition alloc_chunk :: "mmap_call \<Rightarrow> cint \<Rightarrow> cint heap_op" where
  "alloc_chunk os req s =
     (case take_free req s of
        Inl e \<Rightarrow> Inl e
      | Inr (Some p, s) \<Rightarrow> Inr (p, s)
      | Inr (None, s) \<Rightarrow> take_fresh os req s)"

definition malloc :: "mmap_call \<Rightarrow> cint \<Rightarrow> cint option heap_op" where
  "malloc os req s =
     (if le_s req 0 then Inr (None, s)
      else let req = align_to req 8
           in case init_alloc os s of
                Inl e \<Rightarrow> Inl e
              | Inr s \<Rightarrow>
                  (case init_free os s of
                     Inl e \<Rightarrow> Inl e
                   | Inr s \<Rightarrow>
                       (case alloc_chunk os req s of
                          Inl e \<Rightarrow> Inl e
                        | Inr (p, s) \<Rightarrow>
                            (case append_alloc p s of
                               Inl e \<Rightarrow> Inl e
                             | Inr s \<Rightarrow> Inr (Some (p + sizeof_chunk), s)))))"

definition int_max :: cint where
  "int_max = 0x7FFFFFFF"

text \<open>\<open>n > INT_MAX / size\<close>, with the division of C.\<close>

definition calloc :: "mmap_call \<Rightarrow> cint \<Rightarrow> cint \<Rightarrow> cint option heap_op" where
  "calloc os n req s =
     (if n = 0 \<or> req = 0 then Inr (None, s)
      else if lt_s (of_int (sdiv_trunc (sint int_max) (sint req))) n then Inr (None, s)
      else let total = n * req
           in case malloc os total s of
                Inl e \<Rightarrow> Inl e
              | Inr (None, s) \<Rightarrow> Inr (None, s)
              | Inr (Some p, s) \<Rightarrow>
                  (case memset (bytes s) p 0 total of
                     None \<Rightarrow> Inl Diverged
                   | Some (q, b) \<Rightarrow> Inr (Some q, s\<lparr>bytes := b\<rparr>)))"

section \<open>Release\<close>

text \<open>Take a chunk out of the list of used chunks, and put it in front of the free ones.\<close>

definition unlink_used :: "cint \<Rightarrow> lheap \<Rightarrow> lheap" where
  "unlink_used cur s =
     (let c = mem s cur;
          s = (case c_prev c of
                 Some q \<Rightarrow> upd q (\<lambda>d. d\<lparr>c_next := c_next c\<rparr>) s
               | None \<Rightarrow> s\<lparr>alloc_head := c_next c\<rparr>)
      in case (c_next c, c_prev c) of
           (Some q, r) \<Rightarrow> upd q (\<lambda>d. d\<lparr>c_prev := r\<rparr>) s
         | (None, Some r) \<Rightarrow> (upd r (\<lambda>d. d\<lparr>c_next := None\<rparr>) s)\<lparr>alloc_tail := Some r\<rparr>
         | (None, None) \<Rightarrow> s)"

definition push_free :: "cint \<Rightarrow> lheap \<Rightarrow> lheap" where
  "push_free cur s =
     (let s = chunk_set_freed cur (upd cur (\<lambda>d. d\<lparr>c_next := freelist_head s, c_prev := None\<rparr>) s);
          s = (case freelist_head s of None \<Rightarrow> s | Some q \<Rightarrow> upd q (\<lambda>d. d\<lparr>c_prev := Some cur\<rparr>) s)
      in s\<lparr>freelist_head := Some cur\<rparr>)"

definition free :: "cint option \<Rightarrow> lheap \<Rightarrow> heap_error + lheap" where
  "free ptr s =
     (case ptr of
        None \<Rightarrow> Inr s
      | Some p \<Rightarrow>
          (let cur = p - sizeof_chunk
           in if is_chunk_get_freed (c_size (mem s cur)) then Inl Aborted
              else Inr (push_free cur (unlink_used cur s))))"

definition rfree :: "cint \<Rightarrow> cint \<Rightarrow> lheap \<Rightarrow> lheap" where
  "rfree p n s = s\<lparr>unmaps := (p, n) # unmaps s\<rparr>"

definition release :: "cint \<Rightarrow> lheap \<Rightarrow> lheap" where
  "release p s =
     rfree p (chunk_get_size (c_size (mem s p))) (upd p (\<lambda>c. c\<lparr>c_next := None, c_prev := None\<rparr>) s)"

text \<open>The last free chunk stays; in the other list every chunk goes.\<close>

partial_function (option) release_free :: "cint option \<Rightarrow> lheap \<Rightarrow> lheap option" where
  "release_free cur s =
     (case cur of
        None \<Rightarrow> Some s
      | Some p \<Rightarrow>
          (case c_next (mem s p) of
             None \<Rightarrow> Some s
           | Some q \<Rightarrow> release_free (Some q) (release p s)))"

partial_function (option) release_used :: "cint option \<Rightarrow> lheap \<Rightarrow> lheap option" where
  "release_used cur s =
     (case cur of
        None \<Rightarrow> Some s
      | Some p \<Rightarrow> release_used (c_next (mem s p)) (release p s))"

definition free_all :: "lheap \<Rightarrow> lheap option" where
  "free_all s =
     (if freelist_head s = None \<and> alloc_head s = None then Some s
      else case release_free (freelist_head s) s of
             None \<Rightarrow> None
           | Some s \<Rightarrow>
               (case alloc_head s of
                  None \<Rightarrow> Some s
                | Some h \<Rightarrow> release_used (c_next (mem s h)) s))"

end
