(* ===== verification/MallocInv.thy ===== *)
theory MallocInv
  imports Malloc
begin

text \<open>
  The lists of the allocator as lists of addresses. \<open>chain\<close> describes a doubly linked list in
  memory; \<open>heap_ok\<close> is the invariant of the allocator, with the used and the free chunks as the
  abstract state that \<^verbatim>\<open>malloc\<close> and \<^verbatim>\<open>free\<close> move chunks between.
\<close>

section \<open>Doubly linked lists\<close>

definition first :: "cint option \<Rightarrow> cint list \<Rightarrow> cint option" where
  "first q xs = (case xs of [] \<Rightarrow> q | x # _ \<Rightarrow> Some x)"

definition final :: "cint option \<Rightarrow> cint list \<Rightarrow> cint option" where
  "final p xs = (if xs = [] then p else Some (last xs))"

lemma first_simps [simp]: "first q [] = q" "first q (x # xs) = Some x" "first q (xs @ ys) = first (first q ys) xs"
  by (simp_all add: first_def split: list.split)

lemma final_simps [simp]: "final p [] = p" "final p (x # xs) = final (Some x) xs" "final p (xs @ ys) = final (final p xs) ys"
  by (simp_all add: final_def)

text \<open>The nodes \<open>xs\<close> between the node before, \<open>p\<close>, and the node after, \<open>q\<close>.\<close>

fun chain :: "(cint \<Rightarrow> chunk) \<Rightarrow> cint option \<Rightarrow> cint list \<Rightarrow> cint option \<Rightarrow> bool" where
  "chain h p [] q = True"
| "chain h p (x # xs) q \<longleftrightarrow> c_prev (h x) = p \<and> c_next (h x) = first q xs \<and> chain h (Some x) xs q"

lemma chain_append: "chain h p (xs @ ys) q \<longleftrightarrow> chain h p xs (first q ys) \<and> chain h (final p xs) ys q"
  by (induction xs arbitrary: p) auto

lemma chain_cong:
  "(\<And>x. x \<in> set xs \<Longrightarrow> c_prev (g x) = c_prev (h x) \<and> c_next (g x) = c_next (h x)) \<Longrightarrow> chain g p xs q = chain h p xs q"
  by (induction xs arbitrary: p) auto

lemma chain_other [simp]: "y \<notin> set xs \<Longrightarrow> chain (h(y := c)) p xs q = chain h p xs q"
  by (rule chain_cong) auto

text \<open>Another node before or after the list.\<close>

lemma chain_set_next:
  assumes "chain h p xs q" "final None xs = Some y" "distinct xs"
  shows "chain (h(y := (h y)\<lparr>c_next := r\<rparr>)) p xs r"
proof -
  obtain ys where "xs = ys @ [y]"
    using assms(2) by (cases xs rule: rev_cases) (auto simp: final_def)
  then show ?thesis using assms(1,3) by (simp add: chain_append)
qed

lemma chain_set_prev:
  assumes "chain h p xs q" "first None xs = Some y" "distinct xs"
  shows "chain (h(y := (h y)\<lparr>c_prev := r\<rparr>)) r xs q"
  using assms by (cases xs) simp_all

definition unlink :: "cint \<Rightarrow> (cint \<Rightarrow> chunk) \<Rightarrow> cint \<Rightarrow> chunk" where
  "unlink x h =
     (let c = h x;
          h = (case c_prev c of Some q \<Rightarrow> h(q := (h q)\<lparr>c_next := c_next c\<rparr>) | None \<Rightarrow> h)
      in case c_next c of Some q \<Rightarrow> h(q := (h q)\<lparr>c_prev := c_prev c\<rparr>) | None \<Rightarrow> h)"

lemma unlink_ok:
  assumes "chain h None (xs @ x # ys) None" "distinct (xs @ x # ys)"
  shows "chain (unlink x h) None (xs @ ys) None"
    "y \<notin> set (xs @ ys) \<Longrightarrow> unlink x h y = h y" "c_size (unlink x h y) = c_size (h y)"
proof -
  have l: "c_prev (h x) = final None xs" "c_next (h x) = first None ys" "chain h None xs (Some x)" "chain h (Some x) ys None"
    using assms(1) by (simp_all add: chain_append)
  show "y \<notin> set (xs @ ys) \<Longrightarrow> unlink x h y = h y" "c_size (unlink x h y) = c_size (h y)"
    unfolding unlink_def Let_def l(1,2) by (auto simp: final_def first_def split: list.split)
  let ?h = "case final None xs of Some q \<Rightarrow> h(q := (h q)\<lparr>c_next := first None ys\<rparr>) | None \<Rightarrow> h"
  have "chain ?h None xs (first None ys)"
    using chain_set_next [OF l(3)] assms(2) by (auto split: option.split simp: final_def)
  moreover have "chain ?h (Some x) ys None"
  proof (cases "xs = []")
    case False
    have "set xs \<inter> set ys = {}" using assms(2) by auto
    then have "last xs \<notin> set ys" using last_in_set [OF False] by blast
    then show ?thesis using l(4) False by (simp add: final_def)
  qed (use l(4) in \<open>simp add: final_def\<close>)
  moreover have "chain (unlink x h) (final None xs) ys None"
    if "chain ?h (Some x) ys None"
    using chain_set_prev [OF that, where r = "final None xs"] assms(2)
    unfolding unlink_def Let_def l(1,2) by (cases ys) auto
  moreover have "chain (unlink x h) None xs (first None ys)" if "chain ?h None xs (first None ys)"
    using that assms(2) unfolding unlink_def Let_def l(1,2) by (cases ys) auto
  ultimately show "chain (unlink x h) None (xs @ ys) None"
    by (simp add: chain_append)
qed

section \<open>The search\<close>

definition chunk_len :: "(cint \<Rightarrow> chunk) \<Rightarrow> cint \<Rightarrow> cint" where
  "chunk_len h x = chunk_get_size (c_size (h x))"

definition pick :: "(cint \<Rightarrow> chunk) \<Rightarrow> cint \<Rightarrow> cint \<Rightarrow> (cint \<times> cint) option \<Rightarrow> (cint \<times> cint) option" where
  "pick h req x best = (if better req (chunk_len h x) best then Some (x, chunk_len h x) else best)"

lemma best_fit_fold:
  assumes "chain h p (xs @ [z]) None"
  shows "best_fit h req (hd (xs @ [z])) best = Some (fold (pick h req) xs best)"
  using assms
proof (induction xs arbitrary: p best)
  case Nil
  then show ?case by (simp add: best_fit.simps [of h req z])
next
  case (Cons x xs)
  have "c_next (h x) = Some (hd (xs @ [z]))"
    using Cons.prems by (cases xs) simp_all
  then have "best_fit h req x best = best_fit h req (hd (xs @ [z])) (pick h req x best)"
    by (simp add: best_fit.simps [of h req x] pick_def chunk_len_def Let_def)
  then show ?case using Cons.prems Cons.IH [of "Some x"] by simp
qed

text \<open>\<open>x\<close> fits, and no chunk of \<open>xs\<close> that fits is smaller.\<close>

definition best_of :: "(cint \<Rightarrow> chunk) \<Rightarrow> cint \<Rightarrow> cint list \<Rightarrow> cint \<Rightarrow> bool" where
  "best_of h req xs x \<longleftrightarrow> x \<in> set xs \<and> le_s req (chunk_len h x)
     \<and> (\<forall>y\<in>set xs. le_s req (chunk_len h y) \<longrightarrow> le_s (chunk_len h x) (chunk_len h y))"

definition picked :: "(cint \<Rightarrow> chunk) \<Rightarrow> cint \<Rightarrow> cint list \<Rightarrow> (cint \<times> cint) option \<Rightarrow> bool" where
  "picked h req xs b \<longleftrightarrow> (case b of
       None \<Rightarrow> \<forall>y\<in>set xs. \<not> le_s req (chunk_len h y)
     | Some (x, n) \<Rightarrow> n = chunk_len h x \<and> best_of h req xs x)"

lemma picked_step: "picked h req xs b \<Longrightarrow> picked h req (xs @ [y]) (pick h req y b)"
  by (cases b) (auto simp: picked_def pick_def better_def best_of_def lt_s_sint le_s_sint)

lemma fold_picked: "picked h req xs (fold (pick h req) xs None)"
proof (induction xs rule: rev_induct)
  case (snoc y xs)
  then show ?case by (simp add: picked_step)
qed (simp add: picked_def)

section \<open>The invariant\<close>

definition region :: "cint \<times> cint \<Rightarrow> nat set" where
  "region r = {unat (fst r)..<unat (fst r) + unat (snd r)}"

definition regions_ok :: "(cint \<times> cint) list \<Rightarrow> bool" where
  "regions_ok ms \<longleftrightarrow> (\<forall>r\<in>set ms. unat (fst r) + unat (snd r) < 2 ^ 32 \<and> 0 < unat (snd r))
     \<and> (\<forall>r\<in>set ms. \<forall>q\<in>set ms. r \<noteq> q \<longrightarrow> region r \<inter> region q = {})"

text \<open>
  \<open>h\<close> is the first chunk, \<open>z\<close> the last free one, \<open>A\<close> and \<open>F\<close> are the chunks in use and free; \<open>L\<close> are chunks
  that are in no list for the moment. The mapped regions are those of the chunks.
\<close>

definition heap_at :: "lheap \<Rightarrow> cint \<Rightarrow> cint list \<Rightarrow> cint list \<Rightarrow> cint \<Rightarrow> cint list \<Rightarrow> bool" where
  "heap_at s h A F z L \<longleftrightarrow>
     alloc_head s = Some h \<and> alloc_tail s = final (Some h) A \<and> chain (mem s) None (h # A) None
   \<and> freelist_head s = first (Some z) F \<and> chain (mem s) None (F @ [z]) None
   \<and> distinct (L @ h # A @ F @ [z])
   \<and> (\<forall>a\<in>set A. \<not> is_chunk_get_freed (c_size (mem s a))) \<and> (\<forall>a\<in>set F. is_chunk_get_freed (c_size (mem s a)))
   \<and> set (maps s) = {(h, 4096), (z, 4096)} \<union> (\<lambda>a. (a, chunk_len (mem s) a)) ` (set L \<union> set A \<union> set F)
   \<and> regions_ok (maps s)"

lemma upd_simps [simp]:
  "mem (upd p f s) = (mem s)(p := f (mem s p))" "alloc_head (upd p f s) = alloc_head s"
  "alloc_tail (upd p f s) = alloc_tail s" "freelist_head (upd p f s) = freelist_head s"
  "maps (upd p f s) = maps s" "bytes (upd p f s) = bytes s"
  by (simp_all add: upd_def)

lemma mem_unlink:
  "mem (unlink_free x s) = unlink x (mem s)" "mem (unlink_used x s) = unlink x (mem s)"
  "maps (unlink_free x s) = maps s" "maps (unlink_used x s) = maps s"
  "bytes (unlink_free x s) = bytes s" "bytes (unlink_used x s) = bytes s"
  by (auto simp: unlink_free_def unlink_used_def unlink_def Let_def split: option.split)

lemma chunk_len_cong: "c_size (g x) = c_size (h x) \<Longrightarrow> chunk_len g x = chunk_len h x"
  by (simp add: chunk_len_def)

lemma unlink_size [simp]: "c_size (unlink x h y) = c_size (h y)" "chunk_len (unlink x h) y = chunk_len h y"
  by (auto simp: unlink_def chunk_len_def Let_def split: option.split)

lemma unlink_free_ok:
  assumes "heap_at s h A (xs @ x # ys) z []"
  shows "heap_at (unlink_free x s) h A (xs @ ys) z [x]"
proof -
  have c: "chain (mem s) None (xs @ x # (ys @ [z])) None" "distinct (xs @ x # (ys @ [z]))"
    using assms by (simp_all add: heap_at_def)
  note u = unlink_ok [OF c]
  have head: "freelist_head (unlink_free x s) = first (Some z) (xs @ ys)"
  proof (cases xs)
    case Nil
    then have "c_prev (mem s x) = None" "c_next (mem s x) = first (Some z) ys" using c(1) by simp_all
    then show ?thesis using Nil by (auto simp: unlink_free_def Let_def split: option.split)
  next
    case (Cons y ys)
    then have "c_prev (mem s x) = final (Some y) ys" using c(1) by (simp add: chain_append)
    then obtain q where "c_prev (mem s x) = Some q" by (auto simp: final_def split: if_splits)
    then show ?thesis using Cons assms by (auto simp: unlink_free_def Let_def heap_at_def split: option.split)
  qed
  have other: "alloc_head (unlink_free x s) = alloc_head s" "alloc_tail (unlink_free x s) = alloc_tail s"
    by (auto simp: unlink_free_def Let_def split: option.split)
  have "y \<notin> set (xs @ ys @ [z])" if "y \<in> set (h # A)" for y
    using that assms by (auto simp: heap_at_def)
  then have "chain (mem (unlink_free x s)) None (h # A) None"
    using assms u(2) by (subst chain_cong [of _ _ "mem s"]) (auto simp: heap_at_def mem_unlink)
  then show ?thesis
    using assms head other u(1) by (auto simp: heap_at_def mem_unlink)
qed

lemma unlink_used_ok:
  assumes "heap_at s h (xs @ x # ys) F z []"
  shows "heap_at (unlink_used x s) h (xs @ ys) F z [x]"
proof -
  have c: "chain (mem s) None ((h # xs) @ x # ys) None" "distinct ((h # xs) @ x # ys)"
    using assms by (auto simp: heap_at_def)
  note u = unlink_ok [OF c]
  have l: "c_prev (mem s x) = final (Some h) xs" "c_next (mem s x) = first None ys"
    using c(1) by (simp_all add: chain_append)
  obtain q where q: "final (Some h) xs = Some q" by (cases xs) (simp_all add: final_def)
  have tail: "alloc_tail (unlink_used x s) = final (Some h) (xs @ ys)"
    using assms q by (cases ys) (auto simp: unlink_used_def Let_def heap_at_def l final_def)
  have other: "alloc_head (unlink_used x s) = alloc_head s" "freelist_head (unlink_used x s) = freelist_head s"
    using q by (auto simp: unlink_used_def Let_def l split: option.split)
  have "y \<notin> set ((h # xs) @ ys)" if "y \<in> set (F @ [z])" for y
    using that assms by (auto simp: heap_at_def)
  then have "chain (mem (unlink_used x s)) None (F @ [z]) None"
    using assms u(2) by (subst chain_cong [of _ _ "mem s"]) (auto simp: heap_at_def mem_unlink)
  then show ?thesis
    using assms tail other u(1) by (auto simp: heap_at_def mem_unlink)
qed

lemma freed_simps [simp]:
  "is_chunk_get_freed (n OR 1)" "chunk_get_size (n OR 1) = chunk_get_size n"
  "\<not> is_chunk_get_freed (n AND 0xFFFFFFFE)" "chunk_get_size (n AND 0xFFFFFFFE) = chunk_get_size n"
proof -
  have m: "(0xFFFFFFFE :: cint) = NOT 1" by simp
  have e: "bit (1 :: cint) k \<longleftrightarrow> k = 0" for k by (simp add: bit_1_iff)
  have "(n OR 1) AND 1 = 1" by (rule bit_word_eqI) (auto simp: bit_simps e)
  then show "is_chunk_get_freed (n OR 1)" unfolding is_chunk_get_freed_def by simp
  show "chunk_get_size (n OR 1) = chunk_get_size n"
    unfolding chunk_get_size_def m by (rule bit_word_eqI) (auto simp: bit_simps e)
  have "(n AND NOT 1) AND 1 = 0" by (rule bit_word_eqI) (auto simp: bit_simps e)
  then show "\<not> is_chunk_get_freed (n AND 0xFFFFFFFE)"
    unfolding is_chunk_get_freed_def m by (simp only: not_not simp_thms)
  show "chunk_get_size (n AND 0xFFFFFFFE) = chunk_get_size n"
    unfolding chunk_get_size_def m by (rule bit_word_eqI) (auto simp: bit_simps e)
qed

lemma push_free_ok:
  assumes "heap_at s h A F z [x]"
  shows "heap_at (push_free x s) h A (x # F) z []"
proof -
  obtain f fs where f: "F @ [z] = f # fs" by (cases F) simp_all
  have head: "freelist_head s = Some f" using assms f by (cases F) (simp_all add: heap_at_def)
  have d: "x \<noteq> f" "distinct (f # fs)" "x \<notin> set (h # A)" "x \<notin> set fs" "f \<notin> set (h # A)"
  proof -
    have "distinct ([x] @ (h # A) @ (f # fs))"
      using assms unfolding heap_at_def by (simp flip: f)
    then show "x \<noteq> f" "distinct (f # fs)" "x \<notin> set (h # A)" "x \<notin> set fs" "f \<notin> set (h # A)" by auto
  qed
  have m: "mem (push_free x s) = (mem s)(x := (mem s x)\<lparr>c_next := Some f, c_prev := None, c_size := c_size (mem s x) OR 1\<rparr>,
      f := (mem s f)\<lparr>c_prev := Some x\<rparr>)"
    using d(1) by (simp add: push_free_def chunk_set_freed_def head Let_def)
  have p: "alloc_head (push_free x s) = alloc_head s" "alloc_tail (push_free x s) = alloc_tail s"
    "maps (push_free x s) = maps s" "freelist_head (push_free x s) = Some x"
    by (simp_all add: push_free_def chunk_set_freed_def head Let_def)
  have "chain (mem s) None (f # fs) None"
    using assms by (simp add: heap_at_def flip: f)
  then have "chain (mem (push_free x s)) None ((x # F) @ [z]) None"
    using d f by (simp add: m)
  moreover have "chain (mem (push_free x s)) None (h # A) None"
    using assms d by (auto simp: m heap_at_def)
  moreover have "c_size (mem (push_free x s) y) = (if y = x then c_size (mem s x) OR 1 else c_size (mem s y))"
    "chunk_len (mem (push_free x s)) y = chunk_len (mem s) y" for y
    using d(1) by (simp_all add: m chunk_len_def)
  ultimately show ?thesis
    using assms d(3) by (auto simp: heap_at_def p)
qed

lemma append_ok:
  assumes "heap_at s h A F z [x]"
  obtains s' where "append_alloc x s = Inr s'" "heap_at s' h (A @ [x]) F z []" "maps s' = maps s" "bytes s' = bytes s"
    "\<forall>y. chunk_len (mem s') y = chunk_len (mem s) y"
proof -
  obtain t where t: "final (Some h) A = Some t" by (cases A) (simp_all add: final_def)
  then have tail: "alloc_tail s = Some t" using assms by (simp add: heap_at_def)
  have tin: "t \<in> set (h # A)" using t by (auto simp: final_def split: if_splits)
  then have d: "x \<noteq> t" "x \<notin> set (h # A)" "x \<notin> set (F @ [z])" "t \<notin> set (F @ [z])" "distinct (h # A)"
    using assms by (auto simp: heap_at_def)
  let ?s = "chunk_clear_freed x (upd x (\<lambda>c. c\<lparr>c_next := None\<rparr>)
      ((upd x (\<lambda>c. c\<lparr>c_prev := Some t\<rparr>) (upd t (\<lambda>c. c\<lparr>c_next := Some x\<rparr>) s))\<lparr>alloc_tail := Some x\<rparr>))"
  have m: "mem ?s = ((mem s)(t := (mem s t)\<lparr>c_next := Some x\<rparr>))
      (x := (mem s x)\<lparr>c_prev := Some t, c_next := None, c_size := c_size (mem s x) AND 0xFFFFFFFE\<rparr>)"
    using d(1) by (simp add: chunk_clear_freed_def)
  have p: "alloc_head ?s = alloc_head s" "alloc_tail ?s = Some x" "maps ?s = maps s" "freelist_head ?s = freelist_head s"
    "bytes ?s = bytes s"
    by (simp_all add: chunk_clear_freed_def)
  have sizes: "c_size (mem ?s y) = (if y = x then c_size (mem s x) AND 0xFFFFFFFE else c_size (mem s y))"
    "chunk_len (mem ?s) y = chunk_len (mem s) y" for y
    using d(1) by (simp_all add: m chunk_len_def)
  have "chain ((mem s)(t := (mem s t)\<lparr>c_next := Some x\<rparr>)) None (h # A) (Some x)"
    by (rule chain_set_next [where q = None]) (use assms t d(5) in \<open>simp_all add: heap_at_def\<close>)
  then have "chain (mem ?s) None (h # A @ [x]) None"
    using d(2) t unfolding m append_Cons [symmetric] chain_append by auto
  moreover have "chain (mem ?s) None (F @ [z]) None"
    using assms d by (simp add: m heap_at_def)
  ultimately have "heap_at ?s h (A @ [x]) F z []"
    using assms d(2,3) by (auto simp: heap_at_def p sizes)
  then show thesis
    using that [of ?s] tail sizes(2) p(3,5) by (simp add: append_alloc_def Let_def)
qed

section \<open>Sizes\<close>

lemma align_to_power:
  assumes "e < 32" "k + 2 ^ e < 2 ^ 32"
  shows "align_to (of_nat k) (2 ^ e) = of_nat (2 ^ e * ((k + 2 ^ e - 1) div 2 ^ e))"
proof -
  let ?j = "k + 2 ^ e - 1"
  obtain i where i: "k + 2 ^ e = Suc i" by (cases "k + 2 ^ e") auto
  have "of_nat k + 2 ^ e = (of_nat (Suc i) :: cint)" unfolding i [symmetric] by simp
  then have j: "of_nat k + 2 ^ e - 1 = (of_nat ?j :: cint)" using i by simp
  have "a AND NOT (mask e) = push_bit e (drop_bit e a)" for a :: cint
    by (rule bit_word_eqI) (auto simp: bit_simps)
  moreover have "(2 ^ e - 1 :: cint) = mask e" by (simp add: mask_eq_exp_minus_1)
  moreover have "drop_bit e (of_nat ?j :: cint) = of_nat (?j div 2 ^ e)"
  proof (rule unsigned_word_eqI)
    have "?j < 2 ^ 32" "?j div 2 ^ e < 2 ^ 32"
      using assms(2) div_le_dividend [of ?j "2 ^ e"] by linarith+
    then show "unat (drop_bit e (of_nat ?j :: cint)) = unat (of_nat (?j div 2 ^ e) :: cint)"
      by (simp only: unat_drop_bit_eq) (simp add: unsigned_of_nat take_bit_nat_eq_self drop_bit_eq_div)
  qed
  ultimately show ?thesis
    unfolding align_to_def j by (simp add: push_bit_eq_mult mult.commute)
qed

lemma round_up:
  assumes "0 < (b :: nat)"
  shows "k \<le> b * ((k + b - 1) div b)" "b * ((k + b - 1) div b) < k + b"
proof -
  have "k + b - 1 = b * ((k + b - 1) div b) + (k + b - 1) mod b" by simp
  moreover have "(k + b - 1) mod b < b" using assms by simp
  ultimately show "k \<le> b * ((k + b - 1) div b)" "b * ((k + b - 1) div b) < k + b"
    using assms by linarith+
qed

lemma page_len:
  assumes "k < 2 ^ 31 - 8192"
  obtains m n where "align_to (of_nat k) 8 = of_nat m" "k \<le> m" "m < k + 8"
    "page_align_up (sizeof_chunk + of_nat m) = of_nat n" "k + 12 \<le> n" "n < 2 ^ 31" "even n"
proof -
  define m n where "m = 8 * ((k + 8 - 1) div 8)" and "n = 4096 * ((m + 12 + 4096 - 1) div 4096)"
  have m: "k \<le> m" "m < k + 8" and n: "m + 12 \<le> n" "n < m + 12 + 4096" "even n"
    using round_up [of 8 k] round_up [of 4096 "m + 12"] by (simp_all add: m_def n_def)
  have "align_to (of_nat k) 8 = of_nat m"
    using align_to_power [of 3 k] assms by (simp add: m_def)
  moreover have "page_align_up (sizeof_chunk + of_nat m) = of_nat n"
    using align_to_power [of 12 "m + 12"] assms m by (simp add: page_align_up_def n_def sizeof_chunk_def add.commute)
  ultimately show thesis
    using that m n assms by simp
qed

section \<open>New regions\<close>

text \<open>
  The system gives a region that overlaps none of those given before, if these were not wrapped
  around, and that does not reach the end of the address space.
\<close>

definition os_ok :: "mmap_call \<Rightarrow> bool" where
  "os_ok os \<longleftrightarrow> (\<forall>ms n p. regions_ok ms \<and> 0 < unat n \<and> os ms n = Some p
     \<longrightarrow> unat p + unat n < 2 ^ 32 \<and> (\<forall>r\<in>set ms. region r \<inter> region (p, n) = {}))"

lemma fresh_region:
  assumes "os_ok os" "regions_ok ms" "0 < unat n" "os ms n = Some p"
  shows "regions_ok ((p, n) # ms)" "(p, k) \<notin> set ms"
proof -
  have p: "unat p + unat n < 2 ^ 32" "\<And>r. r \<in> set ms \<Longrightarrow> region r \<inter> region (p, n) = {}"
    using assms unfolding os_ok_def by blast+
  show "regions_ok ((p, n) # ms)"
    using assms(2,3) p by (auto simp: regions_ok_def)
  show "(p, k) \<notin> set ms"
  proof
    assume "(p, k) \<in> set ms"
    moreover from this have "unat p \<in> region (p, k)"
      using assms(2) by (auto simp: regions_ok_def region_def)
    moreover have "unat p \<in> region (p, n)" using assms(3) by (simp add: region_def)
    ultimately show False using p(2) by blast
  qed
qed

lemma even_chunk_size:
  assumes "n < 2 ^ 32" "even n"
  shows "chunk_get_size (of_nat n) = of_nat n"
proof -
  have "\<not> bit (of_nat n :: cint) 0" using assms(2) unfolding bit_of_nat_iff by (simp add: bit_0)
  moreover have m: "(0xFFFFFFFE :: cint) = NOT 1" by simp
  ultimately show ?thesis
    unfolding chunk_get_size_def m
    by (intro bit_word_eqI) (auto simp: bit_simps bit_1_iff intro!: gr0I simp del: bit_0)
qed

lemma take_fresh_ok:
  assumes "heap_at s h A F z []" "os_ok os" "0 < n" "n < 2 ^ 31" "even n" "page_align_up (sizeof_chunk + req) = of_nat n"
    and "os (maps s) (of_nat n) = Some p"
  obtains s' where "take_fresh os req s = Inr (p, s')" "heap_at s' h A F z [p]" "chunk_len (mem s') p = of_nat n"
    "\<forall>y. y \<noteq> p \<longrightarrow> chunk_len (mem s') y = chunk_len (mem s) y" "maps s' = (p, of_nat n) # maps s" "bytes s' = bytes s"
proof -
  have ok: "regions_ok (maps s)" and un: "0 < unat (of_nat n :: cint)"
    using assms by (simp_all add: heap_at_def unsigned_of_nat take_bit_nat_eq_self)
  note f = fresh_region [OF assms(2) ok un assms(7)]
  have p: "p \<notin> set (h # A @ F @ [z])"
  proof
    assume "p \<in> set (h # A @ F @ [z])"
    then have "\<exists>k. (p, k) \<in> set (maps s)" using assms(1) by (auto simp: heap_at_def)
    then show False using f(2) by blast
  qed
  let ?s = "upd p (\<lambda>c. c\<lparr>c_size := of_nat n\<rparr>) (s\<lparr>maps := (p, of_nat n) # maps s\<rparr>)"
  have len: "chunk_len (mem ?s) p = of_nat n"
    using even_chunk_size [of n] assms(4,5) by (simp add: chunk_len_def)
  have same: "chunk_len (mem ?s) y = chunk_len (mem s) y" "mem ?s y = mem s y" if "y \<noteq> p" for y
    using that by (simp_all add: chunk_len_def)
  have im: "(\<lambda>a. (a, chunk_len (mem ?s) a)) ` (set A \<union> set F) = (\<lambda>a. (a, chunk_len (mem s) a)) ` (set A \<union> set F)"
  proof (rule image_cong [OF refl])
    fix a assume "a \<in> set A \<union> set F"
    then have "a \<noteq> p" using p by auto
    from same(1) [OF this] show "(a, chunk_len (mem ?s) a) = (a, chunk_len (mem s) a)" by (simp only:)
  qed
  have "set (maps ?s) = insert (p, of_nat n) (set (maps s))" by simp
  also have "\<dots> = {(h, 4096), (z, 4096)} \<union> (\<lambda>a. (a, chunk_len (mem ?s) a)) ` (set [p] \<union> set A \<union> set F)"
    using assms(1) len by (simp only: heap_at_def Un_assoc image_Un [of _ "set [p]"] im) (simp add: insert_commute)
  finally have maps: "set (maps ?s) = {(h, 4096), (z, 4096)} \<union> (\<lambda>a. (a, chunk_len (mem ?s) a)) ` (set [p] \<union> set A \<union> set F)" .
  have "chain (mem ?s) None (h # A) None" "chain (mem ?s) None (F @ [z]) None"
    unfolding upd_simps(1) using assms(1) p by (simp_all add: heap_at_def del: chain.simps(2))
  moreover have "\<forall>a\<in>set A. \<not> is_chunk_get_freed (c_size (mem ?s a))" "\<forall>a\<in>set F. is_chunk_get_freed (c_size (mem ?s a))"
    using assms(1) p by (auto simp: heap_at_def)
  ultimately have "heap_at ?s h A F z [p]"
    using assms(1) p f(1) maps unfolding heap_at_def by simp
  then show thesis
    using that [of ?s] assms(6,7) len same by (simp add: take_fresh_def mmap_def)
qed

section \<open>Allocation\<close>

lemma take_free_ok:
  assumes "heap_at s h A F z []"
  shows "take_free req s = Inr (None, s) \<and> (\<forall>y\<in>set F. \<not> le_s req (chunk_len (mem s) y))
    \<or> (\<exists>x. best_of (mem s) req F x \<and> take_free req s = Inr (Some x, unlink_free x s)
        \<and> heap_at (unlink_free x s) h A (remove1 x F) z [x])"
proof -
  have head: "freelist_head s = Some (hd (F @ [z]))"
    using assms by (cases F) (simp_all add: heap_at_def)
  have "chain (mem s) None (F @ [z]) None" using assms by (simp add: heap_at_def)
  note fit = best_fit_fold [OF this, of req None]
  have picked: "picked (mem s) req F (fold (pick (mem s) req) F None)" by (rule fold_picked)
  show ?thesis
  proof (cases "fold (pick (mem s) req) F None")
    case None
    then show ?thesis using fit picked by (simp add: take_free_def head picked_def)
  next
    case (Some b)
    then obtain x n where b: "b = (x, n)" by (cases b)
    have best: "best_of (mem s) req F x" using picked unfolding Some b by (simp add: picked_def)
    then obtain xs ys where F: "F = xs @ x # ys" "x \<notin> set xs"
      using split_list_first [of x F] by (auto simp: best_of_def)
    have "heap_at (unlink_free x s) h A (remove1 x F) z [x]"
      using unlink_free_ok [of s h A xs x ys z] assms F by (simp add: remove1_append)
    moreover have "take_free req s = Inr (Some x, unlink_free x s)"
      using fit unfolding Some b by (simp add: take_free_def head)
    ultimately show ?thesis using best by blast
  qed
qed

text \<open>The allocator before its first call.\<close>

definition heap_empty :: "lheap \<Rightarrow> bool" where
  "heap_empty s \<longleftrightarrow> alloc_head s = None \<and> freelist_head s = None \<and> maps s = []"

definition heap_rep :: "lheap \<Rightarrow> cint list \<Rightarrow> cint list \<Rightarrow> bool" where
  "heap_rep s A F \<longleftrightarrow> (\<exists>h z. heap_at s h A F z []) \<or> (heap_empty s \<and> A = [] \<and> F = [])"

definition init_heap :: "mmap_call \<Rightarrow> lheap \<Rightarrow> heap_error + lheap" where
  "init_heap os s = (case init_alloc os s of Inl e \<Rightarrow> Inl e | Inr s \<Rightarrow> init_free os s)"

lemma page_header: "page_align_up sizeof_chunk = 4096"
  by (simp add: page_align_up_def align_to_def sizeof_chunk_def)

text \<open>System calls in turn, for the lengths of a list: what is mapped after them, if all succeed.\<close>

fun mmaps :: "mmap_call \<Rightarrow> (cint \<times> cint) list \<Rightarrow> cint list \<Rightarrow> (cint \<times> cint) list option" where
  "mmaps os ms [] = Some ms"
| "mmaps os ms (n # ns) = (case os ms n of None \<Rightarrow> None | Some p \<Rightarrow> mmaps os ((p, n) # ms) ns)"

lemma mmaps_append:
  "mmaps os ms (xs @ ys) = (case mmaps os ms xs of None \<Rightarrow> None | Some m \<Rightarrow> mmaps os m ys)"
  by (induction xs arbitrary: ms) (simp_all split: option.split)

text \<open>
  The calls a request needs: two pages for the ends of the lists before the first allocation, and
  the chunk itself, with its header, unless a free one is long enough.
\<close>

definition init_calls :: "lheap \<Rightarrow> cint list" where
  "init_calls s = (if heap_empty s then [4096, 4096] else [])"

definition chunk_calls :: "(cint \<Rightarrow> chunk) \<Rightarrow> cint list \<Rightarrow> cint \<Rightarrow> cint list" where
  "chunk_calls h F req =
     (if \<exists>y\<in>set F. le_s req (chunk_len h y) then [] else [page_align_up (sizeof_chunk + req)])"

lemma init_ok:
  assumes "os_ok os" "heap_rep s A F"
  shows "case mmaps os (maps s) (init_calls s) of
      None \<Rightarrow> init_heap os s = Inl Segfault
    | Some ms \<Rightarrow> \<exists>s' h z. init_heap os s = Inr s' \<and> heap_at s' h A F z [] \<and> bytes s' = bytes s \<and> maps s' = ms
        \<and> (\<forall>y\<in>set A \<union> set F. chunk_len (mem s') y = chunk_len (mem s) y)"
proof (cases "heap_empty s")
  case False
  then obtain h z where "heap_at s h A F z []" using assms(2) by (auto simp: heap_rep_def)
  moreover from this have "alloc_head s \<noteq> None" "freelist_head s \<noteq> None"
    by (cases F; simp add: heap_at_def)+
  moreover have "mmaps os (maps s) (init_calls s) = Some (maps s)"
    using False by (simp add: init_calls_def)
  ultimately show ?thesis
    unfolding init_heap_def init_alloc_def init_free_def by fastforce
next
  case True
  then have AF: "A = []" "F = []" and s: "maps s = []" "init_calls s = [4096, 4096]"
    using assms(2) by (auto simp: heap_rep_def heap_at_def heap_empty_def init_calls_def)
  show ?thesis
  proof (cases "os [] 4096")
    case None
    then show ?thesis using True s by (auto simp: init_heap_def init_alloc_def mmap_def page_header heap_empty_def)
  next
    case (Some h)
    have un: "0 < unat (4096 :: cint)" by simp
    have r1: "regions_ok []" by (simp add: regions_ok_def)
    note f1 = fresh_region [OF assms(1) r1 un Some]
    show ?thesis
    proof (cases "os [(h, 4096)] 4096")
      case None
      then show ?thesis
        using True Some s by (auto simp: init_heap_def init_alloc_def init_free_def mmap_def page_header heap_empty_def)
    next
      case (Some z)
      note f2 = fresh_region [OF assms(1) f1(1) un Some]
      then have "h \<noteq> z" by auto
      then have "\<exists>s' h' z'. init_heap os s = Inr s' \<and> heap_at s' h' A F z' [] \<and> bytes s' = bytes s
          \<and> maps s' = [(z, 4096), (h, 4096)]"
        using True \<open>os [] 4096 = Some h\<close> Some f2(1) AF
        by (intro exI [of _ "case init_heap os s of Inr t \<Rightarrow> t"] exI [of _ h] exI [of _ z])
          (auto simp: init_heap_def init_alloc_def init_free_def mmap_def page_header heap_empty_def heap_at_def)
      then show ?thesis
        using \<open>os [] 4096 = Some h\<close> Some s AF by simp
    qed
  qed
qed

lemma malloc_steps:
  "malloc os req s =
     (if le_s req 0 then Inr (None, s)
      else case init_heap os s of
             Inl e \<Rightarrow> Inl e
           | Inr s \<Rightarrow>
               (case alloc_chunk os (align_to req 8) s of
                  Inl e \<Rightarrow> Inl e
                | Inr (p, s) \<Rightarrow>
                    (case append_alloc p s of Inl e \<Rightarrow> Inl e | Inr s \<Rightarrow> Inr (Some (p + sizeof_chunk), s))))"
  by (auto simp: malloc_def init_heap_def Let_def split: sum.split)

end
