(* ===== verification/LibcProps.thy ===== *)
theory LibcProps
  imports MallocInv
begin

text \<open>
  The properties of the strings, the memory functions and the allocator of \<^verbatim>\<open>lib/c.c\<close>.
\<close>

section \<open>Strings and memory\<close>

text \<open>
  C27. On strings, \<^verbatim>\<open>strlen\<close>, which looks at four characters in a round, ends and gives the length, and
  \<^verbatim>\<open>strcmp\<close> ends and gives 0 exactly for equal strings; otherwise it gives the order of the first
  characters that differ.
\<close>
theorem strings_compared:
  assumes "c_string m p as" "c_string m q bs"
  shows "strlen m p = Some (of_nat (length as)) \<and> strcmp sg m p q = Some (str_order sg as bs)
    \<and> (str_order sg as bs = 0 \<longleftrightarrow> as = bs)"
proof -
  have "strlen m p = Some (of_nat (length as))"
    using strlen_loop_ok [OF assms(1), of 0] by (simp add: strlen_def)
  moreover have "strcmp sg m p q = Some (str_order sg as bs)"
    using strcmp_loop_ok [OF assms, of 0 sg] by (simp add: strcmp_def)
  moreover have "0 \<notin> set as" "0 \<notin> set bs" using assms by (simp_all add: c_string_def)
  ultimately show ?thesis by (simp add: str_order_eq)
qed

text \<open>
  C26. \<^verbatim>\<open>memcpy\<close>, which copies four bytes in a round, ends and copies its bytes, also when the regions overlap
  as long as no byte is overwritten before it is read; nothing else changes. For fewer than four
  bytes below the largest \<^verbatim>\<open>int\<close> the count of the loop does not overflow.
\<close>
theorem memcpy_copies:
  assumes "behind dst src n" "n < 2 ^ 31 - 4"
  shows "\<exists>m'. memcpy m dst src (of_nat n) = Some (dst, m') \<and> bytes_at m' dst (map (\<lambda>i. m (src + of_nat i)) [0..<n])
    \<and> (\<forall>a. (\<forall>i<n. a \<noteq> dst + of_nat i) \<longrightarrow> m' a = m a)"
  by (rule memcpy_ok [OF assms, of m]) (auto simp: bytes_at_def)

section \<open>Allocation and release\<close>

lemma alloc_chunk_ok:
  assumes "heap_at s h A F z []" "os_ok os" "0 < k" "k < 2 ^ 31 - 8192" "req = align_to (of_nat k) 8"
  shows "case mmaps os (maps s) (chunk_calls (mem s) F req) of
      None \<Rightarrow> alloc_chunk os req s = Inl Segfault
    | Some ms \<Rightarrow> \<exists>p s' F'. alloc_chunk os req s = Inr (p, s') \<and> heap_at s' h A F' z [p] \<and> maps s' = ms
        \<and> (\<forall>y\<in>set A \<union> set F. chunk_len (mem s') y = chunk_len (mem s) y)
        \<and> (best_of (mem s) req F p \<and> F' = remove1 p F
           \<or> (\<forall>y\<in>set F. \<not> le_s req (chunk_len (mem s) y)) \<and> p \<notin> set A \<union> set F \<and> F' = F
             \<and> k + 12 \<le> unat (chunk_len (mem s') p))"
  using take_free_ok [OF assms(1), of req]
proof
  assume a: "take_free req s = Inr (None, s) \<and> (\<forall>y\<in>set F. \<not> le_s req (chunk_len (mem s) y))"
  obtain m n where n: "req = of_nat m" "page_align_up (sizeof_chunk + of_nat m) = of_nat n" "k + 12 \<le> n" "n < 2 ^ 31" "even n"
    using page_len [OF assms(4)] assms(5) by metis
  have calls: "chunk_calls (mem s) F req = [of_nat n]"
    using a n(1,2) by (simp add: chunk_calls_def)
  show ?thesis
  proof (cases "os (maps s) (of_nat n)")
    case None
    then show ?thesis using a n(1,2) unfolding calls by (simp add: alloc_chunk_def take_fresh_def mmap_def)
  next
    case (Some p)
    have n0: "0 < n" using n(3) by simp
    obtain s' where s': "take_fresh os (of_nat m) s = Inr (p, s')" "heap_at s' h A F z [p]" "chunk_len (mem s') p = of_nat n"
        "\<forall>y. y \<noteq> p \<longrightarrow> chunk_len (mem s') y = chunk_len (mem s) y" "maps s' = (p, of_nat n) # maps s"
      using take_fresh_ok [OF assms(1,2) n0 n(4,5,2) Some] by blast
    have p: "p \<notin> set A \<union> set F" using s'(2) by (auto simp: heap_at_def)
    have "unat (chunk_len (mem s') p) = n"
      using s'(3) n(4) by (simp add: unsigned_of_nat take_bit_nat_eq_self)
    then have "\<exists>q s'' F'. alloc_chunk os req s = Inr (q, s'') \<and> heap_at s'' h A F' z [q] \<and> maps s'' = (p, of_nat n) # maps s
        \<and> (\<forall>y\<in>set A \<union> set F. chunk_len (mem s'') y = chunk_len (mem s) y)
        \<and> (best_of (mem s) req F q \<and> F' = remove1 q F
           \<or> (\<forall>y\<in>set F. \<not> le_s req (chunk_len (mem s) y)) \<and> q \<notin> set A \<union> set F \<and> F' = F
             \<and> k + 12 \<le> unat (chunk_len (mem s'') q))"
      using a s' p n by (intro exI [of _ p] exI [of _ s'] exI [of _ F]) (auto simp: alloc_chunk_def)
    then show ?thesis using Some unfolding calls by simp
  qed
next
  assume "\<exists>x. best_of (mem s) req F x \<and> take_free req s = Inr (Some x, unlink_free x s)
    \<and> heap_at (unlink_free x s) h A (remove1 x F) z [x]"
  then obtain x where x: "best_of (mem s) req F x" "take_free req s = Inr (Some x, unlink_free x s)"
    "heap_at (unlink_free x s) h A (remove1 x F) z [x]" by blast
  then have "chunk_calls (mem s) F req = []" by (auto simp: chunk_calls_def best_of_def)
  then show ?thesis using x by (auto simp: alloc_chunk_def mem_unlink)
qed

lemma heap_regions:
  assumes "heap_at s h A F z L" "a \<in> set A \<union> set F" "b \<in> set A \<union> set F" "a \<noteq> b"
  shows "region (a, chunk_len (mem s) a) \<inter> region (b, chunk_len (mem s) b) = {}"
proof -
  have "(x, chunk_len (mem s) x) \<in> set (maps s)" if "x \<in> set A \<union> set F" for x
    using assms(1) that by (auto simp: heap_at_def)
  from this [OF assms(2)] this [OF assms(3)] show ?thesis
    using assms(1,4) unfolding heap_at_def regions_ok_def by blast
qed

lemma malloc_ok:
  assumes "heap_rep s A F" "os_ok os" "0 < k" "k < 2 ^ 31 - 8192" "req = align_to (of_nat k) 8"
  shows "case mmaps os (maps s) (init_calls s @ chunk_calls (mem s) F req) of
      None \<Rightarrow> malloc os (of_nat k) s = Inl Segfault
    | Some ms \<Rightarrow> \<exists>p s' F'. malloc os (of_nat k) s = Inr (Some (p + 12), s') \<and> maps s' = ms
        \<and> heap_rep s' (A @ [p]) F' \<and> p \<notin> set A
        \<and> (\<forall>y\<in>set A \<union> set F. chunk_len (mem s') y = chunk_len (mem s) y)
        \<and> (\<forall>a\<in>set A. region (a, chunk_len (mem s') a) \<inter> region (p, chunk_len (mem s') p) = {})
        \<and> (best_of (mem s) req F p \<and> F' = remove1 p F
           \<or> (\<forall>y\<in>set F. \<not> le_s req (chunk_len (mem s) y)) \<and> p \<notin> set F \<and> F' = F
             \<and> k + 12 \<le> unat (chunk_len (mem s') p))"
proof -
  have pos: "\<not> le_s (of_nat k) 0"
    using assms(3,4) by (simp add: le_s_sint sint_small)
  note init = init_ok [OF assms(2,1)]
  show ?thesis
  proof (cases "mmaps os (maps s) (init_calls s)")
    case None
    then show ?thesis using init pos by (simp add: malloc_steps mmaps_append)
  next
    case (Some ms1)
    then obtain s1 h z where 1: "init_heap os s = Inr s1" "heap_at s1 h A F z []" "maps s1 = ms1"
        "\<forall>y\<in>set A \<union> set F. chunk_len (mem s1) y = chunk_len (mem s) y"
      using init by auto
    have best: "best_of (mem s1) req F x = best_of (mem s) req F x" for x
      using 1(4) by (auto simp: best_of_def)
    have calls: "chunk_calls (mem s1) F req = chunk_calls (mem s) F req"
      using 1(4) by (simp add: chunk_calls_def)
    have both: "mmaps os (maps s) (init_calls s @ chunk_calls (mem s) F req) = mmaps os (maps s1) (chunk_calls (mem s1) F req)"
      by (simp add: mmaps_append Some calls 1(3))
    note ac = alloc_chunk_ok [OF 1(2) assms(2-5)]
    show ?thesis
    proof (cases "mmaps os (maps s1) (chunk_calls (mem s1) F req)")
      case None
      then show ?thesis using ac pos 1(1) unfolding both by (simp add: malloc_steps assms(5))
    next
      case (Some ms)
      then obtain p s2 F' where 2: "alloc_chunk os req s1 = Inr (p, s2)" "heap_at s2 h A F' z [p]" "maps s2 = ms"
          "\<forall>y\<in>set A \<union> set F. chunk_len (mem s2) y = chunk_len (mem s1) y"
          "best_of (mem s1) req F p \<and> F' = remove1 p F
           \<or> (\<forall>y\<in>set F. \<not> le_s req (chunk_len (mem s1) y)) \<and> p \<notin> set A \<union> set F \<and> F' = F
             \<and> k + 12 \<le> unat (chunk_len (mem s2) p)"
        using ac by auto
      obtain s3 where 3: "append_alloc p s2 = Inr s3" "heap_at s3 h (A @ [p]) F' z []" "maps s3 = maps s2"
          "\<forall>y. chunk_len (mem s3) y = chunk_len (mem s2) y"
        using append_ok [OF 2(2)] by blast
      have p: "p \<notin> set A" using 2(2) by (simp add: heap_at_def)
      have "region (a, chunk_len (mem s3) a) \<inter> region (p, chunk_len (mem s3) p) = {}" if "a \<in> set A" for a
        using heap_regions [OF 3(2), of a p] that p by auto
      moreover have "malloc os (of_nat k) s = Inr (Some (p + 12), s3)"
        using pos 1(1) 2(1) 3(1) by (simp add: malloc_steps sizeof_chunk_def flip: assms(5))
      moreover have "heap_rep s3 (A @ [p]) F'" using 3(2) by (auto simp: heap_rep_def)
      ultimately have "\<exists>p s' F'. malloc os (of_nat k) s = Inr (Some (p + 12), s') \<and> maps s' = ms
        \<and> heap_rep s' (A @ [p]) F' \<and> p \<notin> set A
        \<and> (\<forall>y\<in>set A \<union> set F. chunk_len (mem s') y = chunk_len (mem s) y)
        \<and> (\<forall>a\<in>set A. region (a, chunk_len (mem s') a) \<inter> region (p, chunk_len (mem s') p) = {})
        \<and> (best_of (mem s) req F p \<and> F' = remove1 p F
           \<or> (\<forall>y\<in>set F. \<not> le_s req (chunk_len (mem s) y)) \<and> p \<notin> set F \<and> F' = F
             \<and> k + 12 \<le> unat (chunk_len (mem s') p))"
        using p 1(4) 2(3-5) 3(3,4) best by (intro exI [of _ p] exI [of _ s3] exI [of _ F']) auto
      then show ?thesis unfolding both Some by simp
    qed
  qed
qed

text \<open>
  C11. \<^verbatim>\<open>malloc\<close> refines its description on the lists of used and free chunks: it takes the smallest free
  chunk that is at least as long as the request, or a new one with room for the request and the
  header, and puts it behind the used ones; its region overlaps no chunk in use. It asks the system for
  the pages it needs and no others: two for the ends of the lists before the first allocation, and
  the chunk unless a free one is long enough. It crashes exactly when one of these calls fails.
\<close>
theorem malloc_refines:
  assumes "heap_rep s A F" "os_ok os" "0 < k" "k < 2 ^ 31 - 8192" "req = align_to (of_nat k) 8"
  shows "case mmaps os (maps s) (init_calls s @ chunk_calls (mem s) F req) of
      None \<Rightarrow> malloc os (of_nat k) s = Inl Segfault
    | Some ms \<Rightarrow> \<exists>p s' F'. malloc os (of_nat k) s = Inr (Some (p + 12), s') \<and> maps s' = ms
        \<and> heap_rep s' (A @ [p]) F' \<and> p \<notin> set A
        \<and> (\<forall>y\<in>set A \<union> set F. chunk_len (mem s') y = chunk_len (mem s) y)
        \<and> (\<forall>a\<in>set A. region (a, chunk_len (mem s') a) \<inter> region (p, chunk_len (mem s') p) = {})
        \<and> (best_of (mem s) req F p \<and> F' = remove1 p F
           \<or> (\<forall>y\<in>set F. \<not> le_s req (chunk_len (mem s) y)) \<and> p \<notin> set F \<and> F' = F
             \<and> k + 12 \<le> unat (chunk_len (mem s') p))"
  by (rule malloc_ok [OF assms])

lemma free_ok:
  assumes "heap_rep s A F"
  shows "(x \<in> set A \<longrightarrow> (\<exists>s'. free (Some (x + 12)) s = Inr s' \<and> heap_rep s' (remove1 x A) (x # F)
        \<and> (\<forall>y. chunk_len (mem s') y = chunk_len (mem s) y)))
    \<and> (x \<in> set F \<longrightarrow> free (Some (x + 12)) s = Inl Aborted) \<and> free None s = Inr s"
proof (intro conjI impI)
  assume x: "x \<in> set A"
  then obtain h z where at: "heap_at s h A F z []" using assms by (auto simp: heap_rep_def)
  obtain xs ys where A: "A = xs @ x # ys" "x \<notin> set xs" using split_list_first [OF x] by blast
  have "heap_at (push_free x (unlink_used x s)) h (xs @ ys) (x # F) z []"
    using at unfolding A by (intro push_free_ok unlink_used_ok)
  moreover have "remove1 x A = xs @ ys" using A by (simp add: remove1_append)
  moreover have "\<not> is_chunk_get_freed (c_size (mem s x))" using at x by (simp add: heap_at_def)
  moreover have "chunk_len (mem (push_free x t)) y = chunk_len (mem t) y" for t y
    by (auto simp: push_free_def chunk_set_freed_def Let_def chunk_len_def split: option.split)
  ultimately show "\<exists>s'. free (Some (x + 12)) s = Inr s' \<and> heap_rep s' (remove1 x A) (x # F)
      \<and> (\<forall>y. chunk_len (mem s') y = chunk_len (mem s) y)"
    by (auto simp: free_def sizeof_chunk_def heap_rep_def mem_unlink)
next
  assume "x \<in> set F"
  then have "is_chunk_get_freed (c_size (mem s x))" using assms by (auto simp: heap_rep_def heap_at_def)
  then show "free (Some (x + 12)) s = Inl Aborted" by (simp add: free_def sizeof_chunk_def)
qed (simp add: free_def)

text \<open>
  C12. \<^verbatim>\<open>free\<close> moves a chunk in use to the front of the free chunks and leaves all sizes; for a chunk that
  is free it ends the program.
\<close>
theorem free_refines:
  assumes "heap_rep s A F"
  shows "(x \<in> set A \<longrightarrow> (\<exists>s'. free (Some (x + 12)) s = Inr s' \<and> heap_rep s' (remove1 x A) (x # F)
        \<and> (\<forall>y. chunk_len (mem s') y = chunk_len (mem s) y)))
    \<and> (x \<in> set F \<longrightarrow> free (Some (x + 12)) s = Inl Aborted) \<and> free None s = Inr s"
  by (rule free_ok [OF assms])

text \<open>The interface of an allocator with chunks in use and chunks released, and what its laws give.\<close>

locale chunk_heap =
  fixes rep :: "'s \<Rightarrow> cint list \<Rightarrow> cint list \<Rightarrow> bool"
    and obtain_chunk :: "nat \<Rightarrow> 's \<Rightarrow> heap_error + cint option \<times> 's"
    and give_back :: "cint \<Rightarrow> 's \<Rightarrow> heap_error + 's"
  assumes obtained: "rep s A F \<Longrightarrow> 0 < k \<Longrightarrow> k < 2 ^ 31 - 8192 \<Longrightarrow> obtain_chunk k s = Inr (r, s')
      \<Longrightarrow> \<exists>p F'. r = Some (p + 12) \<and> p \<notin> set A \<and> rep s' (A @ [p]) F'"
    and given_back: "rep s A F \<Longrightarrow> x \<in> set A \<Longrightarrow> \<exists>s'. give_back (x + 12) s = Inr s' \<and> rep s' (remove1 x A) (x # F)"
    and given_twice: "rep s A F \<Longrightarrow> x \<in> set F \<Longrightarrow> give_back (x + 12) s = Inl Aborted"
begin

lemma round_trip:
  assumes "rep s A F" "0 < k" "k < 2 ^ 31 - 8192" "obtain_chunk k s = Inr (Some q, s')"
  shows "\<exists>t F'. give_back q s' = Inr t \<and> rep t A F' \<and> q - 12 \<in> set F' \<and> give_back q t = Inl Aborted"
proof -
  obtain p F' where p: "q = p + 12" "p \<notin> set A" "rep s' (A @ [p]) F'"
    using obtained [OF assms] by auto
  obtain t where t: "give_back q s' = Inr t" "rep t (remove1 p (A @ [p])) (p # F')"
    using given_back [OF p(3), of p] p(1) by auto
  have "remove1 p (A @ [p]) = A" using p(2) by (simp add: remove1_append)
  then have "rep t A (p # F')" using t(2) by simp
  then show ?thesis using given_twice [of t A "p # F'" p] t(1) p(1) by auto
qed

end

interpretation hp: chunk_heap "\<lambda>s A F. os_ok os \<and> heap_rep s A F" "\<lambda>k. malloc os (of_nat k)" "\<lambda>p. free (Some p)" for os
proof unfold_locales
  fix s A F k r s'
  assume "os_ok os \<and> heap_rep s A F" "0 < k" "k < 2 ^ 31 - 8192" "malloc os (of_nat k) s = Inr (r, s')"
  then show "\<exists>p F'. r = Some (p + 12) \<and> p \<notin> set A \<and> os_ok os \<and> heap_rep s' (A @ [p]) F'"
    using malloc_ok [of s A F os k] by (auto split: option.split_asm)
qed (use free_ok in blast)+

text \<open>
  C25. What \<^verbatim>\<open>malloc\<close> gives can be returned with \<^verbatim>\<open>free\<close>, after which the chunks in use are those from before,
  and returning it once more ends the program.
\<close>
theorem malloc_free:
  assumes "os_ok os" "heap_rep s A F" "0 < k" "k < 2 ^ 31 - 8192" "malloc os (of_nat k) s = Inr (Some q, s')"
  shows "\<exists>t F'. free (Some q) s' = Inr t \<and> heap_rep t A F' \<and> q - 12 \<in> set F' \<and> free (Some q) t = Inl Aborted"
  using hp.round_trip [of os s A F k q s'] assms by blast

text \<open>
  C40. A chunk that is used again may be too short: its length counts the header of 12 bytes, the request
  does not. Whenever the free chunk that fits best is shorter than the request and its header together,
  \<^verbatim>\<open>malloc\<close> hands out a chunk in which the last bytes of the request lie behind its end.
\<close>
theorem malloc_reuse_short:
  assumes "heap_rep s A F" "os_ok os" "0 < k" "k < 2 ^ 31 - 8192"
    and "best_of (mem s) (align_to (of_nat k) 8) F x" "unat (chunk_len (mem s) x) < k + 12"
  shows "\<exists>p\<in>set F. \<exists>s'. malloc os (of_nat k) s = Inr (Some (p + 12), s')
    \<and> (\<exists>i<k. unat p + 12 + i \<notin> region (p, chunk_len (mem s') p))"
proof -
  let ?req = "align_to (of_nat k) 8"
  have "heap_empty s \<Longrightarrow> F = []" using assms(1) by (auto simp: heap_rep_def heap_empty_def heap_at_def)
  then have "init_calls s @ chunk_calls (mem s) F ?req = []"
    using assms(5) by (auto simp: best_of_def init_calls_def chunk_calls_def)
  then obtain p s' where p: "malloc os (of_nat k) s = Inr (Some (p + 12), s')" "best_of (mem s) ?req F p"
      "chunk_len (mem s') p = chunk_len (mem s) p"
    using malloc_ok [OF assms(1-4) refl] assms(5) by (fastforce simp: best_of_def)
  have "sint (chunk_len (mem s) p) = sint (chunk_len (mem s) x)"
    using p(2) assms(5) by (auto simp: best_of_def le_s_sint intro: antisym)
  then have "chunk_len (mem s') p = chunk_len (mem s) x" using p(3) by (simp add: signed_word_eqI)
  then have "unat p + 12 + (k - 1) \<notin> region (p, chunk_len (mem s') p)"
    using assms(3,6) by (simp add: region_def)
  moreover have "k - 1 < k" using assms(3) by simp
  ultimately show ?thesis using p(1,2) by (auto simp: best_of_def)
qed

text \<open>The release of the chunks of a list, in order.\<close>

lemma release_simps:
  "mem (release p s) = (mem s)(p := (mem s p)\<lparr>c_next := None, c_prev := None\<rparr>)"
  "unmaps (release p s) = (p, chunk_len (mem s) p) # unmaps s" "alloc_head (release p s) = alloc_head s"
  by (simp_all add: release_def rfree_def upd_def chunk_len_def)

definition unmapped :: "cint list \<Rightarrow> lheap \<Rightarrow> lheap \<Rightarrow> bool" where
  "unmapped xs s s' \<longleftrightarrow> unmaps s' = rev (map (\<lambda>x. (x, chunk_len (mem s) x)) xs) @ unmaps s \<and> alloc_head s' = alloc_head s
     \<and> (\<forall>y. y \<notin> set xs \<longrightarrow> mem s' y = mem s y) \<and> (\<forall>y. chunk_len (mem s') y = chunk_len (mem s) y)"

lemma unmapped_Cons:
  assumes "unmapped xs (release x s) s'" "x \<notin> set xs"
  shows "unmapped (x # xs) s s'"
proof -
  have len: "chunk_len ((mem s)(x := (mem s x)\<lparr>c_next := None, c_prev := None\<rparr>)) y = chunk_len (mem s) y" for y
    by (simp add: chunk_len_def)
  show ?thesis using assms by (simp add: unmapped_def len release_simps)
qed

lemma release_free_ok:
  assumes "chain (mem s) p (xs @ [z]) None" "distinct (xs @ [z])"
  shows "\<exists>s'. release_free (Some (hd (xs @ [z]))) s = Some s' \<and> unmapped xs s s'"
  using assms
proof (induction xs arbitrary: p s)
  case Nil
  then show ?case by (simp add: release_free.simps [of "Some z"] unmapped_def)
next
  case (Cons x xs)
  have "c_next (mem s x) = Some (hd (xs @ [z]))" using Cons.prems by (cases xs) simp_all
  then have "release_free (Some x) s = release_free (Some (hd (xs @ [z]))) (release x s)"
    by (simp add: release_free.simps [of "Some x"])
  moreover have "chain (mem (release x s)) (Some x) (xs @ [z]) None"
    using Cons.prems by (simp add: release_simps)
  then obtain s' where "release_free (Some (hd (xs @ [z]))) (release x s) = Some s'" "unmapped xs (release x s) s'"
    using Cons.IH Cons.prems(2) by (metis append_Cons distinct.simps(2))
  moreover have "x \<notin> set xs" using Cons.prems(2) by simp
  ultimately show ?case using unmapped_Cons by auto
qed

lemma release_used_ok:
  assumes "chain (mem s) p xs None" "distinct xs"
  shows "\<exists>s'. release_used (first None xs) s = Some s' \<and> unmapped xs s s'"
  using assms
proof (induction xs arbitrary: p s)
  case Nil
  then show ?case by (simp add: release_used.simps [of None] unmapped_def)
next
  case (Cons x xs)
  then have "release_used (Some x) s = release_used (first None xs) (release x s)"
    by (simp add: release_used.simps [of "Some x"])
  moreover have "chain (mem (release x s)) (Some x) xs None"
    using Cons.prems by (simp add: release_simps)
  then obtain s' where "release_used (first None xs) (release x s) = Some s'" "unmapped xs (release x s) s'"
    using Cons.IH Cons.prems(2) by (metis distinct.simps(2))
  moreover have "x \<notin> set xs" using Cons.prems(2) by simp
  ultimately show ?case using unmapped_Cons by auto
qed

text \<open>
  C28. At the end of a program every chunk that was ever handed out is returned to the system once, with
  the length it was mapped with, the free ones first; the two chunks that only head the lists
  stay.
\<close>
theorem free_all_unmaps:
  assumes "heap_rep s A F"
  shows "\<exists>s'. free_all s = Some s' \<and> unmaps s' = rev (map (\<lambda>x. (x, chunk_len (mem s) x)) (F @ A)) @ unmaps s"
proof (cases "heap_empty s")
  case True
  then show ?thesis using assms by (auto simp: heap_rep_def heap_empty_def heap_at_def free_all_def)
next
  case False
  then obtain h z where at: "heap_at s h A F z []" using assms by (auto simp: heap_rep_def)
  have free: "chain (mem s) None (F @ [z]) None" "distinct (F @ [z])" "freelist_head s = Some (hd (F @ [z]))"
    using at by (cases F; simp add: heap_at_def)+
  obtain s1 where 1: "release_free (freelist_head s) s = Some s1" "unmapped F s s1"
    using release_free_ok [OF free(1,2)] free(3) by auto
  have dis: "y \<notin> set F" if "y \<in> set (h # A)" for y using at that by (auto simp: heap_at_def)
  have used: "chain (mem s1) None (h # A) None"
    using at 1(2) dis by (subst chain_cong [of _ _ "mem s"]) (auto simp: heap_at_def unmapped_def)
  then have next1: "c_next (mem s1 h) = first None A" "chain (mem s1) (Some h) A None" by simp_all
  have dA: "distinct A" using at by (simp add: heap_at_def)
  obtain s2 where 2: "release_used (first None A) s1 = Some s2" "unmapped A s1 s2"
    using release_used_ok [OF next1(2) dA] by blast
  have "alloc_head s1 = Some h" using 1(2) at by (simp add: unmapped_def heap_at_def)
  then have "free_all s = Some s2" using 1(1) 2(1) next1(1) free(3) by (simp add: free_all_def)
  then show ?thesis using 1(2) 2(2) by (simp add: unmapped_def)
qed

text \<open>
  C29. For positive arguments, \<^verbatim>\<open>calloc\<close> returns \<^verbatim>\<open>NULL\<close> when their product does not fit an
  \<^verbatim>\<open>int\<close>, and otherwise clears what \<^verbatim>\<open>malloc\<close> gives for the product. Negative arguments, and
  products within 4 of \<^verbatim>\<open>INT_MAX\<close>, at which the unrolled loop of \<^verbatim>\<open>memset\<close> overflows, are not covered.
\<close>
theorem calloc_clears:
  assumes "0 < a" "a < 2 ^ 31" "0 < b" "b < 2 ^ 31"
  shows "(2 ^ 31 \<le> a * b \<longrightarrow> calloc os (of_nat a) (of_nat b) s = Inr (None, s))
    \<and> (a * b < 2 ^ 31 - 4 \<and> malloc os (of_nat (a * b)) s = Inr (Some p, s1) \<longrightarrow>
        calloc os (of_nat a) (of_nat b) s
          = Inr (Some p, s1\<lparr>bytes := \<lambda>x. if \<exists>i<a * b. x = p + of_nat i then 0 else bytes s1 x\<rparr>))"
proof -
  have nz: "(of_nat a :: cint) \<noteq> 0" "(of_nat b :: cint) \<noteq> 0"
    using assms(1-4) by (simp_all add: word_of_nat_eq_0_iff nat_dvd_not_less)
  have "int (2 ^ 31 - 1) div int b = int ((2 ^ 31 - 1) div b)" by (simp only: zdiv_int)
  then have q: "sdiv_trunc (sint int_max) (sint (of_nat b :: cint)) = int ((2 ^ 31 - 1) div b)"
    using assms(3,4) by (simp add: sint_small int_max_def sdiv_trunc_def)
  have small: "(2 ^ 31 - 1) div b < (2 ^ 31 :: nat)" by (rule le_less_trans [OF div_le_dividend]) simp
  have "lt_s (of_int (sdiv_trunc (sint int_max) (sint (of_nat b :: cint)))) (of_nat a) \<longleftrightarrow> (2 ^ 31 - 1) div b < a"
    unfolding q using of_nat_less_s(1) [OF small assms(2)] by simp
  also have "\<dots> \<longleftrightarrow> 2 ^ 31 \<le> a * b"
    using assms(3) by (simp add: div_less_iff_less_mult) linarith
  finally have guard: "lt_s (of_int (sdiv_trunc (sint int_max) (sint (of_nat b :: cint)))) (of_nat a) \<longleftrightarrow> 2 ^ 31 \<le> a * b" .
  have clear: "memset (bytes s1) p 0 (of_nat (a * b)) = Some (p, \<lambda>x. if \<exists>i<a * b. x = p + of_nat i then 0 else bytes s1 x)"
    if "a * b < 2 ^ 31 - 4"
    using memset_ok [OF that, of "bytes s1" p 0] by (simp cong: if_cong)
  show ?thesis
    using nz guard clear by (auto simp: calloc_def)
qed

section \<open>Examples\<close>

text \<open>A system that gives memory at growing addresses from 4096 on.\<close>

definition bump :: "(cint \<times> cint) list \<Rightarrow> nat" where
  "bump ms = foldr (\<lambda>(a, k). max (unat a + unat k)) ms 4096"

definition os0 :: mmap_call where
  "os0 ms n = (if bump ms + unat n < 2 ^ 32 then Some (of_nat (bump ms)) else None)"

definition heap0 :: lheap where
  "heap0 = \<lparr>mem = (\<lambda>_. \<lparr>c_next = None, c_prev = None, c_size = 0\<rparr>), alloc_head = None, alloc_tail = None,
     freelist_head = None, bytes = (\<lambda>_. 0), maps = [], unmaps = []\<rparr>"

lemma heap0_rep: "heap_rep heap0 [] []"
  by (simp add: heap_rep_def heap_empty_def heap0_def)

lemma bump_above: "(a, k) \<in> set ms \<Longrightarrow> unat a + unat k \<le> bump ms"
  by (induction ms) (auto simp: bump_def)

lemma os0_ok: "os_ok os0"
  unfolding os_ok_def
proof (intro allI impI, elim conjE)
  fix ms n p
  assume os: "regions_ok ms" "os0 ms n = Some p"
  then have lim: "bump ms + unat n < 2 ^ 32" "p = of_nat (bump ms)" by (auto simp: os0_def split: if_splits)
  then have "unat p = bump ms" by (simp add: unsigned_of_nat take_bit_nat_eq_self)
  then show "unat p + unat n < 2 ^ 32 \<and> (\<forall>r\<in>set ms. region r \<inter> region (p, n) = {})"
    using lim(1) bump_above by (fastforce simp: region_def)
qed

lemmas heap_defs = malloc_def heap0_def init_alloc_def init_free_def mmap_def os0_def bump_def
  page_align_up_def align_to_def sizeof_chunk_def upd_def alloc_chunk_def take_free_def best_fit.simps take_fresh_def
  append_alloc_def chunk_clear_freed_def is_chunk_get_freed_def chunk_get_size_def better_def le_s_sint Let_def

definition mem0 :: memory where
  "mem0 = (\<lambda>_. 0)(0 := 97, 1 := 98, 16 := 97, 17 := 99)"

theorem strings_compared_witness: "strlen mem0 0 = Some 2 \<and> strcmp True mem0 0 16 = Some (- 1)"
proof -
  have "c_string mem0 0 [97, 98]" "c_string mem0 16 [97, 99]"
    by (auto simp: c_string_def bytes_at_def mem0_def less_Suc_eq)
  from strings_compared [OF this, of True] show ?thesis
    by (simp add: char_val_def lt_s_sint)
qed

theorem memcpy_copies_witness: "\<exists>m'. memcpy mem0 15 16 2 = Some (15, m') \<and> m' 15 = 97 \<and> m' 16 = 99 \<and> m' 17 = 99"
proof -
  have "behind 15 16 2" by (auto simp: behind_def less_Suc_eq numeral_2_eq_2)
  from memcpy_copies [OF this, of mem0] obtain m' where m: "memcpy mem0 15 16 2 = Some (15, m')"
    "bytes_at m' 15 (map (\<lambda>i. mem0 (16 + of_nat i)) [0..<2])" "\<forall>a. (\<forall>i<2. a \<noteq> 15 + of_nat i) \<longrightarrow> m' a = mem0 a"
    by auto
  have "m' 15 = 97 \<and> m' 16 = 99"
    using m(2) by (simp add: bytes_at_def numeral_2_eq_2 less_Suc_eq all_conj_distrib mem0_def)
  moreover have "m' 17 = mem0 17" using m(3) by (simp add: numeral_2_eq_2 less_Suc_eq)
  ultimately show ?thesis using m(1) by (simp add: mem0_def)
qed

lemma heap0_calls: "\<exists>ms. mmaps os0 (maps heap0) (init_calls heap0 @ chunk_calls (mem heap0) [] (align_to (of_nat 100) 8)) = Some ms"
  by (simp add: heap_empty_def init_calls_def chunk_calls_def heap_defs)

theorem malloc_refines_witness:
  "\<exists>p s. malloc os0 100 heap0 = Inr (Some (p + 12), s) \<and> heap_rep s [p] [] \<and> 112 \<le> unat (chunk_len (mem s) p)"
  using malloc_refines [OF heap0_rep os0_ok, of 100 _] heap0_calls by (auto simp: best_of_def)

lemma malloc0_rep:
  "\<exists>s. malloc os0 100 heap0 = Inr (Some (12288 + 12), s) \<and> heap_rep s [12288] [] \<and> chunk_len (mem s) 12288 = 4096 \<and> unmaps s = []"
proof -
  obtain p s where 1: "malloc os0 100 heap0 = Inr (Some (p + 12), s)" "heap_rep s [p] []"
    using malloc_ok [OF heap0_rep os0_ok, of 100 _] heap0_calls by (auto simp: best_of_def)
  have "case malloc os0 100 heap0 of Inr (q, s) \<Rightarrow> q = Some 12300 \<and> chunk_len (mem s) 12288 = 4096 \<and> unmaps s = [] | _ \<Rightarrow> False"
    by (simp add: heap_defs chunk_len_def)
  then have "p + 12 = 12288 + 12 \<and> chunk_len (mem s) 12288 = 4096 \<and> unmaps s = []" using 1(1) by simp
  then show ?thesis using 1 by (metis add_right_cancel)
qed

theorem free_refines_witness:
  "\<exists>p s s'. malloc os0 100 heap0 = Inr (Some (p + 12), s) \<and> free (Some (p + 12)) s = Inr s' \<and> heap_rep s' [] [p]"
proof -
  obtain s where s: "malloc os0 100 heap0 = Inr (Some (12288 + 12), s)" "heap_rep s [12288] []"
    using malloc0_rep by blast
  have "12288 \<in> set [12288 :: cint]" "remove1 12288 [12288 :: cint] = []" by simp_all
  with free_refines [OF s(2), of 12288] s(1) show ?thesis by metis
qed

theorem malloc_reuse_short_witness:
  "\<exists>s p s'. heap_rep s [] [p] \<and> malloc os0 4090 s = Inr (Some (p + 12), s')
     \<and> (\<exists>i<4090. unat p + 12 + i \<notin> region (p, chunk_len (mem s') p))"
proof -
  obtain s where s: "malloc os0 100 heap0 = Inr (Some (12288 + 12), s)" "heap_rep s [12288] []" "chunk_len (mem s) 12288 = 4096"
    using malloc0_rep by blast
  have "12288 \<in> set [12288 :: cint]" "remove1 12288 [12288 :: cint] = []" by simp_all
  with free_ok [OF s(2), of 12288] obtain t where t: "heap_rep t [] [12288]" "chunk_len (mem t) 12288 = 4096"
    using s(3) by metis
  have "best_of (mem t) (align_to (of_nat 4090) 8) [12288] 12288"
    by (simp add: best_of_def t(2) align_to_def le_s_sint)
  from malloc_reuse_short [OF t(1) os0_ok _ _ this] t(2)
  have "\<exists>p\<in>set [12288]. \<exists>s'. malloc os0 (of_nat 4090) t = Inr (Some (p + 12), s')
    \<and> (\<exists>i<4090. unat p + 12 + i \<notin> region (p, chunk_len (mem s') p))" by simp
  then obtain p s' where "p = 12288" "malloc os0 4090 t = Inr (Some (p + 12), s')"
    "\<exists>i<4090. unat p + 12 + i \<notin> region (p, chunk_len (mem s') p)" by auto
  then show ?thesis using t(1) by blast
qed

theorem malloc_free_witness:
  "\<exists>s t. malloc os0 100 heap0 = Inr (Some 12300, s) \<and> free (Some 12300) s = Inr t \<and> free (Some 12300) t = Inl Aborted"
proof -
  obtain s where "malloc os0 (of_nat 100) heap0 = Inr (Some 12300, s)"
    using malloc0_rep by auto
  from malloc_free [OF os0_ok heap0_rep _ _ this] this show ?thesis by auto
qed

theorem free_all_unmaps_witness:
  "\<exists>p s s'. malloc os0 100 heap0 = Inr (Some (p + 12), s) \<and> free_all s = Some s' \<and> unmaps s' = [(p, 4096)]"
proof -
  obtain s where s: "malloc os0 100 heap0 = Inr (Some (12288 + 12), s)" "heap_rep s [12288] []"
    "chunk_len (mem s) 12288 = 4096" "unmaps s = []"
    using malloc0_rep by blast
  obtain s' where "free_all s = Some s'" "unmaps s' = [(12288, 4096)]"
    using free_all_unmaps [OF s(2)] s(3,4) by auto
  with s(1) show ?thesis by blast
qed

theorem calloc_clears_witness: "calloc os0 65536 65536 heap0 = Inr (None, heap0)"
  using calloc_clears [of 65536 65536 os0 heap0] by simp

end
