(* ===== verification/Spec2Isabelle.thy ===== *)
theory Spec2Isabelle
  imports RiscvProps ArmProps PeepProps ArchLower SsaProps SymbolProps LibProps LexProps AllocProps LibcProps
begin

text \<open>
  A verification library for shecc, a self-hosting C compiler for ARMv7-A and RV32IM.

  \<^bold>\<open>The program.\<close> \<^verbatim>\<open>src/main.c\<close> runs the passes one after the other over global tables
  (\<^verbatim>\<open>src/globals.c\<close>): the lexer and the preprocessor make token streams, the parser builds
  functions of basic blocks of three-address instructions, \<^verbatim>\<open>src/ssa.c\<close> brings them into SSA
  form, optimizes them (with \<^verbatim>\<open>src/opt-sccp.c\<close>) and analyses liveness, \<^verbatim>\<open>src/reg-alloc.c\<close>
  turns them into the phase-2 IR over eight registers, \<^verbatim>\<open>src/peephole.c\<close> and
  \<^verbatim>\<open>src/arch-lower.c\<close> rewrite that, and the code generator of the target lays it out,
  encodes it and writes an ELF file (\<^verbatim>\<open>src/elf.c\<close>). Compiled programs are linked with the C
  library \<^verbatim>\<open>lib/c.c\<close>.

  \<^bold>\<open>Conventions.\<close> A C \<^verbatim>\<open>int\<close> is a 32-bit word, \<open>cint\<close>, read in two's complement; the
  comparisons, shifts and divisions of C are the functions of \<open>Prelude\<close> and \<open>Machine\<close>. An operation
  that may crash returns an option or an \<open>outcome\<close>; \<open>None\<close> is the crash. A pointer to a mutable
  structure is a number that keys a store (variables, blocks, registers); \<open>NULL\<close> is \<open>None\<close>. Emission
  into a buffer is a list of words in order. What is read beyond the end of a string is an outcome
  of its own.

  \<^bold>\<open>Theories, in the order of the compiler.\<close>

  \<^item> \<open>Prelude\<close>, \<open>Machine\<close>: words, signed arithmetic, byte memory; shared lemmas.
  \<^item> \<open>HashMap\<close>, \<open>Symbols\<close>, \<open>SymbolProps\<close>: \<^verbatim>\<open>hashmap_*\<close>, \<^verbatim>\<open>intern_string\<close>, \<^verbatim>\<open>add_func\<close>,
    \<^verbatim>\<open>add_constant\<close> of \<^verbatim>\<open>globals.c\<close>. The invariant \<open>hm_inv\<close> (every entry is reached from its hash
    over occupied slots) and the abstraction \<open>hm_abs\<close> to a partial map; the interface is the locale
    \<open>string_map\<close>, interpreted on the hash map and used for the tables kept in it.
  \<^item> \<open>Token\<close>, \<open>Lexer\<close>, \<open>Tokens\<close>: \<^verbatim>\<open>lexer.c\<close> as functions on the read position in the text, token
    streams with their caches, and the operations of the parser on a stream. \<open>LexSpec\<close>, \<open>LexTiles\<close>,
    \<open>LexStep\<close>: what each branch consumes; \<open>LexProps\<close>: the tokens of a file tile its text,
    termination, printing, lookahead.
  \<^item> \<open>Literals\<close>: \<^verbatim>\<open>parse_numeric_constant\<close> and \<^verbatim>\<open>unescape_string\<close> of \<^verbatim>\<open>globals.c\<close>. \<open>CFormat\<close>:
    formatted output of \<^verbatim>\<open>lib/c.c\<close>; \<open>CFormatSpec\<close>: digits, conversions and the text of a format;
    \<open>LibProps\<close>: the code writes that text, and literals read back what it formats.
  \<^item> \<open>CMem\<close>, \<open>Malloc\<close>: the string and memory functions of \<^verbatim>\<open>lib/c.c\<close> over a memory of bytes, and the
    allocator over chunk headers in two doubly linked lists, on which a failed \<^verbatim>\<open>mmap2\<close> is a crash
    (the code writes through its result). \<open>MallocInv\<close>: the invariant \<open>heap_at\<close>, which
    reads the lists off the pointers (\<open>chain\<close>) and says that every chunk is a region that was
    mapped, that regions do not overlap and that exactly the free chunks are marked; every step of
    \<^verbatim>\<open>malloc\<close> and \<^verbatim>\<open>free\<close> keeps it; \<open>mmaps\<close> runs the system calls that an allocation needs
    (\<open>init_calls\<close>, \<open>chunk_calls\<close>). \<open>LibcProps\<close>: \<^verbatim>\<open>malloc\<close> makes exactly these calls and crashes exactly when one
    of them fails; otherwise both operations refine operations on the two lists, the locale
    \<open>chunk_heap\<close> is their interface, and the copies and comparisons of strings end with their
    specified results. The system call \<^verbatim>\<open>mmap2\<close> is a parameter, of which \<open>os_ok\<close> asks that a region it
    gives does not overlap those given before; the headers are kept apart from the bytes handed
    out, so programs that overwrite them are outside the model.
  \<^item> \<open>SsaIr\<close>: instructions, variables and blocks of the SSA form and their meaning \<open>s_run\<close>.
    \<open>Sccp\<close>: \<^verbatim>\<open>opt-sccp.c\<close>; \<open>SsaFold\<close>: the instruction optimizations of \<^verbatim>\<open>optimize\<close> in \<^verbatim>\<open>ssa.c\<close>
    (\<open>simplify_insn\<close>, and \<open>opt_strength\<close> for what is left); \<open>SsaProps\<close>: both keep what a block computes, and
    the cases where they do not. Constant propagation is right where no assignment of a marked constant to a
    global is reached (\<open>no_global_const\<close>); branches and jumps are taken to change no variable
    (\<open>control_keeps\<close>). The instruction optimizations are right where no instruction is left for the reduction of
    powers of two (\<open>no_strength_run\<close>), on a host that divides \<open>-2^31\<close> by \<open>-1\<close> as the target does (\<open>host_wraps\<close>).
  \<^item> \<open>CfgIr\<close>: the same instructions with what the later passes add (indices, liveness lists, slots,
    registers), and the traversals of \<^verbatim>\<open>ssa.c\<close>. \<open>Liveness\<close>: \<^verbatim>\<open>liveness_analysis\<close>; \<open>LiveFix\<close>: its
    iteration ends in the least solution of the liveness equations; \<open>LiveLocal\<close>: the lists and
    indices of a block; \<open>CfgWalk\<close>: a traversal calls its two functions on the events of a depth-first
    search, every reachable block once (the locale \<open>bb_visitor\<close> is the contract of these functions); \<open>LiveProps\<close>: the analysis as a whole.
  \<^item> \<open>RegAlloc\<close>: \<^verbatim>\<open>reg-alloc.c\<close>. \<open>RegInv\<close>: the invariant \<open>rep\<close>, which says where the value of every
    needed variable is; \<open>RegMoves\<close>, \<open>RegPrep\<close>: spills, loads and the choice of registers keep it;
    \<open>RegInsn\<close>, \<open>RegBlock\<close>, \<open>RegProps\<close>: instructions and blocks; \<open>AllocProps\<close>: liveness analysis
    provides what the allocator assumes.
  \<^item> \<open>Ir\<close>, \<open>Ph2Sem\<close>: the phase-2 IR and its meaning \<open>ph2_step\<close>, the specification shared by the
    allocator, the peephole optimizer and the code generators.
  \<^item> \<open>Peephole\<close>: \<^verbatim>\<open>peephole.c\<close>; \<open>PeepSem\<close>, \<open>PeepCorrect\<close>, \<open>PeepProps\<close>: equivalence of blocks, and
    every rule with its side condition. \<open>ArchLower\<close>: \<^verbatim>\<open>arch-lower.c\<close>.
  \<^item> \<open>Codegen\<close>, \<open>Layout\<close>: what the generators share; the locale \<open>code_layout\<close> is their contract
    (the sizes that are counted are the sizes that are emitted) and is interpreted for both.
  \<^item> \<open>RiscvEncode\<close>, \<open>RiscvCodegen\<close>, \<open>RiscvLayout\<close>: \<^verbatim>\<open>riscv.c\<close> and \<^verbatim>\<open>riscv-codegen.c\<close>. \<open>RiscvIsa\<close>: decoder
    and meaning of the machine instructions; \<open>RiscvDecode\<close>: decoding gives back what is encoded;
    \<open>RiscvRun\<close>, \<open>RiscvIndex\<close>: execution of sequences and loops; \<open>RiscvSem\<close>, \<open>RiscvStep\<close>, \<open>RiscvSoft\<close>,
    \<open>RiscvBlock\<close>, \<open>RiscvControl\<close>, \<open>RiscvProps\<close>: the words emitted for straight-line code, software
    division, branches, calls and frames do what the IR means. \<open>ext_sizes\<close> are the extensions the parser
    makes; one of them, from \<^verbatim>\<open>char\<close> to \<^verbatim>\<open>short\<close>, is compiled to a zero extension, which \<open>rv_meaning\<close>
    puts in its place.
  \<^item> \<open>ArmEncode\<close>, \<open>ArmCodegen\<close>, \<open>ArmLayout\<close>, \<open>ArmProps\<close>: \<^verbatim>\<open>arm.c\<close> and \<^verbatim>\<open>arm-codegen.c\<close>, with the layout
    contract. \<open>Samples\<close>: the data of the examples.

  \<^bold>\<open>How the parts compose.\<close> Liveness analysis provides \<open>block_ready\<close>, the assumption of the
  allocator. The allocator refines \<open>s_run\<close> to runs of \<open>ph2_step\<close>: between blocks every variable
  needed later is at home, in its slot or constant. The peephole optimizer keeps the meaning of
  \<open>ph2_step\<close> code, and the RISC-V generator simulates it on the machine, at the addresses that the
  layout pass computed.

  \<^bold>\<open>Bounds and fuel.\<close> Loops that the code bounds only by its data take fuel. The iteration of
  liveness analysis needs at most one round more than blocks times \<open>MAX_ANALYSIS_STACK_SIZE\<close>
  (\<open>live_fuel\<close>), since every round that changes something adds a variable to a list; the depth of
  the traversal is at most the number of blocks. \<open>live_ready\<close> asks that the variables that are read
  before they are assigned in some block fit the array of 800 of \<^verbatim>\<open>recompute_live_out\<close>; beyond it the code
  drops variables. Machine loops run with the fuel that their theorems name. The lexer and the hash
  map are total functions; reading outside a text and a full table are outcomes, and the theorems
  say when they do not occur.

  \<^bold>\<open>Register allocation, limits.\<close> The allocator is modelled for every opcode. Its theorems are about
  blocks of constants, moves, unary and binary operations and a final branch; the memory
  instructions, calls and phi moves are modelled and not proved. Locals are taken to be
  addressed relative to the stack pointer (\<open>v_ofs_top\<close> is false) and \<open>slots_ok\<close> asks that slots do not
  overlap and that the frame has room for the spills of the block.

  \<^bold>\<open>Not modelled.\<close> The parser (\<^verbatim>\<open>parser.c\<close>), which builds types, scopes and instructions at once in
  mutable tables, and the preprocessor (\<^verbatim>\<open>preprocessor.c\<close>); in \<^verbatim>\<open>ssa.c\<close> the order of the blocks,
  dominators, insertion and unwinding of phi nodes, dead code elimination, and of \<^verbatim>\<open>optimize\<close> the
  parts that follow memory accesses and phi nodes; sections, headers and symbols of \<^verbatim>\<open>elf.c\<close>; option
  parsing, arenas and dumps; the file functions and exit of \<^verbatim>\<open>lib/c.c\<close>, which are system calls;
  the tools that embed the library at build time. The order of the
  blocks enters as the lists \<open>a_bbs\<close> and \<open>a_rpo_r\<close> of a function.
\<close>

end
